(* ===== verification/Mm_Prelude.thy ===== *)
theory Mm_Prelude
  imports Main "HOL-Library.Word"
begin

text \<open>
  Shared vocabulary of the development: the integer types of \<open>Types.h\<close>, the ways in
  which a C++ call can fail to return normally, raw memory access, and the lemmas on words,
  lists and results that the component theories use.

  The build that is modelled is the release build of the Windows configuration selected in
  \<open>Config.h\<close>: \<open>unsigned long\<close> has 32 bits, the machine is little endian, and the
  conditions inside \<open>assert\<close> are not evaluated. The \<open>throw;\<close> in the
  \<open>__CHECKED\<close> macros of \<open>Common.h\<close> stays in that build; no exception is active
  there, so it calls \<open>std::terminate\<close> and is the result \<open>Inl Terminate\<close>.
  Allocation is taken to succeed.
\<close>

unbundle bit_operations_syntax

named_theorems res_simps \<open>evaluation of results\<close>
named_theorems mem_simps \<open>raw memory access\<close>

type_synonym byte = "8 word"
type_synonym u16 = "16 word"
type_synonym u32 = "32 word"
type_synonym u64 = "64 word"

section \<open>Results\<close>

text \<open>
  \<open>Terminate\<close> is \<open>throw;\<close> with no active exception; the other three are undefined
  behaviour of the C++ code that the model makes visible: a null pointer is dereferenced,
  memory outside of a buffer is touched, a floating point value is converted to an integer
  type that cannot hold it.
\<close>

datatype mm_error = Terminate | NullDeref | OutOfBounds | BadConversion

type_synonym 'a res = "mm_error + 'a"

definition rbind :: "'a res \<Rightarrow> ('a \<Rightarrow> 'b res) \<Rightarrow> 'b res" where
  "rbind m f = (case m of Inl e \<Rightarrow> Inl e | Inr x \<Rightarrow> f x)"

text \<open>\<open>checked r s k\<close> is \<open>__CHECKED( r )\<close> followed by \<open>k\<close>.\<close>

definition checked :: "(bool \<times> 's) res \<Rightarrow> ('s \<Rightarrow> 'b res) \<Rightarrow> 'b res" where
  "checked r k = rbind r (\<lambda>(ok, s). if ok then k s else Inl Terminate)"

definition checkedR :: "('a option \<times> 's) res \<Rightarrow> ('a \<Rightarrow> 's \<Rightarrow> 'b res) \<Rightarrow> 'b res" where
  "checkedR r k = rbind r (\<lambda>(v, s). case v of Some x \<Rightarrow> k x s | None \<Rightarrow> Inl Terminate)"

section \<open>Raw memory\<close>

text \<open>
  A pointer to the start of an allocation is \<open>None\<close> when it is null and otherwise the
  bytes of the allocation. Copying no bytes touches nothing.
\<close>

type_synonym mem_ptr = "byte list option"

definition mem_load :: "mem_ptr \<Rightarrow> nat \<Rightarrow> nat \<Rightarrow> byte list res" where
  "mem_load p off n =
     (if n = 0 then Inr []
      else case p of
             None \<Rightarrow> Inl NullDeref
           | Some buf \<Rightarrow> if off + n \<le> length buf then Inr (take n (drop off buf))
                         else Inl OutOfBounds)"

definition mem_store :: "mem_ptr \<Rightarrow> nat \<Rightarrow> byte list \<Rightarrow> mem_ptr res" where
  "mem_store p off xs =
     (if xs = [] then Inr p
      else case p of
             None \<Rightarrow> Inl NullDeref
           | Some buf \<Rightarrow> if off + length xs \<le> length buf
                         then Inr (Some (take off buf @ xs @ drop (off + length xs) buf))
                         else Inl OutOfBounds)"

section \<open>Lemmas\<close>

lemma rbind_Inr [simp, res_simps]: "rbind (Inr x) f = f x"
  by (simp add: rbind_def)

lemma rbind_Inl [simp, res_simps]: "rbind (Inl e) f = Inl e"
  by (simp add: rbind_def)

lemma rbind_eq_Inr: "rbind m f = Inr y \<longleftrightarrow> (\<exists>x. m = Inr x \<and> f x = Inr y)"
  by (cases m) auto

lemma checked_True [simp, res_simps]: "checked (Inr (True, s)) k = k s"
  by (simp add: checked_def)

lemma checked_False [simp, res_simps]: "checked (Inr (False, s)) k = Inl Terminate"
  by (simp add: checked_def)

lemma checkedR_Some [simp, res_simps]: "checkedR (Inr (Some x, s)) k = k x s"
  by (simp add: checkedR_def)

lemma checkedR_None [simp, res_simps]: "checkedR (Inr (None, s)) k = Inl Terminate"
  by (simp add: checkedR_def)

lemma mem_load_in [mem_simps]:
  "off + n \<le> length buf \<Longrightarrow> mem_load (Some buf) off n = Inr (take n (drop off buf))"
  by (simp add: mem_load_def)

lemma mem_load_none [simp]: "mem_load p off 0 = Inr []"
  by (simp add: mem_load_def)

lemma mem_store_in [mem_simps]:
  "off + length xs \<le> length buf \<Longrightarrow>
   mem_store (Some buf) off xs = Inr (Some (take off buf @ xs @ drop (off + length xs) buf))"
  by (auto simp add: mem_store_def)

lemma mem_store_none [simp]: "mem_store p off [] = Inr p"
  by (simp add: mem_store_def)

lemma unat_add_small:
  fixes a b :: u32
  assumes "unat a + unat b < 2 ^ 32"
  shows "unat (a + b) = unat a + unat b"
  using assms by (simp add: unat_word_ariths)

lemma unat_add_of_nat:
  fixes a :: u32
  assumes "unat a + n < 2 ^ 32"
  shows "unat (a + of_nat n) = unat a + n"
proof -
  have "unat (of_nat n :: u32) = n" using assms by (simp add: unat_of_nat take_bit_nat_def)
  then show ?thesis using assms by (simp add: unat_add_small)
qed

lemma unat_of_nat32: "n < 2 ^ 32 \<Longrightarrow> unat (of_nat n :: u32) = n"
  by (simp add: unat_of_nat take_bit_nat_def)

lemma unat_of_int32: "0 \<le> k \<Longrightarrow> k < 2 ^ 32 \<Longrightarrow> unat (of_int k :: u32) = nat k"
  by (simp add: unsigned_of_int take_bit_int_eq_self)

lemma unat_lt32: "unat (x :: u32) < 2 ^ 32"
  using unsigned_less [of x] by simp

lemma unat_ucast_up: "unat (ucast (i :: u16) :: u32) = unat i"
proof -
  have "unat i < 2 ^ 16" using unsigned_less [of i] by simp
  then show ?thesis by (simp add: unsigned_ucast_eq take_bit_nat_eq_self)
qed

lemma word_inc_less:
  fixes a b :: u32
  assumes "a < b"
  shows "unat (a + 1) = unat a + 1" and "a + 1 \<le> b"
proof -
  have "unat a < unat b" using assms by (simp add: word_less_nat_alt)
  moreover have "unat b < 2 ^ 32" by (rule unat_lt32)
  ultimately show *: "unat (a + 1) = unat a + 1"
    using unat_add_of_nat [of a 1] by simp
  show "a + 1 \<le> b" using * \<open>unat a < unat b\<close> by (simp add: word_le_nat_alt)
qed

lemma take_append_drop_store:
  "off + length xs \<le> length buf \<Longrightarrow>
   take (off + length xs) (take off buf @ xs @ drop (off + length xs) buf) = take off buf @ xs"
  by simp

lemma concat_map_upd: "i \<notin> set js \<Longrightarrow> concat (map (D(i := x)) (i # js)) = x @ concat (map D js)"
  by (induction js) auto

end
