(* ===== verification/Std_Map.thy ===== *)
theory Std_Map
  imports Mm_Prelude
begin

text \<open>
  \<open>std::map\<close> as the program uses it: an association list whose keys are strictly
  increasing, so that iteration order is the list order. \<open>sm_find\<close> is \<open>find\<close> or
  \<open>count\<close>, \<open>sm_set\<close> is \<open>m[k] = v\<close>, \<open>sm_insert\<close> is \<open>insert\<close> and
  \<open>try_emplace\<close> (an existing entry is kept), \<open>sm_erase\<close> is \<open>erase\<close> by key.

  The locale \<open>ordered_map\<close> is the contract the components rely on; its lemmas are about
  the loops they run over a map (insert or erase a list of keys).
\<close>

type_synonym ('k, 'v) stdmap = "('k \<times> 'v) list"

definition sm_ok :: "('k::linorder, 'v) stdmap \<Rightarrow> bool" where
  "sm_ok m = sorted_wrt (<) (map fst m)"

fun sm_find :: "('k, 'v) stdmap \<Rightarrow> 'k \<Rightarrow> 'v option" where
  "sm_find [] k = None"
| "sm_find ((k', v) # m) k = (if k = k' then Some v else sm_find m k)"

fun sm_set :: "'k::linorder \<Rightarrow> 'v \<Rightarrow> ('k, 'v) stdmap \<Rightarrow> ('k, 'v) stdmap" where
  "sm_set k v [] = [(k, v)]"
| "sm_set k v ((k', v') # m) =
     (if k < k' then (k, v) # (k', v') # m
      else if k = k' then (k, v) # m
      else (k', v') # sm_set k v m)"

definition sm_insert :: "'k::linorder \<Rightarrow> 'v \<Rightarrow> ('k, 'v) stdmap \<Rightarrow> bool \<times> ('k, 'v) stdmap" where
  "sm_insert k v m = (case sm_find m k of Some _ \<Rightarrow> (False, m) | None \<Rightarrow> (True, sm_set k v m))"

fun sm_erase :: "'k \<Rightarrow> ('k, 'v) stdmap \<Rightarrow> ('k, 'v) stdmap" where
  "sm_erase k [] = []"
| "sm_erase k ((k', v) # m) = (if k = k' then m else (k', v) # sm_erase k m)"

section \<open>The contract\<close>

locale ordered_map =
  fixes empty :: "'m"
    and find :: "'m \<Rightarrow> 'k \<Rightarrow> 'v option"
    and update :: "'k \<Rightarrow> 'v \<Rightarrow> 'm \<Rightarrow> 'm"
    and erase :: "'k \<Rightarrow> 'm \<Rightarrow> 'm"
    and ok :: "'m \<Rightarrow> bool"
  assumes ok_empty: "ok empty"
    and find_empty: "find empty k = None"
    and ok_update: "ok m \<Longrightarrow> ok (update k v m)"
    and find_update: "ok m \<Longrightarrow> find (update k v m) k' = (if k' = k then Some v else find m k')"
    and ok_erase: "ok m \<Longrightarrow> ok (erase k m)"
    and find_erase: "ok m \<Longrightarrow> find (erase k m) k' = (if k' = k then None else find m k')"
begin

lemma ok_erase_all: "ok m \<Longrightarrow> ok (fold erase ks m)"
  by (induction ks arbitrary: m) (auto simp: ok_erase)

lemma find_erase_all:
  "ok m \<Longrightarrow> find (fold erase ks m) k = (if k \<in> set ks then None else find m k)"
  by (induction ks arbitrary: m) (auto simp: ok_erase find_erase)

lemma ok_update_all: "ok m \<Longrightarrow> ok (fold (\<lambda>(k, v). update k v) kvs m)"
  by (induction kvs arbitrary: m) (auto simp: ok_update)

lemma find_update_all_other:
  "ok m \<Longrightarrow> k \<notin> fst ` set kvs \<Longrightarrow> find (fold (\<lambda>(k, v). update k v) kvs m) k = find m k"
  by (induction kvs arbitrary: m) (auto simp: ok_update find_update split: prod.splits)

lemma find_update_all:
  assumes "ok m" and "distinct (map fst kvs)" and "(k, v) \<in> set kvs"
  shows "find (fold (\<lambda>(k, v). update k v) kvs m) k = Some v"
  using assms
proof (induction kvs arbitrary: m)
  case (Cons kv kvs)
  obtain k' v' where kv: "kv = (k', v')" by (cases kv)
  show ?case
  proof (cases "(k, v) \<in> set kvs")
    case True
    with Cons kv show ?thesis by (auto simp: ok_update)
  next
    case False
    with Cons.prems kv have "k' = k" "v' = v" "k \<notin> fst ` set kvs" by auto
    with kv Cons.prems(1) show ?thesis
      by (simp add: find_update_all_other find_update ok_update)
  qed
qed simp

end

section \<open>The association list implements it\<close>

lemma fst_sm_set: "fst ` set (sm_set k v m) = insert k (fst ` set m)"
  by (induction k v m rule: sm_set.induct) auto

lemma sm_ok_Nil [simp]: "sm_ok []"
  by (simp add: sm_ok_def)

lemma sm_ok_Cons [simp]: "sm_ok ((k, v) # m) \<longleftrightarrow> (\<forall>k' \<in> fst ` set m. k < k') \<and> sm_ok m"
  by (auto simp: sm_ok_def)

lemma sm_ok_set: "sm_ok m \<Longrightarrow> sm_ok (sm_set k v m)"
proof (induction k v m rule: sm_set.induct)
  case (2 k v k' v' m)
  then show ?case
  proof (cases k k' rule: linorder_cases)
    case less
    with 2 show ?thesis by (auto dest: less_trans)
  next
    case equal
    with 2 show ?thesis by simp
  next
    case greater
    with 2 have "sm_ok (sm_set k v m)" by auto
    with 2 greater show ?thesis by (auto simp: fst_sm_set)
  qed
qed simp

lemma sm_find_set [simp]: "sm_find (sm_set k v m) k' = (if k' = k then Some v else sm_find m k')"
  by (induction k v m rule: sm_set.induct) auto

lemma sm_find_None_iff: "sm_find m k = None \<longleftrightarrow> k \<notin> fst ` set m"
  by (induction m k rule: sm_find.induct) auto

lemma sm_find_Some_mem: "sm_find m k = Some v \<Longrightarrow> (k, v) \<in> set m"
  by (induction m k rule: sm_find.induct) (auto split: if_splits)

lemma sm_mem_find: "sm_ok m \<Longrightarrow> (k, v) \<in> set m \<Longrightarrow> sm_find m k = Some v"
  by (induction m k rule: sm_find.induct) force+

lemma set_sm_set: "set (sm_set k v m) \<subseteq> insert (k, v) (set m)"
  by (induction k v m rule: sm_set.induct) auto

lemma set_sm_erase_subset: "set (sm_erase k m) \<subseteq> set m"
  by (induction k m rule: sm_erase.induct) auto

lemma sm_ok_erase: "sm_ok m \<Longrightarrow> sm_ok (sm_erase k m)"
proof (induction k m rule: sm_erase.induct)
  case (2 k k' v m)
  then show ?case using set_sm_erase_subset [of k m] by auto
qed simp

lemma sm_find_erase: "sm_ok m \<Longrightarrow> sm_find (sm_erase k m) k' = (if k' = k then None else sm_find m k')"
proof (induction k m rule: sm_erase.induct)
  case (2 k a v m)
  then show ?case by (force simp: sm_find_None_iff)
qed simp

lemma length_sm_set: "length (sm_set k v m) \<le> Suc (length m)"
  by (induction k v m rule: sm_set.induct) auto

lemma length_sm_erase: "sm_find m k \<noteq> None \<Longrightarrow> length (sm_erase k m) < length m"
  by (induction m k rule: sm_find.induct) (auto split: if_splits)

interpretation stdmap: ordered_map "[]" sm_find sm_set sm_erase sm_ok
  by unfold_locales (simp_all add: sm_ok_set sm_ok_erase sm_find_erase)

lemmas sm_laws = sm_ok_set sm_ok_erase sm_find_erase sm_find_set

lemma sm_ok_insert: "sm_ok m \<Longrightarrow> sm_ok (snd (sm_insert k v m))"
  by (simp add: sm_insert_def sm_ok_set split: option.split)

lemma sm_find_insert:
  "sm_find (snd (sm_insert k v m)) k' =
     (if k' = k \<and> sm_find m k = None then Some v else sm_find m k')"
  by (simp add: sm_insert_def split: option.split)

lemma fst_sm_insert: "fst (sm_insert k v m) \<longleftrightarrow> sm_find m k = None"
  by (simp add: sm_insert_def split: option.split)

text \<open>Two maps with the same lookups are the same list, so iteration order is determined.\<close>

lemma sm_find_Cons_less: "sm_ok ((k, v) # m) \<Longrightarrow> k' \<le> k \<Longrightarrow> sm_find m k' = None"
  by (auto simp: sm_find_None_iff)

lemma sm_ext:
  assumes "sm_ok m" and "sm_ok m'" and "\<And>k. sm_find m k = sm_find m' k"
  shows "m = m'"
  using assms
proof (induction m arbitrary: m')
  case Nil
  then show ?case by (cases m') (auto, metis option.distinct(1) sm_find.simps(2))
next
  case (Cons kv m)
  obtain k v where kv: "kv = (k, v)" by (cases kv)
  have fk: "sm_find m' k = Some v" using Cons.prems(3) [of k] kv by simp
  then obtain k2 v2 m2 where m': "m' = (k2, v2) # m2" by (cases m') auto
  have "\<not> k < k2" using fk Cons.prems(2) m'
    by (metis less_imp_le not_less_iff_gr_or_eq option.distinct(1) sm_find.simps(2) sm_find_Cons_less)
  moreover have "\<not> k2 < k"
  proof
    assume "k2 < k"
    with Cons.prems(1) kv have "sm_find m k2 = None" by (intro sm_find_Cons_less) auto
    with \<open>k2 < k\<close> Cons.prems(3) [of k2] kv m' show False by (simp split: if_splits)
  qed
  ultimately have "k2 = k" by simp
  with fk m' have "v2 = v" by simp
  have "sm_find m x = sm_find m2 x" for x
  proof (cases "x = k")
    case True
    with Cons.prems kv m' \<open>k2 = k\<close> show ?thesis
      by (metis order_refl sm_find_Cons_less)
  next
    case False
    with Cons.prems(3) [of x] kv m' \<open>k2 = k\<close> show ?thesis by simp
  qed
  with Cons kv m' have "m = m2" by auto
  with kv m' \<open>k2 = k\<close> \<open>v2 = v\<close> show ?case by simp
qed

end
