(* ===== verification/Util_Bytes.thy ===== *)
theory Util_Bytes
  imports Mm_Prelude
begin

text \<open>
  \<open>Util.h\<close> and \<open>Util.cpp\<close>: byte order conversion, \<open>min\<close>, \<open>max\<close> and the
  template \<open>cluster\<close>. The memory images \<open>le16\<close>, \<open>le32\<close>, \<open>le64\<close> are what a
  store through \<open>u16*\<close>, \<open>u32*\<close>, \<open>u64*\<close> leaves in memory on the little endian
  machine \<open>Platform.h\<close> selects; \<open>of_le16\<close>, \<open>of_le32\<close>, \<open>of_le64\<close> are the loads.
\<close>

definition htons :: "u16 \<Rightarrow> u16" where
  "htons val = (push_bit 8 (val AND 255) OR drop_bit 8 val)"

definition htonl :: "u32 \<Rightarrow> u32" where
  "htonl val = (push_bit 24 (val AND 255) OR drop_bit 24 val OR
                drop_bit 8 (val AND 0xFF0000) OR push_bit 8 (val AND 0xFF00))"

definition htonll :: "u64 \<Rightarrow> u64" where
  "htonll x0 =
     (let x1 = push_bit 32 (x0 AND 0x00000000FFFFFFFF) OR drop_bit 32 (x0 AND 0xFFFFFFFF00000000);
          x2 = push_bit 16 (x1 AND 0x0000FFFF0000FFFF) OR drop_bit 16 (x1 AND 0xFFFF0000FFFF0000);
          x3 = push_bit 8 (x2 AND 0x00FF00FF00FF00FF) OR drop_bit 8 (x2 AND 0xFF00FF00FF00FF00)
      in x3)"

definition ntohs :: "u16 \<Rightarrow> u16" where "ntohs val = htons val"
definition ntohl :: "u32 \<Rightarrow> u32" where "ntohl val = htonl val"
definition ntohll :: "u64 \<Rightarrow> u64" where "ntohll val = htonll val"

definition util_min :: "u32 \<Rightarrow> u32 \<Rightarrow> u32" where
  "util_min a b = (if a < b then a else b)"

definition util_max :: "u32 \<Rightarrow> u32 \<Rightarrow> u32" where
  "util_max a b = (if a > b then a else b)"

text \<open>
  \<open>Util::cluster\<close>: the calls of \<open>pred\<close> it makes, in order. \<open>s\<close> is never reduced in
  the loop body. \<open>None\<close>: the loop has not ended after \<open>fuel\<close> rounds.
\<close>

fun cluster :: "nat \<Rightarrow> u32 \<Rightarrow> u32 \<Rightarrow> u32 \<Rightarrow> (u32 \<times> u32) list option" where
  "cluster 0 s clusterSize off = None"
| "cluster (Suc fuel) s clusterSize off =
     (if s > clusterSize
      then map_option ((#) (off, off + clusterSize)) (cluster fuel s clusterSize (off + clusterSize))
      else Some [(off, off + s)])"

section \<open>Memory images\<close>

definition le16 :: "u16 \<Rightarrow> byte list" where
  "le16 w = [ucast w, ucast (drop_bit 8 w)]"

definition le32 :: "u32 \<Rightarrow> byte list" where
  "le32 w = [ucast w, ucast (drop_bit 8 w), ucast (drop_bit 16 w), ucast (drop_bit 24 w)]"

definition le64 :: "u64 \<Rightarrow> byte list" where
  "le64 w = map (\<lambda>i. ucast (drop_bit (8 * i) w)) [0, 1, 2, 3, 4, 5, 6, 7]"

fun of_le :: "byte list \<Rightarrow> 'a::len word" where
  "of_le [] = 0"
| "of_le (b # bs) = ucast b OR push_bit 8 (of_le bs)"

lemma length_le [simp]: "length (le16 w) = 2" "length (le32 v) = 4" "length (le64 x) = 8"
  by (simp_all add: le16_def le32_def le64_def)

section \<open>Byte order\<close>

text \<open>Bit positions are enumerated, so that each bit of a mask is a closed term.\<close>

lemma upt64: "[0..<64] = [0,1,2,3,4,5,6,7,8,9,10,11,12,13,14,15,16,17,18,19,20,21,22,23,24,25,26,27,28,29,30,31,
  32,33,34,35,36,37,38,39,40,41,42,43,44,45,46,47,48,49,50,51,52,53,54,55,56,57,58,59,60,61,62,63]"
  by code_simp

lemma upt32: "[0..<32] = [0,1,2,3,4,5,6,7,8,9,10,11,12,13,14,15,16,17,18,19,20,21,22,23,24,25,26,27,28,29,30,31]"
  by code_simp

lemma all_lt_upt: "(\<forall>n<k. P n) = list_all P [0..<k]"
  by (auto simp: list_all_iff)

lemma word32_eqI: "(\<forall>n<32. bit (v::u32) n = bit w n) \<Longrightarrow> v = w"
  by (rule bit_word_eqI) simp

lemma word64_eqI: "(\<forall>n<64. bit (v::u64) n = bit w n) \<Longrightarrow> v = w"
  by (rule bit_word_eqI) simp

lemma upt16: "[0..<16] = [0,1,2,3,4,5,6,7,8,9,10,11,12,13,14,15]"
  by code_simp

lemma upt8: "[0..<8] = [0,1,2,3,4,5,6,7]"
  by code_simp

lemma no_bit_above:
  "16 \<le> n \<Longrightarrow> \<not> bit (a::u16) n" "32 \<le> n \<Longrightarrow> \<not> bit (b::u32) n"
  "64 \<le> n \<Longrightarrow> \<not> bit (c::u64) n" "8 \<le> n \<Longrightarrow> \<not> bit (d::byte) n"
  using bit_imp_le_length [of a n] bit_imp_le_length [of b n] bit_imp_le_length [of c n]
    bit_imp_le_length [of d n]
  by auto

lemmas bit_enum = no_bit_above bit_simps numeral_2_eq_2 [symmetric]

lemma bit_htonl: "\<forall>n<32. bit (htonl w) n = bit w (24 - 8 * (n div 8) + n mod 8)"
  unfolding all_lt_upt upt32 by (simp add: htonl_def bit_enum)

lemma bit_htonll: "\<forall>n<64. bit (htonll w) n = bit w (56 - 8 * (n div 8) + n mod 8)"
  unfolding all_lt_upt upt64 by (simp add: htonll_def Let_def bit_enum)

lemma bit_htons: "\<forall>n<16. bit (htons w) n = bit w (8 - 8 * (n div 8) + n mod 8)"
  unfolding all_lt_upt upt16 by (simp add: htons_def bit_enum)

lemma swap_index32: "\<forall>n<32. 24 - 8 * (n div 8) + n mod 8 < (32::nat) \<and>
     24 - 8 * ((24 - 8 * (n div 8) + n mod 8) div 8) + (24 - 8 * (n div 8) + n mod 8) mod 8 = n"
  unfolding all_lt_upt upt32 by simp

lemma swap_index64: "\<forall>n<64. 56 - 8 * (n div 8) + n mod 8 < (64::nat) \<and>
     56 - 8 * ((56 - 8 * (n div 8) + n mod 8) div 8) + (56 - 8 * (n div 8) + n mod 8) mod 8 = n"
  unfolding all_lt_upt upt64 by simp

lemma htonl_htonl: "htonl (htonl w) = w"
  by (rule word32_eqI) (use swap_index32 in \<open>simp add: bit_htonl\<close>)

lemma htonll_htonll: "htonll (htonll w) = w"
  by (rule word64_eqI) (use swap_index64 in \<open>simp add: bit_htonll\<close>)

lemma htons_htons: "htons (htons w) = w"
proof (rule bit_word_eqI)
  fix n assume "n < LENGTH(16)"
  then have "n < 16" by simp
  moreover have "\<forall>n<16. 8 - 8 * (n div 8) + n mod 8 < (16::nat) \<and>
      8 - 8 * ((8 - 8 * (n div 8) + n mod 8) div 8) + (8 - 8 * (n div 8) + n mod 8) mod 8 = n"
    unfolding all_lt_upt upt16 by simp
  ultimately show "bit (htons (htons w)) n = bit w n" by (simp add: bit_htons)
qed

text \<open>What \<open>write16\<close>, \<open>write32\<close> and \<open>write64\<close> put on the wire: most significant byte first.\<close>

lemma byte_eqI: "(\<forall>n<8. bit (v::byte) n = bit w n) \<Longrightarrow> v = w"
  by (rule bit_word_eqI) simp

lemma wire16: "le16 (htons w) = rev (le16 w)"
  unfolding le16_def
  by simp (intro conjI byte_eqI; simp add: all_lt_upt upt8 bit_enum bit_htons)

lemma wire32: "le32 (htonl w) = rev (le32 w)"
  unfolding le32_def
  by simp (intro conjI byte_eqI; simp add: all_lt_upt upt8 bit_enum bit_htonl)

lemma wire64: "le64 (htonll w) = rev (le64 w)"
  unfolding le64_def
  by simp (intro conjI byte_eqI; simp add: all_lt_upt upt8 bit_enum bit_htonll)

lemma of_le16: "of_le (le16 w) = (w::u16)"
proof (rule bit_word_eqI)
  fix n assume "n < LENGTH(16)"
  moreover have "\<forall>n<16. bit (of_le (le16 w)::u16) n = bit w n"
    unfolding all_lt_upt upt16 by (simp add: le16_def bit_enum)
  ultimately show "bit (of_le (le16 w)::u16) n = bit w n" by simp
qed

lemma of_le32: "of_le (le32 w) = (w::u32)"
  by (rule word32_eqI, unfold all_lt_upt upt32) (simp add: le32_def bit_enum)

lemma of_le64: "of_le (le64 w) = (w::u64)"
  by (rule word64_eqI, unfold all_lt_upt upt64) (simp add: le64_def bit_enum)

section \<open>The loop of \<open>cluster\<close>\<close>

lemma cluster_diverges: "s > clusterSize \<Longrightarrow> cluster fuel s clusterSize off = None"
  by (induction fuel arbitrary: off) auto

lemma cluster_single: "s \<le> clusterSize \<Longrightarrow> cluster (Suc fuel) s clusterSize off = Some [(off, off + s)]"
  by (simp add: leD)

end
