(* ===== verification/Float32.thy ===== *)
theory Float32
  imports Mm_Prelude
begin

text \<open>
  The single precision arithmetic the program relies on: \<open>BinSerializer::growTo\<close> and the
  getters of \<open>LinkStats\<close> compute a size or a delay in \<open>float\<close> and truncate it. All
  values are positive and far from the ends of the exponent range, so a \<open>float\<close> is a
  24 bit significand times a power of two, and every operation is the exact result rounded to
  24 significant bits, ties to even. \<open>r24\<close> rounds an integer that way; a fixed power of two
  as denominator keeps all intermediate values integers.
\<close>

fun bitlen :: "nat \<Rightarrow> nat" where
  "bitlen n = (if n = 0 then 0 else Suc (bitlen (n div 2)))"

declare bitlen.simps [simp del]

definition r24 :: "nat \<Rightarrow> nat" where
  "r24 n =
     (if bitlen n \<le> 24 then n
      else let u = 2 ^ (bitlen n - 24); q = n div u; r = n mod u
           in if 2 * r < u \<or> (2 * r = u \<and> even q) then q * u else (q + 1) * u)"

text \<open>
  \<open>f32_scale c n\<close>: the value of \<open>n * c'\<close> where the literal \<open>c'\<close> is the single
  precision number \<open>c / 2 ^ k\<close>, scaled by \<open>2 ^ k\<close>.
\<close>

definition f32_scale :: "nat \<Rightarrow> nat \<Rightarrow> nat" where
  "f32_scale c n = r24 (r24 n * c)"

section \<open>Rounding error\<close>

lemma bitlen_0 [simp]: "bitlen 0 = 0"
  by (simp add: bitlen.simps)

lemma bitlen_bound: "n < 2 ^ bitlen n"
proof (induction n rule: bitlen.induct)
  case (1 n)
  show ?case
  proof (cases "n = 0")
    case True
    then show ?thesis by (simp add: bitlen.simps)
  next
    case False
    with 1 have "n div 2 < 2 ^ bitlen (n div 2)" by simp
    then have "n < 2 * 2 ^ bitlen (n div 2)" by linarith
    with False show ?thesis by (simp add: bitlen.simps [of n])
  qed
qed

lemma bitlen_lower: "n \<noteq> 0 \<Longrightarrow> 2 ^ (bitlen n - 1) \<le> n"
proof (induction n rule: bitlen.induct)
  case (1 n)
  show ?case
  proof (cases "n div 2 = 0")
    case True
    with "1.prems" show ?thesis by (simp add: bitlen.simps [of n] bitlen.simps [of 0])
  next
    case False
    with "1.IH" "1.prems" have IH: "2 ^ (bitlen (n div 2) - 1) \<le> n div 2" by simp
    have "bitlen (n div 2) = Suc (bitlen (n div 2) - 1)"
      using False by (simp add: bitlen.simps [of "n div 2"])
    then have "2 ^ bitlen (n div 2) = 2 * (2::nat) ^ (bitlen (n div 2) - 1)"
      by (metis power_Suc)
    with IH have "2 ^ bitlen (n div 2) \<le> n" by linarith
    with "1.prems" show ?thesis by (simp add: bitlen.simps [of n])
  qed
qed

text \<open>The relative error of one rounding is at most \<open>2 ^ -24\<close>.\<close>

lemma r24_error: "n * (2 ^ 24 - 1) \<le> r24 n * 2 ^ 24 \<and> r24 n * 2 ^ 24 \<le> n * (2 ^ 24 + 1)"
proof (cases "bitlen n \<le> 24")
  case True
  then show ?thesis by (simp add: r24_def)
next
  case False
  define u where "u = (2::nat) ^ (bitlen n - 24)"
  define q where "q = n div u"
  define r where "r = n mod u"
  have n: "n = q * u + r" by (simp add: q_def r_def)
  have "n \<noteq> 0" using False by (intro notI) simp
  then have low: "2 ^ (bitlen n - 1) \<le> n" by (rule bitlen_lower)
  have "bitlen n - 1 = (bitlen n - 24) + 23" using False by simp
  then have "(2::nat) ^ (bitlen n - 1) = u * 2 ^ 23" unfolding u_def by (simp only: power_add)
  with low have un: "u * 2 ^ 23 \<le> n" by simp
  have ru: "r < u" unfolding r_def u_def by simp
  have r24: "r24 n = (if 2 * r < u \<or> (2 * r = u \<and> even q) then q * u else (q + 1) * u)"
    using False by (simp add: r24_def u_def q_def r_def Let_def)
  have "2 * n \<le> 2 * r24 n + u \<and> 2 * r24 n \<le> 2 * n + u"
  proof (cases "2 * r < u \<or> (2 * r = u \<and> even q)")
    case True
    with n r24 show ?thesis by auto
  next
    case F: False
    then have "u \<le> 2 * r" by auto
    with F n r24 ru show ?thesis by (auto simp: algebra_simps)
  qed
  with un show ?thesis by auto
qed

lemma r24_lower: "n * (2 ^ 24 - 1) \<le> r24 n * 2 ^ 24" and r24_upper: "r24 n * 2 ^ 24 \<le> n * (2 ^ 24 + 1)"
  using r24_error by auto

lemma r24_small: "n < 2 ^ 24 \<Longrightarrow> r24 n = n"
proof -
  assume n: "n < 2 ^ 24"
  have "bitlen n \<le> 24"
  proof (rule ccontr)
    assume "\<not> bitlen n \<le> 24"
    then have "24 \<le> bitlen n - 1" and nz: "n \<noteq> 0" by (linarith, intro notI, simp)
    then have "(2::nat) ^ 24 \<le> 2 ^ (bitlen n - 1)" by (intro power_increasing) auto
    with bitlen_lower [OF nz] n show False by linarith
  qed
  then show ?thesis by (simp add: r24_def)
qed

end
