(* ===== verification/Bin_Serializer.thy ===== *)
theory Bin_Serializer
  imports Std_Map Util_Bytes Float32 "HOL-Library.List_Lexorder"
begin

text \<open>
  \<open>BinSerializer.h\<close> and \<open>BinSerializer.cpp\<close>: the growing byte buffer with separate read
  and write positions that every packet is built in and parsed from. The buffer behind
  \<open>m_DataPtr\<close> is a value of type \<open>mem_ptr\<close>; a serializer over foreign memory
  (\<open>resetTo\<close> without copy) holds the bytes it was given. All positions are 32 bit words
  and wrap around as in the code.

  A \<open>std::string\<close> is a list of bytes, \<open>MetaData\<close> is \<open>std::map<string, string>\<close>.
  Writing returns the code's \<open>bool\<close> with the new serializer, reading returns \<open>None\<close>
  where the code returns \<open>false\<close>.

  The locale \<open>codec\<close> is the contract between a type's \<open>write\<close> and its \<open>read\<close>; it is
  interpreted for every type the class reads and writes.
\<close>

section \<open>State and operations\<close>

type_synonym cstring = "byte list"
type_synonym meta_data = "(cstring, cstring) stdmap"

definition TempBuffSize :: nat where "TempBuffSize = 4096"

record bin_serializer =
  m_DataPtr :: mem_ptr
  m_WritePos :: u32
  m_ReadPos :: u32
  m_MaxSize :: u32
  m_Owns :: bool

definition bs_reset :: bin_serializer where
  "bs_reset = \<lparr>m_DataPtr = None, m_WritePos = 0, m_ReadPos = 0, m_MaxSize = 0, m_Owns = True\<rparr>"

text \<open>\<open>u32(((requiredSize * 1.2f)/16) * 16 + 16)\<close>; \<open>1.2f\<close> is \<open>10066330 / 2 ^ 23\<close>, and
  dividing and multiplying by 16 is exact.\<close>

definition grow_size :: "u32 \<Rightarrow> u32 res" where
  "grow_size requiredSize =
     (let v = r24 (f32_scale 10066330 (unat requiredSize) + 16 * 2 ^ 23) div 2 ^ 23
      in if v < 2 ^ 32 then Inr (of_nat v) else Inl BadConversion)"

definition growTo :: "u32 \<Rightarrow> bin_serializer \<Rightarrow> bin_serializer res" where
  "growTo requiredSize s =
     (if \<not> m_Owns s \<or> requiredSize \<le> m_MaxSize s then Inr s
      else rbind (grow_size requiredSize) (\<lambda>newMax.
           rbind (mem_load (m_DataPtr s) 0 (unat (m_WritePos s))) (\<lambda>old.
           rbind (mem_store (Some (replicate (unat newMax) 0)) 0 old) (\<lambda>pNew.
             Inr (s\<lparr>m_MaxSize := newMax, m_DataPtr := pNew\<rparr>)))))"

definition resetTo :: "byte list \<Rightarrow> u32 \<Rightarrow> u32 \<Rightarrow> bool \<Rightarrow> bool \<Rightarrow> bin_serializer \<Rightarrow> bin_serializer res" where
  "resetTo streamIn buffSize writePos copyData ownsData s =
     (if \<not> copyData
      then Inr (s\<lparr>m_DataPtr := Some streamIn, m_WritePos := writePos, m_MaxSize := buffSize,
                  m_Owns := ownsData, m_ReadPos := 0\<rparr>)
      else rbind (growTo buffSize s) (\<lambda>s1.
           rbind (mem_load (Some streamIn) 0 (unat buffSize)) (\<lambda>xs.
           rbind (mem_store (m_DataPtr s1) 0 xs) (\<lambda>p.
             Inr (s1\<lparr>m_DataPtr := p, m_WritePos := writePos, m_Owns := ownsData, m_ReadPos := 0\<rparr>)))))"

definition setRead :: "u32 \<Rightarrow> bin_serializer \<Rightarrow> bool \<times> bin_serializer" where
  "setRead r s = (if r > m_WritePos s then (False, s) else (True, s\<lparr>m_ReadPos := r\<rparr>))"

definition setWrite :: "u32 \<Rightarrow> bin_serializer \<Rightarrow> bool \<times> bin_serializer" where
  "setWrite w s = (if w > m_MaxSize s then (False, s) else (True, s\<lparr>m_WritePos := w\<rparr>))"

definition moveRead :: "u32 \<Rightarrow> bin_serializer \<Rightarrow> bool \<times> bin_serializer" where
  "moveRead r s = setRead (m_ReadPos s + r) s"

definition moveWrite :: "u32 \<Rightarrow> bin_serializer \<Rightarrow> bool \<times> bin_serializer" where
  "moveWrite w s = setWrite (m_WritePos s + w) s"

text \<open>\<open>write(const byte*, u32)\<close>; the fixed width writes have the same body with the memory
  image of the value.\<close>

definition write_raw :: "byte list \<Rightarrow> bin_serializer \<Rightarrow> (bool \<times> bin_serializer) res" where
  "write_raw xs s =
     (let n = of_nat (length xs) :: u32
      in rbind (growTo (m_WritePos s + n) s) (\<lambda>s1.
           if m_WritePos s1 + n > m_MaxSize s1 then Inr (False, s1)
           else rbind (mem_store (m_DataPtr s1) (unat (m_WritePos s1)) xs) (\<lambda>p.
                  Inr (True, s1\<lparr>m_DataPtr := p, m_WritePos := m_WritePos s1 + n\<rparr>))))"

definition write8 :: "byte \<Rightarrow> bin_serializer \<Rightarrow> (bool \<times> bin_serializer) res" where
  "write8 b = write_raw [b]"

definition write16 :: "u16 \<Rightarrow> bin_serializer \<Rightarrow> (bool \<times> bin_serializer) res" where
  "write16 b = write_raw (le16 (htons b))"

definition write32 :: "u32 \<Rightarrow> bin_serializer \<Rightarrow> (bool \<times> bin_serializer) res" where
  "write32 b = write_raw (le32 (htonl b))"

definition write64 :: "u64 \<Rightarrow> bin_serializer \<Rightarrow> (bool \<times> bin_serializer) res" where
  "write64 b = write_raw (le64 (htonll b))"

definition read_raw :: "nat \<Rightarrow> bin_serializer \<Rightarrow> (byte list option \<times> bin_serializer) res" where
  "read_raw n s =
     (if m_ReadPos s + of_nat n > m_WritePos s then Inr (None, s)
      else rbind (mem_load (m_DataPtr s) (unat (m_ReadPos s)) n) (\<lambda>xs.
             Inr (Some xs, s\<lparr>m_ReadPos := m_ReadPos s + of_nat n\<rparr>)))"

definition rmap :: "('a \<Rightarrow> 'b) \<Rightarrow> ('a option \<times> 's) res \<Rightarrow> ('b option \<times> 's) res" where
  "rmap f r = rbind r (\<lambda>(v, s). Inr (map_option f v, s))"

definition read8 :: "bin_serializer \<Rightarrow> (byte option \<times> bin_serializer) res" where
  "read8 s = rmap hd (read_raw 1 s)"

definition read16 :: "bin_serializer \<Rightarrow> (u16 option \<times> bin_serializer) res" where
  "read16 s = rmap (\<lambda>xs. ntohs (of_le xs)) (read_raw 2 s)"

definition read32 :: "bin_serializer \<Rightarrow> (u32 option \<times> bin_serializer) res" where
  "read32 s = rmap (\<lambda>xs. ntohl (of_le xs)) (read_raw 4 s)"

definition read64 :: "bin_serializer \<Rightarrow> (u64 option \<times> bin_serializer) res" where
  "read64 s = rmap (\<lambda>xs. ntohll (of_le xs)) (read_raw 8 s)"

definition write_bool :: "bool \<Rightarrow> bin_serializer \<Rightarrow> (bool \<times> bin_serializer) res" where
  "write_bool b = write8 (if b then 1 else 0)"

definition read_bool :: "bin_serializer \<Rightarrow> (bool option \<times> bin_serializer) res" where
  "read_bool s = rmap (\<lambda>b. b \<noteq> 0) (read8 s)"

text \<open>\<open>write(const std::string&)\<close> and \<open>read(std::string&)\<close>: \<open>room\<close> is \<open>TempBuffSize - k\<close>.\<close>

definition write_string :: "cstring \<Rightarrow> bin_serializer \<Rightarrow> (bool \<times> bin_serializer) res" where
  "write_string b s =
     (if length b > TempBuffSize - 1 then Inr (False, s) else write_raw (b @ [0]) s)"

fun read_chars :: "nat \<Rightarrow> cstring \<Rightarrow> bin_serializer \<Rightarrow> (cstring option \<times> bin_serializer) res" where
  "read_chars 0 buff s = Inr (None, s)"
| "read_chars (Suc room) buff s =
     (if m_ReadPos s \<ge> m_WritePos s then Inr (None, s)
      else rbind (mem_load (m_DataPtr s) (unat (m_ReadPos s)) 1) (\<lambda>xs.
             let s' = s\<lparr>m_ReadPos := m_ReadPos s + 1\<rparr>
             in if hd xs \<noteq> 0 then read_chars room (buff @ xs) s' else Inr (Some buff, s')))"

definition read_string :: "bin_serializer \<Rightarrow> (cstring option \<times> bin_serializer) res" where
  "read_string s = read_chars TempBuffSize [] s"

fun write_pairs :: "(cstring \<times> cstring) list \<Rightarrow> bin_serializer \<Rightarrow> (bool \<times> bin_serializer) res" where
  "write_pairs [] s = Inr (True, s)"
| "write_pairs ((k, v) # b) s =
     rbind (write_string k s) (\<lambda>(ok, s1). if \<not> ok then Inr (False, s1)
     else rbind (write_string v s1) (\<lambda>(ok, s2). if \<not> ok then Inr (False, s2)
     else write_pairs b s2))"

definition write_meta :: "meta_data \<Rightarrow> bin_serializer \<Rightarrow> (bool \<times> bin_serializer) res" where
  "write_meta b s =
     (if length b > 2 ^ 32 - 1 then Inr (False, s)
      else rbind (write32 (of_nat (length b)) s) (\<lambda>(ok, s1). if \<not> ok then Inr (False, s1)
           else write_pairs b s1))"

lemma read_chars_advance:
  "read_chars room buff s = Inr (Some x, s') \<Longrightarrow>
   m_WritePos s' = m_WritePos s \<and> m_ReadPos s < m_ReadPos s' \<and> m_ReadPos s' \<le> m_WritePos s"
proof (induction room arbitrary: buff s)
  case (Suc room)
  from Suc.prems have lt: "m_ReadPos s < m_WritePos s" by (auto split: if_splits)
  then have nle: "\<not> m_WritePos s \<le> m_ReadPos s" by simp
  from lt have inc: "m_ReadPos s < m_ReadPos s + 1" "m_ReadPos s + 1 \<le> m_WritePos s"
    using word_inc_less [OF lt] by (auto simp: word_less_nat_alt word_le_nat_alt)
  from Suc.prems lt obtain xs where xs: "mem_load (m_DataPtr s) (unat (m_ReadPos s)) 1 = Inr xs"
    by (cases "mem_load (m_DataPtr s) (unat (m_ReadPos s)) 1") (auto simp: nle)
  show ?case
  proof (cases "hd xs \<noteq> 0")
    case True
    with Suc.prems lt xs have "read_chars room (buff @ xs) (s\<lparr>m_ReadPos := m_ReadPos s + 1\<rparr>) = Inr (Some x, s')"
      by (simp add: nle)
    from Suc.IH [OF this] inc show ?thesis by (auto intro: less_trans)
  next
    case False
    with Suc.prems lt xs inc show ?thesis by (auto simp: nle)
  qed
qed simp

lemma read_string_advance:
  "read_string s = Inr (Some x, s') \<Longrightarrow>
   m_WritePos s' = m_WritePos s \<and> m_ReadPos s < m_ReadPos s' \<and> m_ReadPos s' \<le> m_WritePos s"
  unfolding read_string_def by (rule read_chars_advance)

text \<open>\<open>read(MetaData&)\<close>: the counter \<open>i\<close> is a \<open>u16\<close>, the count on the wire a \<open>u32\<close>.\<close>

function read_pairs :: "u16 \<Rightarrow> u32 \<Rightarrow> meta_data \<Rightarrow> bin_serializer \<Rightarrow> (meta_data option \<times> bin_serializer) res" where
  "read_pairs i mlen b s =
     (if ucast i < mlen
      then case read_string s of
             Inl e \<Rightarrow> Inl e
           | Inr (None, s1) \<Rightarrow> Inr (None, s1)
           | Inr (Some key, s1) \<Rightarrow>
               (case read_string s1 of
                  Inl e \<Rightarrow> Inl e
                | Inr (None, s2) \<Rightarrow> Inr (None, s2)
                | Inr (Some value, s2) \<Rightarrow> read_pairs (i + 1) mlen (snd (sm_insert key value b)) s2)
      else Inr (Some b, s))"
  by pat_completeness auto
termination
  by (relation "measure (\<lambda>(i, mlen, b, s). unat (m_WritePos s) - unat (m_ReadPos s))")
     (auto dest!: read_string_advance simp: word_less_nat_alt word_le_nat_alt)

declare read_pairs.simps [simp del]

definition read_meta :: "meta_data \<Rightarrow> bin_serializer \<Rightarrow> (meta_data option \<times> bin_serializer) res" where
  "read_meta b s =
     rbind (read32 s) (\<lambda>(v, s1). case v of None \<Rightarrow> Inr (None, s1) | Some mlen \<Rightarrow> read_pairs 0 mlen b s1)"

section \<open>Getters, copies\<close>

definition bs_length :: "bin_serializer \<Rightarrow> u32" where "bs_length s = m_WritePos s"

text \<open>The bytes \<open>data() .. data() + length()\<close>.\<close>

definition content :: "bin_serializer \<Rightarrow> byte list" where
  "content s = (case m_DataPtr s of None \<Rightarrow> [] | Some buf \<Rightarrow> take (unat (m_WritePos s)) buf)"

definition unread :: "bin_serializer \<Rightarrow> byte list" where
  "unread s = drop (unat (m_ReadPos s)) (content s)"

text \<open>\<open>copyAsRaw\<close>, the copy constructor, both assignments and the two templates for nested
  serializers.\<close>

definition copyAsRaw :: "bin_serializer \<Rightarrow> byte list res" where
  "copyAsRaw s = mem_load (m_DataPtr s) 0 (unat (m_WritePos s))"

definition bs_write_bs :: "bin_serializer \<Rightarrow> bin_serializer \<Rightarrow> (bool \<times> bin_serializer) res" where
  "bs_write_bs other s =
     rbind (mem_load (m_DataPtr other) 0 (unat (bs_length other))) (\<lambda>xs. write_raw xs s)"

definition bs_copy :: "bin_serializer \<Rightarrow> bin_serializer res" where
  "bs_copy other = rbind (bs_write_bs other bs_reset) (\<lambda>(ok, s). Inr s)"

definition bs_assign :: "bin_serializer \<Rightarrow> bin_serializer \<Rightarrow> bin_serializer res" where
  "bs_assign other s = rbind (bs_write_bs other s) (\<lambda>(ok, s'). Inr s')"

text \<open>Move assignment copies the fields and clears the pointer of \<open>other\<close>; the result is
  \<open>(this, other)\<close>.\<close>

definition bs_move :: "bin_serializer \<Rightarrow> bin_serializer \<times> bin_serializer" where
  "bs_move other = (other, other\<lparr>m_DataPtr := None\<rparr>)"

text \<open>\<open>read(BinSerializer& other)\<close> appends all of \<open>this\<close> to \<open>other\<close> and leaves the read
  position alone.\<close>

definition bs_read_bs :: "bin_serializer \<Rightarrow> bin_serializer \<Rightarrow> (bool \<times> bin_serializer) res" where
  "bs_read_bs s other = bs_write_bs s other"

text \<open>Two values one after the other, as the \<open>readOrWrite\<close> templates of the structures do it
  with \<open>__CHECKEDB\<close>.\<close>

definition seq_put ::
  "('a \<Rightarrow> bin_serializer \<Rightarrow> (bool \<times> bin_serializer) res) \<Rightarrow> ('b \<Rightarrow> bin_serializer \<Rightarrow> (bool \<times> bin_serializer) res)
   \<Rightarrow> 'a \<times> 'b \<Rightarrow> bin_serializer \<Rightarrow> (bool \<times> bin_serializer) res" where
  "seq_put p q xy s = checked (p (fst xy) s) (\<lambda>s1. checked (q (snd xy) s1) (\<lambda>s2. Inr (True, s2)))"

definition seq_get ::
  "(bin_serializer \<Rightarrow> ('a option \<times> bin_serializer) res) \<Rightarrow> (bin_serializer \<Rightarrow> ('b option \<times> bin_serializer) res)
   \<Rightarrow> bin_serializer \<Rightarrow> (('a \<times> 'b) option \<times> bin_serializer) res" where
  "seq_get g h s = checkedR (g s) (\<lambda>x s1. checkedR (h s1) (\<lambda>y s2. Inr (Some (x, y), s2)))"

section \<open>Invariant\<close>

text \<open>The read position is at most the write position, which is inside of the buffer, the buffer has at least \<open>m_MaxSize\<close> bytes, and
  the largest single read cannot wrap a position around. \<open>max_stream\<close> is the amount of data
  up to which the float computation in \<open>growTo\<close> is shown to be in range.\<close>

definition bs_inv :: "bin_serializer \<Rightarrow> bool" where
  "bs_inv s \<longleftrightarrow>
     m_ReadPos s \<le> m_WritePos s \<and> m_WritePos s \<le> m_MaxSize s \<and> unat (m_MaxSize s) < 2 ^ 32 - 64 \<and>
     (case m_DataPtr s of None \<Rightarrow> m_MaxSize s = 0 | Some buf \<Rightarrow> unat (m_MaxSize s) \<le> length buf)"

definition max_stream :: nat where "max_stream = 3000000000"

definition appended :: "bin_serializer \<Rightarrow> byte list \<Rightarrow> bin_serializer \<Rightarrow> bool" where
  "appended s xs s' \<longleftrightarrow>
     bs_inv s' \<and> m_Owns s' \<and> content s' = content s @ xs \<and> m_ReadPos s' = m_ReadPos s"

definition advance :: "nat \<Rightarrow> bin_serializer \<Rightarrow> bin_serializer" where
  "advance n s = s\<lparr>m_ReadPos := m_ReadPos s + of_nat n\<rparr>"

section \<open>Growing\<close>

lemma grow_size_ok:
  assumes "unat n \<le> max_stream"
  shows "\<exists>m. grow_size n = Inr m \<and> n < m \<and> unat m < 2 ^ 32 - 64"
proof -
  define k where "k = unat n"
  define a where "a = r24 k"
  define p where "p = r24 (a * 10066330)"
  define v where "v = r24 (p + 16 * 2 ^ 23)"
  have k: "k \<le> 3000000000" using assms by (simp add: k_def max_stream_def)
  have a: "k * (2 ^ 24 - 1) \<le> a * 2 ^ 24" "a * 2 ^ 24 \<le> k * (2 ^ 24 + 1)"
    unfolding a_def by (rule r24_lower, rule r24_upper)
  have p: "a * 10066330 * (2 ^ 24 - 1) \<le> p * 2 ^ 24" "p * 2 ^ 24 \<le> a * 10066330 * (2 ^ 24 + 1)"
    unfolding p_def by (rule r24_lower, rule r24_upper)
  have v: "(p + 16 * 2 ^ 23) * (2 ^ 24 - 1) \<le> v * 2 ^ 24" "v * 2 ^ 24 \<le> (p + 16 * 2 ^ 23) * (2 ^ 24 + 1)"
    unfolding v_def by (rule r24_lower, rule r24_upper)
  have low: "(k + 1) * 2 ^ 23 \<le> v" using a p v k by simp
  have "v < (2 ^ 32 - 64) * 2 ^ 23" using a p v k by simp
  then have up: "v div 2 ^ 23 < 2 ^ 32 - 64" by (simp add: less_mult_imp_div_less)
  have lowd: "k + 1 \<le> v div 2 ^ 23" using low by (simp add: less_eq_div_iff_mult_less_eq)
  have g: "grow_size n = Inr (of_nat (v div 2 ^ 23))"
    using up by (simp add: grow_size_def f32_scale_def v_def p_def a_def k_def Let_def)
  have u: "unat (of_nat (v div 2 ^ 23) :: u32) = v div 2 ^ 23"
    using up by (intro unat_of_nat32) simp
  show ?thesis using g u up lowd by (auto simp: word_less_nat_alt k_def)
qed

lemma length_content: "bs_inv s \<Longrightarrow> length (content s) = unat (m_WritePos s)"
  by (auto simp: bs_inv_def content_def word_le_nat_alt split: option.splits)

lemma content_load:
  assumes "bs_inv s"
  shows "mem_load (m_DataPtr s) 0 (unat (m_WritePos s)) = Inr (content s)"
  using assms
  by (cases "m_DataPtr s")
     (auto simp: bs_inv_def content_def mem_load_def word_le_nat_alt unat_eq_zero)

lemma growTo_ok:
  assumes inv: "bs_inv s" and req: "unat req \<le> max_stream"
  shows "\<exists>s'. growTo req s = Inr s' \<and> bs_inv s' \<and> content s' = content s \<and>
    m_WritePos s' = m_WritePos s \<and> m_ReadPos s' = m_ReadPos s \<and> m_Owns s' = m_Owns s \<and>
    (m_Owns s \<longrightarrow> req \<le> m_MaxSize s')"
proof (cases "\<not> m_Owns s \<or> req \<le> m_MaxSize s")
  case True
  with inv show ?thesis by (auto simp: growTo_def)
next
  case False
  obtain m where m: "grow_size req = Inr m" "req < m" "unat m < 2 ^ 32 - 64"
    using grow_size_ok [OF req] by blast
  let ?buf = "content s @ drop (length (content s)) (replicate (unat m) 0)"
  have le: "length (content s) \<le> unat m"
    using inv False m(2) by (auto simp: length_content bs_inv_def word_le_nat_alt word_less_nat_alt)
  have "mem_store (Some (replicate (unat m) 0)) 0 (content s) = Inr (Some ?buf)"
    using le by (auto simp: mem_store_def)
  then have g: "growTo req s = Inr (s\<lparr>m_MaxSize := m, m_DataPtr := Some ?buf\<rparr>)" (is "_ = Inr ?s'")
    using False m(1) content_load [OF inv] by (simp add: growTo_def)
  have mm: "m_MaxSize s \<le> m" using False m(2) by auto
  have "bs_inv ?s'" using inv le mm m(3) by (auto simp: bs_inv_def intro: order_trans)
  moreover have "content ?s' = content s"
    unfolding content_def [of ?s'] using inv le by (simp add: length_content [symmetric])
  ultimately show ?thesis using g m(2) by auto
qed

section \<open>Writing and reading\<close>

lemma write_raw_ok:
  assumes inv: "bs_inv s" and own: "m_Owns s" and room: "length (content s) + length xs \<le> max_stream"
  shows "\<exists>s'. write_raw xs s = Inr (True, s') \<and> appended s xs s'"
proof -
  let ?n = "of_nat (length xs) :: u32"
  have lc: "length (content s) = unat (m_WritePos s)" using inv by (rule length_content)
  have wn: "unat (m_WritePos s + ?n) = unat (m_WritePos s) + length xs"
    using room lc by (intro unat_add_of_nat) (simp add: max_stream_def)
  then have "unat (m_WritePos s + ?n) \<le> max_stream" using room lc by simp
  from growTo_ok [OF inv this] own obtain s1 where
    g: "growTo (m_WritePos s + ?n) s = Inr s1" and s1: "bs_inv s1" "content s1 = content s"
      "m_WritePos s1 = m_WritePos s" "m_ReadPos s1 = m_ReadPos s" "m_Owns s1"
      "m_WritePos s + ?n \<le> m_MaxSize s1"
    by auto
  show ?thesis
  proof (cases "xs = []")
    case True
    with g s1 have "write_raw xs s = Inr (True, s1)" by (simp add: write_raw_def Let_def leD)
    with True s1 show ?thesis by (simp add: appended_def)
  next
    case False
    with s1(6) wn obtain buf where buf: "m_DataPtr s1 = Some buf"
      using s1(1) by (cases "m_DataPtr s1") (auto simp: bs_inv_def word_le_nat_alt)
    have len: "unat (m_WritePos s) + length xs \<le> length buf"
      using s1 buf wn by (auto simp: bs_inv_def word_le_nat_alt)
    let ?buf = "take (unat (m_WritePos s)) buf @ xs @ drop (unat (m_WritePos s) + length xs) buf"
    have "write_raw xs s = Inr (True, s1\<lparr>m_DataPtr := Some ?buf, m_WritePos := m_WritePos s + ?n\<rparr>)"
      (is "_ = Inr (True, ?s')")
      using g s1 buf len by (simp add: write_raw_def Let_def leD mem_store_in)
    moreover have "content ?s' = content s1 @ xs"
      unfolding content_def using s1(3) buf len wn by simp
    then have "content ?s' = content s @ xs" using s1(2) by simp
    moreover have "bs_inv ?s'"
      using s1 buf len wn by (auto simp: bs_inv_def word_le_nat_alt)
    ultimately show ?thesis using s1 by (auto simp: appended_def)
  qed
qed

text \<open>A serializer over foreign memory never grows: a write that does not fit changes nothing.\<close>

lemma write_raw_foreign_full:
  assumes "\<not> m_Owns s" and "m_WritePos s + of_nat (length xs) > m_MaxSize s"
  shows "write_raw xs s = Inr (False, s)"
  using assms by (simp add: write_raw_def growTo_def Let_def)

lemma read_raw_cases:
  assumes inv: "bs_inv s" and n: "n \<le> 64"
  shows "read_raw n s =
    (if unat (m_ReadPos s) + n \<le> unat (m_WritePos s)
     then Inr (Some (take n (unread s)), advance n s) else Inr (None, s))"
proof -
  have b: "unat (m_ReadPos s) \<le> unat (m_WritePos s)" "unat (m_WritePos s) \<le> unat (m_MaxSize s)"
    "unat (m_MaxSize s) < 2 ^ 32 - 64"
    using inv by (auto simp: bs_inv_def word_le_nat_alt)
  have rn: "unat (m_ReadPos s + of_nat n) = unat (m_ReadPos s) + n"
    using b n by (intro unat_add_of_nat) simp
  show ?thesis
  proof (cases "unat (m_ReadPos s) + n \<le> unat (m_WritePos s)")
    case True
    have "mem_load (m_DataPtr s) (unat (m_ReadPos s)) n = Inr (take n (unread s))"
    proof (cases "m_DataPtr s")
      case None
      with inv True have "n = 0" by (auto simp: bs_inv_def)
      then show ?thesis by simp
    next
      case (Some buf)
      with inv b have "unat (m_WritePos s) \<le> length buf" by (auto simp: bs_inv_def)
      with Some True show ?thesis
        by (simp add: mem_load_in unread_def content_def drop_take min_def)
    qed
    with True rn show ?thesis by (simp add: read_raw_def advance_def word_less_nat_alt)
  next
    case False
    with rn show ?thesis by (simp add: read_raw_def word_less_nat_alt)
  qed
qed

lemma read_raw_ok:
  assumes "bs_inv s" and "unread s = xs @ rest" and "length xs = n" and "n \<le> 64"
  shows "read_raw n s = Inr (Some xs, advance n s)"
proof -
  have "length (unread s) \<ge> n" using assms(2,3) by simp
  with assms(1) have "unat (m_ReadPos s) + n \<le> unat (m_WritePos s)"
    by (auto simp: unread_def length_content bs_inv_def word_le_nat_alt)
  with assms show ?thesis by (simp add: read_raw_cases)
qed

lemma advance_inv:
  assumes inv: "bs_inv s" and un: "unread s = xs @ rest"
  shows "bs_inv (advance (length xs) s)" and "unread (advance (length xs) s) = rest"
    and "content (advance n s) = content s"
proof -
  show c: "content (advance n s) = content s" for n
    by (simp add: content_def advance_def split: option.split)
  have le: "length xs \<le> length (unread s)" using un by simp
  have b: "unat (m_WritePos s) \<le> unat (m_MaxSize s)" "unat (m_MaxSize s) < 2 ^ 32 - 64"
    "unat (m_ReadPos s) \<le> unat (m_WritePos s)"
    using inv by (auto simp: bs_inv_def word_le_nat_alt)
  have le2: "unat (m_ReadPos s) + length xs \<le> unat (m_WritePos s)"
    using le b by (simp add: unread_def length_content [OF inv])
  then have rn: "unat (m_ReadPos s + of_nat (length xs)) = unat (m_ReadPos s) + length xs"
    using b by (intro unat_add_of_nat) simp
  show "bs_inv (advance (length xs) s)"
    using inv le2 rn by (auto simp: bs_inv_def advance_def word_le_nat_alt split: option.splits)
  have "unread (advance (length xs) s) = drop (unat (m_ReadPos s) + length xs) (content s)"
    using rn by (simp add: unread_def c) (simp add: advance_def)
  also have "\<dots> = drop (length xs) (unread s)" by (simp add: unread_def add.commute)
  finally show "unread (advance (length xs) s) = rest" using un by simp
qed

lemma advance_advance: "advance m (advance n s) = advance (n + m) s"
  by (simp add: advance_def algebra_simps)

lemma advance_0 [simp]: "advance 0 s = s"
  by (simp add: advance_def)

section \<open>The contract of write and read\<close>

lemma bs_reset_inv [simp]: "bs_inv bs_reset" "m_Owns bs_reset" "content bs_reset = []" "m_ReadPos bs_reset = 0"
  by (simp_all add: bs_reset_def bs_inv_def content_def)

lemma appended_trans:
  "appended s xs s1 \<Longrightarrow> appended s1 ys s2 \<Longrightarrow> appended s (xs @ ys) s2"
  by (simp add: appended_def)

lemma appendedD:
  "appended s xs s' \<Longrightarrow> bs_inv s'" "appended s xs s' \<Longrightarrow> m_Owns s'"
  "appended s xs s' \<Longrightarrow> content s' = content s @ xs"
  by (simp_all add: appended_def)

lemma at_end: "bs_inv s \<Longrightarrow> m_ReadPos s = m_WritePos s \<longleftrightarrow> unread s = []"
  by (auto simp: unread_def length_content bs_inv_def word_le_nat_alt)
     (metis le_antisym word_unat_eq_iff)

locale codec =
  fixes put :: "'a \<Rightarrow> bin_serializer \<Rightarrow> (bool \<times> bin_serializer) res"
    and get :: "bin_serializer \<Rightarrow> ('a option \<times> bin_serializer) res"
    and enc :: "'a \<Rightarrow> byte list"
    and valid :: "'a \<Rightarrow> bool"
  assumes put_ok: "bs_inv s \<Longrightarrow> m_Owns s \<Longrightarrow> valid x \<Longrightarrow> length (content s) + length (enc x) \<le> max_stream \<Longrightarrow>
      \<exists>s'. put x s = Inr (True, s') \<and> appended s (enc x) s'"
    and get_ok: "bs_inv s \<Longrightarrow> valid x \<Longrightarrow> unread s = enc x @ rest \<Longrightarrow>
      get s = Inr (Some x, advance (length (enc x)) s)"
begin

lemma roundtrip:
  assumes "bs_inv s" and "m_Owns s" and "unread s = []" and "valid x"
    and "length (content s) + length (enc x) \<le> max_stream"
  shows "\<exists>s1. put x s = Inr (True, s1) \<and> unread s1 = enc x \<and>
    get s1 = Inr (Some x, advance (length (enc x)) s1) \<and> unread (advance (length (enc x)) s1) = []"
proof -
  obtain s1 where s1: "put x s = Inr (True, s1)" "appended s (enc x) s1"
    using put_ok assms by blast
  have "length (content s) \<le> unat (m_ReadPos s)" using assms(3) by (simp add: unread_def)
  moreover have "unat (m_ReadPos s) \<le> length (content s)"
    using assms(1) by (simp add: bs_inv_def length_content word_le_nat_alt)
  ultimately have "unread s1 = enc x" using s1(2) by (simp add: unread_def appended_def)
  moreover have "bs_inv s1" using s1(2) by (rule appendedD)
  ultimately show ?thesis using s1(1) get_ok [of s1 x "[]"] assms(4) advance_inv(2) [of s1 "enc x" "[]"]
    by auto
qed

end

locale codec_pair = fst_codec: codec put1 get1 enc1 valid1 + snd_codec: codec put2 get2 enc2 valid2
  for put1 :: "'a \<Rightarrow> bin_serializer \<Rightarrow> (bool \<times> bin_serializer) res" and get1 enc1 valid1
  and put2 :: "'b \<Rightarrow> bin_serializer \<Rightarrow> (bool \<times> bin_serializer) res" and get2 enc2 valid2

sublocale codec_pair \<subseteq> pair: codec "seq_put put1 put2" "seq_get get1 get2"
    "\<lambda>xy. enc1 (fst xy) @ enc2 (snd xy)" "\<lambda>xy. valid1 (fst xy) \<and> valid2 (snd xy)"
proof
  fix s and xy :: "'a \<times> 'b"
  assume a: "bs_inv s" "m_Owns s" "valid1 (fst xy) \<and> valid2 (snd xy)"
    "length (content s) + length (enc1 (fst xy) @ enc2 (snd xy)) \<le> max_stream"
  obtain s1 where s1: "put1 (fst xy) s = Inr (True, s1)" "appended s (enc1 (fst xy)) s1"
    using fst_codec.put_ok [of s "fst xy"] a by auto
  obtain s2 where "put2 (snd xy) s1 = Inr (True, s2)" "appended s1 (enc2 (snd xy)) s2"
    using snd_codec.put_ok [of s1 "snd xy"] a s1(2) by (auto simp: appended_def)
  with s1 show "\<exists>s'. seq_put put1 put2 xy s = Inr (True, s') \<and> appended s (enc1 (fst xy) @ enc2 (snd xy)) s'"
    by (auto simp: seq_put_def intro: appended_trans)
next
  fix s and xy :: "'a \<times> 'b" and rest
  assume a: "bs_inv s" "valid1 (fst xy) \<and> valid2 (snd xy)"
    "unread s = (enc1 (fst xy) @ enc2 (snd xy)) @ rest"
  let ?s1 = "advance (length (enc1 (fst xy))) s"
  have "get1 s = Inr (Some (fst xy), ?s1)"
    using a fst_codec.get_ok [of s "fst xy" "enc2 (snd xy) @ rest"] by simp
  moreover have "bs_inv ?s1" "unread ?s1 = enc2 (snd xy) @ rest"
    using a advance_inv [of s "enc1 (fst xy)" "enc2 (snd xy) @ rest"] by auto
  ultimately show "seq_get get1 get2 s = Inr (Some xy, advance (length (enc1 (fst xy) @ enc2 (snd xy))) s)"
    using a snd_codec.get_ok [of ?s1 "snd xy" rest] by (simp add: seq_get_def advance_advance)
qed

context codec_pair
begin

lemma pair_codec:
  "codec (seq_put put1 put2) (seq_get get1 get2) (\<lambda>xy. enc1 (fst xy) @ enc2 (snd xy)) (\<lambda>xy. valid1 (fst xy) \<and> valid2 (snd xy))"
  by (rule pair.codec_axioms)

end

lemma codec_seq:
  assumes "codec p g e v" and "codec p' g' e' v'"
  shows "codec (seq_put p p') (seq_get g g') (\<lambda>xy. e (fst xy) @ e' (snd xy)) (\<lambda>xy. v (fst xy) \<and> v' (snd xy))"
  by (rule codec_pair.pair_codec) (simp add: codec_pair_def assms)

section \<open>The types\<close>

lemma codec_fixed:
  assumes "\<And>x. length (enc x) = n" and "n \<le> 64" and "\<And>x. valid x \<Longrightarrow> dec (enc x) = x"
    and "\<And>x s. put x s = write_raw (enc x) s" and "\<And>s. get s = rmap dec (read_raw n s)"
  shows "codec put get enc valid"
proof
  fix s x assume "bs_inv s" "m_Owns s" "length (content s) + length (enc x) \<le> max_stream"
  then show "\<exists>s'. put x s = Inr (True, s') \<and> appended s (enc x) s'"
    unfolding assms(4) by (rule write_raw_ok)
next
  fix s x rest assume "bs_inv s" "valid x" "unread s = enc x @ rest"
  then show "get s = Inr (Some x, advance (length (enc x)) s)"
    using read_raw_ok [of s "enc x" rest n] assms by (simp add: rmap_def)
qed

interpretation byte_codec: codec write8 read8 "\<lambda>b. [b]" "\<lambda>_. True"
  by (rule codec_fixed [where n = 1 and dec = hd]) (simp_all add: write8_def read8_def)

interpretation u16_codec: codec write16 read16 "\<lambda>w. rev (le16 w)" "\<lambda>_. True"
  by (rule codec_fixed [where n = 2 and dec = "\<lambda>xs. ntohs (of_le xs)"])
     (simp_all add: write16_def read16_def ntohs_def htons_htons of_le16 flip: wire16)

interpretation u32_codec: codec write32 read32 "\<lambda>w. rev (le32 w)" "\<lambda>_. True"
  by (rule codec_fixed [where n = 4 and dec = "\<lambda>xs. ntohl (of_le xs)"])
     (simp_all add: write32_def read32_def ntohl_def htonl_htonl of_le32 flip: wire32)

interpretation u64_codec: codec write64 read64 "\<lambda>w. rev (le64 w)" "\<lambda>_. True"
  by (rule codec_fixed [where n = 8 and dec = "\<lambda>xs. ntohll (of_le xs)"])
     (simp_all add: write64_def read64_def ntohll_def htonll_htonll of_le64 flip: wire64)

lemma rmap_rmap: "rmap f (rmap g r) = rmap (f \<circ> g) r"
  by (cases r) (auto simp: rmap_def option.map_comp)

interpretation bool_codec: codec write_bool read_bool "\<lambda>b. [if b then 1 else 0]" "\<lambda>_. True"
  by (rule codec_fixed [where n = 1 and dec = "\<lambda>xs. hd xs \<noteq> 0"])
     (simp_all add: write_bool_def read_bool_def write8_def read8_def rmap_rmap comp_def)

subsection \<open>Strings\<close>

definition string_ok :: "cstring \<Rightarrow> bool" where
  "string_ok x \<longleftrightarrow> 0 \<notin> set x \<and> length x \<le> TempBuffSize - 1"

lemma mem_load_unread:
  assumes "bs_inv s" and "unread s = c # rest"
  shows "mem_load (m_DataPtr s) (unat (m_ReadPos s)) 1 = Inr [c]" and "\<not> m_WritePos s \<le> m_ReadPos s"
proof -
  have r: "read_raw 1 s = Inr (Some [c], advance 1 s)"
    using read_raw_ok [of s "[c]" rest 1] assms by simp
  then show "mem_load (m_DataPtr s) (unat (m_ReadPos s)) 1 = Inr [c]"
    by (auto simp: read_raw_def rbind_eq_Inr split: if_splits)
  have "0 < length (unread s)" using assms(2) by simp
  then show "\<not> m_WritePos s \<le> m_ReadPos s"
    using assms(1) by (simp add: unread_def length_content word_le_nat_alt)
qed

lemma read_chars_ok:
  assumes "bs_inv s" and "unread s = x @ 0 # rest" and "0 \<notin> set x" and "length x < room"
  shows "read_chars room buff s = Inr (Some (buff @ x), advance (length x + 1) s)"
  using assms
proof (induction x arbitrary: room buff s)
  case Nil
  then obtain r where "room = Suc r" by (cases room) auto
  with Nil show ?case using mem_load_unread [of s 0 rest] by (simp add: advance_def)
next
  case (Cons c x)
  then obtain r where r: "room = Suc r" by (cases room) auto
  have m: "mem_load (m_DataPtr s) (unat (m_ReadPos s)) 1 = Inr [c]" "\<not> m_WritePos s \<le> m_ReadPos s"
    using mem_load_unread [of s c "x @ 0 # rest"] Cons.prems by auto
  have a: "bs_inv (advance 1 s)" "unread (advance 1 s) = x @ 0 # rest"
    using advance_inv [of s "[c]" "x @ 0 # rest"] Cons.prems by auto
  have "read_chars room buff s = read_chars r (buff @ [c]) (advance 1 s)"
    using m Cons.prems(3) r by (simp add: advance_def)
  also have "\<dots> = Inr (Some ((buff @ [c]) @ x), advance (length x + 1) (advance 1 s))"
    using Cons.prems r a by (intro Cons.IH) auto
  finally show ?case by (simp add: advance_advance)
qed

interpretation string_codec: codec write_string read_string "\<lambda>x. x @ [0]" string_ok
proof
  fix s x assume "bs_inv s" "m_Owns s" "string_ok x" "length (content s) + length (x @ [0]) \<le> max_stream"
  then show "\<exists>s'. write_string x s = Inr (True, s') \<and> appended s (x @ [0]) s'"
    using write_raw_ok [of s "x @ [0]"] by (simp add: write_string_def string_ok_def)
next
  fix s x rest assume "bs_inv s" "string_ok x" "unread s = (x @ [0]) @ rest"
  then show "read_string s = Inr (Some x, advance (length (x @ [0])) s)"
    unfolding read_string_def
    by (subst read_chars_ok [where rest = rest]) (auto simp: string_ok_def TempBuffSize_def)
qed

subsection \<open>Meta data\<close>

definition pair_bytes :: "cstring \<times> cstring \<Rightarrow> byte list" where
  "pair_bytes kv = fst kv @ [0] @ snd kv @ [0]"

definition meta_bytes :: "meta_data \<Rightarrow> byte list" where
  "meta_bytes md = rev (le32 (of_nat (length md))) @ concat (map pair_bytes md)"

text \<open>Fewer than \<open>2 ^ 16\<close> entries: the reader counts them in a \<open>u16\<close>.\<close>

definition meta_ok :: "meta_data \<Rightarrow> bool" where
  "meta_ok md \<longleftrightarrow> sm_ok md \<and> length md < 2 ^ 16 \<and> (\<forall>(k, v) \<in> set md. string_ok k \<and> string_ok v)"

lemma pair_bytes_pair: "pair_bytes (k, v) = k @ [0] @ v @ [0]"
  by (simp add: pair_bytes_def)

lemma write_pairs_ok:
  assumes "bs_inv s" and "m_Owns s" and "\<forall>(k, v) \<in> set md. string_ok k \<and> string_ok v"
    and "length (content s) + length (concat (map pair_bytes md)) \<le> max_stream"
  shows "\<exists>s'. write_pairs md s = Inr (True, s') \<and> appended s (concat (map pair_bytes md)) s'"
  using assms
proof (induction md arbitrary: s)
  case Nil
  then show ?case by (simp add: appended_def)
next
  case (Cons kv md)
  obtain k v where kv: "kv = (k, v)" by (cases kv)
  obtain s1 where s1: "write_string k s = Inr (True, s1)" "appended s (k @ [0]) s1"
    using string_codec.put_ok [of s k] Cons.prems kv by (auto simp: pair_bytes_pair)
  obtain s2 where s2: "write_string v s1 = Inr (True, s2)" "appended s1 (v @ [0]) s2"
    using string_codec.put_ok [of s1 v] Cons.prems kv s1(2) by (auto simp: pair_bytes_pair appended_def)
  have s02: "appended s (pair_bytes kv) s2"
    using appended_trans [OF s1(2) s2(2)] kv by (simp add: pair_bytes_pair)
  then obtain s3 where "write_pairs md s2 = Inr (True, s3)" "appended s2 (concat (map pair_bytes md)) s3"
    using Cons.IH [of s2] Cons.prems by (auto simp: appended_def)
  with s1 s2 s02 kv show ?case by (auto intro: appended_trans)
qed

lemma read_pairs_ok:
  assumes "bs_inv s" and "\<forall>(k, v) \<in> set md. string_ok k \<and> string_ok v"
    and "unread s = concat (map pair_bytes md) @ rest"
    and "unat mlen = unat i + length md" and "unat mlen < 2 ^ 16"
  shows "read_pairs i mlen b s =
    Inr (Some (fold (\<lambda>(k, v) m. snd (sm_insert k v m)) md b), advance (length (concat (map pair_bytes md))) s)"
  using assms
proof (induction md arbitrary: i b s)
  case Nil
  then have "\<not> ucast i < mlen" by (simp add: word_less_nat_alt unat_ucast_up)
  then show ?case by (subst read_pairs.simps) simp
next
  case (Cons kv md)
  obtain k v where kv: "kv = (k, v)" by (cases kv)
  have lt: "ucast i < mlen" using Cons.prems(4) by (simp add: word_less_nat_alt unat_ucast_up)
  have i1: "unat (i + 1) = unat i + 1"
    using Cons.prems(4,5) by (subst unat_word_ariths) simp
  let ?s1 = "advance (length (k @ [0])) s"
  let ?s2 = "advance (length (v @ [0])) ?s1"
  let ?r = "concat (map pair_bytes md) @ rest"
  have un: "unread s = (k @ [0]) @ (v @ [0]) @ ?r" using Cons.prems(3) kv by (simp add: pair_bytes_pair)
  have g1: "read_string s = Inr (Some k, ?s1)"
    using string_codec.get_ok [OF Cons.prems(1) _ un] Cons.prems(2) kv by simp
  have a1: "bs_inv ?s1" "unread ?s1 = (v @ [0]) @ ?r" using advance_inv [OF Cons.prems(1) un] by auto
  have g2: "read_string ?s1 = Inr (Some v, ?s2)"
    using string_codec.get_ok [OF a1(1) _ a1(2)] Cons.prems(2) kv by simp
  have a2: "bs_inv ?s2" "unread ?s2 = ?r" using advance_inv [OF a1] by auto
  have "read_pairs i mlen b s = read_pairs (i + 1) mlen (snd (sm_insert k v b)) ?s2"
    using lt g1 g2 by (subst read_pairs.simps) simp
  also have "\<dots> = Inr (Some (fold (\<lambda>(k, v) m. snd (sm_insert k v m)) md (snd (sm_insert k v b))),
      advance (length (concat (map pair_bytes md))) ?s2)"
    using Cons.prems i1 a2 by (intro Cons.IH) auto
  finally show ?case using kv by (simp add: advance_advance pair_bytes_pair algebra_simps)
qed

lemma sm_set_append: "(\<forall>k' \<in> fst ` set m. k' < k) \<Longrightarrow> sm_set k v m = m @ [(k, v)]"
  by (induction k v m rule: sm_set.induct) (auto dest: less_asym)

lemma fold_insert_sorted:
  "sm_ok (acc @ md) \<Longrightarrow> fold (\<lambda>(k, v) m. snd (sm_insert k v m)) md acc = acc @ md"
proof (induction md arbitrary: acc)
  case (Cons kv md)
  obtain k v where kv: "kv = (k, v)" by (cases kv)
  have lt: "\<forall>k' \<in> fst ` set acc. k' < k"
    using Cons.prems kv by (auto simp: sm_ok_def sorted_wrt_append)
  then have "sm_find acc k = None" by (auto simp: sm_find_None_iff)
  then have "snd (sm_insert k v acc) = acc @ [kv]"
    using kv lt by (simp add: sm_insert_def sm_set_append)
  with Cons kv show ?case by simp
qed simp

interpretation meta_codec: codec write_meta "read_meta []" meta_bytes meta_ok
proof
  fix s x assume a: "bs_inv s" "m_Owns s" "meta_ok x" "length (content s) + length (meta_bytes x) \<le> max_stream"
  obtain s1 where s1: "write32 (of_nat (length x)) s = Inr (True, s1)"
      "appended s (rev (le32 (of_nat (length x)))) s1"
    using u32_codec.put_ok [of s "of_nat (length x)"] a by (auto simp: meta_bytes_def)
  then obtain s2 where "write_pairs x s1 = Inr (True, s2)" "appended s1 (concat (map pair_bytes x)) s2"
    using write_pairs_ok [of s1 x] a by (auto simp: meta_bytes_def meta_ok_def appended_def)
  with s1 a show "\<exists>s'. write_meta x s = Inr (True, s') \<and> appended s (meta_bytes x) s'"
    by (auto simp: write_meta_def meta_bytes_def meta_ok_def intro: appended_trans)
next
  fix s x rest assume a: "bs_inv s" "meta_ok x" "unread s = meta_bytes x @ rest"
  let ?h = "rev (le32 (of_nat (length x)))" and ?p = "concat (map pair_bytes x)"
  have un: "unread s = ?h @ ?p @ rest" using a(3) by (simp add: meta_bytes_def)
  have g: "read32 s = Inr (Some (of_nat (length x)), advance (length ?h) s)"
    using u32_codec.get_ok [OF a(1) _ un] by simp
  have s1: "bs_inv (advance (length ?h) s)" "unread (advance (length ?h) s) = ?p @ rest"
    using advance_inv [OF a(1) un] by auto
  have "read_pairs 0 (of_nat (length x)) [] (advance (length ?h) s) =
      Inr (Some (fold (\<lambda>(k, v) m. snd (sm_insert k v m)) x []), advance (length ?p) (advance (length ?h) s))"
    using a(2) s1 by (intro read_pairs_ok [where rest = rest]) (auto simp: meta_ok_def unat_of_nat32)
  moreover have "fold (\<lambda>(k, v) m. snd (sm_insert k v m)) x [] = x"
    using fold_insert_sorted [of "[]" x] a(2) by (simp add: meta_ok_def)
  ultimately show "read_meta [] s = Inr (Some x, advance (length (meta_bytes x)) s)"
    using g by (simp add: read_meta_def advance_advance meta_bytes_def)
qed

end
