(* ===== verification/Packet_Helper.thy ===== *)
theory Packet_Helper
  imports Bin_Serializer
begin

text \<open>
  \<open>PacketHelper.h\<close>, \<open>PacketHelper.cpp\<close> and the packet constants of \<open>Common.h\<close>: the
  packet header, splitting a message into fragments, putting fragments together again, and the
  comparison of sequence numbers.
\<close>

section \<open>Constants\<close>

definition MM_NEWER_SEQ_RANGE :: u32 where "MM_NEWER_SEQ_RANGE = drop_bit 2 0xFFFFFFFF"
definition MM_MAX_FRAGMENTSIZE :: int where "MM_MAX_FRAGMENTSIZE = 1900"
definition MM_MAX_RECVSIZE :: nat where "MM_MAX_RECVSIZE = 4096"
definition MM_MAX_SENDSIZE :: nat where "MM_MAX_SENDSIZE = MM_MAX_RECVSIZE"
definition MM_MIN_HDR_SIZE :: int where "MM_MIN_HDR_SIZE = 6"
definition MM_CHANNEL_MASK :: byte where "MM_CHANNEL_MASK = 7"
definition MM_RELAY_BIT :: byte where "MM_RELAY_BIT = 4"
definition MM_FRAGMENT_FIRST_BIT :: byte where "MM_FRAGMENT_FIRST_BIT = 8"
definition MM_FRAGMENT_LAST_BIT :: byte where "MM_FRAGMENT_LAST_BIT = 16"
definition MM_SYSTEM_BIT :: byte where "MM_SYSTEM_BIT = 32"
definition MM_NUM_CHANNELS :: nat where "MM_NUM_CHANNELS = 8"
definition InvalidByte :: byte where "InvalidByte = -1"

lemmas packet_consts = MM_NEWER_SEQ_RANGE_def MM_MAX_FRAGMENTSIZE_def MM_MIN_HDR_SIZE_def
  MM_CHANNEL_MASK_def MM_RELAY_BIT_def MM_FRAGMENT_FIRST_BIT_def MM_FRAGMENT_LAST_BIT_def
  MM_SYSTEM_BIT_def InvalidByte_def

section \<open>Packets\<close>

record recv_packet =
  m_Id :: byte
  m_Data :: "byte list"
  m_Length :: u32
  m_Flags :: byte

record packet_info =
  m_Sequence :: u32
  m_ChannelAndFlags :: byte

text \<open>\<open>RecvPacket(id, data, len, flags, true)\<close> copies \<open>len\<close> bytes from \<open>data\<close>.\<close>

definition RecvPacket :: "byte \<Rightarrow> byte list \<Rightarrow> byte \<Rightarrow> recv_packet" where
  "RecvPacket pid data flags =
     \<lparr>m_Id = pid, m_Data = data, m_Length = of_nat (length data), m_Flags = flags\<rparr>"

section \<open>Header\<close>

definition makeChannelAndFlags :: "byte \<Rightarrow> bool \<Rightarrow> bool \<Rightarrow> bool \<Rightarrow> bool \<Rightarrow> byte" where
  "makeChannelAndFlags channel relay sysBit isFirstFragment isLastFragment =
     (channel AND MM_CHANNEL_MASK) OR
     (if relay then MM_RELAY_BIT else 0) OR
     (if sysBit then MM_SYSTEM_BIT else 0) OR
     (if isFirstFragment then MM_FRAGMENT_FIRST_BIT else 0) OR
     (if isLastFragment then MM_FRAGMENT_LAST_BIT else 0)"

definition beginUnfragmented ::
  "u32 \<Rightarrow> byte \<Rightarrow> byte \<Rightarrow> byte \<Rightarrow> bool \<Rightarrow> bool \<Rightarrow> bin_serializer res" where
  "beginUnfragmented seq compType dataId channel relay sysBit =
     checked (write32 seq bs_reset) (\<lambda>s1.
     checked (write8 compType s1) (\<lambda>s2.
     checked (write8 (makeChannelAndFlags channel relay sysBit True True) s2) (\<lambda>s3.
       if dataId \<noteq> InvalidByte then checked (write8 dataId s3) (\<lambda>s4. Inr s4)
       else Inr s3)))"

text \<open>The overload without a sequence number: after \<open>reset\<close> it reserves 8 bytes with \<open>moveWrite\<close>.\<close>

definition beginUnfragmented_reserve ::
  "byte \<Rightarrow> byte \<Rightarrow> byte \<Rightarrow> bool \<Rightarrow> bool \<Rightarrow> bin_serializer res" where
  "beginUnfragmented_reserve compType dataId channel relay sysBit =
     checked (Inr (moveWrite 8 bs_reset)) (\<lambda>s1.
     checked (write8 compType s1) (\<lambda>s2.
     checked (write8 (makeChannelAndFlags channel relay sysBit True True) s2) (\<lambda>s3.
       if dataId \<noteq> InvalidByte then checked (write8 dataId s3) (\<lambda>s4. Inr s4)
       else Inr s3)))"

section \<open>Fragmentation\<close>

text \<open>\<open>serializers[i]\<close>: the array holds \<open>srs\<close>, the caller says how many there are.\<close>

definition serializer_at :: "bin_serializer list \<Rightarrow> nat \<Rightarrow> bin_serializer res" where
  "serializer_at srs i = (if i < length srs then Inr (srs ! i) else Inl OutOfBounds)"

fun total_length :: "bin_serializer list \<Rightarrow> nat \<Rightarrow> u32 res" where
  "total_length srs 0 = Inr 0"
| "total_length srs (Suc n) =
     rbind (total_length srs n) (\<lambda>t. rbind (serializer_at srs n) (\<lambda>b. Inr (t + bs_length b)))"

text \<open>The inner loop: append \<open>writeLen\<close> bytes, starting at \<open>offset\<close> of serializer \<open>srIdx\<close>.\<close>

function fill_fragment ::
  "bin_serializer list \<Rightarrow> nat \<Rightarrow> nat \<Rightarrow> u32 \<Rightarrow> u32 \<Rightarrow> bin_serializer \<Rightarrow> (nat \<times> u32 \<times> bin_serializer) res" where
  "fill_fragment srs numSerializers srIdx offset writeLen fragment =
     (if srIdx < numSerializers \<and> writeLen > 0
      then rbind (serializer_at srs srIdx) (\<lambda>b.
           let leftOver = bs_length b - offset
           in if writeLen < leftOver
              then rbind (mem_load (m_DataPtr b) (unat offset) (unat writeLen)) (\<lambda>xs.
                   checked (write_raw xs fragment) (\<lambda>f. Inr (srIdx, offset + writeLen, f)))
              else rbind (mem_load (m_DataPtr b) (unat offset) (unat leftOver)) (\<lambda>xs.
                   checked (write_raw xs fragment) (\<lambda>f.
                     fill_fragment srs numSerializers (Suc srIdx) 0 (writeLen - leftOver) f)))
      else Inr (srIdx, offset, fragment))"
  by pat_completeness auto
termination
  by (relation "measure (\<lambda>(srs, n, i, off, w, f). n - i)") auto

declare fill_fragment.simps [simp del]

text \<open>The outer \<open>do .. while (!quit)\<close>. The guard on the fragment size, checked once before the
  loop in the code, is a loop invariant.\<close>

function fragment_loop ::
  "bin_serializer list \<Rightarrow> nat \<Rightarrow> byte \<Rightarrow> byte \<Rightarrow> u32 \<Rightarrow> byte \<Rightarrow> bool \<Rightarrow> nat \<Rightarrow> u32 \<Rightarrow> u32
   \<Rightarrow> bin_serializer list res" where
  "fragment_loop srs num compType dataId maxFragmentSize channelAndFlags isFirstFragment srIdx offset totalLength =
     (if maxFragmentSize \<le> 12 then Inl Terminate
      else let writeLen = util_min totalLength maxFragmentSize;
               rest = totalLength - writeLen;
               flags = (if rest = 0 then channelAndFlags OR MM_FRAGMENT_LAST_BIT else channelAndFlags)
           in checked (write8 compType bs_reset) (\<lambda>f1.
              checked (write8 flags f1) (\<lambda>f2.
              checked (if isFirstFragment then write8 dataId f2 else Inr (True, f2)) (\<lambda>f3.
                let flags' = (if isFirstFragment then flags AND NOT MM_FRAGMENT_FIRST_BIT else flags)
                in rbind (fill_fragment srs num srIdx offset writeLen f3) (\<lambda>(srIdx', offset', fragment).
                   if rest = 0 then Inr [fragment]
                   else rbind (fragment_loop srs num compType dataId maxFragmentSize flags' False srIdx' offset' rest)
                          (\<lambda>frags. Inr (fragment # frags)))))))"
  by pat_completeness auto
termination
  by (relation "measure (\<lambda>(srs, num, c, d, m, fl, first, i, off, t). unat t)")
     (auto simp: util_min_def unat_sub word_less_nat_alt word_le_nat_alt split: if_splits)

declare fragment_loop.simps [simp del]

definition createNormalPacket ::
  "byte \<Rightarrow> byte \<Rightarrow> bin_serializer list \<Rightarrow> nat \<Rightarrow> byte \<Rightarrow> bool \<Rightarrow> bool \<Rightarrow> int \<Rightarrow> bin_serializer list res" where
  "createNormalPacket compType dataId srs numSerializers channel relay sysBit maxFragmentSize =
     (let maxF = maxFragmentSize - MM_MIN_HDR_SIZE
      in if maxF \<le> MM_MIN_HDR_SIZE * 2 then Inl Terminate
         else rbind (total_length srs numSerializers) (\<lambda>totalLength.
              fragment_loop srs numSerializers compType dataId (of_int maxF)
                (makeChannelAndFlags channel relay sysBit True False) True 0 0 totalLength))"

section \<open>Reassembly\<close>

type_synonym fragments = "(u32, recv_packet) stdmap"

definition isFirst :: "recv_packet \<Rightarrow> bool" where
  "isFirst p \<longleftrightarrow> m_Flags p AND MM_FRAGMENT_FIRST_BIT \<noteq> 0"

definition isLast :: "recv_packet \<Rightarrow> bool" where
  "isLast p \<longleftrightarrow> m_Flags p AND MM_FRAGMENT_LAST_BIT \<noteq> 0"

text \<open>The two search loops. \<open>None\<close>: the loop does not end; \<open>Some None\<close>: a fragment is missing.\<close>

partial_function (option) find_begin :: "fragments \<Rightarrow> u32 \<Rightarrow> u32 option option" where
  "find_begin frs seqBegin =
     (case sm_find frs seqBegin of
        None \<Rightarrow> Some None
      | Some pack \<Rightarrow> if isFirst pack then Some (Some seqBegin) else find_begin frs (seqBegin - 1))"

partial_function (option) find_end :: "fragments \<Rightarrow> u32 \<Rightarrow> u32 option option" where
  "find_end frs seqEnd =
     (case sm_find frs seqEnd of
        None \<Rightarrow> Some None
      | Some pack \<Rightarrow> if isLast pack then Some (Some seqEnd) else find_end frs (seqEnd + 1))"

text \<open>\<open>reAssembleBigPacket\<close>: \<open>stop\<close> is \<open>seqEnd + 1\<close>. A missing key would be created as a null
  pointer by \<open>fragments[curSeq]\<close> and dereferenced.\<close>

function fragments_length :: "fragments \<Rightarrow> u32 \<Rightarrow> u32 \<Rightarrow> u32 \<Rightarrow> u32 res" where
  "fragments_length frs curSeq stop totalLen =
     (if curSeq \<noteq> stop
      then case sm_find frs curSeq of
             None \<Rightarrow> Inl NullDeref
           | Some p \<Rightarrow> fragments_length frs (curSeq + 1) stop (totalLen + m_Length p)
      else Inr totalLen)"
  by pat_completeness auto
termination
proof (relation "measure (\<lambda>(frs, cur, stop, t). unat (stop - cur))")
  fix frs :: fragments and cur stop t :: u32 and p
  assume "cur \<noteq> stop"
  then have "stop - cur \<noteq> 0" by simp
  then have "unat (stop - cur - 1) < unat (stop - cur)"
    by (metis measure_unat)
  then show "((frs, cur + 1, stop, t + m_Length p), frs, cur, stop, t) \<in> measure (\<lambda>(frs, cur, stop, t). unat (stop - cur))"
    by (simp add: algebra_simps)
qed simp

declare fragments_length.simps [simp del]

function copy_fragments ::
  "fragments \<Rightarrow> u32 \<Rightarrow> u32 \<Rightarrow> u32 \<Rightarrow> mem_ptr \<Rightarrow> (mem_ptr \<times> fragments) res" where
  "copy_fragments frs curSeq stop curLen buf =
     (if curSeq \<noteq> stop
      then case sm_find frs curSeq of
             None \<Rightarrow> Inl NullDeref
           | Some frag \<Rightarrow>
               rbind (mem_load (Some (m_Data frag)) 0 (unat (m_Length frag))) (\<lambda>xs.
               rbind (mem_store buf (unat curLen) xs) (\<lambda>buf'.
                 copy_fragments (sm_erase curSeq frs) (curSeq + 1) stop (curLen + m_Length frag) buf'))
      else Inr (buf, frs))"
  by pat_completeness auto
termination
proof (relation "measure (\<lambda>(frs, cur, stop, l, b). unat (stop - cur))")
  fix frs :: fragments and cur stop l :: u32 and frag b b'
  assume "cur \<noteq> stop"
  then have "stop - cur \<noteq> 0" by simp
  then have "unat (stop - cur - 1) < unat (stop - cur)"
    by (metis measure_unat)
  then show "((sm_erase cur frs, cur + 1, stop, l + m_Length frag, b'), frs, cur, stop, l, b)
      \<in> measure (\<lambda>(frs, cur, stop, l, b). unat (stop - cur))"
    by (simp add: algebra_simps)
qed simp

declare copy_fragments.simps [simp del]

definition reAssembleBigPacket :: "fragments \<Rightarrow> u32 \<Rightarrow> u32 \<Rightarrow> (recv_packet \<times> fragments) res" where
  "reAssembleBigPacket frs seqBegin seqEnd =
     rbind (fragments_length frs seqBegin (seqEnd + 1) 0) (\<lambda>totalLen.
       case sm_find frs seqBegin of
         None \<Rightarrow> Inl NullDeref
       | Some firstFrag \<Rightarrow>
           rbind (copy_fragments frs seqBegin (seqEnd + 1) 0 (Some (replicate (unat totalLen) 0))) (\<lambda>(buf, frs').
             Inr (\<lparr>m_Id = m_Id firstFrag, m_Data = the buf, m_Length = totalLen,
                   m_Flags = m_Flags firstFrag\<rparr>, frs')))"

text \<open>Result: the packet with \<open>seqBegin\<close> and \<open>seqEnd\<close> when all fragments are there.\<close>

definition tryReassembleBigPacket ::
  "fragments \<Rightarrow> u32 \<Rightarrow> ((recv_packet \<times> u32 \<times> u32) option \<times> fragments) res option" where
  "tryReassembleBigPacket frs seq =
     (case find_begin frs seq of
        None \<Rightarrow> None
      | Some None \<Rightarrow> Some (Inr (None, frs))
      | Some (Some seqBegin) \<Rightarrow>
          (case find_end frs seq of
             None \<Rightarrow> None
           | Some None \<Rightarrow> Some (Inr (None, frs))
           | Some (Some seqEnd) \<Rightarrow>
               Some (rbind (reAssembleBigPacket frs seqBegin seqEnd) (\<lambda>(p, frs').
                 Inr (Some (p, seqBegin, seqEnd), frs')))))"

section \<open>Sequence numbers\<close>

definition isSeqNewer :: "u32 \<Rightarrow> u32 \<Rightarrow> bool" where
  "isSeqNewer incoming having = (incoming - having \<le> MM_NEWER_SEQ_RANGE)"

section \<open>The header bits\<close>

lemma and_bit_byte:
  "(w::byte) AND 8 \<noteq> 0 \<longleftrightarrow> bit w 3" "w AND 16 \<noteq> 0 \<longleftrightarrow> bit w 4" "w AND 32 \<noteq> 0 \<longleftrightarrow> bit w 5"
  "w AND 4 \<noteq> 0 \<longleftrightarrow> bit w 2"
  using bit_iff_and_push_bit_not_eq_0 [of w 3] bit_iff_and_push_bit_not_eq_0 [of w 4]
    bit_iff_and_push_bit_not_eq_0 [of w 5] bit_iff_and_push_bit_not_eq_0 [of w 2]
  by (simp_all add: push_bit_of_1)

lemma flags_first: "makeChannelAndFlags ch relay sys f l AND MM_FRAGMENT_FIRST_BIT \<noteq> 0 \<longleftrightarrow> f"
  unfolding MM_FRAGMENT_FIRST_BIT_def and_bit_byte
  by (simp add: makeChannelAndFlags_def packet_consts bit_simps)

lemma flags_last: "makeChannelAndFlags ch relay sys f l AND MM_FRAGMENT_LAST_BIT \<noteq> 0 \<longleftrightarrow> l"
  unfolding MM_FRAGMENT_LAST_BIT_def and_bit_byte
  by (simp add: makeChannelAndFlags_def packet_consts bit_simps)

lemma flags_system: "makeChannelAndFlags ch relay sys f l AND MM_SYSTEM_BIT \<noteq> 0 \<longleftrightarrow> sys"
  unfolding MM_SYSTEM_BIT_def and_bit_byte
  by (simp add: makeChannelAndFlags_def packet_consts bit_simps)

lemma flags_channel:
  "makeChannelAndFlags ch relay sys f l AND MM_CHANNEL_MASK = (ch AND 7) OR (if relay then 4 else 0)"
  by (rule byte_eqI, unfold all_lt_upt upt8)
     (simp add: makeChannelAndFlags_def packet_consts bit_enum)

lemma flags_add_last:
  "makeChannelAndFlags ch relay sys f False OR MM_FRAGMENT_LAST_BIT = makeChannelAndFlags ch relay sys f True"
  by (rule byte_eqI, unfold all_lt_upt upt8)
     (simp add: makeChannelAndFlags_def packet_consts bit_enum)

lemma flags_drop_first:
  "makeChannelAndFlags ch relay sys f l AND NOT MM_FRAGMENT_FIRST_BIT = makeChannelAndFlags ch relay sys False l"
  by (rule byte_eqI, unfold all_lt_upt upt8)
     (simp add: makeChannelAndFlags_def packet_consts bit_enum)

lemma beginUnfragmented_ok:
  "\<exists>s. beginUnfragmented seq compType dataId channel relay sysBit = Inr s \<and> bs_inv s \<and> m_Owns s \<and> m_ReadPos s = 0 \<and>
     content s = rev (le32 seq) @ [compType, makeChannelAndFlags channel relay sysBit True True] @
                 (if dataId \<noteq> InvalidByte then [dataId] else [])"
proof -
  let ?fl = "makeChannelAndFlags channel relay sysBit True True"
  obtain s1 where s1: "write32 seq bs_reset = Inr (True, s1)" "appended bs_reset (rev (le32 seq)) s1"
    using u32_codec.put_ok [of bs_reset seq] by (auto simp: max_stream_def)
  then obtain s2 where s2: "write8 compType s1 = Inr (True, s2)" "appended s1 [compType] s2"
    using byte_codec.put_ok [of s1 compType] by (auto simp: appended_def max_stream_def)
  then obtain s3 where s3: "write8 ?fl s2 = Inr (True, s3)" "appended s2 [?fl] s3"
    using byte_codec.put_ok [of s2 ?fl] s1(2) by (auto simp: appended_def max_stream_def)
  then obtain s4 where s4: "write8 dataId s3 = Inr (True, s4)" "appended s3 [dataId] s4"
    using byte_codec.put_ok [of s3 dataId] s1(2) s2(2) by (auto simp: appended_def max_stream_def)
  show ?thesis
    using s1 s2 s3 s4 by (auto simp: beginUnfragmented_def appended_def)
qed

text \<open>The overload that reserves room first cannot succeed: the buffer is empty after \<open>reset\<close>.\<close>

lemma beginUnfragmented_reserve_fails:
  "beginUnfragmented_reserve compType dataId channel relay sysBit = Inl Terminate"
  by (simp add: beginUnfragmented_reserve_def moveWrite_def setWrite_def bs_reset_def)

section \<open>Fragmentation\<close>

definition remaining :: "bin_serializer list \<Rightarrow> nat \<Rightarrow> u32 \<Rightarrow> byte list" where
  "remaining srs i off =
     (if i < length srs then drop (unat off) (content (srs ! i)) @ concat (map content (drop (Suc i) srs)) else [])"

definition position_ok :: "bin_serializer list \<Rightarrow> nat \<Rightarrow> u32 \<Rightarrow> bool" where
  "position_ok srs i off \<longleftrightarrow> (i < length srs \<longrightarrow> unat off \<le> length (content (srs ! i)))"

lemma load_content:
  assumes "bs_inv b" and "unat off + n \<le> length (content b)"
  shows "mem_load (m_DataPtr b) (unat off) n = Inr (take n (drop (unat off) (content b)))"
proof (cases "m_DataPtr b")
  case None
  with assms show ?thesis by (simp add: content_def)
next
  case (Some buf)
  have wl: "unat (m_WritePos b) \<le> length buf" using assms(1) Some by (auto simp: bs_inv_def word_le_nat_alt)
  have on: "unat off + n \<le> unat (m_WritePos b)" using assms by (simp add: length_content)
  then have "mem_load (m_DataPtr b) (unat off) n = Inr (take n (drop (unat off) buf))"
    using wl Some by (simp add: mem_load_in)
  moreover have "content b = take (unat (m_WritePos b)) buf" using Some by (simp add: content_def)
  ultimately show ?thesis using on by (simp add: drop_take min_absorb1)
qed

lemma remaining_next:
  assumes "i < length srs"
  shows "remaining srs (Suc i) 0 = concat (map content (drop (Suc i) srs))"
proof (cases "Suc i < length srs")
  case True
  then show ?thesis using Cons_nth_drop_Suc [OF True] by (simp add: remaining_def) (metis concat.simps(2) list.map(2))
qed (simp add: remaining_def)

lemma fill_fragment_ok:
  assumes "\<forall>b \<in> set srs. bs_inv b" and "i \<le> length srs" and "position_ok srs i off"
    and "bs_inv f" and "m_Owns f"
    and "unat w \<le> length (remaining srs i off)" and "length (content f) + unat w \<le> max_stream"
  shows "\<exists>i' off' f'. fill_fragment srs (length srs) i off w f = Inr (i', off', f') \<and>
    appended f (take (unat w) (remaining srs i off)) f' \<and>
    remaining srs i' off' = drop (unat w) (remaining srs i off) \<and> i' \<le> length srs \<and> position_ok srs i' off'"
  using assms
proof (induction "length srs - i" arbitrary: i off w f)
  case 0
  then have "remaining srs i off = []" "\<not> i < length srs" by (auto simp: remaining_def)
  with 0 show ?case by (subst fill_fragment.simps) (simp add: appended_def position_ok_def)
next
  case (Suc k)
  then have i: "i < length srs" by simp
  let ?b = "srs ! i" and ?left = "bs_length (srs ! i) - off"
  show ?case
  proof (cases "w > 0")
    case False
    then have "w = 0" by (simp add: word_gt_0)
    with Suc.prems show ?thesis by (subst fill_fragment.simps) (simp add: appended_def)
  next
    case w: True
    have inv: "bs_inv ?b" using Suc.prems(1) i by simp
    have offle: "unat off \<le> unat (bs_length ?b)"
      using Suc.prems(3) i inv by (simp add: position_ok_def length_content bs_length_def)
    have left: "unat ?left = length (content ?b) - unat off"
      using offle inv by (simp add: unat_sub word_le_nat_alt length_content bs_length_def)
    have rem: "remaining srs i off = drop (unat off) (content ?b) @ remaining srs (Suc i) 0"
      using i by (simp add: remaining_next) (simp add: remaining_def)
    show ?thesis
    proof (cases "w < ?left")
      case True
      then have wl: "unat w < length (content ?b) - unat off" using left by (simp add: word_less_nat_alt)
      let ?xs = "take (unat w) (drop (unat off) (content ?b))"
      have ld: "mem_load (m_DataPtr ?b) (unat off) (unat w) = Inr ?xs"
        using inv wl by (intro load_content) auto
      have lx: "length ?xs = unat w" using wl by simp
      obtain f' where f': "write_raw ?xs f = Inr (True, f')" "appended f ?xs f'"
        using write_raw_ok [of f ?xs] Suc.prems lx by auto
      have ow: "unat (off + w) = unat off + unat w"
        using wl unat_lt32 [of "m_WritePos ?b"] length_content [OF inv] by (intro unat_add_small) linarith
      have "fill_fragment srs (length srs) i off w f = Inr (i, off + w, f')"
        using i w True ld f' by (subst fill_fragment.simps) (simp add: serializer_at_def)
      moreover have "take (unat w) (remaining srs i off) = ?xs" using wl rem by simp
      moreover have "remaining srs i (off + w) = drop (unat w) (remaining srs i off)"
        using i wl ow by (simp add: remaining_def add.commute)
      ultimately show ?thesis using f' i wl ow by (auto simp: position_ok_def)
    next
      case False
      then have wl: "length (content ?b) - unat off \<le> unat w" using left by (simp add: word_less_nat_alt)
      let ?xs = "drop (unat off) (content ?b)"
      have ld: "mem_load (m_DataPtr ?b) (unat off) (unat ?left) = Inr ?xs"
        using inv left offle by (subst load_content) (auto simp: length_content bs_length_def)
      have lx: "length ?xs = unat ?left" using left by simp
      obtain f1 where f1: "write_raw ?xs f = Inr (True, f1)" "appended f ?xs f1"
        using write_raw_ok [of f ?xs] Suc.prems lx wl by auto
      have w1: "unat (w - ?left) = unat w - unat ?left"
        using wl left by (simp add: unat_sub word_le_nat_alt)
      have "\<exists>i' off' f'. fill_fragment srs (length srs) (Suc i) 0 (w - ?left) f1 = Inr (i', off', f') \<and>
          appended f1 (take (unat (w - ?left)) (remaining srs (Suc i) 0)) f' \<and>
          remaining srs i' off' = drop (unat (w - ?left)) (remaining srs (Suc i) 0) \<and>
          i' \<le> length srs \<and> position_ok srs i' off'"
      proof (rule Suc.hyps(1))
        show "k = length srs - Suc i" using Suc.hyps(2) by simp
        show "position_ok srs (Suc i) 0" by (simp add: position_ok_def)
        show "bs_inv f1" "m_Owns f1" using f1(2) by (auto simp: appended_def)
        show "unat (w - ?left) \<le> length (remaining srs (Suc i) 0)"
          using Suc.prems(6) rem w1 left by simp
        show "length (content f1) + unat (w - ?left) \<le> max_stream"
          using Suc.prems(7) f1(2) w1 lx wl left by (simp add: appended_def)
      qed (use Suc.prems i in auto)
      then obtain i' off' f' where r: "fill_fragment srs (length srs) (Suc i) 0 (w - ?left) f1 = Inr (i', off', f')"
        "appended f1 (take (unat (w - ?left)) (remaining srs (Suc i) 0)) f'"
        "remaining srs i' off' = drop (unat (w - ?left)) (remaining srs (Suc i) 0)"
        "i' \<le> length srs" "position_ok srs i' off'" by blast
      have "fill_fragment srs (length srs) i off w f = Inr (i', off', f')"
        using i w False ld f1 r(1) by (subst fill_fragment.simps) (simp add: serializer_at_def)
      moreover have "take (unat w) (remaining srs i off) = ?xs @ take (unat (w - ?left)) (remaining srs (Suc i) 0)"
        using rem w1 wl left by simp
      moreover have "drop (unat w) (remaining srs i off) = drop (unat (w - ?left)) (remaining srs (Suc i) 0)"
        using rem w1 wl left by simp
      ultimately show ?thesis using r appended_trans [OF f1(2) r(2)] by auto
    qed
  qed
qed

text \<open>What the fragments carry: the message cut into pieces of at most \<open>n\<close> bytes (one empty piece
  for an empty message), each with the component, the flags and, in the first one, the data id.\<close>

function chop :: "nat \<Rightarrow> 'a list \<Rightarrow> 'a list list" where
  "chop n xs = (if n = 0 \<or> length xs \<le> n then [xs] else take n xs # chop n (drop n xs))"
  by pat_completeness auto
termination by (relation "measure (\<lambda>(n, xs). length xs)") auto

declare chop.simps [simp del]

fun fragment_images :: "byte \<Rightarrow> byte \<Rightarrow> (bool \<Rightarrow> bool \<Rightarrow> byte) \<Rightarrow> bool \<Rightarrow> byte list list \<Rightarrow> byte list list" where
  "fragment_images compType dataId flags first [] = []"
| "fragment_images compType dataId flags first (c # cs) =
     ([compType, flags first (cs = [])] @ (if first then [dataId] else []) @ c)
     # fragment_images compType dataId flags False cs"

lemma concat_chop: "concat (chop n xs) = xs"
proof (induction n xs rule: chop.induct)
  case (1 n xs)
  then show ?case by (subst chop.simps) auto
qed

lemma chop_not_Nil [simp]: "chop n xs \<noteq> []"
  by (subst chop.simps) simp

lemma chop_length: "0 < n \<Longrightarrow> c \<in> set (chop n xs) \<Longrightarrow> length c \<le> n"
proof (induction n xs rule: chop.induct)
  case (1 n xs)
  show ?case
  proof (cases "length xs \<le> n")
    case True
    then have "chop n xs = [xs]" by (subst chop.simps) simp
    with 1 True show ?thesis by simp
  next
    case False
    then have "chop n xs = take n xs # chop n (drop n xs)" using 1(2) by (subst chop.simps) simp
    with 1 False show ?thesis by auto
  qed
qed

lemma checked_write8:
  assumes "bs_inv s" and "m_Owns s" and "length (content s) < max_stream"
  shows "\<exists>s'. write8 b s = Inr (True, s') \<and> appended s [b] s'"
  using byte_codec.put_ok [of s b] assms by auto

lemma fragment_loop_ok:
  assumes "\<forall>b \<in> set srs. bs_inv b" and "i \<le> length srs" and "position_ok srs i off"
    and "unat tot = length (remaining srs i off)" and "12 < maxF" and "unat maxF < 2000000000"
  shows "\<exists>frags. fragment_loop srs (length srs) ct did maxF
      (makeChannelAndFlags ch relay sys first False) first i off tot = Inr frags \<and>
    map content frags = fragment_images ct did (makeChannelAndFlags ch relay sys) first
      (chop (unat maxF) (remaining srs i off)) \<and>
    (\<forall>f \<in> set frags. bs_inv f \<and> m_Owns f \<and> m_ReadPos f = 0)"
  using assms
proof (induction "unat tot" arbitrary: tot i off first rule: less_induct)
  case less
  let ?R = "remaining srs i off" and ?w = "util_min tot maxF"
  let ?rest = "tot - util_min tot maxF"
  let ?mk = "makeChannelAndFlags ch relay sys"
  let ?fl = "if ?rest = 0 then ?mk first False OR MM_FRAGMENT_LAST_BIT else ?mk first False"
  have wu: "unat ?w = min (unat tot) (unat maxF)"
    by (simp add: util_min_def word_less_nat_alt min_def)
  have ru: "unat ?rest = unat tot - unat ?w"
    using wu by (simp add: unat_sub word_le_nat_alt)
  have nle: "(maxF \<le> 12) = False" using less.prems(5) by simp
  have fl: "?fl = ?mk first (?rest = 0)" by (simp add: flags_add_last)
  have fl': "(if first then ?fl AND NOT MM_FRAGMENT_FIRST_BIT else ?fl) = ?mk False (?rest = 0)"
    unfolding fl by (simp add: flags_drop_first)
  obtain f1 where f1: "write8 ct bs_reset = Inr (True, f1)" "appended bs_reset [ct] f1"
    using checked_write8 [of bs_reset ct] by (auto simp: max_stream_def)
  obtain f2 where f2: "write8 ?fl f1 = Inr (True, f2)" "appended f1 [?fl] f2"
    using checked_write8 [of f1 ?fl] f1(2) by (auto simp: appended_def max_stream_def)
  obtain f3 where f3: "(if first then write8 did f2 else Inr (True, f2)) = Inr (True, f3)"
      "appended f2 (if first then [did] else []) f3"
    using checked_write8 [of f2 did] f1(2) f2(2) by (cases first) (auto simp: appended_def max_stream_def)
  have c3: "content f3 = [ct, ?fl] @ (if first then [did] else [])"
    using f1(2) f2(2) f3(2) by (simp add: appended_def)
  have f3i: "bs_inv f3" "m_Owns f3" using f3(2) by (auto simp: appended_def)
  have wr: "unat ?w \<le> length ?R" using wu less.prems(4) by simp
  have room: "length (content f3) + unat ?w \<le> max_stream"
    using wu less.prems(6) by (simp add: c3 max_stream_def min_def)
  obtain i' off' f where fill: "fill_fragment srs (length srs) i off ?w f3 = Inr (i', off', f)"
      "appended f3 (take (unat ?w) ?R) f" "remaining srs i' off' = drop (unat ?w) ?R"
      "i' \<le> length srs" "position_ok srs i' off'"
    using fill_fragment_ok [OF less.prems(1,2,3) f3i wr room] by blast
  have cf: "content f = [ct, ?fl] @ (if first then [did] else []) @ take (unat ?w) ?R"
    using fill(2) c3 by (simp add: appended_def)
  have inv: "bs_inv f \<and> m_Owns f \<and> m_ReadPos f = 0"
    using f1(2) f2(2) f3(2) fill(2) by (auto simp: appended_def)
  have step: "fragment_loop srs (length srs) ct did maxF (?mk first False) first i off tot =
      (if ?rest = 0 then Inr [f]
       else rbind (fragment_loop srs (length srs) ct did maxF (?mk False (?rest = 0)) False i' off' ?rest)
              (\<lambda>frags. Inr (f # frags)))"
    by (subst fragment_loop.simps)
       (simp only: nle if_False Let_def f1(1) f2(1) f3(1) fill(1) fl' checked_True rbind_Inr prod.case)
  show ?case
  proof (cases "?rest = 0")
    case True
    then have le: "length ?R \<le> unat maxF" using ru wu less.prems(4) by auto
    then have "chop (unat maxF) ?R = [?R]" by (subst chop.simps) simp
    moreover have "take (unat ?w) ?R = ?R" using wu le less.prems(4) by simp
    ultimately show ?thesis using step True cf inv fl by auto
  next
    case False
    then have gt: "unat maxF < unat tot" using ru wu by (auto simp: unat_eq_zero min_def split: if_splits)
    then have w: "unat ?w = unat maxF" using wu by simp
    have lt: "unat ?rest < unat tot" using ru w gt less.prems(5) by (simp add: word_less_nat_alt)
    have "unat ?rest = length (remaining srs i' off')" using ru w gt fill(3) less.prems(4) by simp
    from less.hyps [OF lt less.prems(1) fill(4,5) this less.prems(5,6), of False] obtain frags where
      fr: "fragment_loop srs (length srs) ct did maxF (?mk False False) False i' off' ?rest = Inr frags"
      "map content frags = fragment_images ct did ?mk False (chop (unat maxF) (remaining srs i' off'))"
      "\<forall>f \<in> set frags. bs_inv f \<and> m_Owns f \<and> m_ReadPos f = 0" by blast
    have ch: "chop (unat maxF) ?R = take (unat maxF) ?R # chop (unat maxF) (drop (unat maxF) ?R)"
      using gt less.prems(4,5) by (subst chop.simps) (auto simp: word_less_nat_alt)
    have "fragment_loop srs (length srs) ct did maxF (?mk first False) first i off tot = Inr (f # frags)"
      using step False fr(1) by simp
    then show ?thesis using fr ch cf inv fl w fill(3) False by auto
  qed
qed

lemma total_length_ok:
  assumes "\<forall>b \<in> set srs. bs_inv b" and "n \<le> length srs"
    and "length (concat (map content (take n srs))) < 2 ^ 32"
  shows "total_length srs n = Inr (of_nat (length (concat (map content (take n srs)))))"
  using assms
proof (induction n)
  case (Suc n)
  then have n: "n < length srs" by simp
  have c: "concat (map content (take (Suc n) srs)) = concat (map content (take n srs)) @ content (srs ! n)"
    using n by (simp add: take_Suc_conv_app_nth)
  have "bs_length (srs ! n) = of_nat (length (content (srs ! n)))"
    using Suc.prems n by (simp add: bs_length_def length_content)
  then show ?case using Suc n c by (simp add: serializer_at_def)
qed simp

lemma createNormalPacket_ok:
  assumes inv: "\<forall>b \<in> set srs. bs_inv b" and len: "length (concat (map content srs)) < 2 ^ 32"
    and max: "18 < maxF" "maxF < 2000000000"
  shows "\<exists>frags. createNormalPacket ct did srs (length srs) ch relay sys maxF = Inr frags \<and>
    map content frags = fragment_images ct did (makeChannelAndFlags ch relay sys) True
      (chop (nat (maxF - 6)) (concat (map content srs))) \<and>
    (\<forall>f \<in> set frags. bs_inv f \<and> m_Owns f \<and> m_ReadPos f = 0)"
proof -
  let ?all = "concat (map content srs)"
  have t: "total_length srs (length srs) = Inr (of_nat (length ?all))"
    using total_length_ok [of srs "length srs"] inv len by simp
  have m: "unat (of_int (maxF - 6) :: u32) = nat (maxF - 6)"
    using max by (intro unat_of_int32) auto
  have n: "12 < nat (maxF - 6)" "nat (maxF - 6) < 2000000000" using max by linarith+
  have r: "remaining srs 0 0 = ?all" by (cases srs) (simp_all add: remaining_def)
  obtain frags where fr: "fragment_loop srs (length srs) ct did (of_int (maxF - 6))
      (makeChannelAndFlags ch relay sys True False) True 0 0 (of_nat (length ?all)) = Inr frags"
    "map content frags = fragment_images ct did (makeChannelAndFlags ch relay sys) True
      (chop (nat (maxF - 6)) ?all)" "\<forall>f \<in> set frags. bs_inv f \<and> m_Owns f \<and> m_ReadPos f = 0"
    using fragment_loop_ok [of srs 0 0 "of_nat (length ?all)" "of_int (maxF - 6)" ct did ch relay sys True]
      inv r m len n
    by (auto simp: position_ok_def unat_of_nat32 word_less_nat_alt)
  then show ?thesis using t max by (simp add: createNormalPacket_def MM_MIN_HDR_SIZE_def)
qed

section \<open>Reassembly\<close>

text \<open>\<open>run_at frs b fs\<close>: the fragments \<open>fs\<close> are stored under the consecutive sequence numbers
  from \<open>b\<close> on, modulo \<open>2 ^ 32\<close>.\<close>

definition run_at :: "fragments \<Rightarrow> u32 \<Rightarrow> recv_packet list \<Rightarrow> bool" where
  "run_at frs b fs \<longleftrightarrow> (\<forall>i < length fs. sm_find frs (b + of_nat i) = Some (fs ! i))"

definition packet_ok :: "recv_packet \<Rightarrow> bool" where
  "packet_ok p \<longleftrightarrow> m_Length p = of_nat (length (m_Data p)) \<and> length (m_Data p) < 2 ^ 32"

definition run_keys :: "u32 \<Rightarrow> nat \<Rightarrow> u32 list" where
  "run_keys b n = map (\<lambda>i. b + of_nat i) [0..<n]"

lemma run_keys_Suc: "run_keys b (Suc n) = b # run_keys (b + 1) n"
proof -
  have "[0..<Suc n] = 0 # map Suc [0..<n]" by (simp only: map_Suc_upt upt_conv_Cons zero_less_Suc)
  then show ?thesis by (simp add: run_keys_def del: upt_Suc)
qed

lemma run_at_hd: "run_at frs b (f # fs) \<Longrightarrow> sm_find frs b = Some f"
  unfolding run_at_def by (drule spec [of _ 0]) simp

lemma run_at_tl: "run_at frs b (f # fs) \<Longrightarrow> run_at frs (b + 1) fs"
  unfolding run_at_def
proof (intro allI impI)
  fix i assume a: "\<forall>i<length (f # fs). sm_find frs (b + of_nat i) = Some ((f # fs) ! i)" "i < length fs"
  then have "sm_find frs (b + of_nat (Suc i)) = Some ((f # fs) ! Suc i)" by (metis Suc_less_eq length_Cons)
  then show "sm_find frs (b + 1 + of_nat i) = Some (fs ! i)" by (simp add: algebra_simps)
qed

lemma run_at_erase:
  assumes "sm_ok frs" and "run_at frs b (f # fs)" and "length fs < 2 ^ 32 - 1"
  shows "run_at (sm_erase b frs) (b + 1) fs"
  unfolding run_at_def
proof (intro allI impI)
  fix i assume i: "i < length fs"
  have "b + 1 + of_nat i \<noteq> b"
  proof
    assume "b + 1 + of_nat i = b"
    then have "(of_nat (Suc i) :: u32) = 0" by (simp add: add.assoc)
    moreover have "unat (of_nat (Suc i) :: u32) = Suc i" using i assms(3) by (intro unat_of_nat32) simp
    ultimately show False by (metis nat.distinct(1) unsigned_0)
  qed
  then show "sm_find (sm_erase b frs) (b + 1 + of_nat i) = Some (fs ! i)"
    using run_at_tl [OF assms(2)] i assms(1) by (simp add: run_at_def sm_find_erase)
qed

lemma stop_ne:
  assumes "length (f # fs) < 2 ^ 32"
  shows "(b::u32) \<noteq> b + of_nat (length (f # fs))"
proof
  assume "b = b + of_nat (length (f # fs))"
  then have "(of_nat (length (f # fs)) :: u32) = 0" by (metis add_cancel_right_right)
  moreover have "unat (of_nat (length (f # fs)) :: u32) = length (f # fs)" using assms by (rule unat_of_nat32)
  ultimately show False by (metis length_0_conv list.discI unsigned_0)
qed

lemma fragments_length_ok:
  assumes "run_at frs b fs" and "length fs < 2 ^ 32" and "\<forall>p \<in> set fs. packet_ok p"
  shows "fragments_length frs b (b + of_nat (length fs)) t = Inr (t + of_nat (length (concat (map m_Data fs))))"
  using assms
proof (induction fs arbitrary: b t)
  case Nil
  show ?case by (subst fragments_length.simps) simp
next
  case (Cons f fs)
  have ne: "b \<noteq> b + of_nat (length (f # fs))" using Cons.prems by (intro stop_ne)
  have stop: "b + of_nat (length (f # fs)) = (b + 1) + of_nat (length fs)" by simp
  have "fragments_length frs b (b + of_nat (length (f # fs))) t =
      fragments_length frs (b + 1) (b + of_nat (length (f # fs))) (t + m_Length f)"
    by (subst fragments_length.simps) (simp only: ne run_at_hd [OF Cons.prems(1)] if_True option.case simp_thms)
  also have "\<dots> = Inr (t + m_Length f + of_nat (length (concat (map m_Data fs))))"
    unfolding stop using Cons.prems by (intro Cons.IH run_at_tl) auto
  finally show ?case using Cons.prems(3) by (simp add: packet_ok_def)
qed

lemma copy_fragments_ok:
  assumes "sm_ok frs" and "run_at frs b fs" and "length fs < 2 ^ 32" and "\<forall>p \<in> set fs. packet_ok p"
    and "length (before @ concat (map m_Data fs)) < 2 ^ 32" and "length room = length (concat (map m_Data fs))"
  shows "copy_fragments frs b (b + of_nat (length fs)) (of_nat (length before)) (Some (before @ room)) =
    Inr (Some (before @ concat (map m_Data fs)), fold sm_erase (run_keys b (length fs)) frs)"
  using assms
proof (induction fs arbitrary: b frs before room)
  case Nil
  then show ?case by (subst copy_fragments.simps) (simp add: run_keys_def)
next
  case (Cons f fs)
  have ne: "b \<noteq> b + of_nat (length (f # fs))" using Cons.prems(3) by (intro stop_ne)
  have stop: "b + of_nat (length (f # fs)) = (b + 1) + of_nat (length fs)" by simp
  let ?d = "m_Data f" and ?room = "drop (length (m_Data f)) room"
  have f: "m_Length f = of_nat (length ?d)" "length ?d < 2 ^ 32" "unat (m_Length f) = length ?d"
    using Cons.prems(4) by (auto simp: packet_ok_def unat_of_nat32)
  have ld: "mem_load (Some ?d) 0 (unat (m_Length f)) = Inr ?d" using f by (simp add: mem_load_in)
  have lb: "unat (of_nat (length before) :: u32) = length before" using Cons.prems(5) by (intro unat_of_nat32) simp
  have st: "mem_store (Some (before @ room)) (unat (of_nat (length before) :: u32)) ?d =
      Inr (Some ((before @ ?d) @ ?room))"
    unfolding lb using Cons.prems(6) by (subst mem_store_in) auto
  have len: "of_nat (length before) + m_Length f = (of_nat (length (before @ ?d)) :: u32)" using f by simp
  have "copy_fragments frs b (b + of_nat (length (f # fs))) (of_nat (length before)) (Some (before @ room)) =
      copy_fragments (sm_erase b frs) (b + 1) (b + of_nat (length (f # fs)))
        (of_nat (length (before @ ?d))) (Some ((before @ ?d) @ ?room))"
    by (subst copy_fragments.simps)
       (simp only: ne run_at_hd [OF Cons.prems(2)] ld st len if_True option.case simp_thms rbind_Inr)
  also have "\<dots> = Inr (Some ((before @ ?d) @ concat (map m_Data fs)),
      fold sm_erase (run_keys (b + 1) (length fs)) (sm_erase b frs))"
    unfolding stop using Cons.prems
    by (intro Cons.IH sm_ok_erase run_at_erase) auto
  finally show ?case by (simp add: run_keys_Suc)
qed

lemma find_begin_ok:
  assumes "run_at frs b fs" and "k < length fs" and "isFirst (fs ! 0)" and "\<forall>j. 0 < j \<and> j \<le> k \<longrightarrow> \<not> isFirst (fs ! j)"
  shows "find_begin frs (b + of_nat k) = Some (Some b)"
  using assms
proof (induction k)
  case 0
  then have "sm_find frs b = Some (fs ! 0)" by (auto simp: run_at_def dest: spec [of _ 0])
  with 0 show ?case by (subst find_begin.simps) simp
next
  case (Suc k)
  have "find_begin frs (b + of_nat (Suc k)) = find_begin frs (b + of_nat (Suc k) - 1)"
    using Suc.prems by (subst find_begin.simps) (simp add: run_at_def del: of_nat_Suc)
  moreover have "b + of_nat (Suc k) - 1 = b + of_nat k" by simp
  ultimately show ?case using Suc by simp
qed

lemma find_end_ok:
  assumes "run_at frs b fs" and "k + d < length fs" and "isLast (fs ! (k + d))" and "\<forall>j. k \<le> j \<and> j < k + d \<longrightarrow> \<not> isLast (fs ! j)"
  shows "find_end frs (b + of_nat k) = Some (Some (b + of_nat (k + d)))"
  using assms
proof (induction d arbitrary: k)
  case 0
  then show ?case by (subst find_end.simps) (simp add: run_at_def)
next
  case (Suc d)
  have "find_end frs (b + of_nat k) = find_end frs (b + of_nat k + 1)"
    using Suc.prems by (subst find_end.simps) (simp add: run_at_def)
  moreover have "b + of_nat k + 1 = b + of_nat (Suc k)" by simp
  moreover have "find_end frs (b + of_nat (Suc k)) = Some (Some (b + of_nat (Suc k + d)))"
    using Suc.prems by (intro Suc.IH) auto
  ultimately show ?case by (metis add_Suc_shift)
qed

text \<open>\<open>big_packet fs\<close>: a complete message in fragments, only the first one marked first and only the
  last one marked last.\<close>

definition big_packet :: "recv_packet list \<Rightarrow> bool" where
  "big_packet fs \<longleftrightarrow> fs \<noteq> [] \<and> length fs < 2 ^ 32 \<and> (\<forall>p \<in> set fs. packet_ok p) \<and>
     length (concat (map m_Data fs)) < 2 ^ 32 \<and>
     (\<forall>j < length fs. isFirst (fs ! j) = (j = 0) \<and> isLast (fs ! j) = (Suc j = length fs))"

definition joined :: "recv_packet list \<Rightarrow> recv_packet" where
  "joined fs = \<lparr>m_Id = m_Id (hd fs), m_Data = concat (map m_Data fs),
     m_Length = of_nat (length (concat (map m_Data fs))), m_Flags = m_Flags (hd fs)\<rparr>"

lemma tryReassemble_complete:
  assumes "sm_ok frs" and "run_at frs b fs" and "big_packet fs" and "k < length fs"
  shows "tryReassembleBigPacket frs (b + of_nat k) =
    Some (Inr (Some (joined fs, b, b + of_nat (length fs - 1)),
               fold sm_erase (run_keys b (length fs)) frs))"
proof -
  let ?n = "length fs" and ?all = "concat (map m_Data fs)"
  from assms(3) have bp: "fs \<noteq> []" "?n < 2 ^ 32" "\<forall>p \<in> set fs. packet_ok p" "length ?all < 2 ^ 32"
    "\<And>j. j < ?n \<Longrightarrow> isFirst (fs ! j) = (j = 0)" "\<And>j. j < ?n \<Longrightarrow> isLast (fs ! j) = (Suc j = ?n)"
    by (auto simp: big_packet_def)
  have fb: "find_begin frs (b + of_nat k) = Some (Some b)"
    using assms(2,4) bp(1) bp(5) [of 0] bp(5) by (intro find_begin_ok) auto
  have fe: "find_end frs (b + of_nat k) = Some (Some (b + of_nat (?n - 1)))"
    using find_end_ok [of frs b fs k "?n - 1 - k"] assms(2,4) bp(6) by auto
  have stop: "b + of_nat (?n - 1) + 1 = b + of_nat ?n" using bp(1) by (cases fs) auto
  have hd: "sm_find frs b = Some (hd fs)" using run_at_hd [of frs b "hd fs" "tl fs"] assms(2) bp(1) by simp
  have len: "fragments_length frs b (b + of_nat ?n) 0 = Inr (of_nat (length ?all))"
    using fragments_length_ok [OF assms(2) bp(2,3), of 0] by simp
  have ul: "unat (of_nat (length ?all) :: u32) = length ?all" using bp(4) by (rule unat_of_nat32)
  have copy: "copy_fragments frs b (b + of_nat ?n) 0 (Some (replicate (length ?all) 0)) =
      Inr (Some ?all, fold sm_erase (run_keys b ?n) frs)"
    using copy_fragments_ok [OF assms(1,2) bp(2,3), of "[]" "replicate (length ?all) 0"] bp(4) by simp
  have "reAssembleBigPacket frs b (b + of_nat (?n - 1)) = Inr (joined fs, fold sm_erase (run_keys b ?n) frs)"
    unfolding reAssembleBigPacket_def stop len rbind_Inr hd option.case ul copy by (simp add: joined_def)
  then show ?thesis by (simp add: tryReassembleBigPacket_def fb fe)
qed

text \<open>Nothing is delivered, and nothing is lost, while a fragment is missing.\<close>

lemma find_begin_missing:
  assumes "\<forall>j < k. \<exists>p. sm_find frs (seq - of_nat j) = Some p \<and> \<not> isFirst p"
    and "sm_find frs (seq - of_nat k) = None"
  shows "find_begin frs seq = Some None"
  using assms
proof (induction k arbitrary: seq)
  case 0
  then show ?case by (subst find_begin.simps) simp
next
  case (Suc k)
  obtain p where p: "sm_find frs seq = Some p" "\<not> isFirst p" using Suc.prems(1) [rule_format, of 0] by auto
  have "find_begin frs (seq - 1) = Some None"
  proof (rule Suc.IH)
    show "\<forall>j < k. \<exists>p. sm_find frs (seq - 1 - of_nat j) = Some p \<and> \<not> isFirst p"
      using Suc.prems(1) [rule_format, of "Suc _"] by (simp add: diff_diff_eq)
    show "sm_find frs (seq - 1 - of_nat k) = None" using Suc.prems(2) by (simp add: diff_diff_eq)
  qed
  with p show ?case by (subst find_begin.simps) simp
qed

lemma find_end_missing:
  assumes "\<forall>j < k. \<exists>p. sm_find frs (seq + of_nat j) = Some p \<and> \<not> isLast p"
    and "sm_find frs (seq + of_nat k) = None"
  shows "find_end frs seq = Some None"
  using assms
proof (induction k arbitrary: seq)
  case 0
  then show ?case by (subst find_end.simps) simp
next
  case (Suc k)
  obtain p where p: "sm_find frs seq = Some p" "\<not> isLast p" using Suc.prems(1) [rule_format, of 0] by auto
  have "find_end frs (seq + 1) = Some None"
  proof (rule Suc.IH)
    show "\<forall>j < k. \<exists>p. sm_find frs (seq + 1 + of_nat j) = Some p \<and> \<not> isLast p"
      using Suc.prems(1) [rule_format, of "Suc _"] by (simp add: add.assoc)
    show "sm_find frs (seq + 1 + of_nat k) = None" using Suc.prems(2) by (simp add: add.assoc)
  qed
  with p show ?case by (subst find_end.simps) simp
qed

section \<open>Sequence numbers\<close>

lemma isSeqNewer_iff: "isSeqNewer incoming having \<longleftrightarrow> unat (incoming - having) < 2 ^ 30"
proof -
  have range: "MM_NEWER_SEQ_RANGE = 0x3FFFFFFF" unfolding MM_NEWER_SEQ_RANGE_def by code_simp
  have "unat MM_NEWER_SEQ_RANGE = 2 ^ 30 - 1" unfolding range by simp
  then show ?thesis by (auto simp: isSeqNewer_def word_le_nat_alt)
qed

lemma isSeqNewer_offset: "k < 2 ^ 32 \<Longrightarrow> isSeqNewer (having + of_nat k) having \<longleftrightarrow> k < 2 ^ 30"
  unfolding isSeqNewer_iff by (simp add: unat_of_nat32)

lemma isSeqNewer_behind:
  assumes "0 < k" and "k \<le> 3 * 2 ^ 30"
  shows "\<not> isSeqNewer (having - of_nat k) having"
proof -
  have "- of_nat k = (of_nat (2 ^ 32 - k) :: u32)" using assms by (simp add: of_nat_diff)
  then have "unat (- of_nat k :: u32) = 2 ^ 32 - k"
    using assms by (simp only:) (rule unat_of_nat32, simp)
  then show ?thesis unfolding isSeqNewer_iff using assms by simp
qed

end
