(* ===== verification/Component.thy ===== *)
theory Component
  imports Std_Map
begin

text \<open>
  \<open>Component.h\<close>: the map from a component type to the vector of components of that type which
  a link and the network carry. A slot of the vector is \<open>None\<close> when its shared pointer is
  null; \<open>m_Idx\<close> of a component is its position in the vector. The components are values of a
  type \<open>'c\<close>, chosen by the owner of the collection.
\<close>

datatype EComponentType =
    LinkState | LinkMasterState | LinkStats | MatchMakerData | RemoteServerInfo | Listener
  | LinkManager | MasterServer | SocketSetManager | ListenerManager | SendThreadManager
  | JobSystem | NetworkEvents | NetworkActions | GroupCollectionLink | GroupCollectionNetwork
  | GroupCreateFunctions | ReliableSend | ReliableRecv | UnreliableSend | UnreliableRecv
  | ReliableNewSend | ReliableNewRecv | ReliableAckSend | ReliableAckRecv | ReliableNewAckSend
  | ReliableNewAckRecv

text \<open>The enumerators in order; the underlying value of an enumerator is its position.\<close>

definition component_types :: "EComponentType list" where
  "component_types =
     [LinkState, LinkMasterState, LinkStats, MatchMakerData, RemoteServerInfo, Listener,
      LinkManager, MasterServer, SocketSetManager, ListenerManager, SendThreadManager,
      JobSystem, NetworkEvents, NetworkActions, GroupCollectionLink, GroupCollectionNetwork,
      GroupCreateFunctions, ReliableSend, ReliableRecv, UnreliableSend, UnreliableRecv,
      ReliableNewSend, ReliableNewRecv, ReliableAckSend, ReliableAckRecv, ReliableNewAckSend,
      ReliableNewAckRecv]"

fun comp_code :: "EComponentType \<Rightarrow> nat" where
  "comp_code LinkState = 0" | "comp_code LinkMasterState = 1" | "comp_code LinkStats = 2"
| "comp_code MatchMakerData = 3" | "comp_code RemoteServerInfo = 4" | "comp_code Listener = 5"
| "comp_code LinkManager = 6" | "comp_code MasterServer = 7" | "comp_code SocketSetManager = 8"
| "comp_code ListenerManager = 9" | "comp_code SendThreadManager = 10" | "comp_code JobSystem = 11"
| "comp_code NetworkEvents = 12" | "comp_code NetworkActions = 13"
| "comp_code GroupCollectionLink = 14" | "comp_code GroupCollectionNetwork = 15"
| "comp_code GroupCreateFunctions = 16" | "comp_code ReliableSend = 17"
| "comp_code ReliableRecv = 18" | "comp_code UnreliableSend = 19"
| "comp_code UnreliableRecv = 20" | "comp_code ReliableNewSend = 21"
| "comp_code ReliableNewRecv = 22" | "comp_code ReliableAckSend = 23"
| "comp_code ReliableAckRecv = 24" | "comp_code ReliableNewAckSend = 25"
| "comp_code ReliableNewAckRecv = 26"

lemma component_types_code: "component_types ! comp_code c = c" "comp_code c < 27"
  by (cases c; simp add: component_types_def)+

lemma comp_code_inj: "comp_code c = comp_code d \<longleftrightarrow> c = d"
  by (metis component_types_code(1))

instantiation EComponentType :: linorder
begin

definition less_eq_EComponentType :: "EComponentType \<Rightarrow> EComponentType \<Rightarrow> bool" where
  "less_eq_EComponentType c d \<longleftrightarrow> comp_code c \<le> comp_code d"

definition less_EComponentType :: "EComponentType \<Rightarrow> EComponentType \<Rightarrow> bool" where
  "less_EComponentType c d \<longleftrightarrow> comp_code c < comp_code d"

instance
  by standard (auto simp: less_eq_EComponentType_def less_EComponentType_def comp_code_inj)

end

text \<open>\<open>(EComponentType) compType\<close> for a byte from the wire; a value that is no enumerator is \<open>None\<close>.\<close>

definition comp_of_byte :: "byte \<Rightarrow> EComponentType option" where
  "comp_of_byte b = (if unat b < length component_types then Some (component_types ! unat b) else None)"

definition comp_byte :: "EComponentType \<Rightarrow> byte" where
  "comp_byte c = of_nat (comp_code c)"

lemma comp_of_byte_byte [simp]: "comp_of_byte (comp_byte c) = Some c"
proof -
  have "unat (of_nat (comp_code c) :: byte) = comp_code c"
    using component_types_code(2) [of c] by (simp add: unat_of_nat take_bit_nat_eq_self)
  then show ?thesis using component_types_code [of c]
    by (simp add: comp_of_byte_def comp_byte_def) (simp add: component_types_def)
qed

lemma comp_byte_inj: "comp_byte c = comp_byte d \<longleftrightarrow> c = d"
  by (metis comp_of_byte_byte option.inject)

lemma comp_byte_of: "comp_of_byte b = Some c \<Longrightarrow> b = comp_byte c"
proof -
  have "comp_code (component_types ! k) = k" if "k < length component_types" for k
    using that by (auto simp: component_types_def less_Suc_eq numeral_eq_Suc)
  then show "comp_of_byte b = Some c \<Longrightarrow> b = comp_byte c" by (auto simp: comp_of_byte_def comp_byte_def split: if_splits)
qed

section \<open>The collection\<close>

type_synonym 'c components = "(EComponentType, 'c option list) stdmap"

definition cc_has :: "EComponentType \<Rightarrow> nat \<Rightarrow> 'c components \<Rightarrow> bool" where
  "cc_has t idx m = (case sm_find m t of None \<Rightarrow> False | Some v \<Rightarrow> length v > idx \<and> v ! idx \<noteq> None)"

definition cc_get :: "EComponentType \<Rightarrow> nat \<Rightarrow> 'c components \<Rightarrow> 'c option" where
  "cc_get t idx m = (case sm_find m t of None \<Rightarrow> None | Some v \<Rightarrow> if length v > idx then v ! idx else None)"

definition cc_count :: "EComponentType \<Rightarrow> 'c components \<Rightarrow> nat" where
  "cc_count t m = (case sm_find m t of None \<Rightarrow> 0 | Some v \<Rightarrow> length v)"

definition cc_remove :: "EComponentType \<Rightarrow> nat \<Rightarrow> 'c components \<Rightarrow> bool \<times> 'c components" where
  "cc_remove t idx m =
     (if cc_has t idx m
      then (True, case sm_find m t of None \<Rightarrow> m | Some v \<Rightarrow> sm_set t (v[idx := None]) m)
      else (False, m))"

text \<open>\<open>m_Components[type]\<close> creates an empty vector for a new key; \<open>resize\<close> fills with null.\<close>

definition resize_slots :: "nat \<Rightarrow> 'c option list \<Rightarrow> 'c option list" where
  "resize_slots n v = (if length v < n then v @ replicate (n - length v) None else v)"

definition cc_put :: "EComponentType \<Rightarrow> nat \<Rightarrow> 'c \<Rightarrow> 'c components \<Rightarrow> 'c components" where
  "cc_put t idx c m =
     (let v = (case sm_find m t of None \<Rightarrow> [] | Some v \<Rightarrow> v)
      in sm_set t ((resize_slots (idx + 1) v)[idx := Some c]) m)"

definition cc_getOrAdd :: "EComponentType \<Rightarrow> nat \<Rightarrow> 'c \<Rightarrow> 'c components \<Rightarrow> 'c \<times> 'c components" where
  "cc_getOrAdd t idx fresh m =
     (case cc_get t idx m of
        Some c \<Rightarrow> (c, m)
      | None \<Rightarrow> (fresh, cc_put t idx fresh m))"

text \<open>\<open>forAll\<close> until the callback returns false. A slot that was removed is dereferenced. The
  callback returns its answer, its own result and the updated component.\<close>

fun for_slots :: "('c \<Rightarrow> 's \<Rightarrow> bool \<times> 's \<times> 'c) \<Rightarrow> 'c option list \<Rightarrow> 's \<Rightarrow> ('c option list \<times> 's) res" where
  "for_slots cb [] s = Inr ([], s)"
| "for_slots cb (None # v) s = Inl NullDeref"
| "for_slots cb (Some c # v) s =
     (case cb c s of
        (go, s', c') \<Rightarrow>
          if go then rbind (for_slots cb v s') (\<lambda>(v', s''). Inr (Some c' # v', s''))
          else Inr (Some c' # v, s'))"

definition cc_forAll ::
  "EComponentType \<Rightarrow> ('c \<Rightarrow> 's \<Rightarrow> bool \<times> 's \<times> 'c) \<Rightarrow> 'c components \<Rightarrow> 's \<Rightarrow> ('c components \<times> 's) res" where
  "cc_forAll t cb m s =
     (case sm_find m t of
        None \<Rightarrow> Inr (m, s)
      | Some v \<Rightarrow> rbind (for_slots cb v s) (\<lambda>(v', s'). Inr (sm_set t v' m, s')))"

section \<open>The contract\<close>

text \<open>What the owners of a collection rely on: a collection of slots addressed by type and index.\<close>

locale slots =
  fixes get :: "'t \<Rightarrow> nat \<Rightarrow> 'm \<Rightarrow> 'c option"
    and put :: "'t \<Rightarrow> nat \<Rightarrow> 'c \<Rightarrow> 'm \<Rightarrow> 'm"
    and get_or_add :: "'t \<Rightarrow> nat \<Rightarrow> 'c \<Rightarrow> 'm \<Rightarrow> 'c \<times> 'm"
  assumes get_put: "get t i (put u j c m) = (if t = u \<and> i = j then Some c else get t i m)"
    and get_or_add_eq: "get_or_add t i c m =
      (case get t i m of Some c' \<Rightarrow> (c', m) | None \<Rightarrow> (c, put t i c m))"
begin

lemma get_get_or_add: "get t i (snd (get_or_add t i c m)) = Some (fst (get_or_add t i c m))"
  by (auto simp: get_or_add_eq get_put split: option.split)

lemma get_or_add_other: "t \<noteq> u \<or> i \<noteq> j \<Longrightarrow> get t i (snd (get_or_add u j c m)) = get t i m"
  by (auto simp: get_or_add_eq get_put split: option.split)

lemma get_or_add_idem: "get_or_add t i c' (snd (get_or_add t i c m)) = get_or_add t i c m"
  by (auto simp: get_or_add_eq get_put split: option.split)

lemma get_or_add_keeps: "get t i m = Some c' \<Longrightarrow> get t i (snd (get_or_add u j c m)) = Some c'"
  by (auto simp: get_or_add_eq get_put split: option.split)

text \<open>Updating a component that was looked up or created.\<close>

definition modify :: "'t \<Rightarrow> nat \<Rightarrow> 'c \<Rightarrow> ('c \<Rightarrow> 'c) \<Rightarrow> 'm \<Rightarrow> 'm" where
  "modify t i c f m = put t i (f (fst (get_or_add t i c m))) (snd (get_or_add t i c m))"

lemma get_modify:
  "get t i (modify t i c f m) = Some (f (case get t i m of Some c' \<Rightarrow> c' | None \<Rightarrow> c))"
  by (auto simp: modify_def get_or_add_eq get_put split: option.split)

lemma get_modify_other: "t \<noteq> u \<or> i \<noteq> j \<Longrightarrow> get t i (modify u j c f m) = get t i m"
  by (auto simp: modify_def get_or_add_eq get_put split: option.split)

end

lemma resize_slots_nth:
  "i < length (resize_slots n v) \<Longrightarrow> resize_slots n v ! i = (if i < length v then v ! i else None)"
  by (auto simp: resize_slots_def nth_append split: if_splits)

lemma resize_slots_length: "length (resize_slots n v) = max n (length v)"
  by (simp add: resize_slots_def)

lemma cc_get_put: "cc_get t i (cc_put u j c m) = (if t = u \<and> i = j then Some c else cc_get t i m)"
proof (cases "t = u")
  case True
  then show ?thesis
    by (auto simp: cc_get_def cc_put_def Let_def resize_slots_length resize_slots_nth nth_list_update
        split: option.split)
next
  case False
  then show ?thesis by (simp add: cc_get_def cc_put_def Let_def)
qed

interpretation comp: slots cc_get cc_put cc_getOrAdd
  by unfold_locales (simp_all add: cc_get_put cc_getOrAdd_def split: option.split)

lemma cc_has_get: "cc_has t i m \<longleftrightarrow> cc_get t i m \<noteq> None"
  by (auto simp: cc_has_def cc_get_def split: option.split)

lemma cc_ok_put: "sm_ok m \<Longrightarrow> sm_ok (cc_put t i c m)"
  by (simp add: cc_put_def Let_def sm_ok_set)

lemma cc_count_put: "cc_count t (cc_put t i c m) = max (Suc i) (cc_count t m)"
  by (auto simp: cc_count_def cc_put_def Let_def resize_slots_length split: option.split)

lemma cc_get_remove:
  "cc_get t i (snd (cc_remove u j m)) = (if t = u \<and> i = j then None else cc_get t i m)"
proof (cases "cc_has u j m")
  case False
  then show ?thesis by (auto simp: cc_remove_def cc_has_get)
next
  case True
  then obtain v where v: "sm_find m u = Some v" "j < length v" by (auto simp: cc_has_def split: option.splits)
  with True show ?thesis by (auto simp: cc_remove_def cc_get_def nth_list_update split: option.split)
qed

lemma cc_remove_count: "cc_count t (snd (cc_remove u j m)) = cc_count t m"
  by (auto simp: cc_remove_def cc_count_def split: option.split)

end
