(* ===== verification/Reliable_Streams.thy ===== *)
theory Reliable_Streams
  imports Packet_Helper Component
begin

text \<open>
  The reliable ordered channel of a link: \<open>LinkStats\<close>, \<open>ReliableSend\<close>, \<open>ReliableRecv\<close>,
  \<open>ReliableAckSend\<close> and \<open>ReliableAckRecv\<close>. An operation that sends returns the datagrams it
  hands to \<open>Link::send\<close>, in order. A name is resolved to an rpc function by the operating
  system's loader, so that table is the parameter \<open>rpcs\<close>; the functions are values of a type
  \<open>'f\<close>.

  Every operation holds the mutex of its component for all of its body, so it is one step on
  the component's state.
\<close>

section \<open>LinkStats\<close>

record link_stats =
  m_Latency :: u32
  m_Mtu :: u32
  m_HostScore :: u32
  m_AckAggregateTime :: u32
  m_ResendLatencyMultiplier :: nat \<comment> \<open>a \<open>float\<close>, as multiple of \<open>2 ^ -23\<close>\<close>

text \<open>\<open>MM_MIN_RESEND_LATENCY_MP\<close> is \<open>1.3f\<close>, which is \<open>10905190 / 2 ^ 23\<close>.\<close>

definition MM_MIN_RESEND_LATENCY_MP :: nat where "MM_MIN_RESEND_LATENCY_MP = 10905190"

definition LinkStats_init :: link_stats where
  "LinkStats_init = \<lparr>m_Latency = 33, m_Mtu = of_int MM_MAX_FRAGMENTSIZE, m_HostScore = 200,
     m_AckAggregateTime = 8, m_ResendLatencyMultiplier = MM_MIN_RESEND_LATENCY_MP\<rparr>"

definition to_u32 :: "nat \<Rightarrow> u32 res" where
  "to_u32 v = (if v < 2 ^ 32 then Inr (of_nat v) else Inl BadConversion)"

definition reliableResendDelay :: "link_stats \<Rightarrow> u32 res" where
  "reliableResendDelay ls =
     to_u32 (f32_scale (m_ResendLatencyMultiplier ls) (unat (m_Latency ls)) div 2 ^ 23)"

text \<open>\<open>0.8f\<close> is \<open>13421773 / 2 ^ 24\<close>.\<close>

definition mtuAdjusted :: "link_stats \<Rightarrow> u32 res" where
  "mtuAdjusted ls = to_u32 (f32_scale 13421773 (unat (m_Mtu ls)) div 2 ^ 24)"

section \<open>ReliableSend\<close>

record reliable_send =
  m_SendSequence :: u32
  m_LastResendTS :: u64
  m_SendQueue :: "(u32, bin_serializer) stdmap"

definition ReliableSend_init :: reliable_send where
  "ReliableSend_init = \<lparr>m_SendSequence = 0, m_LastResendTS = 0, m_SendQueue = []\<rparr>"

definition enqueue :: "bin_serializer \<Rightarrow> reliable_send \<Rightarrow> reliable_send" where
  "enqueue rsp s = s\<lparr>m_SendQueue := sm_set (m_SendSequence s) rsp (m_SendQueue s),
                     m_SendSequence := m_SendSequence s + 1\<rparr>"

fun enqueue_list :: "bin_serializer list \<Rightarrow> reliable_send \<Rightarrow> reliable_send" where
  "enqueue_list [] s = s"
| "enqueue_list (p # rsp) s = enqueue_list rsp
     (s\<lparr>m_SendQueue := sm_set (m_SendSequence s) p (m_SendQueue s), m_SendSequence := m_SendSequence s + 1\<rparr>)"

text \<open>The body of the loop in \<open>resend\<close>: \<open>finalData\<close> is an array of \<open>MM_MAX_SENDSIZE\<close> bytes.\<close>

definition final_data :: "u32 \<Rightarrow> bin_serializer \<Rightarrow> byte list res" where
  "final_data seq sendPack =
     rbind (mem_store (Some (replicate MM_MAX_SENDSIZE 0)) 0 (le32 (htonl seq))) (\<lambda>d1.
     rbind (mem_load (m_DataPtr sendPack) 0 (unat (bs_length sendPack))) (\<lambda>payload.
     rbind (mem_store d1 4 payload) (\<lambda>d2.
       mem_load d2 0 (unat (bs_length sendPack + 4)))))"

fun resend_loop :: "(u32 \<times> bin_serializer) list \<Rightarrow> byte list list res" where
  "resend_loop [] = Inr []"
| "resend_loop ((seq, p) # q) =
     rbind (final_data seq p) (\<lambda>d. rbind (resend_loop q) (\<lambda>ds. Inr (d # ds)))"

definition resend :: "reliable_send \<Rightarrow> byte list list res" where
  "resend s = resend_loop (m_SendQueue s)"

fun ackList :: "u32 list \<Rightarrow> reliable_send \<Rightarrow> reliable_send" where
  "ackList [] s = s"
| "ackList (seq # acks) s = ackList acks (s\<lparr>m_SendQueue := sm_erase seq (m_SendQueue s)\<rparr>)"

definition intervalDispatch :: "link_stats \<Rightarrow> u64 \<Rightarrow> reliable_send \<Rightarrow> (byte list list \<times> reliable_send) res" where
  "intervalDispatch ls time s =
     rbind (reliableResendDelay ls) (\<lambda>delay.
       if time - m_LastResendTS s > ucast delay
       then let s' = s\<lparr>m_LastResendTS := time\<rparr> in rbind (resend s') (\<lambda>ds. Inr (ds, s'))
       else Inr ([], s))"

section \<open>ReliableRecv\<close>

record reliable_recv =
  m_RecvSequence :: u32
  m_OrderedPackets :: "(u32, recv_packet \<times> u32) stdmap"
  m_OrderedFragments :: fragments

definition ReliableRecv_init :: reliable_recv where
  "ReliableRecv_init = \<lparr>m_RecvSequence = 0, m_OrderedPackets = [], m_OrderedFragments = []\<rparr>"

text \<open>\<open>receive\<close>: \<open>None\<close> when a search for fragments does not end, otherwise whether the job that
  runs \<open>proceedRecvQueue\<close> was added, and the new state.\<close>

definition receive :: "bin_serializer \<Rightarrow> packet_info \<Rightarrow> reliable_recv \<Rightarrow> (bool \<times> reliable_recv) res option" where
  "receive bs pi s =
     (if \<not> isSeqNewer (m_Sequence pi) (m_RecvSequence s) then Some (Inr (False, s))
      else case checkedR (read8 bs) (\<lambda>packId bs1.
             rbind (mem_load (m_DataPtr bs1) (unat (m_ReadPos bs1)) (unat (m_WritePos bs1 - m_ReadPos bs1)))
               (\<lambda>data. Inr (RecvPacket packId data (m_ChannelAndFlags pi)))) of
        Inl e \<Rightarrow> Some (Inl e)
      | Inr pack \<Rightarrow>
          if m_ChannelAndFlags pi AND MM_FRAGMENT_FIRST_BIT \<noteq> 0 \<and> m_ChannelAndFlags pi AND MM_FRAGMENT_LAST_BIT \<noteq> 0
          then Some (Inr (True, s\<lparr>m_OrderedPackets := snd (sm_insert (m_Sequence pi) (pack, 1) (m_OrderedPackets s))\<rparr>))
          else case sm_insert (m_Sequence pi) pack (m_OrderedFragments s) of
             (inserted, frs) \<Rightarrow>
               if \<not> inserted then Some (Inr (False, s))
               else case tryReassembleBigPacket frs (m_Sequence pi) of
                  None \<Rightarrow> None
                | Some (Inl e) \<Rightarrow> Some (Inl e)
                | Some (Inr (None, frs')) \<Rightarrow> Some (Inr (True, s\<lparr>m_OrderedFragments := frs'\<rparr>))
                | Some (Inr (Some (finalPack, seqBegin, seqEnd), frs')) \<Rightarrow>
                    Some (Inr (True, s\<lparr>m_OrderedFragments := frs',
                      m_OrderedPackets := snd (sm_insert seqBegin (finalPack, 1 + (seqEnd - seqBegin)) (m_OrderedPackets s))\<rparr>)))"

record 'f event_rpc =
  m_RpcFunc :: 'f
  m_Pack :: recv_packet
  m_EvReadPos :: u32

definition handleRpc :: "(cstring \<Rightarrow> 'f option) \<Rightarrow> recv_packet \<Rightarrow> 'f event_rpc list res" where
  "handleRpc rpcs pack =
     rbind (resetTo (m_Data pack) (m_Length pack) (m_Length pack) False False bs_reset) (\<lambda>bs.
     checkedR (read_string bs) (\<lambda>rpcName bs1.
       case rpcs rpcName of
         None \<Rightarrow> Inr []
       | Some rpcFunc \<Rightarrow> Inr [\<lparr>m_RpcFunc = rpcFunc, m_Pack = pack, m_EvReadPos = m_ReadPos bs1\<rparr>]))"

definition packet_RPC :: byte where "packet_RPC = 0"
definition packet_UserOffsetStart :: byte where "packet_UserOffsetStart = 1"

definition handlePacket :: "(cstring \<Rightarrow> 'f option) \<Rightarrow> recv_packet \<Rightarrow> 'f event_rpc list res" where
  "handlePacket rpcs pack =
     (if m_Id pack = packet_RPC then handleRpc rpcs pack
      else if m_Id pack = packet_UserOffsetStart then Inr []
      else Inr [])"

text \<open>The loop of \<open>proceedRecvQueue\<close>; \<open>evs\<close> are the events pushed so far.\<close>

function proceed_loop ::
  "(cstring \<Rightarrow> 'f option) \<Rightarrow> 'f event_rpc list \<Rightarrow> reliable_recv \<Rightarrow> ('f event_rpc list \<times> reliable_recv) res" where
  "proceed_loop rpcs evs s =
     (case sm_find (m_OrderedPackets s) (m_RecvSequence s) of
        None \<Rightarrow> Inr (evs, s)
      | Some (pack, numFragments) \<Rightarrow>
          (case handlePacket rpcs pack of
             Inl e \<Rightarrow> Inl e
           | Inr es \<Rightarrow>
               proceed_loop rpcs (evs @ es)
                 (s\<lparr>m_OrderedPackets := sm_erase (m_RecvSequence s) (m_OrderedPackets s),
                    m_RecvSequence := m_RecvSequence s + numFragments\<rparr>)))"
  by pat_completeness auto
termination
  by (relation "measure (\<lambda>(rpcs, evs, s). length (m_OrderedPackets s))") (auto intro: length_sm_erase)

declare proceed_loop.simps [simp del]

definition proceedRecvQueue ::
  "(cstring \<Rightarrow> 'f option) \<Rightarrow> reliable_recv \<Rightarrow> ('f event_rpc list \<times> reliable_recv) res" where
  "proceedRecvQueue rpcs s = proceed_loop rpcs [] s"

text \<open>\<open>EventRpc::process\<close>: the arguments the rpc function is called with.\<close>

definition EventRpc_process :: "'f event_rpc \<Rightarrow> ('f \<times> bin_serializer \<times> byte) res" where
  "EventRpc_process e =
     rbind (resetTo (m_Data (m_Pack e)) (m_Length (m_Pack e)) (m_Length (m_Pack e)) False False bs_reset) (\<lambda>bs.
       Inr (m_RpcFunc e, snd (setRead (m_EvReadPos e) bs), m_Flags (m_Pack e) AND MM_CHANNEL_MASK))"

section \<open>ReliableAckSend\<close>

record reliable_ack_send =
  m_LastAckTS :: u64
  m_ReceivedPackets :: "u32 list"

definition ReliableAckSend_init :: reliable_ack_send where
  "ReliableAckSend_init = \<lparr>m_LastAckTS = 0, m_ReceivedPackets = []\<rparr>"

definition addAck :: "u32 \<Rightarrow> reliable_ack_send \<Rightarrow> reliable_ack_send" where
  "addAck ack s = s\<lparr>m_ReceivedPackets := m_ReceivedPackets s @ [ack]\<rparr>"

definition begin_acks :: "nat \<Rightarrow> bin_serializer res" where
  "begin_acks idx = beginUnfragmented 0 (comp_byte ReliableAckSend) InvalidByte (of_nat idx) False True"

fun ack_loop :: "nat \<Rightarrow> u32 \<Rightarrow> u32 list \<Rightarrow> bin_serializer \<Rightarrow> bool \<Rightarrow> (byte list list \<times> bin_serializer \<times> bool) res" where
  "ack_loop idx mtu [] bs hasPendingWrites = Inr ([], bs, hasPendingWrites)"
| "ack_loop idx mtu (ack # acks) bs hasPendingWrites =
     checked (write32 ack bs) (\<lambda>bs1.
       if bs_length bs1 \<ge> mtu
       then rbind (copyAsRaw bs1) (\<lambda>d.
            rbind (begin_acks idx) (\<lambda>bs2.
            rbind (ack_loop idx mtu acks bs2 False) (\<lambda>(ds, r). Inr (d # ds, r))))
       else ack_loop idx mtu acks bs1 True)"

definition ack_resend :: "link_stats \<Rightarrow> nat \<Rightarrow> reliable_ack_send \<Rightarrow> (byte list list \<times> reliable_ack_send) res" where
  "ack_resend ls idx s =
     rbind (begin_acks idx) (\<lambda>bs.
     rbind (mtuAdjusted ls) (\<lambda>mtu.
     rbind (ack_loop idx mtu (m_ReceivedPackets s) bs False) (\<lambda>(ds, bs', hasPendingWrites).
     rbind (if hasPendingWrites then rbind (copyAsRaw bs') (\<lambda>d. Inr (ds @ [d])) else Inr ds) (\<lambda>out.
       Inr (out, s\<lparr>m_ReceivedPackets := []\<rparr>)))))"

definition ack_intervalDispatch ::
  "link_stats \<Rightarrow> nat \<Rightarrow> u64 \<Rightarrow> reliable_ack_send \<Rightarrow> (byte list list \<times> reliable_ack_send) res" where
  "ack_intervalDispatch ls idx time s =
     (if time - m_LastAckTS s > ucast (m_AckAggregateTime ls)
      then ack_resend ls idx (s\<lparr>m_LastAckTS := time\<rparr>)
      else Inr ([], s))"

section \<open>ReliableAckRecv\<close>

text \<open>The loop of \<open>ReliableAckRecv::receive\<close>; \<open>None\<close>: it does not end.\<close>

partial_function (option) read_acks :: "bin_serializer \<Rightarrow> u32 list \<Rightarrow> u32 list res option" where
  "read_acks bs receivedSequences =
     (if m_ReadPos bs \<noteq> m_WritePos bs
      then case read32 bs of
             Inl e \<Rightarrow> Some (Inl e)
           | Inr (None, bs1) \<Rightarrow> Some (Inl Terminate)
           | Inr (Some seq, bs1) \<Rightarrow> read_acks bs1 (receivedSequences @ [seq])
      else Some (Inr receivedSequences))"

text \<open>\<open>rs\<close> is the channel's \<open>ReliableSend\<close>, if the link has one.\<close>

definition ack_receive :: "bin_serializer \<Rightarrow> reliable_send option \<Rightarrow> reliable_send option res option" where
  "ack_receive bs rs =
     (case read_acks bs [] of
        None \<Rightarrow> None
      | Some r \<Rightarrow> Some (rbind r (\<lambda>seqs. Inr (map_option (ackList seqs) rs))))"

section \<open>LinkStats: the values of a new link\<close>

lemma LinkStats_values:
  "reliableResendDelay LinkStats_init = Inr 42" "mtuAdjusted LinkStats_init = Inr 1520"
  by (simp_all add: reliableResendDelay_def mtuAdjusted_def LinkStats_init_def MM_MIN_RESEND_LATENCY_MP_def
      MM_MAX_FRAGMENTSIZE_def to_u32_def f32_scale_def r24_def bitlen.simps)

section \<open>Sending\<close>

definition data_image :: "u32 \<Rightarrow> bin_serializer \<Rightarrow> byte list" where
  "data_image seq p = rev (le32 seq) @ content p"

lemma load_all: "bs_inv p \<Longrightarrow> mem_load (m_DataPtr p) 0 (unat (bs_length p)) = Inr (content p)"
  using load_content [of p 0 "unat (bs_length p)"] by (simp add: bs_length_def length_content)

lemma final_data_ok:
  assumes "bs_inv p" and "length (content p) \<le> MM_MAX_SENDSIZE - 4"
  shows "final_data seq p = Inr (data_image seq p)"
proof -
  let ?n = "length (content p)" and ?h = "rev (le32 seq)"
  have l: "unat (bs_length p) = ?n" using assms(1) by (simp add: bs_length_def length_content)
  have l4: "unat (bs_length p + 4) = ?n + 4"
    using unat_add_of_nat [of "bs_length p" 4] assms(2) l by (simp add: MM_MAX_SENDSIZE_def MM_MAX_RECVSIZE_def)
  have s1: "mem_store (Some (replicate 4096 0)) 0 (le32 (htonl seq)) = Inr (Some (?h @ replicate 4092 0))"
    by (subst mem_store_in) (simp_all add: wire32)
  have s2: "mem_store (Some (?h @ replicate 4092 0)) 4 (content p) =
      Inr (Some (?h @ content p @ replicate (4092 - ?n) 0))"
    using assms(2) by (subst mem_store_in) (simp_all add: MM_MAX_SENDSIZE_def MM_MAX_RECVSIZE_def)
  have s3: "mem_load (Some (?h @ content p @ replicate (4092 - ?n) 0)) 0 (?n + 4) = Inr (?h @ content p)"
    using assms(2) by (subst mem_load_in) (simp_all add: MM_MAX_SENDSIZE_def MM_MAX_RECVSIZE_def)
  show ?thesis
    using s1 s2 s3 load_all [OF assms(1)] l4
    by (simp add: final_data_def MM_MAX_SENDSIZE_def MM_MAX_RECVSIZE_def data_image_def)
qed

lemma final_data_overflow:
  assumes "bs_inv p" and "length (content p) > MM_MAX_SENDSIZE - 4"
  shows "final_data seq p = Inl OutOfBounds"
proof -
  have s1: "mem_store (Some (replicate 4096 0)) 0 (le32 (htonl seq)) = Inr (Some (rev (le32 seq) @ replicate 4092 0))"
    by (subst mem_store_in) (simp_all add: wire32)
  have "content p \<noteq> []" using assms(2) by auto
  then have "mem_store (Some (rev (le32 seq) @ replicate 4092 0)) 4 (content p) = Inl OutOfBounds"
    using assms(2) by (simp add: mem_store_def MM_MAX_SENDSIZE_def MM_MAX_RECVSIZE_def)
  then show ?thesis
    using s1 load_all [OF assms(1)] by (simp add: final_data_def MM_MAX_SENDSIZE_def MM_MAX_RECVSIZE_def)
qed

definition sendable :: "bin_serializer \<Rightarrow> bool" where
  "sendable p \<longleftrightarrow> bs_inv p \<and> length (content p) \<le> MM_MAX_SENDSIZE - 4"

lemma resend_ok:
  assumes "\<forall>p \<in> snd ` set (m_SendQueue s). sendable p"
  shows "resend s = Inr (map (\<lambda>(seq, p). data_image seq p) (m_SendQueue s))"
proof -
  have "\<forall>p \<in> snd ` set q. sendable p \<Longrightarrow> resend_loop q = Inr (map (\<lambda>(seq, p). data_image seq p) q)" for q
    by (induction q rule: resend_loop.induct) (auto simp: final_data_ok sendable_def)
  then show ?thesis using assms by (simp add: resend_def)
qed

lemma enqueue_list_fold: "enqueue_list ps s = fold enqueue ps s"
  by (induction ps arbitrary: s) (simp_all add: enqueue_def)

lemma enqueue_list_seq: "m_SendSequence (enqueue_list ps s) = m_SendSequence s + of_nat (length ps)"
  by (induction ps arbitrary: s) (simp_all add: algebra_simps)

lemma enqueue_list_ok: "sm_ok (m_SendQueue s) \<Longrightarrow> sm_ok (m_SendQueue (enqueue_list ps s))"
  by (induction ps arbitrary: s) (simp_all add: sm_ok_set)

lemma of_nat_inj32: "i < 2 ^ 32 \<Longrightarrow> j < 2 ^ 32 \<Longrightarrow> (of_nat i :: u32) = of_nat j \<longleftrightarrow> i = j"
  by (metis unat_of_nat32)

text \<open>The packets of one call get consecutive numbers, everything queued before stays.\<close>

lemma enqueue_list_find:
  assumes "length ps < 2 ^ 32"
  shows "sm_find (m_SendQueue (enqueue_list ps s)) k =
    (let i = unat (k - m_SendSequence s) in if i < length ps then Some (ps ! i) else sm_find (m_SendQueue s) k)"
  using assms
proof (induction ps arbitrary: s)
  case (Cons p ps)
  let ?s = "s\<lparr>m_SendQueue := sm_set (m_SendSequence s) p (m_SendQueue s), m_SendSequence := m_SendSequence s + 1\<rparr>"
  let ?i = "unat (k - m_SendSequence s)" and ?j = "unat (k - (m_SendSequence s + 1))"
  have IH: "sm_find (m_SendQueue (enqueue_list ps ?s)) k =
      (if ?j < length ps then Some (ps ! ?j) else sm_find (m_SendQueue ?s) k)"
    using Cons.IH [of ?s] Cons.prems by (simp add: Let_def)
  show ?case
  proof (cases "k = m_SendSequence s")
    case True
    have "unat (- 1 :: u32) = 2 ^ 32 - 1" by (simp add: unsigned_minus_1_eq_mask mask_eq_exp_minus_1)
    then have "\<not> ?j < length ps" using True Cons.prems by simp
    then show ?thesis using IH True by (simp add: Let_def)
  next
    case False
    then have ne: "k - m_SendSequence s \<noteq> 0" by simp
    have "k - (m_SendSequence s + 1) = k - m_SendSequence s - 1" by (rule diff_diff_eq [symmetric])
    then have "?j = ?i - 1" using unat_minus_one [OF ne] by (simp only:)
    moreover have "?i \<noteq> 0" using ne by (simp add: unat_eq_zero)
    ultimately have "?i = Suc ?j" by linarith
    then show ?thesis using IH False by (simp add: Let_def)
  qed
qed simp

lemma ackList_fields: "m_SendSequence (ackList as s) = m_SendSequence s" "m_LastResendTS (ackList as s) = m_LastResendTS s"
  by (induction as arbitrary: s) auto

lemma ackList_queue: "m_SendQueue (ackList as s) = fold sm_erase as (m_SendQueue s)"
  by (induction as arbitrary: s) auto

lemma ackList_find:
  "sm_ok (m_SendQueue s) \<Longrightarrow>
   sm_find (m_SendQueue (ackList as s)) k = (if k \<in> set as then None else sm_find (m_SendQueue s) k)"
  by (simp add: ackList_queue stdmap.find_erase_all)

lemma ackList_ok: "sm_ok (m_SendQueue s) \<Longrightarrow> sm_ok (m_SendQueue (ackList as s))"
  by (simp add: ackList_queue stdmap.ok_erase_all)

section \<open>Acknowledgements\<close>

definition acks_bytes :: "u32 list \<Rightarrow> byte list" where
  "acks_bytes as = concat (map (\<lambda>a. rev (le32 a)) as)"

definition ack_header :: "nat \<Rightarrow> byte list" where
  "ack_header idx = [0, 0, 0, 0, comp_byte ReliableAckSend, makeChannelAndFlags (of_nat idx) False True True True]"

lemma acks_bytes_simps [simp]:
  "acks_bytes [] = []" "acks_bytes (a # as) = rev (le32 a) @ acks_bytes as"
  "acks_bytes (as @ bs) = acks_bytes as @ acks_bytes bs"
  by (simp_all add: acks_bytes_def)

lemma length_acks_bytes [simp]: "length (acks_bytes as) = 4 * length as"
  by (induction as) auto

lemma length_ack_header [simp]: "length (ack_header idx) = 6"
  by (simp add: ack_header_def)

lemma begin_acks_ok:
  "\<exists>s. begin_acks idx = Inr s \<and> bs_inv s \<and> m_Owns s \<and> content s = ack_header idx"
proof -
  have "rev (le32 0) = [0, 0, 0, 0]" by code_simp
  then show ?thesis
    using beginUnfragmented_ok [of 0 "comp_byte ReliableAckSend" InvalidByte "of_nat idx" False True]
    by (auto simp: begin_acks_def ack_header_def)
qed

lemma copyAsRaw_ok: "bs_inv s \<Longrightarrow> copyAsRaw s = Inr (content s)"
  using load_all [of s] by (simp add: copyAsRaw_def bs_length_def)

text \<open>The acks are cut into groups in order; every group but the last one fills a datagram.\<close>

lemma ack_loop_ok:
  assumes "bs_inv bs" and "m_Owns bs" and "content bs = ack_header idx @ acks_bytes pend"
    and "unat mtu \<le> 1000000000" and "6 + 4 * length pend < max 7 (unat mtu)"
  shows "\<exists>groups lst bs'. ack_loop idx mtu acks bs (pend \<noteq> []) =
      Inr (map (\<lambda>g. ack_header idx @ acks_bytes g) groups, bs', lst \<noteq> []) \<and>
    bs_inv bs' \<and> content bs' = ack_header idx @ acks_bytes lst \<and> concat groups @ lst = pend @ acks \<and>
    (\<forall>g \<in> set (groups @ [lst]). 6 + 4 * length g < max 7 (unat mtu) + 4)"
  using assms
proof (induction acks arbitrary: bs pend)
  case Nil
  then show ?case by (intro exI [of _ "[]"] exI [of _ pend] exI [of _ bs]) auto
next
  case (Cons a acks)
  have "length (content bs) + length (rev (le32 a)) \<le> max_stream"
    using Cons.prems by (simp add: max_stream_def)
  then obtain bs1 where w: "write32 a bs = Inr (True, bs1)" "appended bs (rev (le32 a)) bs1"
    using u32_codec.put_ok [of bs a] Cons.prems by auto
  then have b1: "bs_inv bs1" "m_Owns bs1" "content bs1 = ack_header idx @ acks_bytes (pend @ [a])"
    using Cons.prems by (auto simp: appended_def)
  have l1: "unat (bs_length bs1) = 6 + 4 * length (pend @ [a])"
    using length_content [OF b1(1)] b1(3) by (simp add: bs_length_def)
  show ?case
  proof (cases "bs_length bs1 \<ge> mtu")
    case True
    obtain bs2 where b2: "begin_acks idx = Inr bs2" "bs_inv bs2" "m_Owns bs2" "content bs2 = ack_header idx @ acks_bytes []"
      using begin_acks_ok [of idx] by auto
    obtain groups lst bs' where g: "ack_loop idx mtu acks bs2 False =
        Inr (map (\<lambda>g. ack_header idx @ acks_bytes g) groups, bs', lst \<noteq> [])"
      "bs_inv bs'" "content bs' = ack_header idx @ acks_bytes lst" "concat groups @ lst = acks"
      "\<forall>g \<in> set (groups @ [lst]). 6 + 4 * length g < max 7 (unat mtu) + 4"
      using Cons.IH [OF b2(2-4) Cons.prems(4)] by (auto simp: less_max_iff_disj)
    have "ack_loop idx mtu (a # acks) bs (pend \<noteq> []) =
        Inr (map (\<lambda>g. ack_header idx @ acks_bytes g) ((pend @ [a]) # groups), bs', lst \<noteq> [])"
      using w(1) True b2(1) g(1) b1 by (simp add: copyAsRaw_ok)
    then show ?thesis using g Cons.prems(5)
      by (intro exI [of _ "(pend @ [a]) # groups"] exI [of _ lst] exI [of _ bs']) auto
  next
    case False
    then have lt: "6 + 4 * length (pend @ [a]) < max 7 (unat mtu)"
      using l1 by (simp add: word_le_nat_alt)
    have st: "ack_loop idx mtu (a # acks) bs (pend \<noteq> []) = ack_loop idx mtu acks bs1 (pend @ [a] \<noteq> [])"
      using w(1) False by simp
    show ?thesis unfolding st using Cons.IH [OF b1 Cons.prems(4) lt] by simp
  qed
qed

lemma ack_resend_ok:
  assumes "mtuAdjusted ls = Inr mtu" and "unat mtu \<le> 1000000000"
  shows "\<exists>groups. ack_resend ls idx s =
      Inr (map (\<lambda>g. ack_header idx @ acks_bytes g) groups, s\<lparr>m_ReceivedPackets := []\<rparr>) \<and>
    concat groups = m_ReceivedPackets s \<and>
    (\<forall>g \<in> set groups. length (ack_header idx @ acks_bytes g) < max 7 (unat mtu) + 4)"
proof -
  obtain bs where b: "begin_acks idx = Inr bs" "bs_inv bs" "m_Owns bs" "content bs = ack_header idx @ acks_bytes []"
    using begin_acks_ok [of idx] by auto
  obtain groups lst bs' where g: "ack_loop idx mtu (m_ReceivedPackets s) bs False =
      Inr (map (\<lambda>g. ack_header idx @ acks_bytes g) groups, bs', lst \<noteq> [])"
    "bs_inv bs'" "content bs' = ack_header idx @ acks_bytes lst" "concat groups @ lst = m_ReceivedPackets s"
    "\<forall>g \<in> set (groups @ [lst]). 6 + 4 * length g < max 7 (unat mtu) + 4"
    using ack_loop_ok [OF b(2-4) assms(2), of "m_ReceivedPackets s"] by (auto simp: less_max_iff_disj)
  let ?gs = "if lst \<noteq> [] then groups @ [lst] else groups"
  have "ack_resend ls idx s =
      Inr (map (\<lambda>g. ack_header idx @ acks_bytes g) ?gs, s\<lparr>m_ReceivedPackets := []\<rparr>)"
    using b(1) assms(1) g(1-3) by (simp add: ack_resend_def copyAsRaw_ok)
  moreover have "concat ?gs = m_ReceivedPackets s" using g(4) by auto
  ultimately show ?thesis using g(5) by (intro exI [of _ ?gs]) auto
qed

lemma read_acks_ok:
  assumes "bs_inv bs" and "unread bs = acks_bytes as"
  shows "read_acks bs acc = Some (Inr (acc @ as))"
  using assms
proof (induction as arbitrary: bs acc)
  case Nil
  then show ?case by (subst read_acks.simps) (simp add: at_end)
next
  case (Cons a as)
  have un: "unread bs = rev (le32 a) @ acks_bytes as" using Cons.prems by simp
  have "unread bs \<noteq> []" unfolding un by (auto simp flip: length_0_conv)
  then have ne: "m_ReadPos bs \<noteq> m_WritePos bs" using Cons.prems(1) by (simp add: at_end)
  have r: "read32 bs = Inr (Some a, advance (length (rev (le32 a))) bs)"
    using u32_codec.get_ok [OF Cons.prems(1) _ un] by simp
  have "read_acks bs acc = read_acks (advance (length (rev (le32 a))) bs) (acc @ [a])"
    using ne r by (subst read_acks.simps) simp
  also have "\<dots> = Some (Inr ((acc @ [a]) @ as))"
    using advance_inv [OF Cons.prems(1) un] by (intro Cons.IH)
  finally show ?case by simp
qed

text \<open>The loop always ends; a payload whose size is no multiple of four stops the process.\<close>

lemma read32_short:
  assumes "bs_inv bs" and "length (unread bs) < 4"
  shows "read32 bs = Inr (None, bs)"
  using read_raw_cases [of bs 4] assms
  by (auto simp: read32_def rmap_def unread_def length_content split: if_splits)

lemma read_acks_malformed:
  assumes "bs_inv bs" and "length (unread bs) mod 4 \<noteq> 0"
  shows "read_acks bs acc = Some (Inl Terminate)"
  using assms
proof (induction "length (unread bs)" arbitrary: bs acc rule: less_induct)
  case less
  have ne: "m_ReadPos bs \<noteq> m_WritePos bs" using less.prems by (auto simp: at_end)
  show ?case
  proof (cases "length (unread bs) < 4")
    case True
    with ne less.prems show ?thesis by (subst read_acks.simps) (simp add: read32_short)
  next
    case False
    then have len: "length (take 4 (unread bs)) = 4" by simp
    define xs where "xs = take 4 (unread bs)"
    have un: "unread bs = xs @ drop 4 (unread bs)" by (simp add: xs_def)
    have lx: "length xs = 4" using len by (simp add: xs_def)
    have raw: "read_raw 4 bs = Inr (Some xs, advance 4 bs)"
      using read_raw_ok [OF less.prems(1) un, of 4] lx by simp
    have a: "bs_inv (advance 4 bs)" "unread (advance 4 bs) = drop 4 (unread bs)"
      using advance_inv [OF less.prems(1) un] lx by auto
    have m: "length (unread (advance 4 bs)) mod 4 \<noteq> 0"
      using a(2) less.prems(2) False by (simp add: mod_diff_left_eq le_mod_geq)
    have "read_acks (advance 4 bs) (acc @ [ntohl (of_le xs)]) = Some (Inl Terminate)"
      using less.hyps [OF _ a(1) m] a(2) False by simp
    then show ?thesis using ne raw by (subst read_acks.simps) (simp add: read32_def rmap_def)
  qed
qed

section \<open>Receiving\<close>

lemma load_unread:
  assumes "bs_inv s"
  shows "mem_load (m_DataPtr s) (unat (m_ReadPos s)) (unat (m_WritePos s - m_ReadPos s)) = Inr (unread s)"
proof -
  have le: "unat (m_ReadPos s) \<le> unat (m_WritePos s)" using assms by (simp add: bs_inv_def word_le_nat_alt)
  have n: "unat (m_WritePos s - m_ReadPos s) = length (content s) - unat (m_ReadPos s)"
    using le assms by (simp add: unat_sub word_le_nat_alt length_content)
  show ?thesis unfolding n
    using load_content [OF assms, of "m_ReadPos s" "length (content s) - unat (m_ReadPos s)"] le assms
    by (simp add: length_content unread_def)
qed

definition parse_packet :: "bin_serializer \<Rightarrow> byte \<Rightarrow> recv_packet res" where
  "parse_packet bs flags = checkedR (read8 bs) (\<lambda>packId bs1.
     rbind (mem_load (m_DataPtr bs1) (unat (m_ReadPos bs1)) (unat (m_WritePos bs1 - m_ReadPos bs1)))
       (\<lambda>data. Inr (RecvPacket packId data flags)))"

lemma parse_packet_ok:
  assumes "bs_inv bs" and "unread bs = pid # data"
  shows "parse_packet bs flags = Inr (RecvPacket pid data flags)"
proof -
  have un: "unread bs = [pid] @ data" using assms(2) by simp
  have "read8 bs = Inr (Some pid, advance (length [pid]) bs)"
    using byte_codec.get_ok [OF assms(1) _ un] by simp
  with load_unread [OF advance_inv(1) [OF assms(1) un]] advance_inv(2) [OF assms(1) un]
  show ?thesis by (simp add: parse_packet_def)
qed

lemma parse_packet_empty: "bs_inv bs \<Longrightarrow> unread bs = [] \<Longrightarrow> parse_packet bs flags = Inl Terminate"
  using read_raw_cases [of bs 1]
  by (auto simp: parse_packet_def read8_def rmap_def unread_def length_content split: if_splits)

lemmas receive_parse = receive_def [folded parse_packet_def]

lemma receive_old: "\<not> isSeqNewer (m_Sequence pi) (m_RecvSequence s) \<Longrightarrow> receive bs pi s = Some (Inr (False, s))"
  by (simp add: receive_def)

lemma receive_empty:
  "bs_inv bs \<Longrightarrow> unread bs = [] \<Longrightarrow> isSeqNewer (m_Sequence pi) (m_RecvSequence s) \<Longrightarrow>
   receive bs pi s = Some (Inl Terminate)"
  by (simp add: receive_parse parse_packet_empty)

definition single_flags :: "byte \<Rightarrow> bool" where
  "single_flags fl \<longleftrightarrow> fl AND MM_FRAGMENT_FIRST_BIT \<noteq> 0 \<and> fl AND MM_FRAGMENT_LAST_BIT \<noteq> 0"

lemma receive_single:
  assumes "bs_inv bs" and "unread bs = pid # data" and "isSeqNewer (m_Sequence pi) (m_RecvSequence s)"
    and "single_flags (m_ChannelAndFlags pi)"
  shows "receive bs pi s = Some (Inr (True, s\<lparr>m_OrderedPackets :=
    snd (sm_insert (m_Sequence pi) (RecvPacket pid data (m_ChannelAndFlags pi), 1) (m_OrderedPackets s))\<rparr>))"
  using assms by (simp add: receive_parse parse_packet_ok single_flags_def)

text \<open>The last missing fragment of a message completes it, whatever the order of arrival was.\<close>

lemma receive_completes:
  assumes "bs_inv bs" and "unread bs = pid # data" and newer: "isSeqNewer (m_Sequence pi) (m_RecvSequence s)"
    and "\<not> single_flags (m_ChannelAndFlags pi)" and "sm_ok (m_OrderedFragments s)"
    and "sm_find (m_OrderedFragments s) (m_Sequence pi) = None"
    and fr: "frs = sm_set (m_Sequence pi) (RecvPacket pid data (m_ChannelAndFlags pi)) (m_OrderedFragments s)"
    and "run_at frs b fs" and "big_packet fs" and "k < length fs" and "m_Sequence pi = b + of_nat k"
  shows "receive bs pi s = Some (Inr (True, s\<lparr>m_OrderedFragments := fold sm_erase (run_keys b (length fs)) frs,
    m_OrderedPackets := snd (sm_insert b (joined fs, of_nat (length fs)) (m_OrderedPackets s))\<rparr>))"
proof -
  have ins: "sm_insert (m_Sequence pi) (RecvPacket pid data (m_ChannelAndFlags pi)) (m_OrderedFragments s) = (True, frs)"
    using assms(6) fr by (simp add: sm_insert_def)
  have ok: "sm_ok frs" using assms(5) fr by (simp add: sm_ok_set)
  have n: "1 + (b + of_nat (length fs - 1) - b) = (of_nat (length fs) :: u32)"
    using assms(9) by (cases fs) (auto simp: big_packet_def)
  show ?thesis
    using newer assms(4) tryReassemble_complete [OF ok assms(8-10)] ins n
    by (auto simp: receive_parse parse_packet_ok [OF assms(1,2)] assms(11) single_flags_def)
qed

subsection \<open>Every call returns\<close>

lemma find_begin_returns: "sm_find frs k0 = None \<Longrightarrow> \<exists>r. find_begin frs seq = Some r"
proof (induction "unat (seq - k0)" arbitrary: seq)
  case 0
  then have "seq = k0" by (simp add: unat_eq_zero)
  with 0 show ?case by (subst find_begin.simps) simp
next
  case (Suc n)
  then have "seq - k0 \<noteq> 0" by (metis nat.distinct(1) unsigned_0)
  then have "n = unat (seq - 1 - k0)"
    using Suc.hyps(2) unat_minus_one [of "seq - k0"] by (simp add: diff_right_commute)
  with Suc show ?case by (subst find_begin.simps) (auto split: option.split)
qed

lemma find_end_returns: "sm_find frs k0 = None \<Longrightarrow> \<exists>r. find_end frs seq = Some r"
proof (induction "unat (k0 - seq)" arbitrary: seq)
  case 0
  then have "seq = k0" by (simp add: unat_eq_zero)
  with 0 show ?case by (subst find_end.simps) simp
next
  case (Suc n)
  then have "k0 - seq \<noteq> 0" by (metis nat.distinct(1) unsigned_0)
  then have "n = unat (k0 - (seq + 1))"
    using Suc.hyps(2) unat_minus_one [of "k0 - seq"] by (simp add: diff_diff_eq)
  with Suc show ?case by (subst find_end.simps) (auto split: option.split)
qed

lemma absent_key:
  fixes m :: "(u32, 'v) stdmap"
  assumes "length m < 2 ^ 32"
  shows "\<exists>k. sm_find m k = None"
proof (rule ccontr)
  assume "\<nexists>k. sm_find m k = None"
  then have "fst ` set m = UNIV" by (auto simp: sm_find_None_iff)
  then have "2 ^ 32 \<le> card (set m)"
    using card_image_le [of "set m" fst] by (simp add: card_word)
  then show False using assms card_length [of m] by simp
qed

lemma receive_returns:
  assumes "length (m_OrderedFragments s) < 2 ^ 32 - 1"
  shows "\<exists>r. receive bs pi s = Some r"
proof -
  let ?frs = "\<lambda>p. sm_set (m_Sequence pi) p (m_OrderedFragments s)"
  have ne: "tryReassembleBigPacket (?frs p) (m_Sequence pi) \<noteq> None" for p
  proof -
    have "length (?frs p) < 2 ^ 32" using length_sm_set [of "m_Sequence pi" p "m_OrderedFragments s"] assms by simp
    then obtain k0 where "sm_find (?frs p) k0 = None" using absent_key by blast
    then show ?thesis using find_begin_returns [of "?frs p" k0 "m_Sequence pi"] find_end_returns [of "?frs p" k0 "m_Sequence pi"]
      by (auto simp: tryReassembleBigPacket_def split: option.split)
  qed
  show ?thesis
    by (auto simp: receive_def sm_insert_def ne split: sum.split option.split prod.split)
qed

subsection \<open>Delivery\<close>

text \<open>The packets the loop of \<open>proceedRecvQueue\<close> takes, without the handling of each.\<close>

function drain :: "reliable_recv \<Rightarrow> recv_packet list \<times> reliable_recv" where
  "drain s =
     (case sm_find (m_OrderedPackets s) (m_RecvSequence s) of
        None \<Rightarrow> ([], s)
      | Some (pack, n) \<Rightarrow>
          (case drain (s\<lparr>m_OrderedPackets := sm_erase (m_RecvSequence s) (m_OrderedPackets s),
                         m_RecvSequence := m_RecvSequence s + n\<rparr>) of
             (ps, s') \<Rightarrow> (pack # ps, s')))"
  by pat_completeness auto
termination
  by (relation "measure (\<lambda>s. length (m_OrderedPackets s))") (auto intro: length_sm_erase)

declare drain.simps [simp del]

fun handle_all :: "(cstring \<Rightarrow> 'f option) \<Rightarrow> recv_packet list \<Rightarrow> 'f event_rpc list res" where
  "handle_all rpcs [] = Inr []"
| "handle_all rpcs (p # ps) =
     rbind (handlePacket rpcs p) (\<lambda>es. rbind (handle_all rpcs ps) (\<lambda>es'. Inr (es @ es')))"

lemma proceed_loop_drain:
  "proceed_loop rpcs evs s = rbind (handle_all rpcs (fst (drain s))) (\<lambda>es. Inr (evs @ es, snd (drain s)))"
proof (induction rpcs evs s rule: proceed_loop.induct)
  case (1 rpcs evs s)
  show ?case
  proof (cases "sm_find (m_OrderedPackets s) (m_RecvSequence s)")
    case None
    then show ?thesis by (simp add: proceed_loop.simps [of _ _ s] drain.simps [of s])
  next
    case (Some pn)
    obtain pack n where pn: "pn = (pack, n)" by (cases pn)
    let ?s = "s\<lparr>m_OrderedPackets := sm_erase (m_RecvSequence s) (m_OrderedPackets s), m_RecvSequence := m_RecvSequence s + n\<rparr>"
    have d: "drain s = (pack # fst (drain ?s), snd (drain ?s))"
      using Some pn by (subst drain.simps) (simp add: case_prod_unfold)
    show ?thesis
    proof (cases "handlePacket rpcs pack")
      case (Inl e)
      then show ?thesis using Some pn d by (subst proceed_loop.simps) simp
    next
      case (Inr es)
      then have "proceed_loop rpcs evs s = proceed_loop rpcs (evs @ es) ?s"
        using Some pn by (subst proceed_loop.simps) simp
      also have "\<dots> = rbind (handle_all rpcs (fst (drain ?s))) (\<lambda>es'. Inr ((evs @ es) @ es', snd (drain ?s)))"
        using 1 Some pn Inr by blast
      finally show ?thesis using d Inr by (cases "handle_all rpcs (fst (drain ?s))") simp_all
    qed
  qed
qed

lemma handle_all_append:
  "handle_all rpcs (ps @ qs) = rbind (handle_all rpcs ps) (\<lambda>es. rbind (handle_all rpcs qs) (\<lambda>es'. Inr (es @ es')))"
proof (induction ps)
  case Nil
  then show ?case by (cases "handle_all rpcs qs") simp_all
next
  case (Cons p ps)
  then show ?case
    by (cases "handlePacket rpcs p"; cases "handle_all rpcs ps"; cases "handle_all rpcs qs") simp_all
qed

text \<open>An rpc packet: the event carries the function of that name, and processing it calls the
  function with the arguments that follow the name.\<close>

definition view :: "recv_packet \<Rightarrow> nat \<Rightarrow> bin_serializer" where
  "view p n = \<lparr>m_DataPtr = Some (m_Data p), m_WritePos = m_Length p, m_ReadPos = of_nat n,
     m_MaxSize = m_Length p, m_Owns = False\<rparr>"

lemma resetTo_packet:
  "resetTo (m_Data p) (m_Length p) (m_Length p) False False bs_reset = Inr (view p 0)"
  by (simp add: resetTo_def view_def bs_reset_def)

lemma view_inv:
  assumes "packet_ok p" and "length (m_Data p) < 2 ^ 32 - 64" and "n \<le> length (m_Data p)"
  shows "bs_inv (view p n)" and "unread (view p n) = drop n (m_Data p)"
proof -
  have u: "unat (m_Length p) = length (m_Data p)" using assms(1) by (simp add: packet_ok_def unat_of_nat32)
  have n: "unat (of_nat n :: u32) = n" using assms by (intro unat_of_nat32) simp
  show "bs_inv (view p n)" using u n assms by (simp add: bs_inv_def view_def word_le_nat_alt)
  show "unread (view p n) = drop n (m_Data p)" using u n by (simp add: unread_def content_def view_def)
qed

lemma handleRpc_ok:
  assumes "packet_ok p" and "length (m_Data p) < 2 ^ 32 - 64" and "m_Data p = name @ 0 # args" and "string_ok name"
  shows "handleRpc rpcs p = Inr (case rpcs name of None \<Rightarrow> []
      | Some f \<Rightarrow> [\<lparr>m_RpcFunc = f, m_Pack = p, m_EvReadPos = of_nat (length name + 1)\<rparr>])"
proof -
  have un: "unread (view p 0) = (name @ [0]) @ args" using view_inv(2) [OF assms(1,2), of 0] assms(3) by simp
  have "read_string (view p 0) = Inr (Some name, advance (length (name @ [0])) (view p 0))"
    using string_codec.get_ok [OF view_inv(1) [OF assms(1,2), of 0] assms(4) un] by simp
  then show ?thesis
    by (simp add: handleRpc_def resetTo_packet advance_def view_def split: option.split)
qed

lemma EventRpc_process_ok:
  assumes "packet_ok p" and "length (m_Data p) < 2 ^ 32 - 64" and "n \<le> length (m_Data p)"
  shows "EventRpc_process \<lparr>m_RpcFunc = f, m_Pack = p, m_EvReadPos = of_nat n\<rparr> =
    Inr (f, view p n, m_Flags p AND MM_CHANNEL_MASK)"
proof -
  have u: "unat (m_Length p) = length (m_Data p)" using assms(1) by (simp add: packet_ok_def unat_of_nat32)
  have n: "unat (of_nat n :: u32) = n" using assms by (intro unat_of_nat32) simp
  have "\<not> m_WritePos (view p 0) < of_nat n" using u n assms(3) by (simp add: view_def word_less_nat_alt)
  then show ?thesis by (simp add: EventRpc_process_def resetTo_packet setRead_def) (simp add: view_def)
qed

end
