(* ===== verification/Stream_Protocol.thy ===== *)
theory Stream_Protocol
  imports Reliable_Streams
begin

text \<open>
  The two ends of one reliable channel with a network between them. The network may lose,
  duplicate, delay and reorder: it is the set of all datagrams ever sent, and a step may hand any
  of them to the receiver at any time. The steps of the two ends are the operations of
  \<open>Reliable_Streams\<close>; what \<open>Link::receive\<close> does before it calls them (reading the header,
  adding the ack) is part of the step.

  The specification is a first-in first-out queue (\<open>fifo_step\<close>); the theorems say that the
  channel implements it as long as no more than three quarters of the sequence numbers are
  used, that no packet is lost within a quarter of them, and that everything can be delivered
  from every reachable state.
\<close>

section \<open>The ends and the network\<close>

text \<open>The serializer that \<open>handleReceivedPacket\<close> puts over its buffer of \<open>MM_MAX_RECVSIZE\<close> bytes.\<close>

definition recv_view :: "byte list \<Rightarrow> bin_serializer" where
  "recv_view d = \<lparr>m_DataPtr = Some (d @ replicate (MM_MAX_RECVSIZE - length d) 0),
     m_WritePos = of_nat (length d), m_ReadPos = 0, m_MaxSize = of_nat MM_MAX_RECVSIZE, m_Owns = False\<rparr>"

text \<open>The first statements of \<open>Link::receive\<close>.\<close>

definition read_header :: "bin_serializer \<Rightarrow> (packet_info \<times> byte \<times> bin_serializer) res" where
  "read_header bs =
     checkedR (read32 bs) (\<lambda>seq bs1.
     checkedR (read8 bs1) (\<lambda>compType bs2.
     checkedR (read8 bs2) (\<lambda>channelAndFlags bs3.
       Inr (\<lparr>m_Sequence = seq, m_ChannelAndFlags = channelAndFlags\<rparr>, compType, bs3))))"

record 'f channel =
  ch_send :: reliable_send
  ch_recv :: reliable_recv
  ch_acks :: reliable_ack_send
  ch_net :: "byte list set"
  ch_back :: "byte list set"
  ch_sent :: "recv_packet list"
  ch_events :: "'f event_rpc list"

definition channel_init :: "'f channel" where
  "channel_init = \<lparr>ch_send = ReliableSend_init, ch_recv = ReliableRecv_init, ch_acks = ReliableAckSend_init,
     ch_net = {}, ch_back = {}, ch_sent = [], ch_events = []\<rparr>"

text \<open>The bytes of a packet after the sequence number.\<close>

definition packet_bytes :: "recv_packet \<Rightarrow> byte list" where
  "packet_bytes p = comp_byte ReliableSend # m_Flags p # m_Id p # m_Data p"

text \<open>A packet that fits in one datagram and that the receiver's application can handle.\<close>

definition good_packet :: "(cstring \<Rightarrow> 'f option) \<Rightarrow> recv_packet \<Rightarrow> bool" where
  "good_packet rpcs p \<longleftrightarrow> single_flags (m_Flags p) \<and> length (m_Data p) \<le> MM_MAX_SENDSIZE - 7 \<and>
     m_Length p = of_nat (length (m_Data p)) \<and> (\<exists>es. handlePacket rpcs p = Inr es)"

inductive channel_step :: "(cstring \<Rightarrow> 'f option) \<Rightarrow> link_stats \<Rightarrow> nat \<Rightarrow> 'f channel \<Rightarrow> 'f channel \<Rightarrow> bool"
  for rpcs ls idx where
  send: "bs_inv b \<Longrightarrow> content b = packet_bytes p \<Longrightarrow> good_packet rpcs p \<Longrightarrow>
     channel_step rpcs ls idx s (s\<lparr>ch_send := enqueue b (ch_send s), ch_sent := ch_sent s @ [p]\<rparr>)"
| transmit: "resend (ch_send s) = Inr ds \<Longrightarrow>
     channel_step rpcs ls idx s (s\<lparr>ch_net := ch_net s \<union> set ds\<rparr>)"
| data: "d \<in> ch_net s \<Longrightarrow> read_header (recv_view d) = Inr (pi, comp_byte ReliableSend, bs) \<Longrightarrow>
     receive bs pi (ch_recv s) = Some (Inr (job, r)) \<Longrightarrow>
     channel_step rpcs ls idx s (s\<lparr>ch_acks := addAck (m_Sequence pi) (ch_acks s), ch_recv := r\<rparr>)"
| proceed: "proceedRecvQueue rpcs (ch_recv s) = Inr (es, r) \<Longrightarrow>
     channel_step rpcs ls idx s (s\<lparr>ch_recv := r, ch_events := ch_events s @ es\<rparr>)"
| ack_out: "ack_resend ls idx (ch_acks s) = Inr (ds, a) \<Longrightarrow>
     channel_step rpcs ls idx s (s\<lparr>ch_acks := a, ch_back := ch_back s \<union> set ds\<rparr>)"
| ack_in: "d \<in> ch_back s \<Longrightarrow> read_header (recv_view d) = Inr (pi, comp_byte ReliableAckSend, bs) \<Longrightarrow>
     ack_receive bs (Some (ch_send s)) = Some (Inr (Some t)) \<Longrightarrow>
     channel_step rpcs ls idx s (s\<lparr>ch_send := t\<rparr>)"

inductive channel_reach :: "(cstring \<Rightarrow> 'f option) \<Rightarrow> link_stats \<Rightarrow> nat \<Rightarrow> 'f channel \<Rightarrow> 'f channel \<Rightarrow> bool"
  for rpcs ls idx where
  start: "channel_reach rpcs ls idx s s"
| more: "channel_reach rpcs ls idx s t \<Longrightarrow> channel_step rpcs ls idx t u \<Longrightarrow> channel_reach rpcs ls idx s u"

section \<open>Specification: a queue\<close>

inductive fifo_step :: "recv_packet list \<times> nat \<Rightarrow> recv_packet list \<times> nat \<Rightarrow> bool" where
  put: "fifo_step (xs, k) (xs @ [x], k)"
| deliver: "k \<le> k' \<Longrightarrow> k' \<le> length xs \<Longrightarrow> fifo_step (xs, k) (xs, k')"

definition fifo_view :: "'f channel \<Rightarrow> recv_packet list \<times> nat" where
  "fifo_view s = (ch_sent s, unat (m_RecvSequence (ch_recv s)))"

section \<open>Headers\<close>

lemma recv_view_ok:
  assumes "length d \<le> MM_MAX_RECVSIZE"
  shows "bs_inv (recv_view d)" and "unread (recv_view d) = d"
proof -
  have u: "unat (of_nat (length d) :: u32) = length d" using assms by (intro unat_of_nat32) (simp add: MM_MAX_RECVSIZE_def)
  show "bs_inv (recv_view d)"
    using u assms by (simp add: bs_inv_def recv_view_def word_le_nat_alt MM_MAX_RECVSIZE_def)
  show "unread (recv_view d) = d" using u by (simp add: unread_def content_def recv_view_def)
qed

lemma read_header_ok:
  assumes "bs_inv bs" and "unread bs = rev (le32 seq) @ ct # fl # rest"
  shows "read_header bs = Inr (\<lparr>m_Sequence = seq, m_ChannelAndFlags = fl\<rparr>, ct, advance 6 bs)"
    and "bs_inv (advance 6 bs)" and "unread (advance 6 bs) = rest"
proof -
  have r1: "read32 bs = Inr (Some seq, advance 4 bs)"
    using u32_codec.get_ok [OF assms(1) _ assms(2)] by simp
  have a1: "bs_inv (advance 4 bs)" "unread (advance 4 bs) = [ct] @ fl # rest"
    using advance_inv [OF assms] by simp_all
  have r2: "read8 (advance 4 bs) = Inr (Some ct, advance 5 bs)"
    using byte_codec.get_ok [OF a1(1) _ a1(2)] by (simp add: advance_advance)
  have a2: "bs_inv (advance 5 bs)" "unread (advance 5 bs) = [fl] @ rest"
    using advance_inv [OF a1] by (simp_all add: advance_advance)
  have r3: "read8 (advance 5 bs) = Inr (Some fl, advance 6 bs)"
    using byte_codec.get_ok [OF a2(1) _ a2(2)] by (simp add: advance_advance)
  show "read_header bs = Inr (\<lparr>m_Sequence = seq, m_ChannelAndFlags = fl\<rparr>, ct, advance 6 bs)"
    using r1 r2 r3 by (simp add: read_header_def)
  show "bs_inv (advance 6 bs)" "unread (advance 6 bs) = rest"
    using advance_inv [OF a2] by (simp_all add: advance_advance)
qed

lemma read_header_data:
  assumes "d = rev (le32 seq) @ packet_bytes p" and "length (m_Data p) \<le> MM_MAX_SENDSIZE - 7"
  shows "\<exists>bs. read_header (recv_view d) = Inr (\<lparr>m_Sequence = seq, m_ChannelAndFlags = m_Flags p\<rparr>, comp_byte ReliableSend, bs) \<and>
    bs_inv bs \<and> unread bs = m_Id p # m_Data p"
proof -
  have l: "length d \<le> MM_MAX_RECVSIZE"
    using assms by (simp add: packet_bytes_def MM_MAX_SENDSIZE_def MM_MAX_RECVSIZE_def)
  have "unread (recv_view d) = rev (le32 seq) @ comp_byte ReliableSend # m_Flags p # (m_Id p # m_Data p)"
    using recv_view_ok(2) [OF l] assms(1) by (simp add: packet_bytes_def)
  from read_header_ok [OF recv_view_ok(1) [OF l] this] show ?thesis by blast
qed

lemma read_header_acks:
  assumes "length (ack_header idx @ acks_bytes as) \<le> MM_MAX_RECVSIZE"
  shows "\<exists>fl bs. read_header (recv_view (ack_header idx @ acks_bytes as)) =
      Inr (\<lparr>m_Sequence = 0, m_ChannelAndFlags = fl\<rparr>, comp_byte ReliableAckSend, bs) \<and>
    bs_inv bs \<and> unread bs = acks_bytes as"
proof -
  have z: "rev (le32 0) = [0, 0, 0, 0]" by code_simp
  have "unread (recv_view (ack_header idx @ acks_bytes as)) = rev (le32 0) @ comp_byte ReliableAckSend
      # makeChannelAndFlags (of_nat idx) False True True True # acks_bytes as"
    using recv_view_ok(2) [OF assms] z by (simp add: ack_header_def)
  from read_header_ok [OF recv_view_ok(1) [OF assms] this] show ?thesis by blast
qed

section \<open>Invariant\<close>

definition send_inv :: "recv_packet list \<Rightarrow> reliable_send \<Rightarrow> bool" where
  "send_inv ps s \<longleftrightarrow> sm_ok (m_SendQueue s) \<and> m_SendSequence s = of_nat (length ps) \<and>
     (\<forall>(k, b) \<in> set (m_SendQueue s). bs_inv b \<and> (\<exists>i < length ps. k = of_nat i \<and> content b = packet_bytes (ps ! i)))"

definition recv_inv :: "recv_packet list \<Rightarrow> nat \<Rightarrow> reliable_recv \<Rightarrow> bool" where
  "recv_inv ps k r \<longleftrightarrow> k \<le> length ps \<and> m_RecvSequence r = of_nat k \<and> m_OrderedFragments r = [] \<and>
     sm_ok (m_OrderedPackets r) \<and>
     (\<forall>(x, p, c) \<in> set (m_OrderedPackets r). \<exists>i. k \<le> i \<and> i < length ps \<and> x = of_nat i \<and> p = ps ! i \<and> c = 1)"

definition channel_inv :: "(cstring \<Rightarrow> 'f option) \<Rightarrow> 'f channel \<Rightarrow> bool" where
  "channel_inv rpcs s \<longleftrightarrow>
     (\<forall>p \<in> set (ch_sent s). good_packet rpcs p) \<and> send_inv (ch_sent s) (ch_send s) \<and>
     (\<forall>d \<in> ch_net s. \<exists>i < length (ch_sent s). d = rev (le32 (of_nat i)) @ packet_bytes (ch_sent s ! i)) \<and>
     (\<exists>k. recv_inv (ch_sent s) k (ch_recv s) \<and> handle_all rpcs (take k (ch_sent s)) = Inr (ch_events s))"

definition seq_bound :: nat where "seq_bound = 3 * 2 ^ 30"

lemma seq_bound_32: "n \<le> seq_bound \<Longrightarrow> n < 2 ^ 32"
  by (simp add: seq_bound_def)

lemma seq_inj: "i < n \<Longrightarrow> j < n \<Longrightarrow> n \<le> seq_bound \<Longrightarrow> (of_nat i :: u32) = of_nat j \<longleftrightarrow> i = j"
  by (rule of_nat_inj32) (auto simp: seq_bound_def)

text \<open>Within the bound a sequence number that passes \<open>isSeqNewer\<close> is not behind the receiver.\<close>

lemma newer_ahead:
  assumes "isSeqNewer (of_nat i) (of_nat k)" and "k \<le> n" and "n \<le> seq_bound"
  shows "k \<le> i"
proof (rule ccontr)
  assume "\<not> k \<le> i"
  then have "of_nat i = (of_nat k - of_nat (k - i) :: u32)" by (simp add: of_nat_diff)
  moreover have "0 < k - i" "k - i \<le> 3 * 2 ^ 30" using assms \<open>\<not> k \<le> i\<close> by (auto simp: seq_bound_def)
  ultimately show False using assms(1) isSeqNewer_behind [of "k - i" "of_nat k"] by simp
qed

lemma newer_window: "k \<le> i \<Longrightarrow> i < k + 2 ^ 30 \<Longrightarrow> isSeqNewer (of_nat i) (of_nat k)"
  using isSeqNewer_offset [of "i - k" "of_nat k"] by (simp add: of_nat_diff)

lemma good_packet_RecvPacket: "good_packet rpcs p \<Longrightarrow> RecvPacket (m_Id p) (m_Data p) (m_Flags p) = p"
  by (simp add: RecvPacket_def good_packet_def)

subsection \<open>The receiver's steps\<close>

lemma receive_step:
  assumes "recv_inv ps k r" and "i < length ps" and "length ps \<le> seq_bound" and "good_packet rpcs (ps ! i)"
    and "bs_inv bs" and "unread bs = m_Id (ps ! i) # m_Data (ps ! i)"
  shows "\<exists>job r'. receive bs \<lparr>m_Sequence = of_nat i, m_ChannelAndFlags = m_Flags (ps ! i)\<rparr> r = Some (Inr (job, r')) \<and>
    recv_inv ps k r' \<and>
    (k \<le> i \<and> i < k + 2 ^ 30 \<longrightarrow> sm_find (m_OrderedPackets r') (of_nat i) \<noteq> None) \<and>
    (\<forall>x. sm_find (m_OrderedPackets r) x \<noteq> None \<longrightarrow> sm_find (m_OrderedPackets r') x \<noteq> None)"
proof (cases "isSeqNewer (of_nat i) (m_RecvSequence r)")
  case False
  then have "\<not> (k \<le> i \<and> i < k + 2 ^ 30)" using assms(1) newer_window [of k i] by (auto simp: recv_inv_def)
  with False assms(1) show ?thesis by (auto simp: receive_old)
next
  case True
  let ?pi = "\<lparr>m_Sequence = of_nat i, m_ChannelAndFlags = m_Flags (ps ! i)\<rparr>"
  let ?r = "r\<lparr>m_OrderedPackets := snd (sm_insert (of_nat i) (ps ! i, 1) (m_OrderedPackets r))\<rparr>"
  have rc: "receive bs ?pi r = Some (Inr (True, ?r))"
    using receive_single [OF assms(5,6), of ?pi r] True assms(4) good_packet_RecvPacket [OF assms(4)]
    by (simp add: good_packet_def)
  have ki: "k \<le> i" using True assms newer_ahead [of i k "length ps"] by (simp add: recv_inv_def)
  have fnd: "sm_find (m_OrderedPackets ?r) x =
      (if x = of_nat i \<and> sm_find (m_OrderedPackets r) x = None then Some (ps ! i, 1) else sm_find (m_OrderedPackets r) x)" for x
    by (auto simp: sm_find_insert)
  have "recv_inv ps k ?r"
  proof -
    have ok: "sm_ok (m_OrderedPackets ?r)" using assms(1) by (simp add: recv_inv_def sm_ok_insert)
    have "\<exists>i. k \<le> i \<and> i < length ps \<and> x = of_nat i \<and> p = ps ! i \<and> c = 1"
      if m: "(x, p, c) \<in> set (m_OrderedPackets ?r)" for x p c
    proof -
      have "sm_find (m_OrderedPackets ?r) x = Some (p, c)" using ok m by (rule sm_mem_find)
      then consider "x = of_nat i" "p = ps ! i" "c = 1" | "(x, p, c) \<in> set (m_OrderedPackets r)"
        unfolding fnd by (auto split: if_splits dest: sm_find_Some_mem)
      then show ?thesis using ki assms(1,2) by cases (auto simp: recv_inv_def)
    qed
    then show ?thesis using ok assms(1) by (auto simp: recv_inv_def)
  qed
  then show ?thesis using rc fnd by auto
qed

lemma drain_step:
  assumes "recv_inv ps k r" and "length ps \<le> seq_bound"
  shows "\<exists>k' \<ge> k. recv_inv ps k' (snd (drain r)) \<and> fst (drain r) = drop k (take k' ps) \<and>
    (\<forall>i. k \<le> i \<and> i < length ps \<and> (\<forall>j. k \<le> j \<and> j \<le> i \<longrightarrow> sm_find (m_OrderedPackets r) (of_nat j) \<noteq> None) \<longrightarrow> i < k') \<and>
    (\<forall>i. k' \<le> i \<and> i < length ps \<longrightarrow> sm_find (m_OrderedPackets (snd (drain r))) (of_nat i) = sm_find (m_OrderedPackets r) (of_nat i))"
  using assms
proof (induction r arbitrary: k rule: drain.induct)
  case (1 r)
  show ?case
  proof (cases "sm_find (m_OrderedPackets r) (m_RecvSequence r)")
    case None
    have "drain r = ([], r)" using None by (subst drain.simps) simp
    moreover have "sm_find (m_OrderedPackets r) (of_nat k) = None" using None 1(2) by (simp add: recv_inv_def)
    ultimately show ?thesis using 1(2) by (intro exI [of _ k]) auto
  next
    case (Some pc)
    have seq: "m_RecvSequence r = of_nat k" using 1(2) by (simp add: recv_inv_def)
    obtain p c where pc: "pc = (p, c)" by (cases pc)
    have "(of_nat k, p, c) \<in> set (m_OrderedPackets r)" using Some pc seq sm_find_Some_mem by metis
    then obtain i where i: "k \<le> i" "i < length ps" "(of_nat k :: u32) = of_nat i" "p = ps ! i" "c = 1"
      using 1(2) by (auto simp: recv_inv_def)
    then have "i = k" using seq_inj [of k "length ps" i] 1(3) by auto
    then have k: "k < length ps" "p = ps ! k" "c = 1" using i by auto
    let ?r = "r\<lparr>m_OrderedPackets := sm_erase (m_RecvSequence r) (m_OrderedPackets r), m_RecvSequence := m_RecvSequence r + c\<rparr>"
    have ok: "sm_ok (m_OrderedPackets r)" using 1(2) by (simp add: recv_inv_def)
    have inv: "recv_inv ps (Suc k) ?r"
    proof -
      have "\<exists>i. Suc k \<le> i \<and> i < length ps \<and> x = of_nat i \<and> q = ps ! i \<and> d = 1"
        if m: "(x, q, d) \<in> set (sm_erase (m_RecvSequence r) (m_OrderedPackets r))" for x q d
      proof -
        have "(x, q, d) \<in> set (m_OrderedPackets r)" using m set_sm_erase_subset by fast
        then obtain i where i: "k \<le> i" "i < length ps" "x = of_nat i" "q = ps ! i" "d = 1"
          using 1(2) by (auto simp: recv_inv_def)
        have "sm_find (sm_erase (m_RecvSequence r) (m_OrderedPackets r)) x \<noteq> None"
          using sm_mem_find [OF sm_ok_erase [OF ok] m] by simp
        then have "x \<noteq> m_RecvSequence r" using ok by (auto simp: sm_find_erase)
        then have "i \<noteq> k" using i(3) seq by auto
        then show ?thesis using i by (intro exI [of _ i]) auto
      qed
      then show ?thesis using 1(2) k seq by (auto simp: recv_inv_def sm_ok_erase)
    qed
    obtain k' where k': "Suc k \<le> k'" "recv_inv ps k' (snd (drain ?r))" "fst (drain ?r) = drop (Suc k) (take k' ps)"
      "\<forall>i. Suc k \<le> i \<and> i < length ps \<and> (\<forall>j. Suc k \<le> j \<and> j \<le> i \<longrightarrow> sm_find (m_OrderedPackets ?r) (of_nat j) \<noteq> None) \<longrightarrow> i < k'"
      "\<forall>i. k' \<le> i \<and> i < length ps \<longrightarrow> sm_find (m_OrderedPackets (snd (drain ?r))) (of_nat i) = sm_find (m_OrderedPackets ?r) (of_nat i)"
      using 1(1) [OF Some pc [symmetric] inv 1(3)] by blast
    have fnd: "sm_find (m_OrderedPackets ?r) (of_nat j) = sm_find (m_OrderedPackets r) (of_nat j)"
      if "Suc k \<le> j" "j < length ps" for j
      using that seq ok 1(3) seq_inj [of j "length ps" k] k(1) by (simp add: sm_find_erase)
    have d: "drain r = (p # fst (drain ?r), snd (drain ?r))"
      using Some pc by (subst drain.simps) (simp add: case_prod_unfold)
    have "p # drop (Suc k) (take k' ps) = drop k (take k' ps)"
      using k k'(1) Cons_nth_drop_Suc [of k "take k' ps"] by simp
    moreover have "i < k'" if "k \<le> i" "i < length ps"
      "\<forall>j. k \<le> j \<and> j \<le> i \<longrightarrow> sm_find (m_OrderedPackets r) (of_nat j) \<noteq> None" for i
    proof (cases "i = k")
      case False
      then show ?thesis using that fnd k'(4) [rule_format, of i] by auto
    qed (use k'(1) in simp)
    ultimately show ?thesis using d k' fnd by (intro exI [of _ k']) auto
  qed
qed

subsection \<open>The sender's steps\<close>

lemma send_inv_enqueue:
  assumes "send_inv ps s" and "bs_inv b" and "content b = packet_bytes p"
  shows "send_inv (ps @ [p]) (enqueue b s)"
proof -
  let ?q = "sm_set (m_SendSequence s) b (m_SendQueue s)"
  have ok: "sm_ok ?q" using assms(1) by (simp add: send_inv_def sm_ok_set)
  have "bs_inv c \<and> (\<exists>i < length (ps @ [p]). k = of_nat i \<and> content c = packet_bytes ((ps @ [p]) ! i))"
    if m: "(k, c) \<in> set ?q" for k c
  proof -
    have "sm_find ?q k = Some c" using ok m by (rule sm_mem_find)
    then consider "k = m_SendSequence s" "c = b" | "(k, c) \<in> set (m_SendQueue s)"
      by (auto split: if_splits dest: sm_find_Some_mem)
    then show ?thesis
    proof cases
      case 1
      then show ?thesis using assms by (auto simp: send_inv_def intro!: exI [of _ "length ps"])
    next
      case 2
      then obtain i where "bs_inv c" "i < length ps" "k = of_nat i" "content c = packet_bytes (ps ! i)"
        using assms(1) by (auto simp: send_inv_def)
      then show ?thesis by (auto simp: nth_append intro!: exI [of _ i])
    qed
  qed
  then show ?thesis using ok assms(1) by (auto simp: send_inv_def enqueue_def)
qed

lemma send_inv_ack:
  assumes "send_inv ps s"
  shows "send_inv ps (ackList as s)"
proof -
  have ok: "sm_ok (m_SendQueue s)" using assms by (simp add: send_inv_def)
  have "(k, b) \<in> set (m_SendQueue s)" if m: "(k, b) \<in> set (m_SendQueue (ackList as s))" for k b
    using sm_mem_find [OF ackList_ok [OF ok] m] ackList_find [OF ok, of as k]
    by (auto split: if_splits dest: sm_find_Some_mem)
  then have "set (m_SendQueue (ackList as s)) \<subseteq> set (m_SendQueue s)" by auto
  then show ?thesis using assms ackList_ok [OF ok, of as] unfolding send_inv_def
    by (simp add: ackList_fields) blast
qed

lemma send_inv_resend:
  assumes "send_inv ps s" and "\<forall>p \<in> set ps. good_packet rpcs p"
  shows "resend s = Inr (map (\<lambda>(seq, p). data_image seq p) (m_SendQueue s))"
proof (rule resend_ok, intro ballI)
  fix b assume "b \<in> snd ` set (m_SendQueue s)"
  then obtain i where i: "bs_inv b" "i < length ps" "content b = packet_bytes (ps ! i)"
    using assms(1) by (force simp: send_inv_def)
  then have "good_packet rpcs (ps ! i)" using assms(2) by simp
  then show "sendable b" using i
    by (simp add: sendable_def packet_bytes_def good_packet_def MM_MAX_SENDSIZE_def MM_MAX_RECVSIZE_def)
qed

section \<open>The invariant holds\<close>

lemma channel_inv_init: "channel_inv rpcs channel_init"
  by (auto simp: channel_inv_def channel_init_def send_inv_def recv_inv_def ReliableSend_init_def
      ReliableRecv_init_def)

lemma ack_receive_ackList:
  "ack_receive bs (Some s) = Some (Inr (Some t)) \<Longrightarrow> \<exists>as. read_acks bs [] = Some (Inr as) \<and> t = ackList as s"
  by (auto simp: ack_receive_def rbind_eq_Inr split: option.splits)

lemma handle_all_take:
  assumes "handle_all rpcs (take k ps) = Inr es" and "handle_all rpcs (drop k (take k' ps)) = Inr es'" and "k \<le> k'"
  shows "handle_all rpcs (take k' ps) = Inr (es @ es')"
proof -
  have "take k' ps = take k ps @ drop k (take k' ps)"
    using append_take_drop_id [of k "take k' ps"] assms(3) by (simp add: min_absorb1)
  then show ?thesis using assms(1,2) handle_all_append [of rpcs "take k ps" "drop k (take k' ps)"] by simp
qed

lemma recv_inv_more: "recv_inv ps k r \<Longrightarrow> recv_inv (ps @ qs) k r"
  by (fastforce simp: recv_inv_def nth_append)

lemma channel_inv_step:
  assumes "channel_step rpcs ls idx s t" and "channel_inv rpcs s" and "length (ch_sent t) \<le> seq_bound"
  shows "channel_inv rpcs t"
  using assms
proof (cases rule: channel_step.cases)
  case (send b p)
  obtain k where k: "recv_inv (ch_sent s) k (ch_recv s)" "handle_all rpcs (take k (ch_sent s)) = Inr (ch_events s)"
    using assms(2) by (auto simp: channel_inv_def)
  have "k \<le> length (ch_sent s)" using k(1) by (simp add: recv_inv_def)
  moreover have "\<exists>i < length (ch_sent s @ [p]). d = rev (le32 (of_nat i)) @ packet_bytes ((ch_sent s @ [p]) ! i)"
    if d: "d \<in> ch_net s" for d
  proof -
    obtain i where "i < length (ch_sent s)" "d = rev (le32 (of_nat i)) @ packet_bytes (ch_sent s ! i)"
      using assms(2) d unfolding channel_inv_def by blast
    then show ?thesis by (intro exI [of _ i]) (simp add: nth_append)
  qed
  ultimately show ?thesis
    using send assms(2) k send_inv_enqueue [of "ch_sent s" "ch_send s" b p] recv_inv_more [OF k(1), of "[p]"]
    unfolding channel_inv_def by auto
next
  case (transmit ds)
  have gp: "\<forall>p \<in> set (ch_sent s). good_packet rpcs p" and si: "send_inv (ch_sent s) (ch_send s)"
    using assms(2) by (auto simp: channel_inv_def)
  have ds: "ds = map (\<lambda>(seq, p). data_image seq p) (m_SendQueue (ch_send s))"
    using send_inv_resend [OF si gp] transmit(2) by simp
  have "\<exists>i < length (ch_sent s). d = rev (le32 (of_nat i)) @ packet_bytes (ch_sent s ! i)" if d: "d \<in> set ds" for d
  proof -
    obtain k b where kb: "(k, b) \<in> set (m_SendQueue (ch_send s))" "d = data_image k b" using d ds by auto
    then obtain i where "i < length (ch_sent s)" "k = of_nat i" "content b = packet_bytes (ch_sent s ! i)"
      using si by (auto simp: send_inv_def)
    then show ?thesis using kb(2) by (auto simp: data_image_def)
  qed
  then show ?thesis using transmit(1) assms(2) unfolding channel_inv_def by auto
next
  case (data d pi bs job r)
  obtain i where i: "i < length (ch_sent s)" "d = rev (le32 (of_nat i)) @ packet_bytes (ch_sent s ! i)"
    using assms(2) data(2) unfolding channel_inv_def by blast
  then have gp: "good_packet rpcs (ch_sent s ! i)" using assms(2) by (auto simp: channel_inv_def)
  obtain bs' where h: "read_header (recv_view d) = Inr (\<lparr>m_Sequence = of_nat i, m_ChannelAndFlags = m_Flags (ch_sent s ! i)\<rparr>,
      comp_byte ReliableSend, bs')" "bs_inv bs'" "unread bs' = m_Id (ch_sent s ! i) # m_Data (ch_sent s ! i)"
    using read_header_data [OF i(2)] gp by (auto simp: good_packet_def)
  obtain k where k: "recv_inv (ch_sent s) k (ch_recv s)" "handle_all rpcs (take k (ch_sent s)) = Inr (ch_events s)"
    using assms(2) by (auto simp: channel_inv_def)
  have b: "length (ch_sent s) \<le> seq_bound" using data(1) assms(3) by simp
  have "recv_inv (ch_sent s) k r"
    using receive_step [OF k(1) i(1) b gp h(2,3)] data(3,4) h(1) by auto
  then show ?thesis using data(1) assms(2) k(2) by (auto simp: channel_inv_def)
next
  case (proceed es r)
  obtain k where k: "recv_inv (ch_sent s) k (ch_recv s)" "handle_all rpcs (take k (ch_sent s)) = Inr (ch_events s)"
    using assms(2) by (auto simp: channel_inv_def)
  have b: "length (ch_sent s) \<le> seq_bound" using proceed(1) assms(3) by simp
  obtain k' where k': "k \<le> k'" "recv_inv (ch_sent s) k' (snd (drain (ch_recv s)))"
      "fst (drain (ch_recv s)) = drop k (take k' (ch_sent s))"
    using drain_step [OF k(1) b] by blast
  have r: "r = snd (drain (ch_recv s))" and "handle_all rpcs (fst (drain (ch_recv s))) = Inr es"
    using proceed(2) by (auto simp: proceedRecvQueue_def proceed_loop_drain rbind_eq_Inr)
  then have "handle_all rpcs (take k' (ch_sent s)) = Inr (ch_events s @ es)"
    using handle_all_take [OF k(2) _ k'(1)] k'(3) by simp
  then show ?thesis using proceed(1) assms(2) k'(2) r by (auto simp: channel_inv_def)
next
  case (ack_out ds a)
  then show ?thesis using assms(2) by (auto simp: channel_inv_def)
next
  case (ack_in d pi bs t')
  obtain as where "t' = ackList as (ch_send s)" using ack_receive_ackList [OF ack_in(4)] by blast
  then show ?thesis using ack_in(1) assms(2) send_inv_ack by (auto simp: channel_inv_def)
qed

lemma channel_sent_mono: "channel_step rpcs ls idx s t \<Longrightarrow> length (ch_sent s) \<le> length (ch_sent t)"
  by (erule channel_step.cases) auto

lemma channel_inv_reach:
  assumes "channel_reach rpcs ls idx channel_init s" and "length (ch_sent s) \<le> seq_bound"
  shows "channel_inv rpcs s"
  using assms
proof (induction "channel_init :: 'a channel" s rule: channel_reach.induct)
  case start
  show ?case by (rule channel_inv_init)
next
  case (more t u)
  then show ?case using channel_sent_mono [OF more(3)] channel_inv_step [OF more(3)] by simp
qed

section \<open>Refinement of the queue\<close>

lemma recv_inv_seq: "recv_inv ps k r \<Longrightarrow> length ps \<le> seq_bound \<Longrightarrow> unat (m_RecvSequence r) = k"
  by (simp add: recv_inv_def unat_of_nat32 seq_bound_def)

lemma channel_inv_recv:
  assumes "channel_inv rpcs s" and "length (ch_sent s) \<le> seq_bound"
  shows "recv_inv (ch_sent s) (unat (m_RecvSequence (ch_recv s))) (ch_recv s)"
    and "handle_all rpcs (take (unat (m_RecvSequence (ch_recv s))) (ch_sent s)) = Inr (ch_events s)"
  using assms recv_inv_seq unfolding channel_inv_def by blast+

lemma channel_refines_fifo:
  assumes "channel_step rpcs ls idx s t" and "channel_inv rpcs s" and "length (ch_sent t) \<le> seq_bound"
  shows "fifo_step (fifo_view s) (fifo_view t) \<or> fifo_view s = fifo_view t"
  using assms(1)
proof (cases rule: channel_step.cases)
  case (send b p)
  then show ?thesis by (auto simp: fifo_view_def intro: fifo_step.put)
next
  case (data d pi bs job r)
  have inv: "channel_inv rpcs t" using assms by (rule channel_inv_step)
  have "m_RecvSequence r = m_RecvSequence (ch_recv s)"
    using data(4) by (auto simp: receive_def sm_insert_def rbind_eq_Inr split: if_splits option.splits sum.splits)
  then show ?thesis using data(1) by (simp add: fifo_view_def)
next
  case (proceed es r)
  have b: "length (ch_sent s) \<le> seq_bound" using proceed(1) assms(3) by simp
  obtain k' where k': "unat (m_RecvSequence (ch_recv s)) \<le> k'" "recv_inv (ch_sent s) k' (snd (drain (ch_recv s)))"
    using drain_step [OF channel_inv_recv(1) [OF assms(2) b] b] by blast
  have r: "r = snd (drain (ch_recv s))"
    using proceed(2) by (auto simp: proceedRecvQueue_def proceed_loop_drain rbind_eq_Inr)
  have "unat (m_RecvSequence r) = k'" "k' \<le> length (ch_sent s)"
    using recv_inv_seq [OF k'(2) b] k'(2) r by (auto simp: recv_inv_def)
  then show ?thesis using proceed(1) k'(1) by (auto simp: fifo_view_def intro: fifo_step.deliver)
qed (auto simp: fifo_view_def)

section \<open>Nothing is lost\<close>

text \<open>\<open>arrived s i\<close>: packet \<open>i\<close> was handed to the application or waits in the receiver's queue.\<close>

definition arrived :: "'f channel \<Rightarrow> nat \<Rightarrow> bool" where
  "arrived s i \<longleftrightarrow> i < unat (m_RecvSequence (ch_recv s)) \<or> sm_find (m_OrderedPackets (ch_recv s)) (of_nat i) \<noteq> None"

definition acked_ok :: "'f channel \<Rightarrow> u32 \<Rightarrow> bool" where
  "acked_ok s a \<longleftrightarrow> (\<exists>i < length (ch_sent s). a = of_nat i \<and> arrived s i)"

definition mtu_ok :: "link_stats \<Rightarrow> bool" where
  "mtu_ok ls \<longleftrightarrow> (\<exists>mtu. mtuAdjusted ls = Inr mtu \<and> unat mtu \<le> MM_MAX_RECVSIZE - 4)"

definition keep_inv :: "nat \<Rightarrow> 'f channel \<Rightarrow> bool" where
  "keep_inv idx s \<longleftrightarrow>
     (\<forall>i < length (ch_sent s). sm_find (m_SendQueue (ch_send s)) (of_nat i) \<noteq> None \<or> arrived s i) \<and>
     (\<forall>a \<in> set (m_ReceivedPackets (ch_acks s)). acked_ok s a) \<and>
     (\<forall>d \<in> ch_back s. \<exists>as. d = ack_header idx @ acks_bytes as \<and> length d \<le> MM_MAX_RECVSIZE \<and> (\<forall>a \<in> set as. acked_ok s a))"

lemma acked_ok_mono:
  "acked_ok s a \<Longrightarrow> length (ch_sent s) \<le> length (ch_sent t) \<Longrightarrow> (\<And>i. i < length (ch_sent s) \<Longrightarrow> arrived s i \<Longrightarrow> arrived t i) \<Longrightarrow> acked_ok t a"
  unfolding acked_ok_def by (blast intro: less_le_trans)

lemma keep_inv_mono:
  assumes "keep_inv idx s" and "ch_sent t = ch_sent s" and "ch_send t = ch_send s" and "ch_back t = ch_back s"
    and "\<And>i. i < length (ch_sent s) \<Longrightarrow> arrived s i \<Longrightarrow> arrived t i"
    and "\<And>a. a \<in> set (m_ReceivedPackets (ch_acks t)) \<Longrightarrow> a \<in> set (m_ReceivedPackets (ch_acks s)) \<or> acked_ok t a"
  shows "keep_inv idx t"
proof -
  have m: "acked_ok s a \<Longrightarrow> acked_ok t a" for a using acked_ok_mono [of s a t] assms(2,5) by simp
  show ?thesis using assms m unfolding keep_inv_def by (auto, blast, meson)
qed

lemma proceed_arrived:
  assumes "channel_inv rpcs s" and "length (ch_sent s) \<le> seq_bound"
    and "proceedRecvQueue rpcs (ch_recv s) = Inr (es, r)" and "i < length (ch_sent s)" and "arrived s i"
  shows "arrived (s\<lparr>ch_recv := r, ch_events := ev\<rparr>) i"
proof -
  let ?k = "unat (m_RecvSequence (ch_recv s))"
  have r: "r = snd (drain (ch_recv s))"
    using assms(3) by (auto simp: proceedRecvQueue_def proceed_loop_drain rbind_eq_Inr)
  obtain k' where k': "?k \<le> k'" "recv_inv (ch_sent s) k' r"
      "\<forall>i. k' \<le> i \<and> i < length (ch_sent s) \<longrightarrow> sm_find (m_OrderedPackets r) (of_nat i) = sm_find (m_OrderedPackets (ch_recv s)) (of_nat i)"
    using drain_step [OF channel_inv_recv(1) [OF assms(1,2)] assms(2)] r by blast
  show ?thesis using k' assms(4,5) recv_inv_seq [OF k'(2) assms(2)] by (auto simp: arrived_def)
qed

text \<open>Every datagram of the sender is accepted, whenever it arrives.\<close>

lemma data_arrives:
  assumes "channel_inv rpcs s" and "length (ch_sent s) \<le> seq_bound" and "i < length (ch_sent s)"
    and "d = rev (le32 (of_nat i)) @ packet_bytes (ch_sent s ! i)"
  shows "\<exists>pi bs job r. read_header (recv_view d) = Inr (pi, comp_byte ReliableSend, bs) \<and> m_Sequence pi = of_nat i \<and>
    receive bs pi (ch_recv s) = Some (Inr (job, r)) \<and> m_RecvSequence r = m_RecvSequence (ch_recv s) \<and>
    (length (ch_sent s) \<le> 2 ^ 30 \<longrightarrow> arrived (s\<lparr>ch_acks := a, ch_recv := r\<rparr>) i) \<and>
    (\<forall>j. arrived s j \<longrightarrow> arrived (s\<lparr>ch_acks := a, ch_recv := r\<rparr>) j)"
proof -
  let ?k = "unat (m_RecvSequence (ch_recv s))" and ?p = "ch_sent s ! i"
  let ?pi = "\<lparr>m_Sequence = of_nat i, m_ChannelAndFlags = m_Flags ?p\<rparr>"
  have gp: "good_packet rpcs ?p" using assms(1,3) by (simp add: channel_inv_def)
  obtain bs where h: "read_header (recv_view d) = Inr (?pi, comp_byte ReliableSend, bs)" "bs_inv bs" "unread bs = m_Id ?p # m_Data ?p"
    using read_header_data [OF assms(4)] gp by (auto simp: good_packet_def)
  have ri: "recv_inv (ch_sent s) ?k (ch_recv s)" using channel_inv_recv(1) [OF assms(1,2)] .
  obtain job r where r: "receive bs ?pi (ch_recv s) = Some (Inr (job, r))" "recv_inv (ch_sent s) ?k r"
    "?k \<le> i \<and> i < ?k + 2 ^ 30 \<longrightarrow> sm_find (m_OrderedPackets r) (of_nat i) \<noteq> None"
    "\<forall>x. sm_find (m_OrderedPackets (ch_recv s)) x \<noteq> None \<longrightarrow> sm_find (m_OrderedPackets r) x \<noteq> None"
    using receive_step [OF ri assms(3,2) gp h(2,3)] by blast
  have sq: "m_RecvSequence r = m_RecvSequence (ch_recv s)" using r(2) ri by (simp add: recv_inv_def)
  have "arrived (s\<lparr>ch_acks := a, ch_recv := r\<rparr>) i" if "length (ch_sent s) \<le> 2 ^ 30"
    using that r(3) assms(3) sq by (auto simp: arrived_def)
  then show ?thesis using h(1) r sq by (intro exI [of _ ?pi] exI [of _ bs] exI [of _ job] exI [of _ r]) (auto simp: arrived_def)
qed

lemma keep_inv_step:
  assumes "channel_step rpcs ls idx s t" and "channel_inv rpcs s" and "keep_inv idx s" and "mtu_ok ls"
    and "length (ch_sent t) \<le> 2 ^ 30"
  shows "keep_inv idx t"
  using assms(1)
proof (cases rule: channel_step.cases)
  case (send b p)
  have a: "acked_ok s x \<Longrightarrow> acked_ok t x" for x
    using send(1) by (rule_tac acked_ok_mono) (auto simp: arrived_def)
  have n: "m_SendSequence (ch_send s) = of_nat (length (ch_sent s))"
    using assms(2) by (simp add: channel_inv_def send_inv_def)
  show ?thesis using send(1) assms(3) a n unfolding keep_inv_def
    by (auto simp: enqueue_def less_Suc_eq arrived_def) blast+
next
  case (transmit ds)
  then show ?thesis by (intro keep_inv_mono [OF assms(3)]) (auto simp: arrived_def)
next
  case (data d pi bs job r)
  have b: "length (ch_sent s) \<le> seq_bound" "length (ch_sent s) \<le> 2 ^ 30"
    using data(1) assms(5) by (auto simp: seq_bound_def)
  obtain i where i: "i < length (ch_sent s)" "d = rev (le32 (of_nat i)) @ packet_bytes (ch_sent s ! i)"
    using assms(2) data(2) unfolding channel_inv_def by blast
  have ar: "m_Sequence pi = of_nat i" "arrived t i" "\<And>j. arrived s j \<Longrightarrow> arrived t j"
    using data_arrives [OF assms(2) b(1) i] data(1,3,4) b(2) by auto
  then have "acked_ok t (m_Sequence pi)" using i(1) data(1) by (auto simp: acked_ok_def)
  then show ?thesis using data(1) ar(3) by (intro keep_inv_mono [OF assms(3)]) (auto simp: addAck_def)
next
  case (proceed es r)
  have b: "length (ch_sent s) \<le> seq_bound" using proceed(1) assms(5) by (auto simp: seq_bound_def)
  show ?thesis using proceed proceed_arrived [OF assms(2) b proceed(2)]
    by (intro keep_inv_mono [OF assms(3)]) auto
next
  case (ack_out ds a)
  obtain mtu where mtu: "mtuAdjusted ls = Inr mtu" "unat mtu \<le> MM_MAX_RECVSIZE - 4" using assms(4) by (auto simp: mtu_ok_def)
  have m9: "unat mtu \<le> 1000000000" using mtu(2) by (simp add: MM_MAX_RECVSIZE_def)
  obtain groups where g: "ds = map (\<lambda>g. ack_header idx @ acks_bytes g) groups" "a = (ch_acks s)\<lparr>m_ReceivedPackets := []\<rparr>"
    "concat groups = m_ReceivedPackets (ch_acks s)"
    "\<forall>g \<in> set groups. length (ack_header idx @ acks_bytes g) < max 7 (unat mtu) + 4"
    using ack_resend_ok [OF mtu(1) m9, of idx "ch_acks s"] ack_out(2) by auto
  have eq: "acked_ok t = acked_ok s" using ack_out(1) by (auto simp: acked_ok_def arrived_def fun_eq_iff)
  have "\<exists>as. d = ack_header idx @ acks_bytes as \<and> length d \<le> MM_MAX_RECVSIZE \<and> (\<forall>a \<in> set as. acked_ok s a)"
    if d: "d \<in> set ds" for d
  proof -
    obtain gr where gr: "gr \<in> set groups" "d = ack_header idx @ acks_bytes gr" using d g(1) by auto
    have "length d \<le> MM_MAX_RECVSIZE" using g(4) gr mtu(2) by (fastforce simp: MM_MAX_RECVSIZE_def max_def split: if_splits)
    moreover have "set gr \<subseteq> set (m_ReceivedPackets (ch_acks s))" using g(3) gr(1) by (metis UN_upper set_concat)
    ultimately show ?thesis using gr(2) assms(3) unfolding keep_inv_def by blast
  qed
  then show ?thesis using ack_out(1) assms(3) g(2) eq unfolding keep_inv_def by (auto simp: arrived_def)
next
  case (ack_in d pi bs s')
  obtain as where as: "d = ack_header idx @ acks_bytes as" "length d \<le> MM_MAX_RECVSIZE" "\<forall>a \<in> set as. acked_ok s a"
    using assms(3) ack_in(2) unfolding keep_inv_def by blast
  have "read_acks bs [] = Some (Inr as)"
    using read_header_acks [of idx as] as(1,2) ack_in(3) read_acks_ok [of bs as "[]"] by auto
  then have s': "s' = ackList as (ch_send s)" using ack_receive_ackList [OF ack_in(4)] by auto
  have eq: "acked_ok t = acked_ok s" "arrived t = arrived s" using ack_in(1) by (auto simp: acked_ok_def arrived_def fun_eq_iff)
  have ok: "sm_ok (m_SendQueue (ch_send s))" using assms(2) by (simp add: channel_inv_def send_inv_def)
  have "sm_find (m_SendQueue s') (of_nat i) \<noteq> None \<or> arrived s i" if i: "i < length (ch_sent s)" for i
  proof (cases "of_nat i \<in> set as")
    case True
    then obtain j where j: "j < length (ch_sent s)" "(of_nat i :: u32) = of_nat j" "arrived s j"
      using as(3) by (auto simp: acked_ok_def)
    then have "i = j" using i seq_inj [of i "length (ch_sent s)" j] ack_in(1) assms(5) by (auto simp: seq_bound_def)
    then show ?thesis using j(3) by simp
  next
    case False
    then show ?thesis using i s' assms(3) ackList_find [OF ok, of as "of_nat i"] by (auto simp: keep_inv_def)
  qed
  then show ?thesis using ack_in(1) assms(3) eq unfolding keep_inv_def by auto
qed

lemma keep_inv_reach:
  assumes "channel_reach rpcs ls idx channel_init s" and "mtu_ok ls" and "length (ch_sent s) \<le> 2 ^ 30"
  shows "keep_inv idx s"
  using assms
proof (induction "channel_init :: 'a channel" s rule: channel_reach.induct)
  case start
  show ?case by (simp add: keep_inv_def channel_init_def ReliableAckSend_init_def)
next
  case (more t u)
  have "length (ch_sent t) \<le> 2 ^ 30" using channel_sent_mono [OF more(3)] more(5) by simp
  moreover from this have "channel_inv rpcs t" using more(1) by (intro channel_inv_reach) (auto simp: seq_bound_def)
  ultimately show ?case using more keep_inv_step by blast
qed

section \<open>Everything can be delivered\<close>

lemma channel_reach_trans:
  "channel_reach rpcs ls idx s t \<Longrightarrow> channel_reach rpcs ls idx t u \<Longrightarrow> channel_reach rpcs ls idx s u"
  by (rotate_tac, induction rule: channel_reach.induct) (auto intro: channel_reach.more)

lemma deliver_list:
  assumes "channel_inv rpcs s" and "length (ch_sent s) \<le> 2 ^ 30" and "set is \<subseteq> {..< length (ch_sent s)}"
    and "\<forall>i \<in> set is. rev (le32 (of_nat i)) @ packet_bytes (ch_sent s ! i) \<in> ch_net s"
  shows "\<exists>t. channel_reach rpcs ls idx s t \<and> channel_inv rpcs t \<and> ch_sent t = ch_sent s \<and>
    (\<forall>i \<in> set is. arrived t i) \<and> (\<forall>j. arrived s j \<longrightarrow> arrived t j)"
  using assms
proof (induction "is" arbitrary: s)
  case Nil
  then show ?case by (auto intro: channel_reach.start)
next
  case (Cons i js)
  let ?d = "rev (le32 (of_nat i)) @ packet_bytes (ch_sent s ! i)"
  have b: "length (ch_sent s) \<le> seq_bound" using Cons.prems(2) by (simp add: seq_bound_def)
  have i: "i < length (ch_sent s)" using Cons.prems(3) by simp
  obtain pi bs job r where r: "read_header (recv_view ?d) = Inr (pi, comp_byte ReliableSend, bs)"
    "receive bs pi (ch_recv s) = Some (Inr (job, r))"
    "arrived (s\<lparr>ch_acks := addAck (of_nat i) (ch_acks s), ch_recv := r\<rparr>) i" "m_Sequence pi = of_nat i"
    "\<forall>j. arrived s j \<longrightarrow> arrived (s\<lparr>ch_acks := addAck (of_nat i) (ch_acks s), ch_recv := r\<rparr>) j"
    using data_arrives [OF Cons.prems(1) b i refl, of "addAck (of_nat i) (ch_acks s)"] Cons.prems(2) by blast
  let ?s = "s\<lparr>ch_acks := addAck (of_nat i) (ch_acks s), ch_recv := r\<rparr>"
  have st: "channel_step rpcs ls idx s ?s"
    using channel_step.data [of ?d s pi bs job r rpcs ls idx] r Cons.prems(4) by simp
  have inv: "channel_inv rpcs ?s" using channel_inv_step [OF st Cons.prems(1)] b by simp
  obtain t where t: "channel_reach rpcs ls idx ?s t" "channel_inv rpcs t" "ch_sent t = ch_sent ?s"
      "\<forall>i \<in> set js. arrived t i" "\<forall>j. arrived ?s j \<longrightarrow> arrived t j"
    using Cons.IH [OF inv] Cons.prems by auto
  have "channel_reach rpcs ls idx s t"
    using channel_reach_trans [OF channel_reach.more [OF channel_reach.start st] t(1)] .
  then show ?case using t r(3,5) by auto
qed

lemma handle_all_good: "\<forall>p \<in> set ps. good_packet rpcs p \<Longrightarrow> \<exists>es. handle_all rpcs ps = Inr es"
  by (induction ps) (auto simp: good_packet_def)

lemma transmit_net:
  assumes "send_inv ps s" and "sm_find (m_SendQueue s) (of_nat i) \<noteq> None" and "i < length ps" and "length ps \<le> seq_bound"
  shows "rev (le32 (of_nat i)) @ packet_bytes (ps ! i) \<in> set (map (\<lambda>(seq, p). data_image seq p) (m_SendQueue s))"
proof -
  obtain b where b: "sm_find (m_SendQueue s) (of_nat i) = Some b" using assms(2) by auto
  then have m: "(of_nat i, b) \<in> set (m_SendQueue s)" by (rule sm_find_Some_mem)
  then obtain j where j: "j < length ps" "(of_nat i :: u32) = of_nat j" "content b = packet_bytes (ps ! j)"
    using assms(1) by (auto simp: send_inv_def)
  then have "j = i" using seq_inj [of i "length ps" j] assms(3,4) by simp
  then show ?thesis using m j(3) by (force simp: data_image_def)
qed

lemma proceed_all:
  assumes "channel_inv rpcs t" and "length (ch_sent t) \<le> seq_bound" and "\<And>i. i < length (ch_sent t) \<Longrightarrow> arrived t i"
  shows "\<exists>es r. proceedRecvQueue rpcs (ch_recv t) = Inr (es, r) \<and> handle_all rpcs (ch_sent t) = Inr (ch_events t @ es)"
proof -
  let ?n = "length (ch_sent t)" and ?k = "unat (m_RecvSequence (ch_recv t))"
  obtain k' where k': "?k \<le> k'" "recv_inv (ch_sent t) k' (snd (drain (ch_recv t)))"
      "fst (drain (ch_recv t)) = drop ?k (take k' (ch_sent t))"
      "\<forall>i. ?k \<le> i \<and> i < ?n \<and> (\<forall>j. ?k \<le> j \<and> j \<le> i \<longrightarrow> sm_find (m_OrderedPackets (ch_recv t)) (of_nat j) \<noteq> None) \<longrightarrow> i < k'"
    using drain_step [OF channel_inv_recv(1) [OF assms(1,2)] assms(2)] by blast
  have "k' = ?n"
  proof (rule ccontr)
    assume "k' \<noteq> ?n"
    then have "k' < ?n" using k'(2) by (simp add: recv_inv_def)
    moreover have "\<forall>j. ?k \<le> j \<and> j \<le> k' \<longrightarrow> sm_find (m_OrderedPackets (ch_recv t)) (of_nat j) \<noteq> None"
      using assms(3) \<open>k' < ?n\<close> unfolding arrived_def by (meson le_less_trans not_less)
    ultimately show False using k'(1,4) by auto
  qed
  have "\<forall>p \<in> set (drop ?k (ch_sent t)). good_packet rpcs p"
    using assms(1) set_drop_subset [of ?k "ch_sent t"] by (auto simp: channel_inv_def)
  then obtain es where es: "handle_all rpcs (drop ?k (ch_sent t)) = Inr es" using handle_all_good by blast
  have dr: "fst (drain (ch_recv t)) = drop ?k (ch_sent t)" using k'(3) \<open>k' = ?n\<close> by simp
  have "handle_all rpcs (take ?n (ch_sent t)) = Inr (ch_events t @ es)"
    using handle_all_take [of rpcs ?k "ch_sent t" "ch_events t" ?n es] channel_inv_recv(2) [OF assms(1,2)] es k'(1) \<open>k' = ?n\<close> by simp
  then show ?thesis using es dr by (simp add: proceedRecvQueue_def proceed_loop_drain)
qed

lemma can_deliver_all:
  assumes "channel_inv rpcs s" and "keep_inv idx s" and "length (ch_sent s) \<le> 2 ^ 30"
  shows "\<exists>t. channel_reach rpcs ls idx s t \<and> ch_sent t = ch_sent s \<and> handle_all rpcs (ch_sent s) = Inr (ch_events t)"
proof -
  let ?n = "length (ch_sent s)" and ?ds = "map (\<lambda>(seq, p). data_image seq p) (m_SendQueue (ch_send s))"
  have b: "?n \<le> seq_bound" using assms(3) by (simp add: seq_bound_def)
  have gp: "\<forall>p \<in> set (ch_sent s). good_packet rpcs p" and si: "send_inv (ch_sent s) (ch_send s)"
    using assms(1) by (auto simp: channel_inv_def)
  let ?s1 = "s\<lparr>ch_net := ch_net s \<union> set ?ds\<rparr>"
  have st1: "channel_step rpcs ls idx s ?s1" by (rule channel_step.transmit) (rule send_inv_resend [OF si gp])
  have inv1: "channel_inv rpcs ?s1" using channel_inv_step [OF st1 assms(1)] b by simp
  let ?is = "filter (\<lambda>i. \<not> arrived s i) [0..<?n]"
  have net: "rev (le32 (of_nat i)) @ packet_bytes (ch_sent s ! i) \<in> set ?ds" if "i \<in> set ?is" for i
    using that assms(2) transmit_net [OF si _ _ b, of i] by (auto simp: keep_inv_def)
  have nd: "\<forall>i \<in> set ?is. rev (le32 (of_nat i)) @ packet_bytes (ch_sent ?s1 ! i) \<in> ch_net ?s1"
  proof
    fix i assume "i \<in> set ?is"
    from net [OF this] show "rev (le32 (of_nat i)) @ packet_bytes (ch_sent ?s1 ! i) \<in> ch_net ?s1" by simp
  qed
  obtain t where t: "channel_reach rpcs ls idx ?s1 t" "channel_inv rpcs t" "ch_sent t = ch_sent ?s1"
      "\<forall>i \<in> set ?is. arrived t i" "\<forall>j. arrived ?s1 j \<longrightarrow> arrived t j"
    using deliver_list [OF inv1 _ _ nd, of ls idx] assms(3) by auto
  have all: "arrived t i" if "i < ?n" for i
    using that t(4,5) by (cases "arrived s i") (auto simp: arrived_def)
  obtain es r where es: "proceedRecvQueue rpcs (ch_recv t) = Inr (es, r)" "handle_all rpcs (ch_sent t) = Inr (ch_events t @ es)"
    using proceed_all [OF t(2)] all b t(3) by auto
  let ?u = "t\<lparr>ch_recv := r, ch_events := ch_events t @ es\<rparr>"
  have st2: "channel_step rpcs ls idx t ?u" using es(1) by (rule channel_step.proceed)
  have "channel_reach rpcs ls idx s ?u"
    using channel_reach.more [OF channel_reach_trans [OF channel_reach.more [OF channel_reach.start st1] t(1)] st2] .
  then show ?thesis using t(3) es(2) by (intro exI [of _ ?u]) simp
qed

section \<open>Messages and the channel\<close>

text \<open>What \<open>ReliableRecv::receive\<close> makes of a fragment: it takes the byte after the flags as the data id.\<close>

definition received_fragment :: "byte list \<Rightarrow> recv_packet" where
  "received_fragment img = RecvPacket (img ! 2) (drop 3 img) (img ! 1)"

lemma received_fragment_parse:
  assumes "bs_inv bs" and "unread bs = drop 2 img" and "2 < length img"
  shows "parse_packet bs (img ! 1) = Inr (received_fragment img)"
proof -
  have "drop 2 img = img ! 2 # drop 3 img"
    using Cons_nth_drop_Suc [OF assms(3)] by (simp add: numeral_2_eq_2 numeral_3_eq_3)
  then show ?thesis using parse_packet_ok [OF assms(1)] assms(2) by (simp add: received_fragment_def)
qed

lemma fragment_images_length: "length (fragment_images ct did fl first cs) = length cs"
  by (induction ct did fl first cs rule: fragment_images.induct) auto

lemma fragment_images_nth:
  "j < length cs \<Longrightarrow> fragment_images ct did fl first cs ! j =
     [ct, fl (first \<and> j = 0) (Suc j = length cs)] @ (if first \<and> j = 0 then [did] else []) @ cs ! j"
proof (induction ct did fl first cs arbitrary: j rule: fragment_images.induct)
  case (2 ct did fl first c cs)
  then show ?case by (cases j) auto
qed simp

lemma chop_nonempty: "0 < n \<Longrightarrow> xs \<noteq> [] \<Longrightarrow> c \<in> set (chop n xs) \<Longrightarrow> c \<noteq> []"
proof (induction n xs rule: chop.induct)
  case (1 n xs)
  show ?case
  proof (cases "length xs \<le> n")
    case True
    then have "chop n xs = [xs]" by (subst chop.simps) simp
    with 1 show ?thesis by simp
  next
    case False
    then have "chop n xs = take n xs # chop n (drop n xs)" using 1(2) by (subst chop.simps) simp
    with 1 False show ?thesis by auto
  qed
qed

lemma received_later:
  "\<forall>c \<in> set cs. c \<noteq> [] \<Longrightarrow>
   map m_Data (map received_fragment (fragment_images ct did fl False cs)) = map tl cs"
  by (induction ct did fl False cs rule: fragment_images.induct)
     (auto simp: received_fragment_def RecvPacket_def numeral_3_eq_3 drop_Suc)

lemma length_concat_tl:
  "\<forall>c \<in> set cs. c \<noteq> [] \<Longrightarrow> length (concat (map tl cs)) + length cs = length (concat cs)"
proof (induction cs)
  case (Cons c cs)
  then show ?case by (cases c) auto
qed simp

lemma received_data:
  assumes "\<forall>c \<in> set cs. c \<noteq> []"
  shows "concat (map m_Data (map received_fragment (fragment_images ct did fl True (c # cs)))) = c @ concat (map tl cs)"
  using received_later [OF assms, of ct did fl]
  by (simp add: received_fragment_def [of "_ # _"] RecvPacket_def [of _ c] numeral_3_eq_3)

lemma received_big_packet:
  fixes ch relay sys
  defines "fl \<equiv> makeChannelAndFlags ch relay sys"
  assumes cs: "cs \<noteq> []" "\<forall>c \<in> set cs. c \<noteq> []" and len: "length (concat cs) < 2 ^ 32"
  shows "big_packet (map received_fragment (fragment_images ct did fl True cs))"
proof -
  let ?im = "fragment_images ct did fl True cs" and ?fs = "map received_fragment (fragment_images ct did fl True cs)"
  have n: "length ?fs = length cs" by (simp add: fragment_images_length)
  have "length cs \<le> length (concat cs)" using length_concat_tl [OF cs(2)] by simp
  then have l: "length cs < 2 ^ 32" using len by simp
  obtain c cs' where cc: "cs = c # cs'" using cs(1) by (cases cs) auto
  have tot: "length (concat (map m_Data ?fs)) \<le> length (concat cs)"
    using received_data [of cs' ct did fl c] length_concat_tl [of cs'] cs(2) cc by simp
  have "packet_ok p" if p: "p \<in> set ?fs" for p
  proof -
    have "length (m_Data p) \<le> length (concat (map m_Data ?fs))"
      using p by (auto simp: length_concat intro!: member_le_sum_list)
    moreover obtain img where "p = received_fragment img" using p by auto
    ultimately show ?thesis using tot len by (simp add: packet_ok_def received_fragment_def RecvPacket_def)
  qed
  moreover have "isFirst (?fs ! j) = (j = 0) \<and> isLast (?fs ! j) = (Suc j = length ?fs)" if j: "j < length ?fs" for j
  proof -
    have jc: "j < length cs" using j n by simp
    then have "m_Flags (?fs ! j) = fl (j = 0) (Suc j = length cs)"
      by (simp add: fragment_images_length received_fragment_def RecvPacket_def fragment_images_nth)
    then show ?thesis using n by (simp add: isFirst_def isLast_def fl_def flags_first flags_last)
  qed
  ultimately show ?thesis using n l tot len cs(1) by (auto simp: big_packet_def simp del: length_map)
qed

section \<open>Properties of the channel\<close>

text \<open>Safety of the reliable channel. Whatever the network does with the datagrams (loss,
  duplication, reordering), the events the receiver has produced are those of a prefix of the
  packets the sender enqueued: in the order of sending, each exactly once. It holds for up to
  \<open>3 * 2 ^ 30\<close> packets, which is what the window of \<open>isSeqNewer\<close> allows.\<close>

theorem channel_in_order:
  assumes "channel_reach rpcs ls idx channel_init s" and "length (ch_sent s) \<le> seq_bound"
  shows "unat (m_RecvSequence (ch_recv s)) \<le> length (ch_sent s) \<and>
    handle_all rpcs (take (unat (m_RecvSequence (ch_recv s))) (ch_sent s)) = Inr (ch_events s)"
proof -
  have inv: "channel_inv rpcs s" using assms by (rule channel_inv_reach)
  show ?thesis using channel_inv_recv [OF inv assms(2)] by (auto simp: recv_inv_def)
qed



text \<open>Progress. From every reachable state the two ends can still deliver everything that was
  sent: some finite sequence of steps leads to a state in which the events of all packets, in order,
  have been produced.\<close>

theorem channel_can_deliver:
  assumes "channel_reach rpcs ls idx channel_init s" and "mtu_ok ls" and "length (ch_sent s) \<le> 2 ^ 30"
  shows "\<exists>t. channel_reach rpcs ls idx s t \<and> ch_sent t = ch_sent s \<and> handle_all rpcs (ch_sent s) = Inr (ch_events t)"
proof -
  have "channel_inv rpcs s" using assms by (intro channel_inv_reach) (auto simp: seq_bound_def)
  then show ?thesis using can_deliver_all [OF _ keep_inv_reach [OF assms] assms(3)] by simp
qed


text \<open>A message that fits in one fragment leaves \<open>createNormalPacket\<close> as one payload, and that
  payload is the packet with the message, its data id and its flags which the channel carries.\<close>

theorem createNormalPacket_channel:
  assumes "\<forall>b \<in> set srs. bs_inv b" and "18 < maxF" and "maxF < 2000000000"
    and "msg = concat (map content srs)" and "int (length msg) \<le> maxF - 6"
  shows "\<exists>f. createNormalPacket (comp_byte ReliableSend) did srs (length srs) ch relay sys maxF = Inr [f] \<and> bs_inv f \<and>
    content f = packet_bytes (RecvPacket did msg (makeChannelAndFlags ch relay sys True True)) \<and>
    single_flags (makeChannelAndFlags ch relay sys True True)"
proof -
  have "length msg \<le> nat (maxF - 6)" using assms(5) by simp
  then have c: "chop (nat (maxF - 6)) msg = [msg]" by (subst chop.simps) simp
  have l: "length (concat (map content srs)) < 2 ^ 32" using assms(3-5) by simp
  show ?thesis
    using createNormalPacket_ok [OF assms(1) l assms(2,3), of "comp_byte ReliableSend" did ch relay sys] c assms(4)
    by (auto simp: packet_bytes_def RecvPacket_def single_flags_def flags_first flags_last)
qed


section \<open>The properties at work\<close>

text \<open>An rpc named \<open>a\<close> without arguments, sent over a new channel.\<close>

definition demo_packet :: recv_packet where
  "demo_packet = \<lparr>m_Id = 0, m_Data = [97, 0], m_Length = 2, m_Flags = 24\<rparr>"

definition demo_bs :: bin_serializer where
  "demo_bs = \<lparr>m_DataPtr = Some [17, 24, 0, 97, 0], m_WritePos = 5, m_ReadPos = 0, m_MaxSize = 5, m_Owns = True\<rparr>"

definition demo_rpcs :: "cstring \<Rightarrow> unit option" where
  "demo_rpcs name = (if name = [97] then Some () else None)"

definition demo_state :: "unit channel" where
  "demo_state = channel_init\<lparr>ch_send := enqueue demo_bs ReliableSend_init, ch_sent := [demo_packet],
     ch_net := {[0, 0, 0, 0, 17, 24, 0, 97, 0]}\<rparr>"

lemma demo_bs_ok: "bs_inv demo_bs" "content demo_bs = packet_bytes demo_packet"
  by (simp_all add: demo_bs_def bs_inv_def content_def packet_bytes_def demo_packet_def comp_byte_def)

lemma demo_handle:
  "handlePacket demo_rpcs demo_packet = Inr [\<lparr>m_RpcFunc = (), m_Pack = demo_packet, m_EvReadPos = 2\<rparr>]"
proof -
  have "handleRpc demo_rpcs demo_packet = Inr (case demo_rpcs [97] of None \<Rightarrow> []
      | Some f \<Rightarrow> [\<lparr>m_RpcFunc = f, m_Pack = demo_packet, m_EvReadPos = of_nat (length [97 :: byte] + 1)\<rparr>])"
    by (rule handleRpc_ok [where args = "[]"]) (simp_all add: demo_packet_def packet_ok_def string_ok_def TempBuffSize_def)
  then show ?thesis by (simp add: handlePacket_def demo_rpcs_def packet_RPC_def) (simp add: demo_packet_def)
qed

lemma demo_good: "good_packet demo_rpcs demo_packet"
proof -
  have "single_flags 24" unfolding single_flags_def MM_FRAGMENT_FIRST_BIT_def MM_FRAGMENT_LAST_BIT_def by code_simp
  then show ?thesis using demo_handle
    by (simp add: good_packet_def) (simp add: demo_packet_def MM_MAX_SENDSIZE_def MM_MAX_RECVSIZE_def)
qed

lemma demo_resend: "resend (enqueue demo_bs ReliableSend_init) = Inr [[0, 0, 0, 0, 17, 24, 0, 97, 0]]"
proof -
  have q: "m_SendQueue (enqueue demo_bs ReliableSend_init) = [(0, demo_bs)]"
    by (simp add: enqueue_def ReliableSend_init_def)
  have "length (content demo_bs) = 5" by (simp add: demo_bs_def content_def)
  then have "sendable demo_bs"
    using demo_bs_ok(1) by (simp add: sendable_def MM_MAX_SENDSIZE_def MM_MAX_RECVSIZE_def)
  then have "resend (enqueue demo_bs ReliableSend_init) = Inr [data_image 0 demo_bs]"
    using resend_ok [of "enqueue demo_bs ReliableSend_init"] unfolding q by simp
  moreover have "data_image 0 demo_bs = [0, 0, 0, 0, 17, 24, 0, 97, 0]"
    by (simp add: data_image_def demo_bs_def content_def) code_simp
  ultimately show ?thesis by simp
qed

lemma demo_reach: "channel_reach demo_rpcs LinkStats_init 0 channel_init demo_state"
proof -
  let ?s = "channel_init\<lparr>ch_send := enqueue demo_bs ReliableSend_init, ch_sent := [demo_packet]\<rparr>"
  have s1: "channel_step demo_rpcs LinkStats_init 0 channel_init ?s"
    using channel_step.send [OF demo_bs_ok demo_good, of LinkStats_init 0 channel_init] by (simp add: channel_init_def)
  have "resend (ch_send ?s) = Inr [[0, 0, 0, 0, 17, 24, 0, 97, 0]]" by (simp add: demo_resend)
  then have "channel_step demo_rpcs LinkStats_init 0 ?s demo_state"
    using channel_step.transmit [of ?s "[[0, 0, 0, 0, 17, 24, 0, 97, 0]]" demo_rpcs LinkStats_init 0]
    by (simp add: demo_state_def channel_init_def)
  then show ?thesis using channel_reach.more [OF channel_reach.more [OF channel_reach.start s1]] by blast
qed

lemma demo_sent: "ch_sent demo_state = [demo_packet]" "ch_net demo_state = {[0, 0, 0, 0, 17, 24, 0, 97, 0]}"
  by (simp_all add: demo_state_def)

lemma demo_mtu: "mtu_ok LinkStats_init"
  by (simp add: mtu_ok_def LinkStats_values MM_MAX_RECVSIZE_def)

lemma demo_delivered:
  "\<exists>t. channel_reach demo_rpcs LinkStats_init 0 channel_init t \<and> ch_sent t = [demo_packet] \<and>
     ch_events t = [\<lparr>m_RpcFunc = (), m_Pack = demo_packet, m_EvReadPos = 2\<rparr>]"
proof -
  have "channel_inv demo_rpcs demo_state"
    by (rule channel_inv_reach [OF demo_reach]) (simp add: demo_sent seq_bound_def)
  moreover have "keep_inv 0 demo_state" by (rule keep_inv_reach [OF demo_reach demo_mtu]) (simp add: demo_sent)
  ultimately obtain t where "channel_reach demo_rpcs LinkStats_init 0 demo_state t" "ch_sent t = [demo_packet]"
      "handle_all demo_rpcs [demo_packet] = Inr (ch_events t)"
    using can_deliver_all [of demo_rpcs demo_state 0 LinkStats_init] demo_sent by auto
  then show ?thesis using channel_reach_trans [OF demo_reach] demo_handle by auto
qed

theorem channel_in_order_witness:
  "\<exists>s. channel_reach demo_rpcs LinkStats_init 0 channel_init s \<and> length (ch_events s) = 1 \<and>
     unat (m_RecvSequence (ch_recv s)) \<le> length (ch_sent s) \<and>
     handle_all demo_rpcs (take (unat (m_RecvSequence (ch_recv s))) (ch_sent s)) = Inr (ch_events s)"
proof -
  obtain t where t: "channel_reach demo_rpcs LinkStats_init 0 channel_init t" "ch_sent t = [demo_packet]" "length (ch_events t) = 1"
    using demo_delivered by auto
  have "length (ch_sent t) \<le> seq_bound" by (simp add: t(2) seq_bound_def)
  from channel_in_order [OF t(1) this] t(1,3) show ?thesis by blast
qed



theorem channel_can_deliver_witness:
  "\<exists>t. channel_reach demo_rpcs LinkStats_init 0 demo_state t \<and> ch_sent t = [demo_packet] \<and>
     Inr (ch_events t) = handle_all demo_rpcs [demo_packet]"
  using channel_can_deliver [OF demo_reach demo_mtu] by (auto simp: demo_sent)


theorem createNormalPacket_channel_witness:
  "\<exists>f. createNormalPacket (comp_byte ReliableSend) 0 [demo_bs] 1 2 False True 1900 = Inr [f] \<and> bs_inv f \<and>
    content f = packet_bytes (RecvPacket 0 [17, 24, 0, 97, 0] (makeChannelAndFlags 2 False True True True)) \<and>
    single_flags (makeChannelAndFlags 2 False True True True)"
proof -
  have c: "[17, 24, 0, 97, 0] = concat (map content [demo_bs])" by (simp add: demo_bs_def content_def)
  have "\<forall>b \<in> set [demo_bs]. bs_inv b" using demo_bs_ok(1) by simp
  from createNormalPacket_channel [OF this _ _ c, of 1900 0 2 False True] show ?thesis by simp
qed

text \<open>Three bytes in fragments of two: the receiver puts together the first two only.\<close>

definition demo_fragments :: "recv_packet list" where
  "demo_fragments = [RecvPacket 9 [1, 2] 8, RecvPacket 3 [] 16]"

lemma demo_fragments_eq:
  "demo_fragments = map received_fragment (fragment_images 17 9 (makeChannelAndFlags 0 False False) True (chop 2 [1, 2, 3]))"
proof -
  have c: "chop 2 [1, 2, 3] = [[1, 2], [3 :: byte]]"
    by (subst chop.simps) (simp, subst chop.simps, simp)
  show ?thesis unfolding c by (simp add: received_fragment_def demo_fragments_def makeChannelAndFlags_def packet_consts)
qed


end
