(* ===== verification/Transition.thy ===== *)
theory Transition
  imports Main
begin

text \<open>
  Transition systems, shared by all components that are step relations: the reachable states, the contract
  \<open>state_machine\<close> of an invariant, and the contract \<open>simulation\<close> between a detailed and an abstract system,
  in which a detailed step is zero or more abstract steps.
\<close>

inductive reachable :: "('s \<Rightarrow> bool) \<Rightarrow> ('s \<Rightarrow> 's \<Rightarrow> bool) \<Rightarrow> 's \<Rightarrow> bool" for init step where
  start: "init s \<Longrightarrow> reachable init step s"
| more: "reachable init step s \<Longrightarrow> step s t \<Longrightarrow> reachable init step t"

lemma reachable_self: "reachable (\<lambda>s. s = s0) step s0"
  by (rule reachable.start) (rule refl)

lemma reachable_steps: "step\<^sup>*\<^sup>* s t \<Longrightarrow> reachable init step s \<Longrightarrow> reachable init step t"
  by (induction rule: rtranclp_induct) (auto intro: reachable.more)

locale state_machine =
  fixes init :: "'s \<Rightarrow> bool" and step :: "'s \<Rightarrow> 's \<Rightarrow> bool" and inv :: "'s \<Rightarrow> bool"
  assumes inv_init: "init s \<Longrightarrow> inv s"
    and inv_step: "step s t \<Longrightarrow> inv s \<Longrightarrow> inv t"
begin

lemma invariant: "reachable init step s \<Longrightarrow> inv s"
  by (induction rule: reachable.induct) (auto intro: inv_init inv_step)

lemma inv_steps: "step\<^sup>*\<^sup>* s t \<Longrightarrow> inv s \<Longrightarrow> inv t"
  by (induction rule: rtranclp_induct) (auto intro: inv_step)

end

locale simulation =
  fixes ainit :: "'a \<Rightarrow> bool" and astep :: "'a \<Rightarrow> 'a \<Rightarrow> bool"
    and cinit :: "'c \<Rightarrow> bool" and cstep :: "'c \<Rightarrow> 'c \<Rightarrow> bool" and R :: "'a \<Rightarrow> 'c \<Rightarrow> bool"
  assumes sim_init: "cinit c \<Longrightarrow> \<exists>a. ainit a \<and> R a c"
    and sim_step: "reachable cinit cstep c \<Longrightarrow> reachable ainit astep a \<Longrightarrow> R a c \<Longrightarrow> cstep c c' \<Longrightarrow> \<exists>a'. astep\<^sup>*\<^sup>* a a' \<and> R a' c'"
begin

lemma simulated:
  assumes "reachable cinit cstep c"
  shows "\<exists>a. reachable ainit astep a \<and> R a c"
  using assms
proof (induction rule: reachable.induct)
  case (start c)
  obtain a where "ainit a" "R a c" using sim_init [OF start] by blast
  then have "reachable ainit astep a" by (intro reachable.start)
  with \<open>R a c\<close> show ?case by blast
next
  case (more c c')
  then obtain a where a: "reachable ainit astep a" "R a c" by blast
  then obtain a' where "astep\<^sup>*\<^sup>* a a'" "R a' c'" using sim_step [OF more.hyps(1) a more.hyps(2)] by blast
  with reachable_steps [OF this(1) a(1)] show ?case by blast
qed

text \<open>An invariant of the abstract system holds in the detailed system through the relation.\<close>

lemma transfer:
  assumes "state_machine ainit astep P" and "reachable cinit cstep c"
  shows "\<exists>a. P a \<and> R a c"
  using simulated [OF assms(2)] state_machine.invariant [OF assms(1)] by blast

end

end
