(* ===== verification/Link_State.thy ===== *)
theory Link_State
  imports Mm_Prelude Transition
begin

text \<open>
  \<open>LinkState.h\<close> and the four state changing methods of \<open>LinkState.cpp\<close>: the connection state of
  a link. Each method takes the spin lock for its test and update, so it is one step; what
  the methods do after releasing the lock (remote calls, events) is in the theory of the network.

  The methods are steps of a state machine; the theorems are about all sequences of calls.
\<close>

datatype ELinkState = Unknown | Connecting | Connected | Disconnected

record link_state =
  m_State :: ELinkState
  m_WasAccepted :: bool
  m_RemoteConnectReceived :: bool

definition LinkState_init :: link_state where
  "LinkState_init = \<lparr>m_State = Unknown, m_WasAccepted = False, m_RemoteConnectReceived = False\<rparr>"

definition ls_connect :: "link_state \<Rightarrow> bool \<times> link_state" where
  "ls_connect s = (if m_State s \<noteq> Unknown then (False, s) else (True, s\<lparr>m_State := Connecting\<rparr>))"

definition ls_accept :: "link_state \<Rightarrow> bool \<times> link_state" where
  "ls_accept s =
     (if \<not> m_WasAccepted s \<and> \<not> (m_State s = Unknown \<or> m_State s = Connecting) then (False, s)
      else (True, s\<lparr>m_State := Connected, m_WasAccepted := True\<rparr>))"

definition ls_canReceiveConnect :: "link_state \<Rightarrow> bool \<times> link_state" where
  "ls_canReceiveConnect s =
     (if m_State s = Disconnected then (False, s)
      else if m_RemoteConnectReceived s then (False, s)
      else (True, s\<lparr>m_RemoteConnectReceived := True\<rparr>))"

text \<open>The locked part of \<open>disconnect\<close>: whether the link was connected, and the new state.\<close>

definition ls_disconnect :: "link_state \<Rightarrow> bool \<times> link_state" where
  "ls_disconnect s = (m_State s = Connected, s\<lparr>m_State := Disconnected\<rparr>)"

text \<open>\<open>canReceiveConnect() && accept()\<close> in the handler of an incoming connect.\<close>

definition ls_incoming :: "link_state \<Rightarrow> bool \<times> link_state" where
  "ls_incoming s = (case ls_canReceiveConnect s of (ok, s1) \<Rightarrow> if ok then ls_accept s1 else (False, s1))"

section \<open>Runs\<close>

datatype ls_call = CallConnect | CallAccept | CallIncoming | CallDisconnect

fun ls_call_step :: "ls_call \<Rightarrow> link_state \<Rightarrow> bool \<times> link_state" where
  "ls_call_step CallConnect s = ls_connect s"
| "ls_call_step CallAccept s = ls_accept s"
| "ls_call_step CallIncoming s = ls_incoming s"
| "ls_call_step CallDisconnect s = ls_disconnect s"

text \<open>The calls with their answers, and the final state.\<close>

fun ls_run :: "ls_call list \<Rightarrow> link_state \<Rightarrow> (ls_call \<times> bool) list \<times> link_state" where
  "ls_run [] s = ([], s)"
| "ls_run (c # cs) s =
     (case ls_call_step c s of (b, s1) \<Rightarrow> case ls_run cs s1 of (rs, s2) \<Rightarrow> ((c, b) # rs, s2))"

definition answered :: "ls_call \<Rightarrow> (ls_call \<times> bool) list \<Rightarrow> nat" where
  "answered c rs = length (filter (\<lambda>r. r = (c, True)) rs)"

inductive ls_step :: "link_state \<Rightarrow> link_state \<Rightarrow> bool" where
  "ls_step s (snd (ls_call_step c s))"

inductive_simps ls_step_iff: "ls_step s t"

abbreviation ls_reach :: "link_state \<Rightarrow> bool" where
  "ls_reach \<equiv> reachable (\<lambda>s. s = LinkState_init) ls_step"

lemmas ls_defs = ls_connect_def ls_accept_def ls_canReceiveConnect_def ls_disconnect_def ls_incoming_def

definition ls_inv :: "link_state \<Rightarrow> bool" where
  "ls_inv s \<longleftrightarrow> (m_State s = Connected \<longrightarrow> m_WasAccepted s) \<and>
     (m_State s = Unknown \<or> m_State s = Connecting \<longrightarrow> \<not> m_WasAccepted s)"

lemma ls_inv_call: "ls_inv s \<Longrightarrow> ls_inv (snd (ls_call_step c s))"
  by (cases c; cases "m_State s") (auto simp: ls_inv_def ls_defs)

interpretation ls: state_machine "\<lambda>s. s = LinkState_init" ls_step ls_inv
proof
  show "ls_step s t \<Longrightarrow> ls_inv s \<Longrightarrow> ls_inv t" for s t by (auto simp: ls_step_iff ls_inv_call)
qed (simp add: ls_inv_def LinkState_init_def)

text \<open>What each call can still answer: \<open>connect\<close> and an incoming connect succeed at most once, and a
  disconnect is reported at most as often as the link was accepted.\<close>

definition connected_now :: "link_state \<Rightarrow> nat" where
  "connected_now s = (if m_State s = Connected then 1 else 0)"

definition connect_left :: "link_state \<Rightarrow> nat" where
  "connect_left s = (if m_State s = Unknown then 1 else 0)"

definition incoming_left :: "link_state \<Rightarrow> nat" where
  "incoming_left s = (if m_RemoteConnectReceived s then 0 else 1)"

definition one :: "ls_call \<Rightarrow> ls_call \<Rightarrow> bool \<Rightarrow> nat" where
  "one c d b = (if c = d \<and> b then 1 else 0)"

lemma answered_simps [simp]:
  "answered c [] = 0" "answered c ((d, b) # rs) = one c d b + answered c rs"
  by (auto simp: answered_def one_def)

lemma ls_call_counts:
  assumes "ls_call_step c s = (b, t)"
  shows "one CallConnect c b + connect_left t \<le> connect_left s"
    and "one CallIncoming c b + incoming_left t \<le> incoming_left s"
    and "one CallDisconnect c b + connected_now t \<le> one CallAccept c b + one CallIncoming c b + connected_now s"
  using assms
  by (cases c; auto simp: one_def ls_defs connect_left_def incoming_left_def connected_now_def split: if_splits)+

lemma ls_run_counts:
  "ls_run cs s = (rs, t) \<Longrightarrow>
     answered CallConnect rs + connect_left t \<le> connect_left s \<and>
     answered CallIncoming rs + incoming_left t \<le> incoming_left s \<and>
     answered CallDisconnect rs + connected_now t \<le> answered CallAccept rs + answered CallIncoming rs + connected_now s"
proof (induction cs s arbitrary: rs t rule: ls_run.induct)
  case (2 c cs s)
  obtain b s1 where b: "ls_call_step c s = (b, s1)" by fastforce
  obtain rs1 s2 where r: "ls_run cs s1 = (rs1, s2)" by fastforce
  have "rs = (c, b) # rs1" "t = s2" using 2(2) b r by auto
  with 2(1) [OF b [symmetric] r] ls_call_counts [OF b] show ?case by simp
qed simp

section \<open>Properties\<close>

text \<open>C15: On every sequence of calls on a new link, \<open>connect\<close> succeeds at most once, a remote connect
  request is taken at most once, and no more disconnects are reported than the link was
  accepted.\<close>

theorem link_state_counts:
  assumes "ls_run cs LinkState_init = (rs, t)"
  shows "answered CallConnect rs \<le> 1 \<and> answered CallIncoming rs \<le> 1 \<and>
    answered CallDisconnect rs + connected_now t \<le> answered CallAccept rs + answered CallIncoming rs"
  using ls_run_counts [OF assms] by (simp add: LinkState_init_def connect_left_def incoming_left_def connected_now_def)

theorem link_state_counts_witness:
  "ls_run [CallConnect, CallIncoming, CallConnect, CallDisconnect, CallDisconnect, CallIncoming] LinkState_init =
     ([(CallConnect, True), (CallIncoming, True), (CallConnect, False), (CallDisconnect, True),
       (CallDisconnect, False), (CallIncoming, False)],
      \<lparr>m_State = Disconnected, m_WasAccepted = True, m_RemoteConnectReceived = True\<rparr>) \<and>
   answered CallDisconnect [(CallConnect, True), (CallIncoming, True), (CallConnect, False), (CallDisconnect, True),
       (CallDisconnect, False), (CallIncoming, False)] \<le> 1"
proof -
  have r: "ls_run [CallConnect, CallIncoming, CallConnect, CallDisconnect, CallDisconnect, CallIncoming] LinkState_init =
     ([(CallConnect, True), (CallIncoming, True), (CallConnect, False), (CallDisconnect, True),
       (CallDisconnect, False), (CallIncoming, False)],
      \<lparr>m_State = Disconnected, m_WasAccepted = True, m_RemoteConnectReceived = True\<rparr>)"
    by (simp add: LinkState_init_def ls_defs)
  from link_state_counts [OF r] r show ?thesis by (simp add: one_def)
qed

text \<open>A disconnect is not final. From every reachable connected state, \<open>disconnect\<close> leads to a state
  that refuses \<open>connect\<close> and incoming connects, but \<open>accept\<close> (run by the peer's
  \<open>linkStateAccepted\<close> message) makes the link \<open>Connected\<close> again.\<close>

lemma accept_revives_disconnected:
  assumes "ls_reach s" and "m_State s = Connected" and "d = snd (ls_disconnect s)"
  shows "m_State d = Disconnected \<and> \<not> fst (ls_connect d) \<and> \<not> fst (ls_incoming d) \<and>
    fst (ls_accept d) \<and> m_State (snd (ls_accept d)) = Connected"
  using ls.invariant [OF assms(1)] assms(2,3) by (auto simp: ls_defs ls_inv_def)

end
