(* ===== verification/Endpoint.thy ===== *)
theory Endpoint
  imports Bin_Serializer
begin

text \<open>
  \<open>Endpoint.h\<close> and \<open>Endpoint.cpp\<close>: addresses and lists of addresses with meta data. An
  \<open>Endpoint\<close> is its \<open>SOCKADDR_INET\<close>, 28 bytes on the platform that is modelled: the family in
  bytes 0 and 1, the port in network order in bytes 2 and 3. \<open>IAddress\<close> has no other
  implementation, so its operators are those of \<open>Endpoint\<close>.

  The address functions of the operating system are parameters: \<open>gai\<close> for \<open>getaddrinfo\<close>
  (an error code or the socket addresses found), \<open>sockname\<close> for \<open>getsockname\<close>, \<open>ntop\<close> for
  \<open>inet_ntop\<close>.
\<close>

section \<open>Endpoint\<close>

type_synonym endpoint = "byte list"

definition getLowLevelAddrSize :: nat where "getLowLevelAddrSize = 28"

definition endpoint_ok :: "endpoint \<Rightarrow> bool" where
  "endpoint_ok e \<longleftrightarrow> length e = getLowLevelAddrSize"

definition createEmpty :: endpoint where
  "createEmpty = replicate getLowLevelAddrSize 0"

text \<open>\<open>memcmp\<close> compares unsigned bytes.\<close>

fun memcmp :: "byte list \<Rightarrow> byte list \<Rightarrow> nat \<Rightarrow> int" where
  "memcmp (a # as) (b # bs) (Suc n) = (if a < b then - 1 else if b < a then 1 else memcmp as bs n)"
| "memcmp as bs n = 0"

definition ep_less :: "endpoint \<Rightarrow> endpoint \<Rightarrow> bool" where
  "ep_less a b = (let as = length a; bs = length b
                  in if as < bs then True else if as > bs then False else memcmp a b as < 0)"

definition ep_eq :: "endpoint \<Rightarrow> endpoint \<Rightarrow> bool" where
  "ep_eq a b = (let as = length a; bs = length b in if as \<noteq> bs then False else memcmp a b as = 0)"

definition getPortNetworkOrder :: "endpoint \<Rightarrow> u16" where
  "getPortNetworkOrder e = of_le (take 2 (drop 2 e))"

definition getPortHostOrder :: "endpoint \<Rightarrow> u16" where
  "getPortHostOrder e = ntohs (getPortNetworkOrder e)"

definition isZero :: "endpoint \<Rightarrow> bool" where
  "isZero e = ep_eq e createEmpty"

text \<open>\<open>getCopyDerived\<close>: a new endpoint into which the bytes are copied.\<close>

definition getCopyDerived :: "endpoint \<Rightarrow> endpoint res" where
  "getCopyDerived e =
     rbind (mem_load (Some e) 0 getLowLevelAddrSize) (\<lambda>xs.
     rbind (mem_store (Some createEmpty) 0 xs) (\<lambda>p. Inr (case p of Some e' \<Rightarrow> e' | None \<Rightarrow> [])))"

definition ep_write :: "endpoint \<Rightarrow> bin_serializer \<Rightarrow> (bool \<times> bin_serializer) res" where
  "ep_write e s = rbind (write_raw e s) (\<lambda>(ok, s'). if \<not> ok then Inr (False, s') else Inr (True, s'))"

definition ep_read :: "bin_serializer \<Rightarrow> (endpoint option \<times> bin_serializer) res" where
  "ep_read s = rbind (read_raw getLowLevelAddrSize s) (\<lambda>(v, s'). case v of None \<Rightarrow> Inr (None, s') | Some xs \<Rightarrow> Inr (Some xs, s'))"

text \<open>\<open>write(const sptr<const IAddress>&)\<close> and \<open>read(sptr<IAddress>&)\<close>: a byte says whether an
  address follows.\<close>

definition write_addr :: "endpoint option \<Rightarrow> bin_serializer \<Rightarrow> (bool \<times> bin_serializer) res" where
  "write_addr b s =
     (case b of
        None \<Rightarrow> write_bool False s
      | Some e \<Rightarrow> rbind (write_bool True s) (\<lambda>(ok, s1). if \<not> ok then Inr (False, s1) else ep_write e s1))"

definition read_addr :: "bin_serializer \<Rightarrow> (endpoint option option \<times> bin_serializer) res" where
  "read_addr s =
     rbind (read8 s) (\<lambda>(v, s1). case v of
        None \<Rightarrow> Inr (None, s1)
      | Some present \<Rightarrow>
          if present \<noteq> 0
          then rbind (ep_read s1) (\<lambda>(w, s2). case w of None \<Rightarrow> Inr (None, s2) | Some e \<Rightarrow> Inr (Some (Some e), s2))
          else Inr (Some None, s1))"

section \<open>Names\<close>

text \<open>\<open>sprintf\<close> into an array of \<open>dstSize\<close> bytes: \<open>Platform::formatPrint\<close> ignores the size it is
  given in this configuration.\<close>

definition formatPrint :: "nat \<Rightarrow> cstring \<Rightarrow> cstring res" where
  "formatPrint dstSize text = (if length text + 1 \<le> dstSize then Inr text else Inl OutOfBounds)"

fun dec :: "nat \<Rightarrow> cstring" where
  "dec n = (if n < 10 then [of_nat (48 + n)] else dec (n div 10) @ [of_nat (48 + n mod 10)])"

declare dec.simps [simp del]

definition is_digit :: "byte \<Rightarrow> bool" where "is_digit c \<longleftrightarrow> 48 \<le> unat c \<and> unat c \<le> 57"

definition is_blank :: "byte \<Rightarrow> bool" where "is_blank c \<longleftrightarrow> c = 32 \<or> (9 \<le> unat c \<and> unat c \<le> 13)"

definition digits_value :: "cstring \<Rightarrow> nat" where
  "digits_value cs = foldl (\<lambda>n c. 10 * n + (unat c - 48)) 0 (takeWhile is_digit cs)"

text \<open>\<open>atoi\<close> of a C string; a value out of the range of \<open>int\<close> is undefined.\<close>

definition atoi :: "cstring \<Rightarrow> int res" where
  "atoi s =
     (let t = dropWhile is_blank (takeWhile (\<lambda>c. c \<noteq> 0) s);
          v = (case t of
                 c # cs \<Rightarrow> if c = 45 then - int (digits_value cs) else if c = 43 then int (digits_value cs) else int (digits_value t)
               | [] \<Rightarrow> 0)
      in if - (2 ^ 31) \<le> v \<and> v < 2 ^ 31 then Inr v else Inl BadConversion)"

text \<open>\<open>Endpoint::resolve\<close>: the first address found, with the error code for the caller.\<close>

definition resolve :: "(cstring \<Rightarrow> cstring \<Rightarrow> int + byte list list) \<Rightarrow> cstring \<Rightarrow> u16 \<Rightarrow> (endpoint option \<times> int) res" where
  "resolve gai name port =
     rbind (formatPrint 128 (takeWhile (\<lambda>c. c \<noteq> 0) name)) (\<lambda>ipBuff.
     rbind (formatPrint 32 (dec (unat port))) (\<lambda>portBuff.
       case gai ipBuff portBuff of
         Inl err \<Rightarrow> Inr (None, err)
       | Inr [] \<Rightarrow> Inr (None, 0)
       | Inr (ai_addr # _) \<Rightarrow>
           rbind (mem_store (Some createEmpty) 0 ai_addr) (\<lambda>p. Inr (p, 0))))"

text \<open>\<open>Endpoint::fromIpAndPort\<close>: the loop runs down from \<open>length()\<close> and stops before index 0;
  \<open>ipAndPort[length()]\<close> is the terminating null. The error code starts as \<open>-1\<close>.\<close>

fun fromIpAndPort_loop ::
  "(cstring \<Rightarrow> cstring \<Rightarrow> int + byte list list) \<Rightarrow> cstring \<Rightarrow> nat \<Rightarrow> (endpoint option \<times> int) res" where
  "fromIpAndPort_loop gai s 0 = Inr (None, - 1)"
| "fromIpAndPort_loop gai s (Suc i) =
     (if (if Suc i < length s then s ! Suc i else 0) = 58 \<and> length s - (Suc i + 1) > 0
      then rbind (atoi (take (length s - (Suc i + 1)) (drop (Suc i + 1) s))) (\<lambda>v.
             resolve gai (take (Suc i) s) (of_int v))
      else fromIpAndPort_loop gai s i)"

definition fromIpAndPort :: "(cstring \<Rightarrow> cstring \<Rightarrow> int + byte list list) \<Rightarrow> cstring \<Rightarrow> (endpoint option \<times> int) res" where
  "fromIpAndPort gai s = fromIpAndPort_loop gai s (length s)"

definition toIpAndPort :: "(u16 \<Rightarrow> byte list \<Rightarrow> cstring) \<Rightarrow> endpoint \<Rightarrow> cstring res" where
  "toIpAndPort ntop e =
     (let family = of_le (take 2 e) :: u16;
          ipBuff = (if family = 2 then ntop family (take 4 (drop 4 e)) else ntop family (take 16 (drop 8 e)))
      in formatPrint 64 (ipBuff @ [58] @ dec (unat (getPortHostOrder e))))"

definition createSource :: "('s \<Rightarrow> int + byte list) \<Rightarrow> 's \<Rightarrow> (endpoint option \<times> int) res" where
  "createSource sockname sock =
     (case sockname sock of
        Inl err \<Rightarrow> Inr (None, err)
      | Inr addr \<Rightarrow> rbind (mem_store (Some createEmpty) 0 addr) (\<lambda>p. Inr (p, 0)))"

section \<open>AddressList\<close>

type_synonym address_list = "(endpoint option \<times> meta_data) list"

definition addAddress :: "endpoint \<Rightarrow> meta_data \<Rightarrow> address_list \<Rightarrow> address_list" where
  "addAddress addr md l = l @ [(Some addr, md)]"

text \<open>\<open>removeAddress\<close> erases at the position \<open>find_if\<close> returns; erasing at \<open>end()\<close> is out of bounds,
  and comparing with an entry without an address dereferences null.\<close>

fun removeAddress_at :: "endpoint \<Rightarrow> address_list \<Rightarrow> address_list res" where
  "removeAddress_at addr [] = Inl OutOfBounds"
| "removeAddress_at addr ((None, md) # l) = Inl NullDeref"
| "removeAddress_at addr ((Some a, md) # l) =
     (if ep_eq a addr then Inr l else rbind (removeAddress_at addr l) (\<lambda>l'. Inr ((Some a, md) # l')))"

definition removeAddress :: "endpoint option \<Rightarrow> address_list \<Rightarrow> address_list res" where
  "removeAddress addr l = (case addr of None \<Rightarrow> Inr l | Some a \<Rightarrow> removeAddress_at a l)"

fun write_addrs :: "address_list \<Rightarrow> bin_serializer \<Rightarrow> (bool \<times> bin_serializer) res" where
  "write_addrs [] s = Inr (True, s)"
| "write_addrs ((a, md) # l) s =
     checked (write_addr a s) (\<lambda>s1. checked (write_meta md s1) (\<lambda>s2. write_addrs l s2))"

text \<open>\<open>None\<close>: the loop does not end.\<close>

partial_function (option) read_addrs :: "address_list \<Rightarrow> bin_serializer \<Rightarrow> (address_list \<times> bin_serializer) res option" where
  "read_addrs l s =
     (if m_ReadPos s \<noteq> m_WritePos s
      then case read_addr s of
             Inl e \<Rightarrow> Some (Inl e)
           | Inr (None, s1) \<Rightarrow> Some (Inl Terminate)
           | Inr (Some a, s1) \<Rightarrow>
               (case read_meta [] s1 of
                  Inl e \<Rightarrow> Some (Inl e)
                | Inr (None, s2) \<Rightarrow> Some (Inl Terminate)
                | Inr (Some md, s2) \<Rightarrow> read_addrs (l @ [(a, md)]) s2)
      else Some (Inr (l, s)))"

definition al_metaData :: "u32 \<Rightarrow> address_list \<Rightarrow> meta_data" where
  "al_metaData idx l = (if unat idx < length l then snd (l ! unat idx) else [])"

definition al_address :: "u32 \<Rightarrow> address_list \<Rightarrow> endpoint option" where
  "al_address idx l = (if unat idx < length l then fst (l ! unat idx) else None)"

definition al_count :: "address_list \<Rightarrow> u32" where
  "al_count l = of_nat (length l)"

section \<open>Order\<close>

lemma memcmp_lex: "length a = length b \<Longrightarrow> (memcmp a b (length a) < 0 \<longleftrightarrow> a < b) \<and> (memcmp a b (length a) = 0 \<longleftrightarrow> a = b)"
proof (induction a arbitrary: b)
  case Nil
  then show ?case by simp
next
  case (Cons x a)
  then obtain y c where b: "b = y # c" "length a = length c" by (cases b) auto
  show ?case using Cons.IH [OF b(2)] b by (cases x y rule: linorder_cases) auto
qed

text \<open>On endpoints the operators are the lexicographic order of the bytes, so they are a strict total
  order and fit as the key order of a \<open>std::map\<close>.\<close>

lemma ep_order:
  assumes "endpoint_ok a" and "endpoint_ok b"
  shows "ep_less a b \<longleftrightarrow> a < b" and "ep_eq a b \<longleftrightarrow> a = b"
  using assms memcmp_lex [of a b] by (auto simp: ep_less_def ep_eq_def endpoint_ok_def Let_def)

lemma createEmpty_ok [simp]: "endpoint_ok createEmpty"
  by (simp add: endpoint_ok_def createEmpty_def)

lemma getCopyDerived_ok: "endpoint_ok e \<Longrightarrow> getCopyDerived e = Inr e"
  by (simp add: getCopyDerived_def endpoint_ok_def mem_load_in mem_store_in createEmpty_def getLowLevelAddrSize_def)

section \<open>Serialization\<close>

definition addr_bytes :: "endpoint option \<Rightarrow> byte list" where
  "addr_bytes a = (case a of None \<Rightarrow> [0] | Some e \<Rightarrow> 1 # e)"

definition addr_ok :: "endpoint option \<Rightarrow> bool" where
  "addr_ok a \<longleftrightarrow> (case a of None \<Rightarrow> True | Some e \<Rightarrow> endpoint_ok e)"

lemma ep_write_raw: "ep_write e s = write_raw e s"
  by (cases "write_raw e s") (auto simp: ep_write_def)

lemma ep_read_raw: "ep_read s = read_raw 28 s"
  by (cases "read_raw 28 s") (auto simp: ep_read_def getLowLevelAddrSize_def split: option.split)

interpretation addr_codec: codec write_addr read_addr addr_bytes addr_ok
proof
  fix s x assume a: "bs_inv s" "m_Owns s" "addr_ok x" "length (content s) + length (addr_bytes x) \<le> max_stream"
  show "\<exists>s'. write_addr x s = Inr (True, s') \<and> appended s (addr_bytes x) s'"
  proof (cases x)
    case None
    then show ?thesis using bool_codec.put_ok [of s False] a by (simp add: write_addr_def addr_bytes_def)
  next
    case (Some e)
    obtain s1 where s1: "write_bool True s = Inr (True, s1)" "appended s [1] s1"
      using bool_codec.put_ok [of s True] a Some by (auto simp: addr_bytes_def)
    obtain s2 where "write_raw e s1 = Inr (True, s2)" "appended s1 e s2"
      using write_raw_ok [of s1 e] a Some s1(2) by (auto simp: addr_bytes_def appended_def)
    with s1 Some show ?thesis using appended_trans [OF s1(2)] by (auto simp: write_addr_def addr_bytes_def ep_write_raw)
  qed
next
  fix s x rest assume a: "bs_inv s" "addr_ok x" "unread s = addr_bytes x @ rest"
  show "read_addr s = Inr (Some x, advance (length (addr_bytes x)) s)"
  proof (cases x)
    case None
    then show ?thesis using byte_codec.get_ok [of s 0 rest] a by (simp add: read_addr_def addr_bytes_def)
  next
    case (Some e)
    have un: "unread s = [1] @ e @ rest" using a(3) Some by (simp add: addr_bytes_def)
    have r1: "read8 s = Inr (Some 1, advance 1 s)" using byte_codec.get_ok [OF a(1) _ un] by simp
    have a1: "bs_inv (advance 1 s)" "unread (advance 1 s) = e @ rest" using advance_inv [OF a(1) un] by simp_all
    have l: "length e = 28" using a(2) Some by (simp add: addr_ok_def endpoint_ok_def getLowLevelAddrSize_def)
    have "read_raw 28 (advance 1 s) = Inr (Some e, advance 28 (advance 1 s))"
      using read_raw_ok [OF a1 l] by simp
    then show ?thesis using r1 l Some by (simp add: read_addr_def addr_bytes_def ep_read_raw advance_advance)
  qed
qed

interpretation addr_meta_codec: codec_pair write_addr read_addr addr_bytes addr_ok
    write_meta "read_meta []" meta_bytes meta_ok
  by unfold_locales

definition addrs_bytes :: "address_list \<Rightarrow> byte list" where
  "addrs_bytes l = concat (map (\<lambda>(a, md). addr_bytes a @ meta_bytes md) l)"

definition addrs_ok :: "address_list \<Rightarrow> bool" where
  "addrs_ok l \<longleftrightarrow> (\<forall>(a, md) \<in> set l. addr_ok a \<and> meta_ok md)"

lemma addrs_simps [simp]:
  "addrs_bytes [] = []" "addrs_bytes ((a, md) # l) = addr_bytes a @ meta_bytes md @ addrs_bytes l"
  "addrs_ok []" "addrs_ok ((a, md) # l) \<longleftrightarrow> addr_ok a \<and> meta_ok md \<and> addrs_ok l"
  by (auto simp: addrs_bytes_def addrs_ok_def)

lemma write_addrs_ok:
  assumes "bs_inv s" and "m_Owns s" and "addrs_ok l" and "length (content s) + length (addrs_bytes l) \<le> max_stream"
  shows "\<exists>s'. write_addrs l s = Inr (True, s') \<and> appended s (addrs_bytes l) s'"
  using assms
proof (induction l arbitrary: s)
  case Nil
  then show ?case by (simp add: appended_def)
next
  case (Cons am l)
  obtain a md where am: "am = (a, md)" by (cases am)
  obtain s1 where s1: "write_addr a s = Inr (True, s1)" "appended s (addr_bytes a) s1"
    using addr_codec.put_ok [of s a] Cons.prems am by auto
  obtain s2 where s2: "write_meta md s1 = Inr (True, s2)" "appended s1 (meta_bytes md) s2"
    using meta_codec.put_ok [of s1 md] Cons.prems am s1(2) by (auto simp: appended_def)
  obtain s3 where s3: "write_addrs l s2 = Inr (True, s3)" "appended s2 (addrs_bytes l) s3"
    using Cons.IH [of s2] Cons.prems am s1(2) s2(2) by (auto simp: appended_def)
  have "appended s (addr_bytes a @ meta_bytes md @ addrs_bytes l) s3"
    using appended_trans [OF s1(2) appended_trans [OF s2(2) s3(2)]] by simp
  with s1 s2 s3 am show ?case by simp
qed

lemma read_addrs_ok:
  assumes "bs_inv s" and "addrs_ok l" and "unread s = addrs_bytes l"
  shows "read_addrs acc s = Some (Inr (acc @ l, advance (length (addrs_bytes l)) s))"
  using assms
proof (induction l arbitrary: s acc)
  case Nil
  then show ?case by (subst read_addrs.simps) (simp add: at_end)
next
  case (Cons am l)
  obtain a md where am: "am = (a, md)" by (cases am)
  have un: "unread s = addr_bytes a @ meta_bytes md @ addrs_bytes l" using Cons.prems(3) am by simp
  have "unread s \<noteq> []" unfolding un by (simp add: addr_bytes_def split: option.split)
  then have ne: "m_ReadPos s \<noteq> m_WritePos s" using Cons.prems(1) by (simp add: at_end)
  let ?s1 = "advance (length (addr_bytes a)) s"
  let ?s2 = "advance (length (meta_bytes md)) ?s1"
  have r1: "read_addr s = Inr (Some a, ?s1)" using addr_codec.get_ok [OF Cons.prems(1) _ un] Cons.prems(2) am by simp
  have a1: "bs_inv ?s1" "unread ?s1 = meta_bytes md @ addrs_bytes l" using advance_inv [OF Cons.prems(1) un] by auto
  have r2: "read_meta [] ?s1 = Inr (Some md, ?s2)" using meta_codec.get_ok [OF a1(1) _ a1(2)] Cons.prems(2) am by simp
  have a2: "bs_inv ?s2" "unread ?s2 = addrs_bytes l" using advance_inv [OF a1] by auto
  have "read_addrs acc s = read_addrs (acc @ [(a, md)]) ?s2"
    using ne r1 r2 by (subst read_addrs.simps) simp
  also have "\<dots> = Some (Inr ((acc @ [(a, md)]) @ l, advance (length (addrs_bytes l)) ?s2))"
    using a2 Cons.prems(2) am by (intro Cons.IH) auto
  finally show ?case using am by (simp add: advance_advance algebra_simps)
qed

section \<open>Names\<close>

lemma unat_digit: "n < 10 \<Longrightarrow> unat (of_nat (48 + n) :: byte) = 48 + n"
  by (simp only: unat_of_nat) (simp add: take_bit_nat_eq_self)

lemma dec_digits: "\<forall>c \<in> set (dec n). is_digit c"
proof (induction n rule: dec.induct)
  case (1 n)
  then show ?case by (subst dec.simps) (auto simp: is_digit_def unat_digit simp del: of_nat_add)
qed

lemma dec_not_Nil [simp]: "dec n \<noteq> []"
  by (subst dec.simps) simp

lemma foldl_dec: "foldl (\<lambda>n c. 10 * n + (unat c - 48)) 0 (dec n) = n"
proof (induction n rule: dec.induct)
  case (1 n)
  then show ?case by (subst dec.simps) (auto simp: unat_digit simp del: of_nat_add)
qed

lemma atoi_dec:
  assumes "n < 2 ^ 31"
  shows "atoi (dec n) = Inr (int n)"
proof -
  have d: "\<forall>c \<in> set (dec n). is_digit c" by (rule dec_digits)
  have nz: "\<forall>c \<in> set (dec n). c \<noteq> 0" and nb: "\<forall>c \<in> set (dec n). \<not> is_blank c"
    and ns: "\<forall>c \<in> set (dec n). c \<noteq> 45 \<and> c \<noteq> 43"
    using d by (auto simp: is_digit_def is_blank_def)
  obtain c cs where cc: "dec n = c # cs" by (cases "dec n") auto
  have t: "dropWhile is_blank (takeWhile (\<lambda>c. c \<noteq> 0) (dec n)) = dec n"
    using nz nb cc by (simp add: takeWhile_eq_all_conv)
  have tw: "takeWhile is_digit (dec n) = dec n" using d by (simp add: takeWhile_eq_all_conv)
  have v: "digits_value (dec n) = n" unfolding digits_value_def tw by (rule foldl_dec)
  then show ?thesis using t cc ns assms by (simp add: atoi_def Let_def)
qed

lemma fromIpAndPort_loop_skip:
  assumes "j \<le> i" and "\<forall>k. j < k \<and> k \<le> i \<longrightarrow> (if k < length s then s ! k else 0) \<noteq> 58"
  shows "fromIpAndPort_loop gai s i = fromIpAndPort_loop gai s j"
  using assms
proof (induction i)
  case (Suc i)
  show ?case
  proof (cases "j = Suc i")
    case False
    then have "j \<le> i" using Suc.prems(1) by simp
    moreover have "\<not> (if Suc i < length s then s ! Suc i else 0) = 58" using Suc.prems False by (metis le_refl le_neq_implies_less)
    ultimately show ?thesis using Suc by simp
  qed simp
qed simp

text \<open>Whatever precedes the last colon is the host, what follows it the port.\<close>

lemma fromIpAndPort_split:
  assumes "ip \<noteq> []"
  shows "fromIpAndPort gai (ip @ 58 # dec (unat port)) = resolve gai ip port"
proof -
  let ?s = "ip @ 58 # dec (unat port)" and ?d = "dec (unat port)"
  obtain i where i: "length ip = Suc i" using assms by (cases ip) auto
  have nc: "(if k < length ?s then ?s ! k else 0) \<noteq> 58" if "Suc i < k" for k
  proof (cases "k < length ?s")
    case True
    then have "?s ! k \<in> set ?d" using that i by (simp add: nth_append nth_Cons')
    then have "is_digit (?s ! k)" using dec_digits by blast
    then show ?thesis using True by (auto simp: is_digit_def)
  qed simp
  have "fromIpAndPort gai ?s = fromIpAndPort_loop gai ?s (Suc i)"
    unfolding fromIpAndPort_def using i nc by (intro fromIpAndPort_loop_skip) auto
  also have "\<dots> = rbind (atoi ?d) (\<lambda>v. resolve gai ip (of_int v))"
    using i by (simp add: nth_append length_greater_0_conv [symmetric] del: length_greater_0_conv)
  also have "\<dots> = resolve gai ip port"
  proof -
    have "unat port < 2 ^ 16" using unsigned_less [of port] by simp
    then have "unat port < 2 ^ 31" by simp
    then show ?thesis by (simp add: atoi_dec)
  qed
  finally show ?thesis .
qed

lemma resolve_long_name:
  "127 < length (takeWhile (\<lambda>c. c \<noteq> 0) name) \<Longrightarrow> resolve gai name port = Inl OutOfBounds"
  by (simp add: resolve_def formatPrint_def)

end
