(* ===== verification/Links.thy ===== *)
theory Links
  imports Stream_Protocol Link_State Endpoint
begin

text \<open>
  \<open>Link.h\<close>, \<open>Link.cpp\<close>, the per link part of \<open>SendThread\<close>, \<open>priv_send_rpc\<close> of
  \<open>ReliableSend.cpp\<close> and the serialization of rpc arguments in \<open>Rpc.h\<close>: a link with its
  components, the dispatch of a received datagram to the stream of its channel, the periodic sending
  on all channels, and remote calls.
\<close>

section \<open>State\<close>

text \<open>The components a link can have. The unordered and newest-only streams have no state and empty
  bodies; the map key of a component fixes its constructor.\<close>

datatype link_component =
    CLinkState link_state
  | CLinkStats link_stats
  | CReliableSend reliable_send
  | CReliableRecv reliable_recv
  | CReliableAckSend reliable_ack_send
  | CMatchMaker bool bool \<comment> \<open>\<open>m_RegisterCb\<close> and \<open>m_JoinCb\<close> are set\<close>
  | CPlain

record link =
  l_session :: "nat option"
  l_socket :: u32
  l_address :: endpoint
  l_source :: endpoint
  l_md :: meta_data
  l_comps :: "link_component components"

definition new_link :: "u32 \<Rightarrow> endpoint \<Rightarrow> endpoint \<Rightarrow> link" where
  "new_link sock addr source =
     \<lparr>l_session = None, l_socket = sock, l_address = addr, l_source = source, l_md = [], l_comps = []\<rparr>"

text \<open>\<open>static_pointer_cast\<close>; the last equation of each is for keys that do not fit, which do not occur.\<close>

fun as_state :: "link_component \<Rightarrow> link_state" where
  "as_state (CLinkState s) = s" | "as_state _ = LinkState_init"

fun as_stats :: "link_component \<Rightarrow> link_stats" where
  "as_stats (CLinkStats s) = s" | "as_stats _ = LinkStats_init"

fun as_send :: "link_component \<Rightarrow> reliable_send" where
  "as_send (CReliableSend s) = s" | "as_send _ = ReliableSend_init"

fun as_recv :: "link_component \<Rightarrow> reliable_recv" where
  "as_recv (CReliableRecv s) = s" | "as_recv _ = ReliableRecv_init"

fun as_acks :: "link_component \<Rightarrow> reliable_ack_send" where
  "as_acks (CReliableAckSend s) = s" | "as_acks _ = ReliableAckSend_init"

text \<open>The component that \<open>getOrAdd<T>\<close> constructs.\<close>

definition fresh :: "EComponentType \<Rightarrow> link_component" where
  "fresh t = (if t = LinkState then CLinkState LinkState_init
              else if t = LinkStats then CLinkStats LinkStats_init
              else if t = ReliableSend then CReliableSend ReliableSend_init
              else if t = ReliableRecv then CReliableRecv ReliableRecv_init
              else if t = ReliableAckSend then CReliableAckSend ReliableAckSend_init
              else if t = MatchMakerData then CMatchMaker False False
              else CPlain)"

text \<open>\<open>getOrAdd<T>(idx)\<close> followed by a method of the component that changes it.\<close>

definition on_comp :: "EComponentType \<Rightarrow> nat \<Rightarrow> (link_component \<Rightarrow> link_component) \<Rightarrow> link_component components \<Rightarrow> link_component components" where
  "on_comp t idx f m = (case cc_getOrAdd t idx (fresh t) m of (c, m1) \<Rightarrow> cc_put t idx (f c) m1)"

section \<open>Receiving\<close>

text \<open>\<open>Link::receive\<close>. The answer says whether a job for \<open>proceedRecvQueue\<close> of the channel was added;
  \<open>None\<close> when a loop does not end.\<close>

definition link_receive ::
  "bin_serializer \<Rightarrow> link_component components \<Rightarrow> (nat option \<times> link_component components) res option" where
  "link_receive bs m =
     (case read_header bs of
        Inl e \<Rightarrow> Some (Inl e)
      | Inr (pi, compType, bs1) \<Rightarrow>
          let channel = unat (m_ChannelAndFlags pi AND MM_CHANNEL_MASK)
          in case comp_of_byte compType of
               Some ReliableSend \<Rightarrow>
                 let m1 = on_comp ReliableAckSend channel (\<lambda>c. CReliableAckSend (addAck (m_Sequence pi) (as_acks c))) m
                 in case cc_getOrAdd ReliableRecv channel (fresh ReliableRecv) m1 of (c, m2) \<Rightarrow>
                      (case receive bs1 pi (as_recv c) of
                         None \<Rightarrow> None
                       | Some (Inl e) \<Rightarrow> Some (Inl e)
                       | Some (Inr (job, r)) \<Rightarrow>
                           Some (Inr (if job then Some channel else None, cc_put ReliableRecv channel (CReliableRecv r) m2)))
             | Some UnreliableSend \<Rightarrow> Some (Inr (None, snd (cc_getOrAdd UnreliableRecv channel (fresh UnreliableRecv) m)))
             | Some ReliableNewSend \<Rightarrow> Some (Inr (None, snd (cc_getOrAdd ReliableNewRecv 0 (fresh ReliableNewRecv) m)))
             | Some ReliableAckSend \<Rightarrow>
                 let m1 = snd (cc_getOrAdd ReliableAckRecv channel (fresh ReliableAckRecv) m)
                 in (case ack_receive bs1 (map_option as_send (cc_get ReliableSend channel m1)) of
                       None \<Rightarrow> None
                     | Some (Inl e) \<Rightarrow> Some (Inl e)
                     | Some (Inr None) \<Rightarrow> Some (Inr (None, m1))
                     | Some (Inr (Some s)) \<Rightarrow> Some (Inr (None, cc_put ReliableSend channel (CReliableSend s) m1)))
             | Some ReliableNewAckSend \<Rightarrow> Some (Inr (None, snd (cc_getOrAdd ReliableNewAckRecv 0 (fresh ReliableNewAckRecv) m)))
             | _ \<Rightarrow> Some (Inr (None, m)))"

text \<open>The job: \<open>proceedRecvQueue\<close> of a channel.\<close>

definition link_proceed ::
  "(cstring \<Rightarrow> 'f option) \<Rightarrow> nat \<Rightarrow> link_component components \<Rightarrow> ('f event_rpc list \<times> link_component components) res" where
  "link_proceed rpcs channel m =
     (case cc_getOrAdd ReliableRecv channel (fresh ReliableRecv) m of (c, m1) \<Rightarrow>
        rbind (proceedRecvQueue rpcs (as_recv c)) (\<lambda>(es, r). Inr (es, cc_put ReliableRecv channel (CReliableRecv r) m1)))"

section \<open>Sending\<close>

definition link_enqueue :: "nat \<Rightarrow> bin_serializer list \<Rightarrow> link_component components \<Rightarrow> link_component components" where
  "link_enqueue channel data m = on_comp ReliableSend channel (\<lambda>c. CReliableSend (enqueue_list data (as_send c))) m"

text \<open>\<open>intervalDispatchOnAllChannels\<close> for the two stream types with a body; the delay comes from the
  link's statistics.\<close>

fun dispatch_sends :: "u64 \<Rightarrow> nat list \<Rightarrow> link_component components \<Rightarrow> (byte list list \<times> link_component components) res" where
  "dispatch_sends time [] m = Inr ([], m)"
| "dispatch_sends time (i # is) m =
     (case cc_get ReliableSend i m of
        None \<Rightarrow> dispatch_sends time is m
      | Some c \<Rightarrow>
          (case cc_getOrAdd LinkStats 0 (fresh LinkStats) m of (st, m1) \<Rightarrow>
             rbind (intervalDispatch (as_stats st) time (as_send c)) (\<lambda>(ds, s).
             rbind (dispatch_sends time is (cc_put ReliableSend i (CReliableSend s) m1)) (\<lambda>(ds', m2).
               Inr (ds @ ds', m2)))))"

fun dispatch_acks :: "u64 \<Rightarrow> nat list \<Rightarrow> link_component components \<Rightarrow> (byte list list \<times> link_component components) res" where
  "dispatch_acks time [] m = Inr ([], m)"
| "dispatch_acks time (i # is) m =
     (case cc_get ReliableAckSend i m of
        None \<Rightarrow> dispatch_acks time is m
      | Some c \<Rightarrow>
          (case cc_getOrAdd LinkStats 0 (fresh LinkStats) m of (st, m1) \<Rightarrow>
             rbind (ack_intervalDispatch (as_stats st) i time (as_acks c)) (\<lambda>(ds, s).
             rbind (dispatch_acks time is (cc_put ReliableAckSend i (CReliableAckSend s) m1)) (\<lambda>(ds', m2).
               Inr (ds @ ds', m2)))))"

definition link_dispatch :: "u64 \<Rightarrow> link_component components \<Rightarrow> (byte list list \<times> link_component components) res" where
  "link_dispatch time m =
     rbind (dispatch_sends time [0 ..< cc_count ReliableSend m] m) (\<lambda>(ds, m1).
     rbind (dispatch_acks time [0 ..< cc_count ReliableAckSend m1] m1) (\<lambda>(ds', m2). Inr (ds @ ds', m2)))"

section \<open>Remote calls\<close>

text \<open>\<open>MiepMiep::serialize\<close> ignores the answers of the serializer.\<close>

definition ser_arg :: "('a \<Rightarrow> bin_serializer \<Rightarrow> (bool \<times> bin_serializer) res) \<Rightarrow> 'a \<Rightarrow> bin_serializer \<Rightarrow> bin_serializer res" where
  "ser_arg put x bs = rbind (put x bs) (\<lambda>(ok, bs'). Inr bs')"

text \<open>\<open>priv_send_rpc\<close> up to the packets: the name and the payload are two serializers of one message.\<close>

definition rpc_packets :: "cstring \<Rightarrow> bin_serializer \<Rightarrow> bool \<Rightarrow> bool \<Rightarrow> byte \<Rightarrow> bin_serializer list res" where
  "rpc_packets rpcName payLoad relay sysBit channel =
     checked (write_string rpcName bs_reset) (\<lambda>bsRpcName.
       createNormalPacket (comp_byte ReliableSend) packet_RPC [bsRpcName, payLoad] 2 channel relay sysBit MM_MAX_FRAGMENTSIZE)"

text \<open>\<open>Link::callRpc\<close>: system bit set, no session.\<close>

definition link_callRpc :: "cstring \<Rightarrow> bin_serializer \<Rightarrow> bool \<Rightarrow> byte \<Rightarrow> link_component components \<Rightarrow> link_component components res" where
  "link_callRpc rpcName payLoad relay channel m =
     rbind (rpc_packets rpcName payLoad relay True channel) (\<lambda>data. Inr (link_enqueue (unat channel) data m))"

definition isConnected :: "link_component components \<Rightarrow> bool" where
  "isConnected m = (case cc_get LinkState 0 m of None \<Rightarrow> False | Some c \<Rightarrow> m_State (as_state c) = Connected)"

section \<open>Components\<close>

lemma on_comp_modify: "on_comp t idx f m = comp.modify t idx (fresh t) f m"
  by (simp add: on_comp_def comp.modify_def case_prod_unfold)

definition comp_at :: "EComponentType \<Rightarrow> nat \<Rightarrow> link_component components \<Rightarrow> link_component" where
  "comp_at t idx m = (case cc_get t idx m of Some c \<Rightarrow> c | None \<Rightarrow> fresh t)"

lemma get_on_comp:
  "cc_get t i (on_comp u j f m) = (if t = u \<and> i = j then Some (f (comp_at u j m)) else cc_get t i m)"
  by (auto simp: on_comp_modify comp.get_modify comp.get_modify_other comp_at_def)

lemma getOrAdd_at: "fst (cc_getOrAdd t i (fresh t) m) = comp_at t i m"
  by (simp add: cc_getOrAdd_def comp_at_def split: option.split)

lemma comp_at_on_comp: "comp_at t i (on_comp u j f m) = (if t = u \<and> i = j then f (comp_at u j m) else comp_at t i m)"
  by (simp add: comp_at_def get_on_comp)

lemma comp_at_getOrAdd: "comp_at t i (snd (cc_getOrAdd u j (fresh u) m)) = comp_at t i m"
  by (auto simp: comp_at_def comp.get_or_add_eq cc_get_put split: option.split)

lemma comp_at_put: "comp_at t i (cc_put u j c m) = (if t = u \<and> i = j then c else comp_at t i m)"
  by (simp add: comp_at_def cc_get_put)

lemma getOrAdd_pair: "cc_getOrAdd t i (fresh t) m = (comp_at t i m, snd (cc_getOrAdd t i (fresh t) m))"
  by (simp add: getOrAdd_at [symmetric])

section \<open>Sending on all channels\<close>

definition send_due :: "u32 \<Rightarrow> u64 \<Rightarrow> reliable_send \<Rightarrow> bool" where
  "send_due delay time s \<longleftrightarrow> time - m_LastResendTS s > ucast delay"

definition queue_images :: "reliable_send \<Rightarrow> byte list list" where
  "queue_images s = map (\<lambda>(seq, p). data_image seq p) (m_SendQueue s)"

definition due_images :: "u32 \<Rightarrow> u64 \<Rightarrow> link_component option \<Rightarrow> byte list list" where
  "due_images delay time c =
     (case c of None \<Rightarrow> [] | Some c \<Rightarrow> if send_due delay time (as_send c) then queue_images (as_send c) else [])"

lemma intervalDispatch_ok:
  assumes "reliableResendDelay ls = Inr delay" and "\<forall>p \<in> snd ` set (m_SendQueue s). sendable p"
  shows "intervalDispatch ls time s =
    Inr (if send_due delay time s then queue_images s else [], if send_due delay time s then s\<lparr>m_LastResendTS := time\<rparr> else s)"
  using resend_ok [of "s\<lparr>m_LastResendTS := time\<rparr>"] assms
  by (simp add: intervalDispatch_def send_due_def queue_images_def)

lemma cc_get_stats: "t \<noteq> LinkStats \<Longrightarrow> cc_get t i (snd (cc_getOrAdd LinkStats 0 c m)) = cc_get t i m"
  by (intro comp.get_or_add_other) simp

lemma dispatch_sends_ok:
  assumes "reliableResendDelay (as_stats (comp_at LinkStats 0 m)) = Inr delay" and "distinct is"
    and "\<forall>i \<in> set is. \<forall>c. cc_get ReliableSend i m = Some c \<longrightarrow> (\<forall>p \<in> snd ` set (m_SendQueue (as_send c)). sendable p)"
  shows "\<exists>m'. dispatch_sends time is m = Inr (concat (map (\<lambda>i. due_images delay time (cc_get ReliableSend i m)) is), m') \<and>
    (\<forall>i. m_SendQueue (as_send (comp_at ReliableSend i m')) = m_SendQueue (as_send (comp_at ReliableSend i m))) \<and>
    (\<forall>t i. t \<noteq> ReliableSend \<longrightarrow> comp_at t i m' = comp_at t i m)"
  using assms
proof (induction "is" arbitrary: m)
  case Nil
  then show ?case by simp
next
  case (Cons i js)
  show ?case
  proof (cases "cc_get ReliableSend i m")
    case None
    then show ?thesis using Cons.IH [of m] Cons.prems by (auto simp: due_images_def)
  next
    case (Some c)
    define m1 where "m1 = snd (cc_getOrAdd LinkStats 0 (fresh LinkStats) m)"
    define s where "s = (if send_due delay time (as_send c) then (as_send c)\<lparr>m_LastResendTS := time\<rparr> else as_send c)"
    define m2 where "m2 = cc_put ReliableSend i (CReliableSend s) m1"
    have ga: "cc_getOrAdd LinkStats 0 (fresh LinkStats) m = (comp_at LinkStats 0 m, m1)"
      unfolding m1_def by (rule getOrAdd_pair)
    have q: "m_SendQueue s = m_SendQueue (as_send c)" by (simp add: s_def)
    have "\<forall>p \<in> snd ` set (m_SendQueue (as_send c)). sendable p" using Cons.prems(3) Some by simp
    from intervalDispatch_ok [OF Cons.prems(1) this]
    have id: "intervalDispatch (as_stats (comp_at LinkStats 0 m)) time (as_send c) = Inr (due_images delay time (Some c), s)"
      by (simp add: s_def due_images_def)
    have at2: "comp_at t j m2 = (if t = ReliableSend \<and> j = i then CReliableSend s else comp_at t j m)" for t j
      by (simp add: m2_def m1_def comp_at_put comp_at_getOrAdd)
    have get2: "cc_get ReliableSend j m2 = cc_get ReliableSend j m" if "j \<noteq> i" for j
      using that by (simp add: m2_def m1_def cc_get_put cc_get_stats)
    obtain m' where m': "dispatch_sends time js m2 = Inr (concat (map (\<lambda>i. due_images delay time (cc_get ReliableSend i m2)) js), m')"
      "\<forall>i. m_SendQueue (as_send (comp_at ReliableSend i m')) = m_SendQueue (as_send (comp_at ReliableSend i m2))"
      "\<forall>t i. t \<noteq> ReliableSend \<longrightarrow> comp_at t i m' = comp_at t i m2"
      using Cons.IH [of m2] Cons.prems at2 get2 by fastforce
    have mc: "map (\<lambda>i. due_images delay time (cc_get ReliableSend i m2)) js = map (\<lambda>i. due_images delay time (cc_get ReliableSend i m)) js"
    proof (rule map_cong [OF refl])
      fix x assume "x \<in> set js"
      then have "x \<noteq> i" using Cons.prems(2) by auto
      then show "due_images delay time (cc_get ReliableSend x m2) = due_images delay time (cc_get ReliableSend x m)"
        using get2 by simp
    qed
    have "dispatch_sends time (i # js) m =
        Inr (concat (map (\<lambda>i. due_images delay time (cc_get ReliableSend i m)) (i # js)), m')"
      using Some ga id m'(1) [unfolded mc] by (simp add: m2_def [symmetric])
    moreover have "comp_at ReliableSend i m = c" using Some by (simp add: comp_at_def)
    ultimately show ?thesis using m'(2,3) at2 q by (intro exI [of _ m']) auto
  qed
qed

section \<open>The packet of a remote call\<close>

definition rpc_events :: "(cstring \<Rightarrow> 'f option) \<Rightarrow> cstring \<Rightarrow> recv_packet \<Rightarrow> 'f event_rpc list" where
  "rpc_events rpcs name p =
     (case rpcs name of None \<Rightarrow> [] | Some f \<Rightarrow> [\<lparr>m_RpcFunc = f, m_Pack = p, m_EvReadPos = of_nat (length name + 1)\<rparr>])"

lemma rpc_packets_ok:
  assumes "string_ok name" and "bs_inv payload" and "length name + 1 + length (content payload) \<le> 1894"
    and "fl = makeChannelAndFlags ch relay sys True True"
    and "p = RecvPacket packet_RPC (name @ [0] @ content payload) fl"
  shows "\<exists>b. rpc_packets name payload relay sys ch = Inr [b] \<and> bs_inv b \<and> content b = packet_bytes p"
proof -
  obtain bn where bn: "write_string name bs_reset = Inr (True, bn)" "bs_inv bn" "content bn = name @ [0]"
    using string_codec.put_ok [of bs_reset name] assms(1,3) by (auto simp: appended_def max_stream_def)
  let ?msg = "name @ [0] @ content payload"
  have msg: "concat (map content [bn, payload]) = ?msg" using bn(3) by simp
  have c: "chop (nat (1900 - 6)) ?msg = [?msg]" using assms(3) by (subst chop.simps) simp
  have l: "length (concat (map content [bn, payload])) < 2 ^ 32" unfolding msg using assms(3) by simp
  have iv: "\<forall>b \<in> set [bn, payload]. bs_inv b" using bn(2) assms(2) by simp
  obtain b where b: "createNormalPacket (comp_byte ReliableSend) packet_RPC [bn, payload] 2 ch relay sys 1900 = Inr [b]"
      "bs_inv b" "content b = packet_bytes p"
    using createNormalPacket_ok [OF iv l, of 1900 "comp_byte ReliableSend" packet_RPC ch relay sys] c assms(4,5)
    unfolding msg by (auto simp: packet_bytes_def RecvPacket_def numeral_2_eq_2)
  then show ?thesis using bn(1) by (simp add: rpc_packets_def MM_MAX_FRAGMENTSIZE_def)
qed

lemma rpc_packet_fields:
  assumes "length name + 1 + length (content payload) \<le> 1894"
    and "p = RecvPacket packet_RPC (name @ [0] @ content payload) fl"
  shows "m_Data p = name @ 0 # content payload" "m_Flags p = fl" "m_Id p = packet_RPC" "packet_ok p"
    "length (m_Data p) < 2 ^ 32 - 64" "length (m_Data p) \<le> MM_MAX_SENDSIZE - 7" "length name + 1 \<le> length (m_Data p)"
  using assms by (auto simp: RecvPacket_def packet_ok_def MM_MAX_SENDSIZE_def MM_MAX_RECVSIZE_def)

lemma rpc_packet_handled:
  assumes "string_ok name" and "bs_inv payload" and "length name + 1 + length (content payload) \<le> 1894"
    and "fl = makeChannelAndFlags ch relay sys True True"
    and "p = RecvPacket packet_RPC (name @ [0] @ content payload) fl"
  shows "handlePacket rpcs p = Inr (rpc_events rpcs name p)" and "good_packet rpcs p"
proof -
  note pk = rpc_packet_fields [OF assms(3,5)]
  show h: "handlePacket rpcs p = Inr (rpc_events rpcs name p)"
    using handleRpc_ok [OF pk(4,5,1) assms(1), of rpcs] pk(3) by (simp add: handlePacket_def rpc_events_def split: option.split)
  show "good_packet rpcs p"
    using h pk assms(4,5) by (auto simp: good_packet_def single_flags_def flags_first flags_last RecvPacket_def)
qed

lemma rpc_event_args:
  assumes "length name + 1 + length (content payload) \<le> 1894"
    and "fl = makeChannelAndFlags ch relay sys True True"
    and "p = RecvPacket packet_RPC (name @ [0] @ content payload) fl"
  shows "\<exists>bs. EventRpc_process \<lparr>m_RpcFunc = f, m_Pack = p, m_EvReadPos = of_nat (length name + 1)\<rparr> =
      Inr (f, bs, (ch AND 7) OR (if relay then 4 else 0)) \<and> bs_inv bs \<and> unread bs = content payload"
proof -
  note pk = rpc_packet_fields [OF assms(1,3)]
  show ?thesis
    using EventRpc_process_ok [OF pk(4,5,7), of f] view_inv [OF pk(4,5,7)] pk(1,2) assms(2) by (simp add: flags_channel)
qed

section \<open>Properties\<close>

text \<open>Channels are independent. Whatever datagram a link receives, only components of the
  channel in its header can change: the streams of every other channel stay as they are.\<close>

theorem link_receive_isolates:
  assumes "read_header bs = Inr (pi, ct, bs1)" and "link_receive bs m = Some (Inr (job, m'))"
    and "i \<noteq> unat (m_ChannelAndFlags pi AND MM_CHANNEL_MASK)"
  shows "comp_at t i m' = comp_at t i m"
proof -
  let ?ch = "unat (m_ChannelAndFlags pi AND MM_CHANNEL_MASK)"
  have ne: "i \<noteq> ?ch" by (rule assms(3))
  show ?thesis
    using assms(1,2) ne
    by (auto simp: link_receive_def Let_def comp_at_put comp_at_getOrAdd comp_at_on_comp case_prod_unfold
        split: option.splits EComponentType.splits sum.splits)
qed

text \<open>C10: A remote call arrives as the call that was made. If the name and the arguments fit in one
  fragment, \<open>priv_send_rpc\<close> makes one packet that a channel can carry, and the receiver
  calls the function of that name with a serializer that holds exactly the arguments.\<close>

theorem rpc_roundtrip:
  assumes "string_ok name" and "bs_inv payload" and "length name + 1 + length (content payload) \<le> 1894"
    and "rpcs name = Some f"
    and "fl = makeChannelAndFlags ch relay sys True True"
    and "p = RecvPacket packet_RPC (name @ [0] @ content payload) fl"
  shows "\<exists>b e bs. rpc_packets name payload relay sys ch = Inr [b] \<and> bs_inv b \<and> content b = packet_bytes p \<and>
    good_packet rpcs p \<and> handlePacket rpcs p = Inr [e] \<and>
    EventRpc_process e = Inr (f, bs, (ch AND 7) OR (if relay then 4 else 0)) \<and> unread bs = content payload"
  using rpc_packets_ok [OF assms(1-3,5,6)] rpc_packet_handled [OF assms(1-3,5,6), of rpcs] rpc_event_args [OF assms(3,5,6), of f] assms(4)
  by (auto simp: rpc_events_def)

text \<open>C13: Six bytes stop the process. A datagram with the header of a reliable packet and no payload, with a
  sequence number in the receiver's window, runs into \<open>throw\<close> without an active exception.\<close>

theorem empty_packet_terminates:
  assumes "isSeqNewer seq (m_RecvSequence (as_recv (comp_at ReliableRecv (unat (fl AND MM_CHANNEL_MASK)) m)))"
  shows "link_receive (recv_view (rev (le32 seq) @ [comp_byte ReliableSend, fl])) m = Some (Inl Terminate)"
proof -
  let ?d = "rev (le32 seq) @ [comp_byte ReliableSend, fl]" and ?ch = "unat (fl AND MM_CHANNEL_MASK)"
  let ?m1 = "on_comp ReliableAckSend ?ch (\<lambda>c. CReliableAckSend (addAck seq (as_acks c))) m"
  have l: "length ?d \<le> MM_MAX_RECVSIZE" by (simp add: MM_MAX_RECVSIZE_def)
  have un: "unread (recv_view ?d) = rev (le32 seq) @ comp_byte ReliableSend # fl # []"
    using recv_view_ok(2) [OF l] by simp
  note h = read_header_ok [OF recv_view_ok(1) [OF l] un]
  obtain m2 where ga: "cc_getOrAdd ReliableRecv ?ch (fresh ReliableRecv) ?m1 = (comp_at ReliableRecv ?ch m, m2)"
    using getOrAdd_pair [of ReliableRecv ?ch ?m1] by (simp add: comp_at_on_comp)
  have "receive (advance 6 (recv_view ?d)) \<lparr>m_Sequence = seq, m_ChannelAndFlags = fl\<rparr> (as_recv (comp_at ReliableRecv ?ch m)) =
      Some (Inl Terminate)"
    using receive_empty [OF h(2,3)] assms by simp
  then show ?thesis using h(1) ga by (simp add: link_receive_def Let_def)
qed

section \<open>The properties at work\<close>

lemma demo_link_receive:
  "\<exists>pi bs1 m'. read_header (recv_view [0, 0, 0, 0, 17, 24, 0, 97, 0]) = Inr (pi, 17, bs1) \<and> m_ChannelAndFlags pi = 24 \<and>
     link_receive (recv_view [0, 0, 0, 0, 17, 24, 0, 97, 0]) [] = Some (Inr (Some 0, m')) \<and>
     (\<forall>i. cc_get ReliableSend i m' = None \<and> cc_get LinkStats i m' = None) \<and>
     as_acks (comp_at ReliableAckSend 0 m') = addAck 0 ReliableAckSend_init"
proof -
  let ?d = "[0, 0, 0, 0, 17, 24, 0, 97, 0] :: byte list"
  have d: "?d = rev (le32 0) @ packet_bytes demo_packet"
    by (simp add: packet_bytes_def demo_packet_def comp_byte_def) code_simp
  obtain bs where h: "read_header (recv_view ?d) = Inr (\<lparr>m_Sequence = 0, m_ChannelAndFlags = 24\<rparr>, 17, bs)"
      "bs_inv bs" "unread bs = 0 # [97, 0]"
    using read_header_data [OF d]
    by (auto simp: demo_packet_def comp_byte_def MM_MAX_SENDSIZE_def MM_MAX_RECVSIZE_def)
  have sf: "single_flags 24" unfolding single_flags_def MM_FRAGMENT_FIRST_BIT_def MM_FRAGMENT_LAST_BIT_def by code_simp
  have nw: "isSeqNewer 0 0" by (simp add: isSeqNewer_iff)
  have "receive bs \<lparr>m_Sequence = 0, m_ChannelAndFlags = 24\<rparr> ReliableRecv_init =
      Some (Inr (True, ReliableRecv_init\<lparr>m_OrderedPackets := snd (sm_insert 0 (RecvPacket 0 [97, 0] 24, 1) [])\<rparr>))"
    using receive_single [OF h(2,3), of "\<lparr>m_Sequence = 0, m_ChannelAndFlags = 24\<rparr>" ReliableRecv_init] sf nw
    by (simp add: ReliableRecv_init_def)
  moreover have "comp_of_byte 17 = Some ReliableSend" by (simp add: comp_of_byte_def component_types_def)
  moreover have "unat ((24 :: byte) AND MM_CHANNEL_MASK) = 0" unfolding MM_CHANNEL_MASK_def by simp
  ultimately show ?thesis using h(1)
    by (simp add: link_receive_def Let_def on_comp_def cc_getOrAdd_def cc_get_def cc_put_def fresh_def resize_slots_def comp_at_def)
qed

theorem link_receive_isolates_witness:
  "\<exists>m'. link_receive (recv_view [0, 0, 0, 0, 17, 24, 0, 97, 0]) [] = Some (Inr (Some 0, m')) \<and>
     comp_at ReliableRecv 1 m' = CReliableRecv ReliableRecv_init"
proof -
  obtain pi bs1 m' where d: "read_header (recv_view [0, 0, 0, 0, 17, 24, 0, 97, 0]) = Inr (pi, 17, bs1)"
    "m_ChannelAndFlags pi = 24" "link_receive (recv_view [0, 0, 0, 0, 17, 24, 0, 97, 0]) [] = Some (Inr (Some 0, m'))"
    using demo_link_receive by blast
  have "comp_at ReliableRecv 1 m' = comp_at ReliableRecv 1 []"
    by (rule link_receive_isolates [OF d(1,3)]) (simp add: d(2) MM_CHANNEL_MASK_def)
  with d(3) show ?thesis by (simp add: comp_at_def cc_get_def fresh_def)
qed

theorem rpc_roundtrip_witness:
  "\<exists>b e bs. rpc_packets [97] demo_bs False True 2 = Inr [b] \<and>
     handlePacket demo_rpcs (RecvPacket packet_RPC ([97] @ [0] @ content demo_bs) (makeChannelAndFlags 2 False True True True)) = Inr [e] \<and>
     EventRpc_process e = Inr ((), bs, 2) \<and> unread bs = [17, 24, 0, 97, 0]"
proof -
  have c: "content demo_bs = [17, 24, 0, 97, 0]" by (simp add: demo_bs_def content_def)
  have s: "string_ok [97]" by (simp add: string_ok_def TempBuffSize_def)
  have r: "demo_rpcs [97] = Some ()" by (simp add: demo_rpcs_def)
  have l: "length [97 :: byte] + 1 + length (content demo_bs) \<le> 1894" by (simp add: c)
  from rpc_roundtrip [where name = "[97]" and payload = demo_bs and rpcs = demo_rpcs and ch = 2 and relay = False and sys = True,
    OF s demo_bs_ok(1) l r refl refl] c
  show ?thesis by auto
qed

theorem empty_packet_terminates_witness:
  "link_receive (recv_view [0, 0, 0, 0, 17, 24]) [] = Some (Inl Terminate)"
proof -
  have z: "rev (le32 0) @ [comp_byte ReliableSend, 24] = [0, 0, 0, 0, 17, 24]"
    by (simp add: comp_byte_def) code_simp
  have "isSeqNewer 0 (m_RecvSequence (as_recv (comp_at ReliableRecv (unat ((24 :: byte) AND MM_CHANNEL_MASK)) [])))"
    by (simp add: comp_at_def cc_get_def fresh_def ReliableRecv_init_def isSeqNewer_iff)
  from empty_packet_terminates [OF this] show ?thesis unfolding z .
qed

end
