(* ===== verification/Job_System.thy ===== *)
theory Job_System
  imports Mm_Prelude Transition
begin

text \<open>
  \<open>JobSystem.h\<close> and \<open>JobSystem.cpp\<close>: the queue of jobs and the worker threads that take jobs
  from it. A region in which the mutex is held is one step. A worker is \<open>Ready\<close> before it
  takes the lock, \<open>Waiting\<close> on the condition variable, \<open>Woken\<close> when it was notified (or woke
  up without notification) and has to take the lock again, \<open>HasJob\<close> while it runs a job
  without the lock, and \<open>Stopped\<close> when its thread function returned.

  \<open>js_added\<close>, \<open>js_taken\<close> and \<open>js_spurious\<close> are histories for the theorems: the jobs
  added, the jobs extracted, and the number of wake-ups without notification.
\<close>

datatype 'j worker = Ready | Waiting | Woken | HasJob 'j | Stopped

record 'j job_system =
  m_Closing :: bool
  m_NumThreadsSleeping :: u32
  m_GlobalQueue :: "'j list"
  m_WorkerThreads :: "'j worker list"
  js_added :: "'j list"
  js_taken :: "'j list"
  js_spurious :: nat

definition JobSystem_init :: "nat \<Rightarrow> 'j job_system" where
  "JobSystem_init numWorkerThreads =
     \<lparr>m_Closing = False, m_NumThreadsSleeping = 0, m_GlobalQueue = [],
      m_WorkerThreads = replicate numWorkerThreads Ready, js_added = [], js_taken = [], js_spurious = 0\<rparr>"

section \<open>The locked regions\<close>

text \<open>\<open>extractJob\<close>: \<open>None\<close> is the default constructed, invalid job.\<close>

definition extractJob :: "'j job_system \<Rightarrow> 'j option \<times> 'j job_system" where
  "extractJob s =
     (case m_GlobalQueue s of
        j # q \<Rightarrow> (Some j, s\<lparr>m_GlobalQueue := q, js_taken := js_taken s @ [j]\<rparr>)
      | [] \<Rightarrow> (None, s))"

definition set_worker :: "nat \<Rightarrow> 'j worker \<Rightarrow> 'j job_system \<Rightarrow> 'j job_system" where
  "set_worker i w s = s\<lparr>m_WorkerThreads := (m_WorkerThreads s)[i := w]\<rparr>"

text \<open>The worker loop from taking the lock to releasing it: in \<open>suspend\<close> or after a job was found.\<close>

definition worker_locks :: "nat \<Rightarrow> 'j job_system \<Rightarrow> 'j job_system" where
  "worker_locks i s =
     (if m_Closing s then set_worker i Stopped s
      else case extractJob s of
             (Some j, s1) \<Rightarrow> set_worker i (HasJob j) s1
           | (None, s1) \<Rightarrow> set_worker i Waiting (s1\<lparr>m_NumThreadsSleeping := m_NumThreadsSleeping s1 + 1\<rparr>))"

text \<open>After \<open>wait\<close> returned with the lock: the second \<open>extractJob\<close>.\<close>

definition worker_resumes :: "nat \<Rightarrow> 'j job_system \<Rightarrow> 'j job_system" where
  "worker_resumes i s =
     (case extractJob s of
        (Some j, s1) \<Rightarrow> set_worker i (HasJob j) s1
      | (None, s1) \<Rightarrow> set_worker i Ready s1)"

text \<open>\<open>addJob\<close>; \<open>wake\<close> is the waiting worker that \<open>notify_one\<close> chooses, if there is one.\<close>

definition addJob :: "'j \<Rightarrow> nat option \<Rightarrow> 'j job_system \<Rightarrow> 'j job_system" where
  "addJob j wake s =
     (let s1 = s\<lparr>m_GlobalQueue := m_GlobalQueue s @ [j], js_added := js_added s @ [j]\<rparr>
      in if m_NumThreadsSleeping s1 > 0
         then (let s2 = s1\<lparr>m_NumThreadsSleeping := m_NumThreadsSleeping s1 - 1\<rparr>
               in case wake of Some i \<Rightarrow> set_worker i Woken s2 | None \<Rightarrow> s2)
         else s1)"

text \<open>The first region of \<open>stop\<close>: \<open>notify_all\<close>; and its end, after all workers were joined.\<close>

definition stop_begin :: "'j job_system \<Rightarrow> 'j job_system" where
  "stop_begin s = s\<lparr>m_Closing := True,
     m_WorkerThreads := map (\<lambda>w. if w = Waiting then Woken else w) (m_WorkerThreads s)\<rparr>"

definition stop_end :: "'j job_system \<Rightarrow> 'j job_system" where
  "stop_end s = s\<lparr>m_GlobalQueue := [], js_taken := js_taken s @ m_GlobalQueue s\<rparr>"

definition notify_choice :: "nat option \<Rightarrow> 'j worker list \<Rightarrow> bool" where
  "notify_choice wake ws =
     (case wake of
        Some i \<Rightarrow> i < length ws \<and> ws ! i = Waiting
      | None \<Rightarrow> Waiting \<notin> set ws)"

inductive js_step :: "'j job_system \<Rightarrow> 'j job_system \<Rightarrow> bool" where
  lock: "i < length (m_WorkerThreads s) \<Longrightarrow> m_WorkerThreads s ! i = Ready \<Longrightarrow> js_step s (worker_locks i s)"
| resume: "i < length (m_WorkerThreads s) \<Longrightarrow> m_WorkerThreads s ! i = Woken \<Longrightarrow> js_step s (worker_resumes i s)"
| finish: "i < length (m_WorkerThreads s) \<Longrightarrow> m_WorkerThreads s ! i = HasJob j \<Longrightarrow> js_step s (set_worker i Ready s)"
| spurious: "i < length (m_WorkerThreads s) \<Longrightarrow> m_WorkerThreads s ! i = Waiting \<Longrightarrow>
     js_step s ((set_worker i Woken s)\<lparr>js_spurious := js_spurious s + 1\<rparr>)"
| add: "notify_choice wake (m_WorkerThreads s) \<Longrightarrow> js_step s (addJob j wake s)"
| stop: "js_step s (stop_begin s)"
| joined: "m_Closing s \<Longrightarrow> \<forall>w \<in> set (m_WorkerThreads s). w = Stopped \<Longrightarrow> js_step s (stop_end s)"

abbreviation js_reach :: "nat \<Rightarrow> 'j job_system \<Rightarrow> bool" where
  "js_reach n \<equiv> reachable (\<lambda>s. s = JobSystem_init n) js_step"

lemma js_reach_more: "js_reach n s \<Longrightarrow> js_step s t \<Longrightarrow> js_reach n t"
  by (rule reachable.more)

section \<open>Invariant\<close>

definition waiting :: "'j worker list \<Rightarrow> nat" where
  "waiting ws = length (filter (\<lambda>w. w = Waiting) ws)"

definition active :: "'j worker \<Rightarrow> bool" where
  "active w \<longleftrightarrow> w \<noteq> Waiting \<and> w \<noteq> Stopped"

definition js_inv :: "nat \<Rightarrow> 'j job_system \<Rightarrow> bool" where
  "js_inv n s \<longleftrightarrow> length (m_WorkerThreads s) = n \<and>
     js_added s = js_taken s @ m_GlobalQueue s \<and>
     waiting (m_WorkerThreads s) \<le> unat (m_NumThreadsSleeping s) \<and>
     (\<not> m_Closing s \<longrightarrow> unat (m_NumThreadsSleeping s) \<le> waiting (m_WorkerThreads s) + js_spurious s) \<and>
     (\<not> m_Closing s \<longrightarrow> Stopped \<notin> set (m_WorkerThreads s)) \<and>
     (\<not> m_Closing s \<and> m_GlobalQueue s \<noteq> [] \<longrightarrow> (\<exists>w \<in> set (m_WorkerThreads s). active w)) \<and>
     (m_Closing s \<longrightarrow> Waiting \<notin> set (m_WorkerThreads s))"

lemma waiting_update:
  "i < length ws \<Longrightarrow> waiting (ws[i := w]) + (if ws ! i = Waiting then 1 else 0) = waiting ws + (if w = Waiting then 1 else 0)"
proof (induction ws arbitrary: i)
  case (Cons v ws)
  show ?case
  proof (cases i)
    case 0
    then show ?thesis by (simp add: waiting_def)
  next
    case (Suc k)
    then show ?thesis using Cons.IH [of k] Cons.prems by (auto simp: waiting_def split: if_splits)
  qed
qed simp

lemma waiting_le: "waiting ws \<le> length ws"
  by (simp add: waiting_def)

lemma waiting_0: "waiting ws = 0 \<longleftrightarrow> Waiting \<notin> set ws"
  by (auto simp: waiting_def filter_empty_conv)

lemma all_waiting: "\<forall>w \<in> set ws. \<not> active w \<Longrightarrow> Stopped \<notin> set ws \<Longrightarrow> waiting ws = length ws"
  by (induction ws) (auto simp: waiting_def active_def)

lemma active_update: "i < length ws \<Longrightarrow> active w \<Longrightarrow> \<exists>v \<in> set (ws[i := w]). active v"
  by (meson set_update_memI)

lemma set_update_other: "x \<notin> set ws \<Longrightarrow> w \<noteq> x \<Longrightarrow> x \<notin> set (ws[i := w])"
  using set_update_subset_insert [of ws i w] by auto

lemma extractJob_cases:
  obtains (job) j q where "m_GlobalQueue s = j # q" "extractJob s = (Some j, s\<lparr>m_GlobalQueue := q, js_taken := js_taken s @ [j]\<rparr>)"
  | (none) "m_GlobalQueue s = []" "extractJob s = (None, s)"
  by (cases "m_GlobalQueue s") (auto simp: extractJob_def)

text \<open>Giving worker \<open>i\<close>, which was not waiting, a new state that is not waiting.\<close>

lemma js_inv_worker:
  assumes "js_inv n s" and "i < n" and "m_WorkerThreads s ! i \<noteq> Waiting" and "active w"
    and "k @ q = js_taken s @ m_GlobalQueue s"
  shows "js_inv n (s\<lparr>m_WorkerThreads := (m_WorkerThreads s)[i := w], m_GlobalQueue := q, js_taken := k\<rparr>)"
proof -
  have i: "i < length (m_WorkerThreads s)" using assms(1,2) by (simp add: js_inv_def)
  have w: "w \<noteq> Waiting" "w \<noteq> Stopped" using assms(4) by (auto simp: active_def)
  have "waiting ((m_WorkerThreads s)[i := w]) = waiting (m_WorkerThreads s)"
    using waiting_update [OF i, of w] assms(3) w(1) by simp
  then show ?thesis
    using assms(1,5) active_update [OF i assms(4)] set_update_other [of Waiting "m_WorkerThreads s" w i]
      set_update_other [of Stopped "m_WorkerThreads s" w i] w
    by (auto simp: js_inv_def)
qed

lemma js_inv_lock:
  assumes "js_inv n s" and "i < n" and "m_WorkerThreads s ! i = Ready" and "js_spurious s + n < 2 ^ 32"
  shows "js_inv n (worker_locks i s)"
proof -
  have i: "i < length (m_WorkerThreads s)" using assms(1,2) by (simp add: js_inv_def)
  show ?thesis
  proof (cases "m_Closing s")
    case True
    have "waiting ((m_WorkerThreads s)[i := Stopped]) = waiting (m_WorkerThreads s)"
      using waiting_update [OF i, of Stopped] assms(3) by simp
    then show ?thesis using assms(1) True set_update_other [of Waiting "m_WorkerThreads s" Stopped i]
      by (auto simp: worker_locks_def set_worker_def js_inv_def)
  next
    case False
    show ?thesis
    proof (cases s rule: extractJob_cases)
      case (job j q)
      then have eq: "worker_locks i s =
          s\<lparr>m_WorkerThreads := (m_WorkerThreads s)[i := HasJob j], m_GlobalQueue := q, js_taken := js_taken s @ [j]\<rparr>"
        using False by (simp add: worker_locks_def set_worker_def)
      show ?thesis unfolding eq
        by (rule js_inv_worker [OF assms(1,2)]) (simp_all add: assms(3) active_def job(1))
    next
      case none
      have wu: "waiting ((m_WorkerThreads s)[i := Waiting]) = waiting (m_WorkerThreads s) + 1"
        using waiting_update [OF i, of Waiting] assms(3) by simp
      have "waiting (m_WorkerThreads s) < n"
        using wu waiting_le [of "(m_WorkerThreads s)[i := Waiting]"] assms(1) by (simp add: js_inv_def)
      then have "unat (m_NumThreadsSleeping s) + 1 < 2 ^ 32" using False assms(1,4) by (auto simp: js_inv_def)
      then have "unat (m_NumThreadsSleeping s + 1) = unat (m_NumThreadsSleeping s) + 1"
        using unat_add_of_nat [of "m_NumThreadsSleeping s" 1] by simp
      then show ?thesis using False none assms(1) wu set_update_other [of Stopped "m_WorkerThreads s" Waiting i]
        by (simp add: worker_locks_def set_worker_def js_inv_def)
    qed
  qed
qed

lemma js_inv_resume:
  assumes "js_inv n s" and "i < n" and "m_WorkerThreads s ! i = Woken"
  shows "js_inv n (worker_resumes i s)"
proof (cases s rule: extractJob_cases)
  case (job j q)
  then have eq: "worker_resumes i s =
      s\<lparr>m_WorkerThreads := (m_WorkerThreads s)[i := HasJob j], m_GlobalQueue := q, js_taken := js_taken s @ [j]\<rparr>"
    by (simp add: worker_resumes_def set_worker_def)
  show ?thesis unfolding eq
    by (rule js_inv_worker [OF assms(1,2)]) (simp_all add: assms(3) active_def job(1))
next
  case none
  then have eq: "worker_resumes i s =
      s\<lparr>m_WorkerThreads := (m_WorkerThreads s)[i := Ready], m_GlobalQueue := m_GlobalQueue s, js_taken := js_taken s\<rparr>"
    by (simp add: worker_resumes_def set_worker_def)
  show ?thesis unfolding eq
    by (rule js_inv_worker [OF assms(1,2)]) (simp_all add: assms(3) active_def)
qed

lemma js_inv_add:
  assumes "js_inv n s" and "0 < n" and "notify_choice wake (m_WorkerThreads s)"
  shows "js_inv n (addJob j wake s)"
proof (cases "m_NumThreadsSleeping s > 0")
  case False
  then have z: "m_NumThreadsSleeping s = 0" by (simp add: word_gt_0)
  then have nw: "waiting (m_WorkerThreads s) = 0" using assms(1) by (simp add: js_inv_def)
  have "\<exists>w \<in> set (m_WorkerThreads s). active w" if "\<not> m_Closing s"
    using all_waiting [of "m_WorkerThreads s"] nw assms(1,2) that by (auto simp: js_inv_def)
  then show ?thesis using assms(1) z by (auto simp: addJob_def js_inv_def Let_def)
next
  case True
  have dec: "unat (m_NumThreadsSleeping s - 1) = unat (m_NumThreadsSleeping s) - 1" "0 < unat (m_NumThreadsSleeping s)"
    using True unat_minus_one [of "m_NumThreadsSleeping s"] by (auto simp: word_gt_0 unat_gt_0)
  show ?thesis
  proof (cases wake)
    case None
    then have nw: "waiting (m_WorkerThreads s) = 0" using assms(3) by (simp add: notify_choice_def waiting_0)
    have "\<exists>w \<in> set (m_WorkerThreads s). active w" if "\<not> m_Closing s"
      using all_waiting [of "m_WorkerThreads s"] nw assms(1,2) that by (auto simp: js_inv_def)
    then show ?thesis using assms(1) True None nw dec by (auto simp: addJob_def js_inv_def Let_def)
  next
    case (Some i)
    then have i: "i < length (m_WorkerThreads s)" "m_WorkerThreads s ! i = Waiting" using assms(3) by (auto simp: notify_choice_def)
    have wu: "waiting ((m_WorkerThreads s)[i := Woken]) + 1 = waiting (m_WorkerThreads s)"
      using waiting_update [OF i(1), of Woken] i(2) by simp
    have "\<not> m_Closing s" using i nth_mem [OF i(1)] assms(1) by (auto simp: js_inv_def)
    moreover have "\<exists>w \<in> set ((m_WorkerThreads s)[i := Woken]). active w" using active_update [OF i(1), of Woken] by (simp add: active_def)
    ultimately show ?thesis
      using assms(1) True Some wu dec set_update_other [of Stopped "m_WorkerThreads s" Woken i]
      by (auto simp: addJob_def js_inv_def Let_def set_worker_def)
  qed
qed

lemma js_inv_step:
  assumes "js_step s t" and "js_inv n s" and "0 < n" and "js_spurious t + n < 2 ^ 32"
  shows "js_inv n t"
  using assms(1)
proof (cases rule: js_step.cases)
  case (lock i)
  then have "js_spurious s \<le> js_spurious t" by (auto simp: worker_locks_def set_worker_def extractJob_def split: list.split)
  then show ?thesis using lock assms js_inv_lock [of n s i] by (simp add: js_inv_def [of n s])
next
  case (resume i)
  then show ?thesis using assms(2) js_inv_resume [of n s i] by (simp add: js_inv_def [of n s])
next
  case (finish i j)
  then have eq: "t = s\<lparr>m_WorkerThreads := (m_WorkerThreads s)[i := Ready], m_GlobalQueue := m_GlobalQueue s, js_taken := js_taken s\<rparr>"
    by (simp add: set_worker_def)
  have "i < n" using finish(2) assms(2) by (simp add: js_inv_def)
  then show ?thesis unfolding eq
    by (rule js_inv_worker [OF assms(2)]) (simp_all add: finish(3) active_def)
next
  case (spurious i)
  have wu: "waiting ((m_WorkerThreads s)[i := Woken]) + 1 = waiting (m_WorkerThreads s)"
    using waiting_update [OF spurious(2), of Woken] spurious(3) by simp
  have "\<not> m_Closing s" using spurious(2,3) nth_mem [OF spurious(2)] assms(2) by (auto simp: js_inv_def)
  moreover have "\<exists>w \<in> set ((m_WorkerThreads s)[i := Woken]). active w"
    using active_update [OF spurious(2), of Woken] by (simp add: active_def)
  ultimately show ?thesis using spurious(1) assms(2) wu set_update_other [of Stopped "m_WorkerThreads s" Woken i]
    by (auto simp: js_inv_def set_worker_def)
next
  case (add wake j)
  show ?thesis unfolding add(1) using js_inv_add [OF assms(2,3) add(2)] .
next
  case stop
  let ?ws = "map (\<lambda>w. if w = Waiting then Woken else w) (m_WorkerThreads s)"
  have nw: "Waiting \<notin> set ?ws" by auto
  then have w0: "waiting ?ws = 0" by (simp only: waiting_0) simp
  show ?thesis unfolding stop stop_begin_def using assms(2) w0 nw by (simp add: js_inv_def)
next
  case joined
  then show ?thesis using assms(2) by (auto simp: stop_end_def js_inv_def)
qed


lemma js_spurious_mono: "js_step s t \<Longrightarrow> js_spurious s \<le> js_spurious t"
  by (erule js_step.cases)
     (auto simp: worker_locks_def worker_resumes_def set_worker_def extractJob_def addJob_def Let_def stop_begin_def stop_end_def
       split: list.split option.split)

lemma js_inv_init: "0 < n \<Longrightarrow> js_inv n (JobSystem_init n)"
proof -
  have "waiting (replicate n Ready) = 0" by (auto simp: waiting_0)
  then show "0 < n \<Longrightarrow> js_inv n (JobSystem_init n)" by (auto simp: js_inv_def JobSystem_init_def active_def)
qed

interpretation js: state_machine "\<lambda>s. s = JobSystem_init n" js_step
    "\<lambda>s. 0 < n \<and> js_spurious s + n < 2 ^ 32 \<longrightarrow> js_inv n s"
proof
  fix s t :: "'a job_system" assume st: "js_step s t" and inv: "0 < n \<and> js_spurious s + n < 2 ^ 32 \<longrightarrow> js_inv n s"
  then show "0 < n \<and> js_spurious t + n < 2 ^ 32 \<longrightarrow> js_inv n t"
    using js_spurious_mono [OF st] js_inv_step [OF st] by simp
qed (simp add: js_inv_init)

lemma js_inv_reach:
  assumes "js_reach n s" and "0 < n" and "js_spurious s + n < 2 ^ 32"
  shows "js_inv n s"
  using js.invariant [OF assms(1)] assms(2,3) by simp

section \<open>Properties\<close>

text \<open>C16: No wake-up is lost. In every reachable state of a job system that is not being stopped, if a
  job is queued then some worker is awake and will look at the queue; and the jobs taken so
  far followed by the queue are the jobs added, in order, so each job is taken once and in the order
  of \<open>addJob\<close>. The counter of sleeping threads is a 32 bit word; wake-ups
  without notification are counted against it.\<close>

theorem no_lost_wakeup:
  assumes "js_reach n s" and "0 < n" and "js_spurious s + n < 2 ^ 32"
  shows "js_added s = js_taken s @ m_GlobalQueue s \<and>
    (\<not> m_Closing s \<and> m_GlobalQueue s \<noteq> [] \<longrightarrow> (\<exists>w \<in> set (m_WorkerThreads s). active w))"
  using js_inv_reach [OF assms] by (auto simp: js_inv_def)


text \<open>Two workers: one goes to sleep, a job is added and wakes it.\<close>

definition demo_js :: "nat job_system" where
  "demo_js = addJob 7 (Some 0) (worker_locks 0 (JobSystem_init 2))"

lemma demo_js_reach: "js_reach 2 demo_js"
proof -
  have s1: "js_step (JobSystem_init 2) (worker_locks 0 (JobSystem_init 2) :: nat job_system)"
    by (rule js_step.lock) (simp_all add: JobSystem_init_def)
  have "notify_choice (Some 0) (m_WorkerThreads (worker_locks 0 (JobSystem_init 2) :: nat job_system))"
    by (simp add: notify_choice_def worker_locks_def JobSystem_init_def extractJob_def set_worker_def)
  then have "js_step (worker_locks 0 (JobSystem_init 2)) demo_js" unfolding demo_js_def by (rule js_step.add)
  then show ?thesis using js_reach_more [OF js_reach_more [OF reachable_self s1]] by simp
qed

lemma demo_js_values:
  "m_Closing demo_js = False" "m_GlobalQueue demo_js = [7]" "js_spurious demo_js = 0"
  "m_WorkerThreads demo_js = [Woken, Ready]" "js_added demo_js = [7]" "js_taken demo_js = []"
  by (simp_all add: demo_js_def addJob_def worker_locks_def JobSystem_init_def extractJob_def set_worker_def
      numeral_2_eq_2)

theorem no_lost_wakeup_witness:
  "m_GlobalQueue demo_js = [7] \<and> (\<exists>w \<in> set (m_WorkerThreads demo_js). active w)"
  using no_lost_wakeup [OF demo_js_reach] demo_js_values by simp


end
