(* ===== verification/Session_Data.thy ===== *)
theory Session_Data
  imports Bin_Serializer
begin

text \<open>
  The data of a session on the matchmaking server and the search filter: \<open>MasterSessionData\<close> of
  \<open>SessionBase.h\<close>, \<open>SearchFilter\<close> of \<open>MasterSessionManager.h\<close>, their \<open>readOrWrite\<close>
  templates, and the comparison of ratings.

  A template writes or reads the fields one after the other with \<open>__CHECKEDB\<close>, which is
  \<open>seq_put\<close> and \<open>seq_get\<close> on nested pairs; the contract of such a sequence follows from the
  contracts of its fields by the locale \<open>codec_pair\<close>.
\<close>

record master_session_data =
  m_IsP2p :: bool
  m_UsedMatchmaker :: bool
  m_IsPrivate :: bool
  m_Rating :: u32 \<comment> \<open>the bits of a \<open>float\<close>\<close>
  m_MaxClients :: u32
  m_CanJoinAfterStart :: bool
  m_Name :: cstring
  m_Type :: cstring
  m_Password :: cstring
  m_MetaData :: meta_data

record search_filter =
  sf_Name :: cstring
  sf_Type :: cstring
  sf_MinRating :: u32
  sf_MaxRating :: u32
  sf_MinPlayers :: u32
  sf_MaxPlayers :: u32
  sf_FindPrivate :: bool
  sf_FindP2p :: bool
  sf_FindClientServer :: bool
  sf_CustomMatchmakingMd :: meta_data

section \<open>Comparing floats\<close>

text \<open>\<open><=\<close> on the bits of two single precision numbers: false if one is not a number, otherwise the
  order of sign and magnitude, with both zeros equal.\<close>

definition is_nan :: "u32 \<Rightarrow> bool" where
  "is_nan x \<longleftrightarrow> x AND 0x7FFFFFFF > 0x7F800000"

definition float_key :: "u32 \<Rightarrow> int" where
  "float_key x = (if bit x 31 then - uint (x AND 0x7FFFFFFF) else uint x)"

definition float_le :: "u32 \<Rightarrow> u32 \<Rightarrow> bool" where
  "float_le x y \<longleftrightarrow> \<not> is_nan x \<and> \<not> is_nan y \<and> float_key x \<le> float_key y"

section \<open>Serialization\<close>

definition msd_tuple ::
  "master_session_data \<Rightarrow> bool \<times> bool \<times> bool \<times> bool \<times> u32 \<times> u32 \<times> cstring \<times> cstring \<times> cstring" where
  "msd_tuple d = (m_IsP2p d, m_UsedMatchmaker d, m_CanJoinAfterStart d, m_IsPrivate d, m_Rating d, m_MaxClients d,
     m_Name d, m_Type d, m_Password d)"

text \<open>The meta data is not transmitted: a received value has none.\<close>

definition msd_untuple ::
  "bool \<times> bool \<times> bool \<times> bool \<times> u32 \<times> u32 \<times> cstring \<times> cstring \<times> cstring \<Rightarrow> master_session_data" where
  "msd_untuple t = (case t of (p2p, mm, join, priv, rating, mc, name, type, pw) \<Rightarrow>
     \<lparr>m_IsP2p = p2p, m_UsedMatchmaker = mm, m_IsPrivate = priv, m_Rating = rating, m_MaxClients = mc,
      m_CanJoinAfterStart = join, m_Name = name, m_Type = type, m_Password = pw, m_MetaData = []\<rparr>)"

abbreviation "put_s2 \<equiv> seq_put write_string write_string"
abbreviation "put_s3 \<equiv> seq_put write_string put_s2"
abbreviation "put_us3 \<equiv> seq_put write32 put_s3"
abbreviation "put_u2s3 \<equiv> seq_put write32 put_us3"
abbreviation "put_bu2s3 \<equiv> seq_put write_bool put_u2s3"
abbreviation "put_b2u2s3 \<equiv> seq_put write_bool put_bu2s3"
abbreviation "put_b3u2s3 \<equiv> seq_put write_bool put_b2u2s3"
abbreviation "get_s2 \<equiv> seq_get read_string read_string"
abbreviation "get_s3 \<equiv> seq_get read_string get_s2"
abbreviation "get_us3 \<equiv> seq_get read32 get_s3"
abbreviation "get_u2s3 \<equiv> seq_get read32 get_us3"
abbreviation "get_bu2s3 \<equiv> seq_get read_bool get_u2s3"
abbreviation "get_b2u2s3 \<equiv> seq_get read_bool get_bu2s3"
abbreviation "get_b3u2s3 \<equiv> seq_get read_bool get_b2u2s3"

definition write_msd :: "master_session_data \<Rightarrow> bin_serializer \<Rightarrow> (bool \<times> bin_serializer) res" where
  "write_msd d s = seq_put write_bool put_b3u2s3 (msd_tuple d) s"

definition read_msd :: "bin_serializer \<Rightarrow> (master_session_data option \<times> bin_serializer) res" where
  "read_msd s = rmap msd_untuple (seq_get read_bool get_b3u2s3 s)"

definition sf_tuple ::
  "search_filter \<Rightarrow> cstring \<times> cstring \<times> u32 \<times> u32 \<times> u32 \<times> u32 \<times> bool \<times> bool \<times> bool \<times> meta_data" where
  "sf_tuple f = (sf_Type f, sf_Name f, sf_MinRating f, sf_MinPlayers f, sf_MaxRating f, sf_MaxPlayers f,
     sf_FindPrivate f, sf_FindP2p f, sf_FindClientServer f, sf_CustomMatchmakingMd f)"

definition sf_untuple ::
  "cstring \<times> cstring \<times> u32 \<times> u32 \<times> u32 \<times> u32 \<times> bool \<times> bool \<times> bool \<times> meta_data \<Rightarrow> search_filter" where
  "sf_untuple t = (case t of (type, name, minr, minp, maxr, maxp, priv, p2p, cs, md) \<Rightarrow>
     \<lparr>sf_Name = name, sf_Type = type, sf_MinRating = minr, sf_MaxRating = maxr, sf_MinPlayers = minp,
      sf_MaxPlayers = maxp, sf_FindPrivate = priv, sf_FindP2p = p2p, sf_FindClientServer = cs,
      sf_CustomMatchmakingMd = md\<rparr>)"

abbreviation "put_bm \<equiv> seq_put write_bool write_meta"
abbreviation "put_b2m \<equiv> seq_put write_bool put_bm"
abbreviation "put_b3m \<equiv> seq_put write_bool put_b2m"
abbreviation "put_u1 \<equiv> seq_put write32 put_b3m"
abbreviation "put_u2 \<equiv> seq_put write32 put_u1"
abbreviation "put_u3 \<equiv> seq_put write32 put_u2"
abbreviation "put_u4 \<equiv> seq_put write32 put_u3"
abbreviation "put_su4 \<equiv> seq_put write_string put_u4"
abbreviation "get_bm \<equiv> seq_get read_bool (read_meta [])"
abbreviation "get_b2m \<equiv> seq_get read_bool get_bm"
abbreviation "get_b3m \<equiv> seq_get read_bool get_b2m"
abbreviation "get_u1 \<equiv> seq_get read32 get_b3m"
abbreviation "get_u2 \<equiv> seq_get read32 get_u1"
abbreviation "get_u3 \<equiv> seq_get read32 get_u2"
abbreviation "get_u4 \<equiv> seq_get read32 get_u3"
abbreviation "get_su4 \<equiv> seq_get read_string get_u4"

definition write_sf :: "search_filter \<Rightarrow> bin_serializer \<Rightarrow> (bool \<times> bin_serializer) res" where
  "write_sf f s = seq_put write_string put_su4 (sf_tuple f) s"

definition read_sf :: "bin_serializer \<Rightarrow> (search_filter option \<times> bin_serializer) res" where
  "read_sf s = rmap sf_untuple (seq_get read_string get_su4 s)"

section \<open>Contracts\<close>

definition msd_bytes :: "master_session_data \<Rightarrow> byte list" where
  "msd_bytes d = [if m_IsP2p d then 1 else 0, if m_UsedMatchmaker d then 1 else 0,
     if m_CanJoinAfterStart d then 1 else 0, if m_IsPrivate d then 1 else 0] @
     rev (le32 (m_Rating d)) @ rev (le32 (m_MaxClients d)) @
     m_Name d @ [0] @ m_Type d @ [0] @ m_Password d @ [0]"

definition msd_ok :: "master_session_data \<Rightarrow> bool" where
  "msd_ok d \<longleftrightarrow> string_ok (m_Name d) \<and> string_ok (m_Type d) \<and> string_ok (m_Password d) \<and> m_MetaData d = []"

definition sf_bytes :: "search_filter \<Rightarrow> byte list" where
  "sf_bytes f = sf_Type f @ [0] @ sf_Name f @ [0] @ rev (le32 (sf_MinRating f)) @ rev (le32 (sf_MinPlayers f)) @
     rev (le32 (sf_MaxRating f)) @ rev (le32 (sf_MaxPlayers f)) @
     [if sf_FindPrivate f then 1 else 0, if sf_FindP2p f then 1 else 0, if sf_FindClientServer f then 1 else 0] @
     meta_bytes (sf_CustomMatchmakingMd f)"

definition sf_ok :: "search_filter \<Rightarrow> bool" where
  "sf_ok f \<longleftrightarrow> string_ok (sf_Type f) \<and> string_ok (sf_Name f) \<and> meta_ok (sf_CustomMatchmakingMd f)"

text \<open>A codec on tuples is one on a type that is converted to and from tuples.\<close>

lemma codec_map:
  assumes c: "codec p g e v" and "\<And>x s. put x s = p (to x) s" and "\<And>s. get s = rmap fr (g s)"
    and "\<And>x. ok x \<Longrightarrow> v (to x) \<and> fr (to x) = x" and "\<And>x. enc x = e (to x)"
  shows "codec put get enc ok"
proof
  fix s x assume "bs_inv s" "m_Owns s" "ok x" "length (content s) + length (enc x) \<le> max_stream"
  then show "\<exists>s'. put x s = Inr (True, s') \<and> appended s (enc x) s'"
    using codec.put_ok [OF c, of s "to x"] assms by simp
next
  fix s x rest assume "bs_inv s" "ok x" "unread s = enc x @ rest"
  then show "get s = Inr (Some x, advance (length (enc x)) s)"
    using codec.get_ok [OF c, of s "to x" rest] assms by (simp add: rmap_def)
qed

interpretation msd_codec: codec write_msd read_msd msd_bytes msd_ok
  by (rule codec_map [where to = msd_tuple and fr = msd_untuple, OF codec_seq [OF bool_codec.codec_axioms
      codec_seq [OF bool_codec.codec_axioms codec_seq [OF bool_codec.codec_axioms codec_seq [OF bool_codec.codec_axioms
      codec_seq [OF u32_codec.codec_axioms codec_seq [OF u32_codec.codec_axioms codec_seq [OF string_codec.codec_axioms
      codec_seq [OF string_codec.codec_axioms string_codec.codec_axioms]]]]]]]]])
     (simp_all add: write_msd_def read_msd_def msd_tuple_def msd_untuple_def msd_ok_def msd_bytes_def)

interpretation sf_codec: codec write_sf read_sf sf_bytes sf_ok
  by (rule codec_map [where to = sf_tuple and fr = sf_untuple, OF codec_seq [OF string_codec.codec_axioms
      codec_seq [OF string_codec.codec_axioms codec_seq [OF u32_codec.codec_axioms codec_seq [OF u32_codec.codec_axioms
      codec_seq [OF u32_codec.codec_axioms codec_seq [OF u32_codec.codec_axioms codec_seq [OF bool_codec.codec_axioms
      codec_seq [OF bool_codec.codec_axioms codec_seq [OF bool_codec.codec_axioms meta_codec.codec_axioms]]]]]]]]]])
     (simp_all add: write_sf_def read_sf_def sf_tuple_def sf_untuple_def sf_ok_def sf_bytes_def)

text \<open>The comparison is an order on numbers.\<close>

lemma float_le_order:
  "float_le x y \<Longrightarrow> float_le y z \<Longrightarrow> float_le x z" "\<not> is_nan x \<Longrightarrow> float_le x x"
  "\<not> is_nan x \<Longrightarrow> \<not> is_nan y \<Longrightarrow> float_le x y \<or> float_le y x"
  by (auto simp: float_le_def)

end
