(* ===== verification/Win_Socket.thy ===== *)
theory Win_Socket
  imports Endpoint
begin

text \<open>
  \<open>Socket.h\<close> and the \<open>BSDSocket\<close> part of \<open>Socket.cpp\<close> (the configuration of \<open>Config.h\<close> does not
  compile \<open>SDLSocket\<close>), and the reference counted start of the socket library in \<open>Platform.cpp\<close>.

  The calls into the operating system are parameters: \<open>os_socket\<close> creates a socket (an error code
  or a handle), \<open>os_setopt\<close> sets an option (an error code or nothing), \<open>os_getopt\<close> reads it back,
  \<open>os_addrs\<close> is \<open>getaddrinfo\<close> for a port, \<open>os_bind\<close> tells whether binding to an address succeeds,
  \<open>os_sendto\<close> and \<open>os_recvfrom\<close> transfer a datagram. The \<open>i32* err\<close> of a method is \<open>None\<close> when the
  caller passes null and otherwise the value it points to.
\<close>

datatype IPProto = Ipv4 | Ipv6

datatype ESendResult = Send_Succes | Send_Error | Send_SocketClosed

datatype ERecvResult = Recv_Succes | Recv_NoData | Recv_Error | Recv_SocketClosed

record socket_options =
  m_ReuseAddr :: bool
  m_DontFragment :: bool

definition SocketOptions_init :: socket_options where
  "SocketOptions_init = \<lparr>m_ReuseAddr = False, m_DontFragment = True\<rparr>"

definition INVALID_SOCKET :: u32 where "INVALID_SOCKET = - 1"

record bsd_socket =
  m_Open :: bool
  m_Bound :: bool
  m_IpProto :: IPProto
  m_Socket :: u32

definition BSDSocket_init :: bsd_socket where
  "BSDSocket_init = \<lparr>m_Open = False, m_Bound = False, m_IpProto = Ipv4, m_Socket = INVALID_SOCKET\<rparr>"

text \<open>\<open>if ( err ) *err = v\<close>.\<close>

definition set_err :: "int option \<Rightarrow> int \<Rightarrow> int option" where
  "set_err err v = (case err of None \<Rightarrow> None | Some _ \<Rightarrow> Some v)"

definition BSD_SOCK_NO_OPTION_MATCH :: int where "BSD_SOCK_NO_OPTION_MATCH = - 9999"

text \<open>\<open>setOption\<close>. The last error branch tests \<open>*err\<close> where the others test \<open>err\<close>.\<close>

definition setOption ::
  "(u32 \<Rightarrow> int \<Rightarrow> int \<Rightarrow> bool \<Rightarrow> int option) \<Rightarrow> (u32 \<Rightarrow> int \<Rightarrow> int \<Rightarrow> int + u32) \<Rightarrow>
   u32 \<Rightarrow> int \<Rightarrow> int \<Rightarrow> bool \<Rightarrow> int option \<Rightarrow> (bool \<times> int option) res" where
  "setOption os_setopt os_getopt sock level opt on err =
     (if sock = INVALID_SOCKET then Inr (False, err)
      else case os_setopt sock level opt on of
             Some e \<Rightarrow> Inr (False, set_err err e)
           | None \<Rightarrow>
               (case os_getopt sock level opt of
                  Inl e \<Rightarrow> Inr (False, set_err err e)
                | Inr bOptionOut \<Rightarrow>
                    if (if on then 1 else 0) \<noteq> bOptionOut
                    then (case err of
                            None \<Rightarrow> Inl NullDeref
                          | Some v \<Rightarrow> Inr (False, if v \<noteq> 0 then Some BSD_SOCK_NO_OPTION_MATCH else Some v))
                    else Inr (True, err)))"

definition SOL_SOCKET :: int where "SOL_SOCKET = 0xFFFF"
definition SO_REUSEADDR :: int where "SO_REUSEADDR = 4"
definition IPPROTO_IP :: int where "IPPROTO_IP = 0"
definition IP_DONTFRAGMENT :: int where "IP_DONTFRAGMENT = 14"

definition bsd_open ::
  "(IPProto \<Rightarrow> int + u32) \<Rightarrow> (u32 \<Rightarrow> int \<Rightarrow> int \<Rightarrow> bool \<Rightarrow> int option) \<Rightarrow> (u32 \<Rightarrow> int \<Rightarrow> int \<Rightarrow> int + u32) \<Rightarrow>
   IPProto \<Rightarrow> socket_options \<Rightarrow> int option \<Rightarrow> bsd_socket \<Rightarrow> (bool \<times> int option \<times> bsd_socket) res" where
  "bsd_open os_socket os_setopt os_getopt ipv opts err0 s =
     (let err = set_err err0 0
      in if m_Open s \<and> m_Socket s \<noteq> INVALID_SOCKET then Inr (True, err, s)
         else let s1 = s\<lparr>m_Open := False, m_IpProto := ipv\<rparr>
              in case os_socket ipv of
                   Inl e \<Rightarrow> Inr (False, set_err err e, s1\<lparr>m_Socket := INVALID_SOCKET\<rparr>)
                 | Inr h \<Rightarrow>
                     let s2 = s1\<lparr>m_Socket := h\<rparr>
                     in rbind (setOption os_setopt os_getopt h SOL_SOCKET SO_REUSEADDR (m_ReuseAddr opts) err) (\<lambda>(ok1, err1).
                        if \<not> ok1 then Inr (False, err1, s2)
                        else rbind (setOption os_setopt os_getopt h IPPROTO_IP IP_DONTFRAGMENT (m_DontFragment opts) err1) (\<lambda>(ok2, err2).
                        if \<not> ok2 then Inr (False, err2, s2)
                        else Inr (True, err2, s2\<lparr>m_Open := True\<rparr>))))"

text \<open>The first address that can be bound; when none can, the error of the last attempt is reported.\<close>

fun bind_first :: "(u32 \<Rightarrow> byte list \<Rightarrow> int option) \<Rightarrow> u32 \<Rightarrow> byte list list \<Rightarrow> int \<Rightarrow> int option" where
  "bind_first os_bind h [] lastErr = Some lastErr"
| "bind_first os_bind h (a # as) lastErr = (case os_bind h a of None \<Rightarrow> None | Some e \<Rightarrow> bind_first os_bind h as e)"

definition bsd_bind ::
  "(IPProto \<Rightarrow> cstring \<Rightarrow> int + byte list list) \<Rightarrow> (u32 \<Rightarrow> byte list \<Rightarrow> int option) \<Rightarrow>
   u16 \<Rightarrow> int option \<Rightarrow> bsd_socket \<Rightarrow> (bool \<times> int option \<times> bsd_socket) res" where
  "bsd_bind os_addrs os_bind port err0 s =
     (let err = set_err err0 0
      in if m_Socket s = INVALID_SOCKET then Inr (False, err, s)
         else if m_Bound s then Inr (True, err, s)
         else rbind (formatPrint 32 (dec (unat port))) (\<lambda>portBuff.
              case os_addrs (m_IpProto s) portBuff of
                Inl e \<Rightarrow> Inr (False, set_err err e, s)
              | Inr infos \<Rightarrow>
                  (case bind_first os_bind (m_Socket s) infos 0 of
                     None \<Rightarrow> Inr (True, err, s\<lparr>m_Bound := True\<rparr>)
                   | Some e \<Rightarrow> Inr (False, set_err err e, s))))"

text \<open>\<open>close\<close>, with the handle that is handed to \<open>closesocket\<close>.\<close>

definition bsd_close :: "bsd_socket \<Rightarrow> u32 option \<times> bsd_socket" where
  "bsd_close s =
     (if m_Socket s \<noteq> INVALID_SOCKET then Some (m_Socket s) else None,
      s\<lparr>m_Socket := INVALID_SOCKET, m_Open := False, m_Bound := False\<rparr>)"

definition bsd_less :: "bsd_socket \<Rightarrow> bsd_socket \<Rightarrow> bool" where
  "bsd_less a b \<longleftrightarrow> m_Socket a < m_Socket b"

definition bsd_equal :: "bsd_socket \<Rightarrow> bsd_socket \<Rightarrow> bool" where
  "bsd_equal a b \<longleftrightarrow> m_Socket a = m_Socket b"

definition bsd_send ::
  "(u32 \<Rightarrow> byte list \<Rightarrow> byte list \<Rightarrow> int option) \<Rightarrow> endpoint \<Rightarrow> byte list \<Rightarrow> int option \<Rightarrow> bsd_socket \<Rightarrow> ESendResult \<times> int option" where
  "bsd_send os_sendto ep data err0 s =
     (let err = set_err err0 0
      in if m_Socket s = INVALID_SOCKET then (Send_SocketClosed, err)
         else case os_sendto (m_Socket s) data (take getLowLevelAddrSize ep) of
                Some e \<Rightarrow> (Send_Error, set_err err e)
              | None \<Rightarrow> (Send_Succes, err))"

text \<open>\<open>recv\<close> into a buffer of \<open>rawSize\<close> bytes: the datagram and the address of the sender. The system
  does not deliver more than the buffer holds.\<close>

definition bsd_recv ::
  "(u32 \<Rightarrow> nat \<Rightarrow> int + (byte list \<times> endpoint)) \<Rightarrow> nat \<Rightarrow> int option \<Rightarrow> bsd_socket \<Rightarrow>
   ERecvResult \<times> byte list \<times> endpoint \<times> int option" where
  "bsd_recv os_recvfrom rawSize err0 s =
     (let err = set_err err0 0
      in if m_Socket s = INVALID_SOCKET then (Recv_SocketClosed, [], createEmpty, err)
         else case os_recvfrom (m_Socket s) rawSize of
                Inl e \<Rightarrow> (Recv_Error, [], createEmpty, set_err err e)
              | Inr (d, from) \<Rightarrow> (Recv_Succes, d, from, err))"

section \<open>Starting the socket library\<close>

text \<open>\<open>Platform::initialize\<close> and \<open>shutdown\<close>: \<open>m_NumInitialized\<close> is a \<open>u32\<close>; \<open>startup\<close> is the outcome
  of \<open>WSAStartup\<close> with the version it reports, \<open>(u32)-1\<close> stands for \<open>return -1\<close>.\<close>

definition initialize :: "u32 + u16 \<Rightarrow> u32 \<Rightarrow> u32 \<times> u32" where
  "initialize startup n =
     (if n \<noteq> 0 then (0, n + 1)
      else case startup of
             Inl err \<Rightarrow> (err, n + 1)
           | Inr ver \<Rightarrow> if ver AND 0xFF \<noteq> 2 \<or> drop_bit 8 ver \<noteq> 2 then (- 1, n + 1) else (0, n + 1))"

text \<open>The answer says whether \<open>WSACleanup\<close> was called.\<close>

definition shutdown :: "u32 \<Rightarrow> bool \<times> u32" where
  "shutdown n = (if n = 0 then (False, n) else if n - 1 > 0 then (False, n - 1) else (True, n - 1))"

definition MM_NO_IMPLEMENTATION_ERR :: int where "MM_NO_IMPLEMENTATION_ERR = - 9999"

text \<open>\<open>ISocket::create\<close> without arguments.\<close>

definition socket_new :: "u32 + u16 \<Rightarrow> u32 \<Rightarrow> bsd_socket option \<times> u32" where
  "socket_new startup n = (case initialize startup n of (r, n1) \<Rightarrow> (if r = 0 then Some BSDSocket_init else None, n1))"

text \<open>\<open>ISocket::create\<close> with a port. The counter of the library is the second component of the state;
  a socket that is given up runs \<open>~ISocket\<close>, which calls \<open>shutdown\<close> and does not close the handle.\<close>

definition socket_create ::
  "u32 + u16 \<Rightarrow> (IPProto \<Rightarrow> int + u32) \<Rightarrow> (u32 \<Rightarrow> int \<Rightarrow> int \<Rightarrow> bool \<Rightarrow> int option) \<Rightarrow> (u32 \<Rightarrow> int \<Rightarrow> int \<Rightarrow> int + u32) \<Rightarrow>
   (IPProto \<Rightarrow> cstring \<Rightarrow> int + byte list list) \<Rightarrow> (u32 \<Rightarrow> byte list \<Rightarrow> int option) \<Rightarrow>
   u16 \<Rightarrow> int option \<Rightarrow> IPProto \<Rightarrow> socket_options \<Rightarrow> u32 \<Rightarrow> (bsd_socket option \<times> int option \<times> u32) res" where
  "socket_create startup os_socket os_setopt os_getopt os_addrs os_bind port err proto opts n =
     (case socket_new startup n of
        (None, n1) \<Rightarrow> Inr (None, set_err err MM_NO_IMPLEMENTATION_ERR, n1)
      | (Some s, n1) \<Rightarrow>
          rbind (bsd_open os_socket os_setopt os_getopt proto opts err s) (\<lambda>(ok1, err1, s1).
          if \<not> ok1 then Inr (None, err1, snd (shutdown n1))
          else rbind (bsd_bind os_addrs os_bind port err1 s1) (\<lambda>(ok2, err2, s2).
          if \<not> ok2 then Inr (None, err2, snd (shutdown n1))
          else Inr (Some s2, set_err err2 0, n1))))"

section \<open>Lemmas\<close>

lemma set_err_None [simp]: "set_err None v = None"
  by (simp add: set_err_def)

lemma set_err_Some [simp]: "set_err (Some w) v = Some v"
  by (simp add: set_err_def)

lemma set_err_eq_None [simp]: "set_err err v = None \<longleftrightarrow> err = None"
  by (simp add: set_err_def split: option.split)

text \<open>A socket is bound only while it has a handle.\<close>

definition socket_ok :: "bsd_socket \<Rightarrow> bool" where
  "socket_ok s \<longleftrightarrow> (m_Open s \<or> m_Bound s \<longrightarrow> m_Socket s \<noteq> INVALID_SOCKET)"

lemma socket_ok_init: "socket_ok BSDSocket_init"
  by (simp add: socket_ok_def BSDSocket_init_def)

lemma socket_ok_close: "socket_ok (snd (bsd_close s))"
  by (simp add: socket_ok_def bsd_close_def)

lemma length_dec: "n < 10 ^ Suc k \<Longrightarrow> length (dec n) \<le> Suc k"
proof (induction k arbitrary: n)
  case 0
  then show ?case by (subst dec.simps) simp
next
  case (Suc k)
  then have "n div 10 < 10 ^ Suc k" by auto
  with Suc.IH [OF this] show ?case by (subst dec.simps) simp
qed

lemma formatPrint_port: "formatPrint 32 (dec (unat (port :: u16))) = Inr (dec (unat port))"
proof -
  have "unat port < 2 ^ 16" using unsigned_less [of port] by simp
  then have "unat port < 10 ^ Suc 4" by simp
  from length_dec [OF this] show ?thesis by (simp add: formatPrint_def)
qed

lemma bsd_bind_eq:
  "bsd_bind os_addrs os_bind port err s =
     Inr (if m_Socket s = INVALID_SOCKET then (False, set_err err 0, s)
          else if m_Bound s then (True, set_err err 0, s)
          else case os_addrs (m_IpProto s) (dec (unat port)) of
                 Inl e \<Rightarrow> (False, set_err err e, s)
               | Inr infos \<Rightarrow> (case bind_first os_bind (m_Socket s) infos 0 of
                                None \<Rightarrow> (True, set_err err 0, s\<lparr>m_Bound := True\<rparr>)
                              | Some e \<Rightarrow> (False, set_err err e, s)))"
  by (cases err) (simp_all add: bsd_bind_def Let_def formatPrint_port split: sum.split option.split)

lemma socket_ok_bind: "bsd_bind os_addrs os_bind port err s = Inr (ok, err', s') \<Longrightarrow> socket_ok s \<Longrightarrow> socket_ok s'"
  unfolding bsd_bind_eq by (auto simp: socket_ok_def split: if_splits sum.splits option.splits)

lemma bsd_bind_bound: "bsd_bind os_addrs os_bind port err s = Inr (True, err', s') \<Longrightarrow> m_Bound s' \<and> m_Socket s' = m_Socket s"
  unfolding bsd_bind_eq by (auto split: if_splits sum.splits option.splits)

lemma bsd_bind_open: "bsd_bind os_addrs os_bind port err s = Inr (ok, err', s') \<Longrightarrow> m_Open s' = m_Open s"
  unfolding bsd_bind_eq by (auto split: if_splits sum.splits option.splits)

lemma bsd_bind_returns: "\<exists>ok e' s'. bsd_bind os_addrs os_bind port (Some e) s = Inr (ok, Some e', s')"
  unfolding bsd_bind_eq by (auto split: sum.split option.split)

lemma bsd_open_open:
  assumes "bsd_open os_socket os_setopt os_getopt ipv opts err s = Inr (True, err', s')"
    and "\<And>p. os_socket p \<noteq> Inr INVALID_SOCKET"
  shows "m_Open s' \<and> m_Socket s' \<noteq> INVALID_SOCKET"
  using assms by (auto simp: bsd_open_def Let_def rbind_eq_Inr split: if_splits sum.splits)

lemma setOption_err: "setOption os_setopt os_getopt h l opt on err = Inr (ok, err') \<Longrightarrow> err' = None \<longleftrightarrow> err = None"
  by (auto simp: setOption_def split: if_splits sum.splits option.splits)

lemma setOption_Some: "\<exists>ok e'. setOption os_setopt os_getopt h l opt on (Some e) = Inr (ok, Some e')"
  by (auto simp: setOption_def split: sum.split option.split)

text \<open>With an error pointer \<open>open\<close> always returns.\<close>

lemma bsd_open_returns: "\<exists>ok e' s'. bsd_open os_socket os_setopt os_getopt ipv opts (Some e) s = Inr (ok, Some e', s')"
proof (cases "os_socket ipv")
  case (Inl x)
  then show ?thesis by (auto simp: bsd_open_def Let_def)
next
  case (Inr h)
  obtain ok1 e1 where 1: "setOption os_setopt os_getopt h SOL_SOCKET SO_REUSEADDR (m_ReuseAddr opts) (Some 0) = Inr (ok1, Some e1)"
    using setOption_Some by blast
  obtain ok2 e2 where 2: "setOption os_setopt os_getopt h IPPROTO_IP IP_DONTFRAGMENT (m_DontFragment opts) (Some e1) = Inr (ok2, Some e2)"
    using setOption_Some by blast
  show ?thesis using Inr by (auto simp: bsd_open_def Let_def 1 2)
qed

section \<open>Properties\<close>

text \<open>A socket that \<open>ISocket::create\<close> returns is open and bound, has a valid handle, and holds one
  reference to the socket library; when opening or binding fails after a successful start of the
  library, the reference is given back and the library is stopped if it was the only one.\<close>

theorem socket_create_result:
  assumes "fst (initialize startup n) = 0" and "n + 1 \<noteq> 0" and "\<And>p. os_socket p \<noteq> Inr INVALID_SOCKET"
  shows "\<exists>s e n'. socket_create startup os_socket os_setopt os_getopt os_addrs os_bind port (Some e0) proto opts n = Inr (s, Some e, n') \<and>
    (case s of
       Some k \<Rightarrow> m_Open k \<and> m_Bound k \<and> m_Socket k \<noteq> INVALID_SOCKET \<and> e = 0 \<and> n' = n + 1
     | None \<Rightarrow> n' = n \<and> fst (shutdown (n + 1)) = (n = 0))"
proof -
  have i: "initialize startup n = (0, n + 1)"
    using assms(1) by (auto simp: initialize_def split: if_splits sum.splits)
  have sd: "shutdown (n + 1) = (n = 0, n)"
    using assms(2) by (simp add: shutdown_def word_gt_0)
  obtain ok1 e1 s1 where o: "bsd_open os_socket os_setopt os_getopt proto opts (Some e0) BSDSocket_init = Inr (ok1, Some e1, s1)"
    using bsd_open_returns by blast
  show ?thesis
  proof (cases ok1)
    case False
    then show ?thesis by (simp add: socket_create_def socket_new_def i o sd)
  next
    case True
    have op: "m_Open s1" "m_Socket s1 \<noteq> INVALID_SOCKET" using bsd_open_open [OF _ assms(3)] o True by auto
    obtain ok2 e2 s2 where b: "bsd_bind os_addrs os_bind port (Some e1) s1 = Inr (ok2, Some e2, s2)"
      using bsd_bind_returns by blast
    show ?thesis
    proof (cases ok2)
      case False
      then show ?thesis by (simp add: socket_create_def socket_new_def i o b sd True)
    next
      case t: True
      show ?thesis using bsd_bind_bound [of os_addrs os_bind port] bsd_bind_open [OF b] op b t
        by (auto simp: socket_create_def socket_new_def i o True)
    qed
  qed
qed

theorem socket_create_result_witness:
  "\<exists>s e n'. socket_create (Inr 0x202) (\<lambda>p. Inr 5) (\<lambda>h l opt on. None) (\<lambda>h l opt. Inr (if opt = IP_DONTFRAGMENT then 1 else 0))
      (\<lambda>p port. Inr [[2, 0, 31, 144]]) (\<lambda>h a. None) 8080 (Some 7) Ipv4 SocketOptions_init 0 = Inr (s, Some e, n') \<and>
    (case s of
       Some k \<Rightarrow> m_Open k \<and> m_Bound k \<and> m_Socket k \<noteq> INVALID_SOCKET \<and> e = 0 \<and> n' = 0 + 1
     | None \<Rightarrow> n' = 0 \<and> fst (shutdown (0 + 1)) = ((0 :: u32) = 0))"
  by (rule socket_create_result) (simp_all add: initialize_def INVALID_SOCKET_def)

text \<open>A failed start of the socket library is not retried: whatever the library answered, the next
  \<open>initialize\<close> reports success without starting it, because the counter was increased before the
  start was attempted.\<close>

theorem initialize_failure_sticks:
  "snd (initialize startup 0) = 1 \<and> initialize startup' (snd (initialize startup 0)) = (0, 2)"
  by (simp add: initialize_def split: sum.split)

end
