(* ===== verification/Socket_Sets.thy ===== *)
theory Socket_Sets
  imports Win_Socket
begin

text \<open>
  \<open>SocketSetManager.h\<close> and \<open>SocketSetManager.cpp\<close>: the reception threads, each with a set of at most
  \<open>FD_SETSIZE\<close> sockets that it passes to \<open>select\<close>, and the manager that spreads the sockets over
  the threads. What a thread does with a datagram is in the theory of the network; here it is the
  parameter \<open>handle\<close> of \<open>listenOnSockets\<close>. \<open>select\<close> is a parameter too: it gets the handles and the
  timeout and answers with an error code or the handles that have data.
\<close>

definition FD_SETSIZE :: nat where "FD_SETSIZE = 64"

record reception_thread =
  m_HighLevelSockets :: "(u32, bsd_socket) stdmap"
  m_LowLevelSocketArray :: "u32 list"
  m_IsDirty :: bool
  m_Closing :: bool

text \<open>The constructor leaves the two flags uninitialised.\<close>

definition ReceptionThread_init :: "bool \<Rightarrow> bool \<Rightarrow> reception_thread" where
  "ReceptionThread_init dirty closing =
     \<lparr>m_HighLevelSockets = [], m_LowLevelSocketArray = [], m_IsDirty = dirty, m_Closing = closing\<rparr>"

definition rt_addSocket :: "bsd_socket \<Rightarrow> reception_thread \<Rightarrow> bool \<times> reception_thread" where
  "rt_addSocket sock t =
     (if length (m_HighLevelSockets t) \<ge> FD_SETSIZE then (False, t)
      else (True, t\<lparr>m_HighLevelSockets := sm_set (m_Socket sock) sock (m_HighLevelSockets t), m_IsDirty := True\<rparr>))"

text \<open>The argument is a shared pointer, which may be null.\<close>

definition rt_removeSocket :: "bsd_socket option \<Rightarrow> reception_thread \<Rightarrow> reception_thread res" where
  "rt_removeSocket sock t =
     (case sock of
        None \<Rightarrow> Inl NullDeref
      | Some s \<Rightarrow> Inr (t\<lparr>m_IsDirty := True, m_HighLevelSockets := sm_erase (m_Socket s) (m_HighLevelSockets t)\<rparr>))"

text \<open>\<open>stop\<close> before the join, with the handles that are closed.\<close>

definition rt_stop :: "reception_thread \<Rightarrow> u32 list \<times> reception_thread" where
  "rt_stop t = (m_LowLevelSocketArray t, t\<lparr>m_Closing := True\<rparr>)"

text \<open>\<open>FD_SET\<close> adds a handle that is not in the array while there is room.\<close>

definition FD_SET :: "u32 \<Rightarrow> u32 list \<Rightarrow> u32 list" where
  "FD_SET s arr = (if s \<in> set arr \<or> length arr \<ge> FD_SETSIZE then arr else arr @ [s])"

definition rebuildSocketArrayIfNecessary :: "reception_thread \<Rightarrow> reception_thread" where
  "rebuildSocketArrayIfNecessary t =
     t\<lparr>m_LowLevelSocketArray := foldl (\<lambda>arr kvp. FD_SET (m_Socket (snd kvp)) arr) [] (m_HighLevelSockets t),
       m_IsDirty := False\<rparr>"

datatype EListenOnSocketsResult = Listen_Fine | Listen_TimeoutNoData | Listen_NoSocketsInSet | Listen_Error

definition MM_SOCK_SELECT_TIMEOUT :: nat where "MM_SOCK_SELECT_TIMEOUT = 60"

text \<open>The loop over the ready sockets: a handle that was removed meanwhile is skipped.\<close>

fun ready_loop :: "(bsd_socket \<Rightarrow> 'n \<Rightarrow> 'n res option) \<Rightarrow> (u32, bsd_socket) stdmap \<Rightarrow> u32 list \<Rightarrow> 'n \<Rightarrow> 'n res option" where
  "ready_loop handle m [] n = Some (Inr n)"
| "ready_loop handle m (s # ss) n =
     (case sm_find m s of
        None \<Rightarrow> ready_loop handle m ss n
      | Some sock \<Rightarrow>
          (case handle sock n of
             None \<Rightarrow> None
           | Some (Inl e) \<Rightarrow> Some (Inl e)
           | Some (Inr n') \<Rightarrow> ready_loop handle m ss n'))"

definition listenOnSockets ::
  "(u32 list \<Rightarrow> nat \<Rightarrow> int + u32 list) \<Rightarrow> (bsd_socket \<Rightarrow> 'n \<Rightarrow> 'n res option) \<Rightarrow> nat \<Rightarrow> reception_thread \<Rightarrow> 'n \<Rightarrow>
   (EListenOnSocketsResult \<times> int \<times> reception_thread \<times> 'n) res option" where
  "listenOnSockets select handle timeoutMs t0 n =
     (let t = rebuildSocketArrayIfNecessary t0
      in if length (m_HighLevelSockets t) = 0 then Some (Inr (Listen_NoSocketsInSet, 0, t, n))
         else case select (m_LowLevelSocketArray t) (timeoutMs * 1000 * MM_SOCK_SELECT_TIMEOUT) of
                Inl err \<Rightarrow> Some (Inr (Listen_Error, err, t, n))
              | Inr ready \<Rightarrow>
                  let t1 = t\<lparr>m_LowLevelSocketArray := ready\<rparr>
                  in if ready = [] then Some (Inr (Listen_TimeoutNoData, 0, t1, n))
                     else case ready_loop handle (m_HighLevelSockets t1) ready n of
                            None \<Rightarrow> None
                          | Some (Inl e) \<Rightarrow> Some (Inl e)
                          | Some (Inr n') \<Rightarrow> Some (Inr (Listen_Fine, 0, t1, n')))"

text \<open>One round of \<open>receptionThread\<close>; the answer says whether the loop goes on.\<close>

definition reception_round ::
  "(u32 list \<Rightarrow> nat \<Rightarrow> int + u32 list) \<Rightarrow> (bsd_socket \<Rightarrow> 'n \<Rightarrow> 'n res option) \<Rightarrow> reception_thread \<Rightarrow> 'n \<Rightarrow>
   (bool \<times> reception_thread \<times> 'n) res option" where
  "reception_round select handle t n =
     (case listenOnSockets select handle MM_SOCK_SELECT_TIMEOUT t n of
        None \<Rightarrow> None
      | Some (Inl e) \<Rightarrow> Some (Inl e)
      | Some (Inr (r, err, t', n')) \<Rightarrow> Some (Inr (\<not> m_Closing t', t', n')))"

section \<open>The manager\<close>

text \<open>Try all sets; if none takes the socket, start a thread for it. The flags are those of a new
  thread.\<close>

fun ssm_addSocket :: "bool \<Rightarrow> bool \<Rightarrow> bsd_socket \<Rightarrow> reception_thread list \<Rightarrow> reception_thread list" where
  "ssm_addSocket dirty closing sock [] = [snd (rt_addSocket sock (ReceptionThread_init dirty closing))]"
| "ssm_addSocket dirty closing sock (t # ts) =
     (case rt_addSocket sock t of
        (True, t') \<Rightarrow> t' # ts
      | (False, t') \<Rightarrow> t' # ssm_addSocket dirty closing sock ts)"

fun ssm_removeSocket :: "bsd_socket option \<Rightarrow> reception_thread list \<Rightarrow> reception_thread list res" where
  "ssm_removeSocket sock [] = Inr []"
| "ssm_removeSocket sock (t # ts) =
     rbind (rt_removeSocket sock t) (\<lambda>t'. rbind (ssm_removeSocket sock ts) (\<lambda>ts'. Inr (t' # ts')))"

inductive ssm_reach :: "reception_thread list \<Rightarrow> bool" where
  init: "ssm_reach []"
| add: "ssm_reach ts \<Longrightarrow> ssm_reach (ssm_addSocket dirty closing sock ts)"
| remove: "ssm_reach ts \<Longrightarrow> ssm_removeSocket (Some sock) ts = Inr ts' \<Longrightarrow> ssm_reach ts'"

section \<open>The sets of sockets\<close>

definition rt_ok :: "reception_thread \<Rightarrow> bool" where
  "rt_ok t \<longleftrightarrow> sm_ok (m_HighLevelSockets t) \<and> length (m_HighLevelSockets t) \<le> FD_SETSIZE \<and>
     (\<forall>kv \<in> set (m_HighLevelSockets t). fst kv = m_Socket (snd kv))"

definition handles :: "reception_thread \<Rightarrow> u32 set" where
  "handles t = fst ` set (m_HighLevelSockets t)"

text \<open>The abstract view: the set of the handles that some thread watches.\<close>

definition watched :: "reception_thread list \<Rightarrow> u32 set" where
  "watched ts = (\<Union>t \<in> set ts. handles t)"

lemma length_sm_erase_le: "length (sm_erase k m) \<le> length m"
  by (induction k m rule: sm_erase.induct) auto

lemma fst_sm_erase: "sm_ok m \<Longrightarrow> fst ` set (sm_erase k m) = fst ` set m - {k}"
proof -
  assume ok: "sm_ok m"
  have "x \<in> fst ` set (sm_erase k m) \<longleftrightarrow> x \<in> fst ` set m - {k}" for x
    using sm_find_erase [OF ok, of k x] sm_find_None_iff [of "sm_erase k m" x] sm_find_None_iff [of m x]
    by (cases "x = k") auto
  then show ?thesis by blast
qed

lemma rt_init_ok: "rt_ok (ReceptionThread_init d c)" "handles (ReceptionThread_init d c) = {}"
  by (simp_all add: rt_ok_def handles_def ReceptionThread_init_def)

lemma rt_add_ok:
  assumes ok: "rt_ok t" and add: "rt_addSocket sock t = (b, t')"
  shows "rt_ok t'" and "handles t' = (if b then insert (m_Socket sock) (handles t) else handles t)"
proof -
  let ?m = "sm_set (m_Socket sock) sock (m_HighLevelSockets t)"
  consider "\<not> b" "t' = t" | "b" "m_HighLevelSockets t' = ?m" "length (m_HighLevelSockets t) < FD_SETSIZE"
    using add by (auto simp: rt_addSocket_def split: if_splits)
  then have "rt_ok t' \<and> handles t' = (if b then insert (m_Socket sock) (handles t) else handles t)"
  proof cases
    case 2
    have "\<forall>kv \<in> set ?m. fst kv = m_Socket (snd kv)"
      using ok set_sm_set [of "m_Socket sock" sock "m_HighLevelSockets t"] by (auto simp: rt_ok_def)
    with 2 ok length_sm_set [of "m_Socket sock" sock "m_HighLevelSockets t"] have "rt_ok t'"
      by (simp add: rt_ok_def sm_ok_set)
    moreover have "handles t' = insert (m_Socket sock) (handles t)" using 2(2) by (simp add: handles_def fst_sm_set)
    ultimately show ?thesis using 2(1) by simp
  qed (use ok in simp)
  then show "rt_ok t'" and "handles t' = (if b then insert (m_Socket sock) (handles t) else handles t)" by simp_all
qed

lemma rt_remove_ok:
  assumes ok: "rt_ok t" and rem: "rt_removeSocket (Some sock) t = Inr t'"
  shows "rt_ok t'" and "handles t' = handles t - {m_Socket sock}"
proof -
  have t': "m_HighLevelSockets t' = sm_erase (m_Socket sock) (m_HighLevelSockets t)" using rem by (auto simp: rt_removeSocket_def)
  have sm: "sm_ok (m_HighLevelSockets t)" using ok by (simp add: rt_ok_def)
  have "length (m_HighLevelSockets t') \<le> FD_SETSIZE" using ok length_sm_erase_le [of "m_Socket sock" "m_HighLevelSockets t"]
    by (simp add: rt_ok_def t')
  moreover have "\<forall>kv \<in> set (m_HighLevelSockets t'). fst kv = m_Socket (snd kv)"
    using ok set_sm_erase_subset [of "m_Socket sock" "m_HighLevelSockets t"] unfolding rt_ok_def t' by blast
  ultimately show "rt_ok t'" using sm_ok_erase [OF sm] by (simp add: rt_ok_def t')
  show "handles t' = handles t - {m_Socket sock}" using fst_sm_erase [OF sm] by (simp add: handles_def t')
qed

lemma rt_add_new: "rt_addSocket sock (ReceptionThread_init d c) = (True, t') \<Longrightarrow> handles t' = {m_Socket sock}"
  using rt_add_ok [OF rt_init_ok(1)] rt_init_ok(2) by fastforce

lemma rt_add_new_True: "fst (rt_addSocket sock (ReceptionThread_init d c))"
  by (simp add: rt_addSocket_def ReceptionThread_init_def FD_SETSIZE_def)

lemma ssm_add_ok:
  "\<forall>t \<in> set ts. rt_ok t \<Longrightarrow>
   (\<forall>t \<in> set (ssm_addSocket d c sock ts). rt_ok t) \<and> watched (ssm_addSocket d c sock ts) = insert (m_Socket sock) (watched ts)"
proof (induction d c sock ts rule: ssm_addSocket.induct)
  case (1 d c sock)
  obtain t' where t': "rt_addSocket sock (ReceptionThread_init d c) = (True, t')"
    using rt_add_new_True [of sock d c] by (metis prod.collapse)
  then show ?case using rt_add_ok(1) [OF rt_init_ok(1) t'] rt_add_new [OF t'] by (simp add: watched_def)
next
  case (2 d c sock t ts)
  obtain b t' where t': "rt_addSocket sock t = (b, t')" by fastforce
  have "rt_ok t" using 2(2) by simp
  from rt_add_ok [OF this t'] 2(1) [OF t' [symmetric]] 2(2) t' show ?case
    by (cases b) (auto simp: watched_def)
qed

lemma ssm_remove_ok:
  "\<forall>t \<in> set ts. rt_ok t \<Longrightarrow> ssm_removeSocket (Some sock) ts = Inr ts' \<Longrightarrow>
   (\<forall>t \<in> set ts'. rt_ok t) \<and> watched ts' = watched ts - {m_Socket sock}"
proof (induction ts arbitrary: ts')
  case Nil
  then show ?case by (simp add: watched_def)
next
  case (Cons t ts)
  then obtain t1 ts1 where s: "rt_removeSocket (Some sock) t = Inr t1" "ssm_removeSocket (Some sock) ts = Inr ts1" "ts' = t1 # ts1"
    by (auto simp: rbind_eq_Inr)
  have "rt_ok t" using Cons.prems by simp
  from rt_remove_ok [OF this s(1)] Cons.IH [OF _ s(2)] Cons.prems s(3) show ?case
    by (auto simp: watched_def)
qed

lemma ssm_remove_returns: "\<exists>ts'. ssm_removeSocket (Some sock) ts = Inr ts'"
  by (induction ts) (auto simp: rt_removeSocket_def)

lemma ssm_reach_ok: "ssm_reach ts \<Longrightarrow> \<forall>t \<in> set ts. rt_ok t"
  by (induction rule: ssm_reach.induct) (use ssm_add_ok ssm_remove_ok in auto)

lemma fd_fold:
  assumes "length arr + length m \<le> FD_SETSIZE" and "\<forall>kv \<in> set m. fst kv = m_Socket (snd kv)"
    and "distinct (arr @ map fst m)"
  shows "foldl (\<lambda>arr kvp. FD_SET (m_Socket (snd kvp)) arr) arr m = arr @ map fst m"
  using assms
proof (induction m arbitrary: arr)
  case (Cons kv m)
  have "FD_SET (m_Socket (snd kv)) arr = arr @ [fst kv]" using Cons.prems by (auto simp: FD_SET_def)
  with Cons.IH [of "arr @ [fst kv]"] Cons.prems show ?case by simp
qed simp

section \<open>Properties\<close>

text \<open>C29: Whatever sockets were added and removed, no thread watches more than \<open>FD_SETSIZE\<close> sockets,
  adding a socket makes it watched and changes nothing else, removing it removes it from all
  threads, and the array that is rebuilt for \<open>select\<close> holds exactly the handles of the thread.\<close>

theorem socket_sets_watch:
  assumes "ssm_reach ts"
  shows "(\<forall>t \<in> set ts. length (m_HighLevelSockets t) \<le> FD_SETSIZE \<and>
            m_LowLevelSocketArray (rebuildSocketArrayIfNecessary t) = map fst (m_HighLevelSockets t)) \<and>
    watched (ssm_addSocket dirty closing sock ts) = insert (m_Socket sock) (watched ts) \<and>
    (\<exists>ts'. ssm_removeSocket (Some sock) ts = Inr ts' \<and> watched ts' = watched ts - {m_Socket sock})"
proof -
  have ok: "\<forall>t \<in> set ts. rt_ok t" using ssm_reach_ok [OF assms] .
  obtain ts' where ts': "ssm_removeSocket (Some sock) ts = Inr ts'" using ssm_remove_returns by blast
  have "m_LowLevelSocketArray (rebuildSocketArrayIfNecessary t) = map fst (m_HighLevelSockets t)" if "rt_ok t" for t
    using that fd_fold [of "[]" "m_HighLevelSockets t"]
    by (auto simp: rebuildSocketArrayIfNecessary_def rt_ok_def sm_ok_def strict_sorted_iff)
  with ok ssm_add_ok [OF ok] ssm_remove_ok [OF ok ts'] ts' show ?thesis by (auto simp: rt_ok_def)
qed

theorem socket_sets_watch_witness:
  "watched (ssm_addSocket False False (BSDSocket_init\<lparr>m_Socket := 7\<rparr>) []) = insert (m_Socket (BSDSocket_init\<lparr>m_Socket := 7\<rparr>)) {}"
  using socket_sets_watch [OF ssm_reach.init, of False False "BSDSocket_init\<lparr>m_Socket := 7\<rparr>"] by (simp add: watched_def)

text \<open>The constructor of a reception thread leaves \<open>m_Closing\<close> uninitialised: with a value that
  reads as true, the thread that is started for the first socket ends after its first round if no
  datagram has arrived by then, although the socket is in its set.\<close>

theorem reception_thread_uninitialised:
  assumes "\<And>a n. select a n = Inr []"
  shows "\<exists>t. ssm_addSocket dirty True sock [] = [t] \<and> m_Socket sock \<in> handles t \<and>
    (\<exists>t'. reception_round select handle t n = Some (Inr (False, t', n)))"
proof -
  obtain t where t: "rt_addSocket sock (ReceptionThread_init dirty True) = (True, t)"
    using rt_add_new_True [of sock dirty True] by (metis prod.collapse)
  have "m_Closing t" "m_HighLevelSockets t \<noteq> []" using t by (auto simp: rt_addSocket_def ReceptionThread_init_def FD_SETSIZE_def)
  then show ?thesis using t rt_add_new [OF t] assms
    by (simp add: reception_round_def listenOnSockets_def rebuildSocketArrayIfNecessary_def Let_def)
qed

theorem reception_thread_uninitialised_witness:
  "\<exists>t. ssm_addSocket False True (BSDSocket_init\<lparr>m_Socket := 7\<rparr>) [] = [t] \<and> m_Socket (BSDSocket_init\<lparr>m_Socket := 7\<rparr>) \<in> handles t \<and>
    (\<exists>t'. reception_round (\<lambda>a n. Inr []) (\<lambda>s n. Some (Inr n)) t () = Some (Inr (False, t', ())))"
  by (rule reception_thread_uninitialised) simp

end
