(* ===== verification/Network_Events.thy ===== *)
theory Network_Events
  imports Std_Map
begin

text \<open>
  \<open>NetworkEvents.h\<close> and \<open>NetworkEvents.cpp\<close>: the queue of events between the threads of the library
  and the application, and the list of listeners of a session.

  An event carries a value of a type \<open>'e\<close> (the data of the class derived from \<open>IEvent\<close>). Its
  \<open>process()\<close> is a parameter: it changes a world \<open>'w\<close> and may push further events, which it
  returns.
\<close>

section \<open>Listeners\<close>

definition addListener :: "'l \<Rightarrow> 'l list \<Rightarrow> 'l list" where
  "addListener l ls = ls @ [l]"

text \<open>\<open>std::remove\<close> moves the elements that stay to the front and leaves the rest of the vector as it
  is; the vector is not shortened.\<close>

definition std_remove :: "'l \<Rightarrow> 'l list \<Rightarrow> 'l list" where
  "std_remove l ls = (let kept = filter (\<lambda>x. x \<noteq> l) ls in kept @ drop (length kept) ls)"

definition removeListener :: "'l \<Rightarrow> 'l list \<Rightarrow> 'l list" where
  "removeListener l ls = std_remove l ls"

definition forListeners :: "('l \<Rightarrow> 'w \<Rightarrow> 'w) \<Rightarrow> 'l list \<Rightarrow> 'w \<Rightarrow> 'w" where
  "forListeners cb ls w = fold cb ls w"

section \<open>The queue\<close>

record 'e ievent =
  m_Data :: 'e
  m_IsSystemEvent :: bool

text \<open>The constructor of \<open>IEvent\<close> does not use its second argument.\<close>

definition IEvent :: "'e \<Rightarrow> bool \<Rightarrow> 'e ievent" where
  "IEvent e isSystemEvent = \<lparr>m_Data = e, m_IsSystemEvent = False\<rparr>"

record 'e network_events =
  m_Events :: "'e ievent list"
  m_AllowAsyncCallbacks :: bool

definition NetworkEvents_init :: "bool \<Rightarrow> 'e network_events" where
  "NetworkEvents_init allowAsync = \<lparr>m_Events = [], m_AllowAsyncCallbacks = allowAsync\<rparr>"

text \<open>\<open>pushEvent\<close>: process the event in the calling thread or queue it. The events that processing
  pushes are the first component of the answer.\<close>

definition pushEvent ::
  "('e \<Rightarrow> 'w \<Rightarrow> 'e ievent list \<times> 'w) \<Rightarrow> 'e ievent \<Rightarrow> 'e network_events \<Rightarrow> 'w \<Rightarrow> 'e ievent list \<times> 'e network_events \<times> 'w" where
  "pushEvent process event q w =
     (if m_AllowAsyncCallbacks q \<or> m_IsSystemEvent event
      then case process (m_Data event) w of (new, w') \<Rightarrow> (new, q, w')
      else ([], q\<lparr>m_Events := m_Events q @ [event]\<rparr>, w))"

text \<open>\<open>processQueuedEvents\<close> takes events from the front until the queue is empty; events that are
  pushed meanwhile go to the back. The loop ends only if events stop being pushed: \<open>None\<close> is a loop
  that does not end.\<close>

partial_function (option) process_loop ::
  "('e \<Rightarrow> 'w \<Rightarrow> 'e ievent list \<times> 'w) \<Rightarrow> 'e ievent list \<Rightarrow> 'w \<Rightarrow> 'w option" where
  "process_loop process es w =
     (case es of
        [] \<Rightarrow> Some w
      | e # rest \<Rightarrow> (case process (m_Data e) w of (new, w') \<Rightarrow> process_loop process (rest @ new) w'))"

definition processQueuedEvents ::
  "('e \<Rightarrow> 'w \<Rightarrow> 'e ievent list \<times> 'w) \<Rightarrow> 'e network_events \<Rightarrow> 'w \<Rightarrow> ('e network_events \<times> 'w) option" where
  "processQueuedEvents process q w = map_option (\<lambda>w'. (q\<lparr>m_Events := []\<rparr>, w')) (process_loop process (m_Events q) w)"

section \<open>Lemmas\<close>

lemma length_std_remove: "length (std_remove l ls) = length ls"
  using length_filter_le [of "\<lambda>x. x \<noteq> l" ls] by (simp add: std_remove_def Let_def)

lemma process_loop_Nil [simp]: "process_loop process [] w = Some w"
  by (simp add: process_loop.simps)

lemma process_loop_Cons:
  "process_loop process (e # rest) w =
     (case process (m_Data e) w of (new, w') \<Rightarrow> process_loop process (rest @ new) w')"
  by (subst process_loop.simps) simp

text \<open>One round over a queue: every event of the queue is processed once, in order, and the events
  pushed meanwhile are left in the order in which they were pushed.\<close>

fun round_of :: "('e \<Rightarrow> 'w \<Rightarrow> 'e ievent list \<times> 'w) \<Rightarrow> 'e ievent list \<Rightarrow> 'w \<Rightarrow> 'e ievent list \<times> 'w" where
  "round_of process [] w = ([], w)"
| "round_of process (e # es) w =
     (case process (m_Data e) w of (new, w1) \<Rightarrow>
      case round_of process es w1 of (news, w2) \<Rightarrow> (new @ news, w2))"

lemma process_loop_round:
  "process_loop process (es @ ns) w =
     (case round_of process es w of (news, w') \<Rightarrow> process_loop process (ns @ news) w')"
proof (induction es arbitrary: ns w)
  case (Cons e es)
  obtain new w1 where p: "process (m_Data e) w = (new, w1)" by fastforce
  obtain news w2 where r: "round_of process es w1 = (news, w2)" by fastforce
  show ?case using Cons.IH [of "ns @ new" w1] by (simp add: process_loop_Cons p r)
qed simp

text \<open>\<open>depth\<close> bounds the chains of events that push events.\<close>

definition bounded_by :: "('e \<Rightarrow> nat) \<Rightarrow> ('e \<Rightarrow> 'w \<Rightarrow> 'e ievent list \<times> 'w) \<Rightarrow> bool" where
  "bounded_by depth process \<longleftrightarrow>
     (\<forall>e w. \<forall>n \<in> set (fst (process e w)). depth (m_Data n) < depth e)"

lemma round_of_depth:
  assumes "bounded_by depth process" and "\<forall>e \<in> set es. depth (m_Data e) \<le> d" and "round_of process es w = (news, w')"
  shows "\<forall>n \<in> set news. depth (m_Data n) < d"
  using assms(2,3)
proof (induction es arbitrary: w news w')
  case (Cons e es)
  obtain new w1 where p: "process (m_Data e) w = (new, w1)" by fastforce
  obtain news1 w2 where r: "round_of process es w1 = (news1, w2)" by fastforce
  have "\<forall>n \<in> set new. depth (m_Data n) < depth (m_Data e)"
    using assms(1) p unfolding bounded_by_def by (metis fst_conv)
  moreover have "\<forall>n \<in> set news1. depth (m_Data n) < d" using Cons.IH [OF _ r] Cons.prems(1) by simp
  ultimately show ?case using Cons.prems p r by fastforce
qed simp

lemma process_loop_returns:
  assumes "bounded_by depth process" and "\<forall>e \<in> set es. depth (m_Data e) < d"
  shows "\<exists>w'. process_loop process es w = Some w'"
  using assms(2)
proof (induction d arbitrary: es w)
  case 0
  then show ?case by (cases es) auto
next
  case (Suc d)
  obtain news w1 where r: "round_of process es w = (news, w1)" by fastforce
  have "\<forall>n \<in> set news. depth (m_Data n) < d" using round_of_depth [OF assms(1) _ r] Suc.prems by (simp add: less_Suc_eq_le)
  from Suc.IH [OF this, of w1] show ?case using process_loop_round [of process es "[]" w] r by simp
qed

section \<open>Properties\<close>

text \<open>C33: If every event only pushes events of smaller depth (say, user callbacks do not answer an event
  with the same kind of event), \<open>processQueuedEvents\<close> returns with an empty queue, having processed
  the queue in rounds: first the queued events in order, then the events these pushed, in the order
  they were pushed.\<close>

theorem processQueuedEvents_returns:
  assumes "bounded_by depth process"
  shows "\<exists>news w1 w'. round_of process (m_Events q) w = (news, w1) \<and> process_loop process news w1 = Some w' \<and>
    processQueuedEvents process q w = Some (q\<lparr>m_Events := []\<rparr>, w')"
proof -
  obtain news w1 where r: "round_of process (m_Events q) w = (news, w1)" by fastforce
  have "\<forall>e \<in> set (m_Events q). depth (m_Data e) < Suc (Max (insert 0 ((\<lambda>e. depth (m_Data e)) ` set (m_Events q))))"
    by (simp add: less_Suc_eq_le Max_ge_iff)
  from process_loop_returns [OF assms this, of w] obtain w' where "process_loop process (m_Events q) w = Some w'" by blast
  moreover have "process_loop process (m_Events q) w = process_loop process news w1"
    using process_loop_round [of process "m_Events q" "[]" w] r by simp
  ultimately show ?thesis using r by (auto simp: processQueuedEvents_def)
qed

theorem processQueuedEvents_returns_witness:
  "\<exists>w'. processQueuedEvents (\<lambda>e w. (if e = 0 then [] else [IEvent (e - 1) False], w @ [e]))
      \<lparr>m_Events = [IEvent (2 :: nat) True, IEvent 1 False], m_AllowAsyncCallbacks = False\<rparr> [] =
        Some (\<lparr>m_Events = [], m_AllowAsyncCallbacks = False\<rparr>, w')"
proof -
  have "bounded_by id (\<lambda>e w. (if e = 0 then [] else [IEvent (e - 1) False], w @ [e]))"
    by (auto simp: bounded_by_def IEvent_def)
  from processQueuedEvents_returns [OF this, of "\<lparr>m_Events = [IEvent 2 True, IEvent 1 False], m_AllowAsyncCallbacks = False\<rparr>" "[]"]
  show ?thesis by auto
qed

text \<open>An event that is created as a system event is not processed at once: \<open>IEvent\<close> drops the flag,
  so without asynchronous callbacks it waits in the queue like any other event.\<close>

theorem system_event_is_queued:
  "pushEvent process (IEvent e True) (NetworkEvents_init False) w =
     ([], (NetworkEvents_init False)\<lparr>m_Events := [IEvent e True]\<rparr>, w)"
  by (simp add: pushEvent_def IEvent_def NetworkEvents_init_def)

text \<open>Removing a listener never shortens the list of listeners, and the listener that was added last
  stays in the list whoever is removed, so it keeps receiving events.\<close>

theorem removeListener_keeps_last:
  "length (removeListener l (addListener x ls)) = length (addListener x ls) \<and>
   last (removeListener l (addListener x ls)) = x"
proof -
  let ?ls = "addListener x ls"
  let ?kept = "filter (\<lambda>y. y \<noteq> l) ?ls"
  have "last (?kept @ drop (length ?kept) ?ls) = x"
  proof (cases "x = l")
    case True
    then have "length ?kept < length ?ls" by (simp add: addListener_def le_imp_less_Suc)
    then show ?thesis by (simp add: addListener_def)
  next
    case False
    then show ?thesis by (cases "length ?kept < length ?ls") (auto simp: addListener_def)
  qed
  then show ?thesis by (simp add: removeListener_def length_std_remove) (simp add: std_remove_def Let_def)
qed

end
