(* ===== verification/Serializer_Safety.thy ===== *)
theory Serializer_Safety
  imports Endpoint
begin

text \<open>
  Reading untrusted bytes. Whatever a serializer holds, every reading operation returns without touching
  memory outside of the buffer, moves only the read position and keeps it between its old value and the
  write position. The contract is the locale \<open>safe_reader\<close>; all readers of \<open>BinSerializer.cpp\<close> and of
  addresses are instances of it.
\<close>

definition moved :: "bin_serializer \<Rightarrow> bin_serializer \<Rightarrow> bool" where
  "moved s s' \<longleftrightarrow> bs_inv s' \<and> s' = s\<lparr>m_ReadPos := m_ReadPos s'\<rparr> \<and> m_ReadPos s \<le> m_ReadPos s'"

lemma moved_self: "bs_inv s \<Longrightarrow> moved s s"
  by (simp add: moved_def)

lemma moved_inv: "moved s s' \<Longrightarrow> bs_inv s'"
  by (simp add: moved_def)

lemma moved_trans:
  assumes "moved s s1" and "moved s1 s2"
  shows "moved s s2"
proof -
  have e: "s1 = s\<lparr>m_ReadPos := m_ReadPos s1\<rparr>" "s2 = s1\<lparr>m_ReadPos := m_ReadPos s2\<rparr>" using assms by (simp_all add: moved_def)
  have "s2 = s\<lparr>m_ReadPos := m_ReadPos s2\<rparr>" by (subst e(2), subst e(1)) simp
  with assms show ?thesis by (auto simp: moved_def)
qed

lemma moved_content: "moved s s' \<Longrightarrow> content s' = content s"
  unfolding moved_def by (metis content_def bin_serializer.select_convs(1,2) bin_serializer.surjective bin_serializer.update_convs(3))

lemma moved_advance:
  assumes inv: "bs_inv s" and n: "unat (m_ReadPos s) + n \<le> unat (m_WritePos s)"
  shows "moved s (advance n s)"
proof -
  have len: "length (take n (unread s)) = n" using n by (simp add: unread_def length_content [OF inv])
  have i: "bs_inv (advance n s)" using advance_inv(1) [OF inv, of "take n (unread s)" "drop n (unread s)"] len by simp
  have "unat (m_WritePos s) < 2 ^ 32" using unsigned_less [of "m_WritePos s"] by simp
  then have "unat (m_ReadPos s + of_nat n) = unat (m_ReadPos s) + n" using n by (intro unat_add_of_nat) simp
  with i show ?thesis by (simp add: moved_def advance_def word_le_nat_alt)
qed

locale safe_reader =
  fixes get :: "bin_serializer \<Rightarrow> ('a option \<times> bin_serializer) res"
  assumes safe: "bs_inv s \<Longrightarrow> \<exists>v s'. get s = Inr (v, s') \<and> moved s s'"
begin

lemma mapped:
  assumes "bs_inv s"
  shows "\<exists>v s'. rmap f (get s) = Inr (v, s') \<and> moved s s'"
  using safe [OF assms] by (auto simp: rmap_def)

text \<open>A second reader after this one.\<close>

lemma andThen:
  assumes "bs_inv s" and "\<And>x s1. bs_inv s1 \<Longrightarrow> \<exists>v s'. k x s1 = Inr (v, s') \<and> moved s1 s'"
  shows "\<exists>v s'. rbind (get s) (\<lambda>(v, s1). k v s1) = Inr (v, s') \<and> moved s s'"
proof -
  obtain v s1 where g: "get s = Inr (v, s1)" "moved s s1" using safe [OF assms(1)] by blast
  obtain v' s' where "k v s1 = Inr (v', s')" "moved s1 s'" using assms(2) [OF moved_inv [OF g(2)]] by blast
  with g show ?thesis by (auto intro: moved_trans)
qed

end

lemma read_raw_safe: "n \<le> 64 \<Longrightarrow> safe_reader (read_raw n)"
  by unfold_locales (auto simp: read_raw_cases intro: moved_self moved_advance)

lemma safe_mapped: "safe_reader g \<Longrightarrow> safe_reader (\<lambda>s. rmap f (g s))"
  using safe_reader.mapped by unfold_locales blast

interpretation r8: safe_reader read8
  unfolding read8_def [abs_def] by (rule safe_mapped, rule read_raw_safe) simp

interpretation r16: safe_reader read16
  unfolding read16_def [abs_def] by (rule safe_mapped, rule read_raw_safe) simp

interpretation r32: safe_reader read32
  unfolding read32_def [abs_def] by (rule safe_mapped, rule read_raw_safe) simp

interpretation r64: safe_reader read64
  unfolding read64_def [abs_def] by (rule safe_mapped, rule read_raw_safe) simp

interpretation rbool: safe_reader read_bool
  unfolding read_bool_def [abs_def] by (rule safe_mapped, rule r8.safe_reader_axioms)

lemma read_chars_safe: "bs_inv s \<Longrightarrow> \<exists>v s'. read_chars room buff s = Inr (v, s') \<and> moved s s'"
proof (induction room arbitrary: buff s)
  case (Suc room)
  show ?case
  proof (cases "m_ReadPos s \<ge> m_WritePos s")
    case True
    then show ?thesis using Suc.prems by (simp add: moved_self)
  next
    case False
    then have lt: "unat (m_ReadPos s) + 1 \<le> unat (m_WritePos s)" by (simp add: word_le_nat_alt)
    have m: "moved s (s\<lparr>m_ReadPos := m_ReadPos s + 1\<rparr>)" using moved_advance [OF Suc.prems lt] by (simp add: advance_def)
    have "read_raw 1 s = Inr (Some (take 1 (unread s)), advance 1 s)" using read_raw_cases [OF Suc.prems, of 1] lt by simp
    then obtain xs where xs: "mem_load (m_DataPtr s) (unat (m_ReadPos s)) 1 = Inr xs"
      by (auto simp: read_raw_def rbind_eq_Inr split: if_splits)
    show ?thesis
    proof (cases "hd xs \<noteq> 0")
      case True
      from Suc.IH [OF moved_inv [OF m], of "buff @ xs"] obtain v s' where
        r: "read_chars room (buff @ xs) (s\<lparr>m_ReadPos := m_ReadPos s + 1\<rparr>) = Inr (v, s')" "moved (s\<lparr>m_ReadPos := m_ReadPos s + 1\<rparr>) s'" by blast
      then show ?thesis using False xs True moved_trans [OF m r(2)] by (simp add: Let_def)
    next
      case z: False
      then show ?thesis using False xs m by (simp add: Let_def)
    qed
  qed
qed (simp add: moved_self)

interpretation rstring: safe_reader read_string
  unfolding read_string_def [abs_def] by unfold_locales (rule read_chars_safe)

lemma read_pairs_safe: "bs_inv s \<Longrightarrow> \<exists>v s'. read_pairs i mlen b s = Inr (v, s') \<and> moved s s'"
proof (induction i mlen b s rule: read_pairs.induct)
  case (1 i mlen b s)
  show ?case
  proof (cases "ucast i < mlen")
    case False
    then show ?thesis using 1(2) by (simp add: read_pairs.simps [of i] moved_self)
  next
    case True
    obtain k s1 where k: "read_string s = Inr (k, s1)" "moved s s1" using rstring.safe [OF 1(2)] by blast
    obtain v s2 where v: "read_string s1 = Inr (v, s2)" "moved s1 s2" using rstring.safe [OF moved_inv [OF k(2)]] by blast
    note m = moved_trans [OF k(2) v(2)]
    show ?thesis
    proof (cases "k = None \<or> v = None")
      case N: True
      then show ?thesis using True k v m by (cases k) (auto simp: read_pairs.simps [of i])
    next
      case False
      then obtain key val where kv: "k = Some key" "v = Some val" by auto
      from "1.IH" [OF True k(1) refl kv(1) v(1) refl kv(2) moved_inv [OF m]] obtain x s' where
        "read_pairs (i + 1) mlen (snd (sm_insert key val b)) s2 = Inr (x, s')" "moved s2 s'" by blast
      then show ?thesis using True k(1) v(1) kv moved_trans [OF m] by (simp add: read_pairs.simps [of i])
    qed
  qed
qed

interpretation rmeta: safe_reader "read_meta b"
proof
  fix s assume "bs_inv s"
  then show "\<exists>v s'. read_meta b s = Inr (v, s') \<and> moved s s'"
    unfolding read_meta_def by (rule r32.andThen) (auto intro: moved_self read_pairs_safe split: option.split)
qed

interpretation rep: safe_reader ep_read
  unfolding ep_read_raw [abs_def] by (rule read_raw_safe) simp

interpretation raddr: safe_reader read_addr
proof
  fix s assume i: "bs_inv s"
  show "\<exists>v s'. read_addr s = Inr (v, s') \<and> moved s s'"
    unfolding read_addr_def
  proof (rule r8.andThen [OF i])
    fix x s1 assume s1: "bs_inv s1"
    show "\<exists>v s'. (case x of None \<Rightarrow> Inr (None, s1)
      | Some present \<Rightarrow>
          if present \<noteq> 0
          then rbind (ep_read s1) (\<lambda>(w, s2). case w of None \<Rightarrow> Inr (None, s2) | Some e \<Rightarrow> Inr (Some (Some e), s2))
          else Inr (Some None, s1)) = Inr (v, s') \<and> moved s1 s'"
      using s1 rep.safe [OF s1] by (auto intro: moved_self split: option.split)
  qed
qed

section \<open>Properties\<close>

text \<open>C22: Reading is safe for every content. On a serializer whose positions are inside of its buffer, reading a
  number, a string, a table of strings or an address returns (with or without a value) without an access
  outside of the buffer; only the read position changes, it never moves back, and it stays at most the
  write position.\<close>

theorem reads_stay_in_buffer:
  assumes "bs_inv s"
  shows "(\<exists>v s'. read64 s = Inr (v, s') \<and> moved s s') \<and> (\<exists>v s'. read32 s = Inr (v, s') \<and> moved s s') \<and>
    (\<exists>v s'. read16 s = Inr (v, s') \<and> moved s s') \<and> (\<exists>v s'. read_string s = Inr (v, s') \<and> moved s s') \<and>
    (\<exists>v s'. read_meta b s = Inr (v, s') \<and> moved s s') \<and> (\<exists>v s'. read_addr s = Inr (v, s') \<and> moved s s')"
  using r64.safe r32.safe r16.safe rstring.safe rmeta.safe raddr.safe assms by blast

theorem reads_stay_in_buffer_witness: "\<exists>v s'. read_meta [] bs_reset = Inr (v, s') \<and> moved bs_reset s'"
  using reads_stay_in_buffer [OF bs_reset_inv(1), of "[]"] by blast

end
