(* ===== verification/Network_World.thy ===== *)
theory Network_World
  imports Links Session_Data Socket_Sets "HOL-Library.Product_Lexorder"
begin

text \<open>
  The objects of a network and the operations on links and sessions that everything else is built
  from: \<open>LinkManager\<close>, \<open>SessionBase\<close>, the creation and destruction of a \<open>Link\<close>, and the three
  \<open>sendReliable\<close> of \<open>Network.cpp\<close>.

  The world is an explicit store. A link or session is a number; \<open>w_links\<close> holds the link objects
  that are alive, so locking a weak pointer is a lookup that may find nothing, and dereferencing a
  pointer that is null or expired is \<open>Inl NullDeref\<close>. Sessions are never destroyed here: links and
  lists hold shared pointers to them. An operation takes the world and returns it updated.

  Every locked region of the code is one operation; concurrent calls are sequences of operations.
\<close>

section \<open>State\<close>

text \<open>\<open>EDisconnectReason\<close> and the events that the library pushes. Links are given by their number.\<close>

datatype EDisconnectReason = Closed | Kicked | Lost

datatype net_event =
    EventNewConnection nat meta_data "endpoint option"
  | EventDisconnect nat EDisconnectReason endpoint
  | EventNewHost nat "endpoint option"
  | EventRegisterResult nat bool
  | EventJoinResult nat bool

text \<open>\<open>Session\<close>: the host address (none: this node is the host), the link to the matchmaking server
  and the meta data. \<open>MasterSession\<close>: the link of the host, whether someone left, and the list of the
  manager that holds the session.\<close>

datatype session_kind =
    KSession "endpoint option" "nat option" meta_data
  | KMaster "nat option" bool "nat option"

record session =
  s_Id :: u32
  s_Started :: bool
  s_MasterData :: master_session_data
  s_Links :: "nat list"
  s_BufferedPackets :: "bin_serializer list list"
  s_Listeners :: "nat list"
  s_kind :: session_kind

type_synonym sock_addr = "endpoint \<times> u32"

record world =
  w_links :: "(nat, link) stdmap"
  w_nextLink :: nat
  w_sessions :: "(nat, session) stdmap"
  w_nextSession :: nat
  w_NextSessionId :: u32
  w_linkMap :: "(sock_addr, nat) stdmap"
  w_linkArray :: "nat list"
  w_SessionLists :: "nat list list"
  w_recv :: "reception_thread list"
  w_events :: "net_event list"

text \<open>The constructor of \<open>Network\<close> does not initialise the session counter.\<close>

definition Network_init :: "u32 \<Rightarrow> world" where
  "Network_init sid =
     \<lparr>w_links = [], w_nextLink = 0, w_sessions = [], w_nextSession = 0, w_NextSessionId = sid,
      w_linkMap = [], w_linkArray = [], w_SessionLists = [], w_recv = [], w_events = []\<rparr>"

section \<open>Pointers\<close>

definition lock :: "world \<Rightarrow> nat \<Rightarrow> link option" where
  "lock w i = sm_find (w_links w) i"

definition deref :: "nat \<Rightarrow> world \<Rightarrow> link res" where
  "deref i w = (case lock w i of None \<Rightarrow> Inl NullDeref | Some l \<Rightarrow> Inr l)"

definition put_link :: "nat \<Rightarrow> link \<Rightarrow> world \<Rightarrow> world" where
  "put_link i l w = w\<lparr>w_links := sm_set i l (w_links w)\<rparr>"

definition get_session :: "nat \<Rightarrow> world \<Rightarrow> session res" where
  "get_session sid w = (case sm_find (w_sessions w) sid of None \<Rightarrow> Inl NullDeref | Some s \<Rightarrow> Inr s)"

definition put_session :: "nat \<Rightarrow> session \<Rightarrow> world \<Rightarrow> world" where
  "put_session sid s w = w\<lparr>w_sessions := sm_set sid s (w_sessions w)\<rparr>"

text \<open>A method that changes the components of a link.\<close>

definition on_comps :: "nat \<Rightarrow> (link_component components \<Rightarrow> link_component components) \<Rightarrow> world \<Rightarrow> world res" where
  "on_comps i f w = rbind (deref i w) (\<lambda>l. Inr (put_link i (l\<lparr>l_comps := f (l_comps l)\<rparr>) w))"

text \<open>\<open>Link::operator==\<close>: the same address and socket.\<close>

definition link_eq :: "link \<Rightarrow> link \<Rightarrow> bool" where
  "link_eq a b \<longleftrightarrow> ep_eq (l_address a) (l_address b) \<and> l_socket a = l_socket b"

text \<open>\<open>SocketAddrPair::operator<\<close>: by address, then by socket.\<close>

definition sap_less :: "sock_addr \<Rightarrow> sock_addr \<Rightarrow> bool" where
  "sap_less a b = (if ep_eq (fst a) (fst b) then snd a < snd b else ep_less (fst a) (fst b))"

text \<open>\<open>Link::session()\<close> dereferences the session pointer.\<close>

definition link_session :: "nat \<Rightarrow> world \<Rightarrow> nat res" where
  "link_session i w =
     rbind (deref i w) (\<lambda>l. case l_session l of None \<Rightarrow> Inl NullDeref | Some sid \<Rightarrow> Inr sid)"

text \<open>\<open>Link::pushEvent\<close> appends to the queue of \<open>NetworkEvents\<close>.\<close>

definition push_event :: "net_event \<Rightarrow> world \<Rightarrow> world" where
  "push_event e w = w\<lparr>w_events := w_events w @ [e]\<rparr>"

section \<open>SessionBase\<close>

text \<open>The constructor. \<open>m_MasterData\<close> is not initialised; \<open>data\<close> is what it holds afterwards.\<close>

definition SessionBase :: "master_session_data \<Rightarrow> session_kind \<Rightarrow> world \<Rightarrow> nat \<times> world" where
  "SessionBase data kind w =
     (w_nextSession w,
      w\<lparr>w_nextSession := w_nextSession w + 1, w_NextSessionId := w_NextSessionId w + 1,
        w_sessions := sm_set (w_nextSession w)
          \<lparr>s_Id = w_NextSessionId w, s_Started = False, s_MasterData = data, s_Links = [],
           s_BufferedPackets = replicate MM_NUM_CHANNELS [], s_Listeners = [], s_kind = kind\<rparr> (w_sessions w)\<rparr>)"

definition session_start :: "nat \<Rightarrow> world \<Rightarrow> (bool \<times> world) res" where
  "session_start sid w =
     rbind (get_session sid w) (\<lambda>s.
       if \<not> s_Started s then Inr (True, put_session sid (s\<lparr>s_Started := True\<rparr>) w) else Inr (False, w))"

definition bufferMsg :: "bin_serializer list \<Rightarrow> nat \<Rightarrow> nat \<Rightarrow> world \<Rightarrow> world res" where
  "bufferMsg data channel sid w =
     rbind (get_session sid w) (\<lambda>s.
       if channel < length (s_BufferedPackets s)
       then Inr (put_session sid
              (s\<lparr>s_BufferedPackets := (s_BufferedPackets s)[channel := s_BufferedPackets s ! channel @ data]\<rparr>) w)
       else Inl OutOfBounds)"

text \<open>The loop over the channels in \<open>addLink\<close>.\<close>

definition enqueue_buffered :: "bin_serializer list list \<Rightarrow> link_component components \<Rightarrow> link_component components" where
  "enqueue_buffered buffered m = foldl (\<lambda>m ch. link_enqueue ch (buffered ! ch) m) m [0 ..< MM_NUM_CHANNELS]"

definition base_addLink :: "nat \<Rightarrow> nat \<Rightarrow> world \<Rightarrow> world res" where
  "base_addLink i sid w =
     rbind (get_session sid w) (\<lambda>s.
     rbind (deref i w) (\<lambda>l.
       Inr (put_session sid (s\<lparr>s_Links := s_Links s @ [i]\<rparr>)
             (put_link i (l\<lparr>l_comps := enqueue_buffered (s_BufferedPackets s) (l_comps l), l_session := Some sid\<rparr>) w))))"

fun has_link :: "world \<Rightarrow> link \<Rightarrow> nat list \<Rightarrow> bool" where
  "has_link w l [] = False"
| "has_link w l (j # js) =
     (case lock w j of None \<Rightarrow> has_link w l js | Some sl \<Rightarrow> if link_eq sl l then True else has_link w l js)"

definition hasLink :: "link \<Rightarrow> nat \<Rightarrow> world \<Rightarrow> bool res" where
  "hasLink l sid w = rbind (get_session sid w) (\<lambda>s. Inr (has_link w l (s_Links s)))"

definition links_of :: "nat \<Rightarrow> world \<Rightarrow> nat list" where
  "links_of sid w = (case sm_find (w_sessions w) sid of None \<Rightarrow> [] | Some s \<Rightarrow> s_Links s)"

definition set_links :: "nat \<Rightarrow> nat list \<Rightarrow> world \<Rightarrow> world" where
  "set_links sid ls w =
     (case sm_find (w_sessions w) sid of None \<Rightarrow> w | Some s \<Rightarrow> put_session sid (s\<lparr>s_Links := ls\<rparr>) w)"

lemma links_of_set_links: "links_of sid w \<noteq> [] \<Longrightarrow> links_of sid (set_links sid ls w) = ls"
  by (auto simp: links_of_def set_links_def put_session_def split: option.split)

text \<open>\<open>forLink\<close>: expired links are erased on the way, the callback runs on the others except \<open>exclude\<close>.
  The callback works on a state \<open>'s\<close> and the world. If it changes \<open>m_Links\<close>, the iterator of the
  loop, which was already advanced, is invalid when the loop uses it.\<close>

function forLink_from ::
  "nat option \<Rightarrow> (nat \<Rightarrow> 's \<Rightarrow> world \<Rightarrow> ('s \<times> world) res) \<Rightarrow> nat \<Rightarrow> nat \<Rightarrow> 's \<Rightarrow> world \<Rightarrow> ('s \<times> world) res" where
  "forLink_from exclude cb sid k s w =
     (let ls = links_of sid w
      in if k \<ge> length ls then Inr (s, w)
         else case lock w (ls ! k) of
                None \<Rightarrow> forLink_from exclude cb sid k s (set_links sid (take k ls @ drop (Suc k) ls) w)
              | Some sl \<Rightarrow>
                  if Some (ls ! k) = exclude then forLink_from exclude cb sid (Suc k) s w
                  else (case cb (ls ! k) s w of
                          Inl e \<Rightarrow> Inl e
                        | Inr (s1, w1) \<Rightarrow>
                            if links_of sid w1 \<noteq> ls then Inl OutOfBounds
                            else forLink_from exclude cb sid (Suc k) s1 w1))"
  by pat_completeness auto

termination
proof (relation "measure (\<lambda>(exclude, cb, sid, k, s, w). length (links_of sid w) - k)")
  fix exclude :: "nat option" and cb :: "nat \<Rightarrow> 's \<Rightarrow> world \<Rightarrow> ('s \<times> world) res" and sid k :: nat and s :: 's and w ls
  assume a: "ls = links_of sid w" "\<not> k \<ge> length ls"
  then have "links_of sid w \<noteq> []" by auto
  with a show "((exclude, cb, sid, k, s, set_links sid (take k ls @ drop (Suc k) ls) w), exclude, cb, sid, k, s, w)
    \<in> measure (\<lambda>(exclude, cb, sid, k, s, w). length (links_of sid w) - k)"
    by (simp add: links_of_set_links)
qed auto

declare forLink_from.simps [simp del]

definition forLink ::
  "nat option \<Rightarrow> (nat \<Rightarrow> 's \<Rightarrow> world \<Rightarrow> ('s \<times> world) res) \<Rightarrow> nat \<Rightarrow> 's \<Rightarrow> world \<Rightarrow> ('s \<times> world) res" where
  "forLink exclude cb sid s w = rbind (get_session sid w) (\<lambda>_. forLink_from exclude cb sid 0 s w)"

section \<open>Sending\<close>

datatype ESendCallResult = Send_Fine | Send_NotSent | Send_SerializationError | Send_InternalError

text \<open>\<open>sendReliable\<close> for packets: to all links of a session except one, or without a session to one
  link. The caller gives the session and the link as pointers that may be null.\<close>

definition sendReliable_packets ::
  "bin_serializer list \<Rightarrow> nat option \<Rightarrow> nat option \<Rightarrow> bool \<Rightarrow> nat \<Rightarrow> world \<Rightarrow> (ESendCallResult \<times> world) res" where
  "sendReliable_packets data session exlOrSpecific buffer channel w =
     rbind (case session of
              Some sid \<Rightarrow>
                rbind (if buffer then bufferMsg data channel sid w else Inr w) (\<lambda>w1.
                  forLink exlOrSpecific
                    (\<lambda>i queued w. rbind (on_comps i (link_enqueue channel data) w) (\<lambda>w'. Inr (True, w'))) sid False w1)
            | None \<Rightarrow>
                (case exlOrSpecific of
                   Some i \<Rightarrow> rbind (on_comps i (link_enqueue channel data) w) (\<lambda>w'. Inr (True, w'))
                 | None \<Rightarrow> Inr (False, w)))
       (\<lambda>(somethingWasQueued, w'). Inr (if somethingWasQueued then Send_Fine else Send_NotSent, w'))"

definition sendReliable_serializers ::
  "byte \<Rightarrow> nat option \<Rightarrow> nat option \<Rightarrow> bin_serializer list \<Rightarrow> nat \<Rightarrow> bool \<Rightarrow> bool \<Rightarrow> bool \<Rightarrow> byte \<Rightarrow> world \<Rightarrow>
   (ESendCallResult \<times> world) res" where
  "sendReliable_serializers dataId session exlOrSpecific bs numSerializers buffer relay systemBit channel w =
     rbind (createNormalPacket (comp_byte ReliableSend) dataId bs numSerializers channel relay systemBit MM_MAX_FRAGMENTSIZE) (\<lambda>packets.
       sendReliable_packets packets session exlOrSpecific buffer (unat channel) w)"

text \<open>The public \<open>sendReliable\<close> wraps its one serializer in an array of length one and passes
  \<open>numSerializers\<close> on.\<close>

definition sendReliable ::
  "byte \<Rightarrow> nat option \<Rightarrow> nat option \<Rightarrow> bin_serializer \<Rightarrow> nat \<Rightarrow> bool \<Rightarrow> bool \<Rightarrow> byte \<Rightarrow> world \<Rightarrow> (ESendCallResult \<times> world) res" where
  "sendReliable dataId session exlOrSpecific bs numSerializers buffer relay channel w =
     sendReliable_serializers dataId session exlOrSpecific [bs] numSerializers buffer relay False channel w"

section \<open>Remote calls\<close>

definition cstr :: "string \<Rightarrow> cstring" where
  "cstr s = map of_char s"

text \<open>\<open>priv_send_rpc\<close>.\<close>

definition priv_send_rpc ::
  "cstring \<Rightarrow> bin_serializer \<Rightarrow> nat option \<Rightarrow> nat option \<Rightarrow> bool \<Rightarrow> bool \<Rightarrow> bool \<Rightarrow> byte \<Rightarrow> world \<Rightarrow> (ESendCallResult \<times> world) res" where
  "priv_send_rpc rpcName payLoad session exclOrSpecific buffer relay sysBit channel w =
     checked (write_string rpcName bs_reset) (\<lambda>bsRpcName.
       sendReliable_serializers packet_RPC session exclOrSpecific [bsRpcName, payLoad] 2 buffer relay sysBit channel w)"

text \<open>\<open>Link::callRpc\<close> without a local call: to this link, with the system bit. The arguments are
  written to an empty serializer first.\<close>

definition callRpc :: "string \<Rightarrow> (bin_serializer \<Rightarrow> bin_serializer res) \<Rightarrow> nat \<Rightarrow> world \<Rightarrow> (ESendCallResult \<times> world) res" where
  "callRpc rpcName args i w =
     rbind (args bs_reset) (\<lambda>bs. priv_send_rpc (cstr rpcName) bs None (Some i) False False True 0 w)"

text \<open>\<open>INetwork::callRpc\<close> and \<open>Network::callRpc2\<close> without the system bit: to all links of a session
  except one.\<close>

definition callRpc_session ::
  "string \<Rightarrow> (bin_serializer \<Rightarrow> bin_serializer res) \<Rightarrow> nat \<Rightarrow> nat option \<Rightarrow> world \<Rightarrow> (ESendCallResult \<times> world) res" where
  "callRpc_session rpcName args sid excl w =
     rbind (args bs_reset) (\<lambda>bs. priv_send_rpc (cstr rpcName) bs (Some sid) excl False False False 0 w)"

end
