(* ===== verification/Master_Sessions.thy ===== *)
theory Master_Sessions
  imports Network_World
begin

text \<open>
  \<open>Session.cpp\<close>, \<open>MasterSession.cpp\<close> and \<open>MasterSessionManager.cpp\<close>: the links of a session, the
  sessions of the matchmaking server with their host, the lists that hold them and the search with a
  filter.
\<close>

section \<open>Session\<close>

definition setMasterLink :: "nat \<Rightarrow> nat \<Rightarrow> world \<Rightarrow> world res" where
  "setMasterLink i sid w =
     rbind (get_session sid w) (\<lambda>s. case s_kind s of
        KSession host ml md \<Rightarrow> Inr (put_session sid (s\<lparr>s_kind := KSession host (Some i) md\<rparr>) w)
      | KMaster h l li \<Rightarrow> Inl OutOfBounds)"

definition updateHost :: "endpoint option \<Rightarrow> nat \<Rightarrow> world \<Rightarrow> world res" where
  "updateHost hostAddr sid w =
     rbind (get_session sid w) (\<lambda>s. case s_kind s of
        KSession host ml md \<Rightarrow> Inr (put_session sid (s\<lparr>s_kind := KSession hostAddr ml md\<rparr>) w)
      | KMaster h l li \<Rightarrow> Inl OutOfBounds)"

text \<open>\<open>normalSession().metaData()\<close>: the static cast of another kind of session reads past its end.\<close>

definition session_metaData :: "nat \<Rightarrow> world \<Rightarrow> meta_data res" where
  "session_metaData sid w =
     rbind (get_session sid w) (\<lambda>s. case s_kind s of KSession host ml md \<Rightarrow> Inr md | KMaster h l li \<Rightarrow> Inl OutOfBounds)"

text \<open>\<open>host()\<close> is virtual: an address, or the destination of the host's link if it is alive.\<close>

definition session_host :: "nat \<Rightarrow> world \<Rightarrow> endpoint option res" where
  "session_host sid w =
     rbind (get_session sid w) (\<lambda>s. Inr (case s_kind s of
        KSession host ml md \<Rightarrow> host
      | KMaster h l li \<Rightarrow> (case h of None \<Rightarrow> None | Some i \<Rightarrow> map_option l_address (lock w i))))"

definition imBoss :: "nat \<Rightarrow> world \<Rightarrow> bool res" where
  "imBoss sid w = rbind (session_host sid w) (\<lambda>h. Inr (h = None))"

definition matchMaker :: "nat \<Rightarrow> world \<Rightarrow> nat option res" where
  "matchMaker sid w =
     rbind (get_session sid w) (\<lambda>s. Inr (case s_kind s of
        KSession host ml md \<Rightarrow> (case ml of None \<Rightarrow> None | Some i \<Rightarrow> if lock w i = None then None else Some i)
      | KMaster h l li \<Rightarrow> None))"

text \<open>\<open>Session::removeLink\<close>: expired links and all that equal the link.\<close>

definition keeps :: "world \<Rightarrow> link \<Rightarrow> nat \<Rightarrow> bool" where
  "keeps w l j \<longleftrightarrow> (case lock w j of None \<Rightarrow> False | Some sl \<Rightarrow> \<not> link_eq sl l)"

definition normal_removeLink :: "nat \<Rightarrow> nat \<Rightarrow> world \<Rightarrow> world res" where
  "normal_removeLink i sid w =
     rbind (get_session sid w) (\<lambda>s.
     rbind (deref i w) (\<lambda>l. Inr (put_session sid (s\<lparr>s_Links := filter (keeps w l) (s_Links s)\<rparr>) w)))"

section \<open>MasterSession\<close>

definition canJoin :: "session \<Rightarrow> bool" where
  "canJoin s = (case s_kind s of
      KMaster h someoneLeft li \<Rightarrow>
        (\<not> m_IsP2p (s_MasterData s) \<or> \<not> someoneLeft) \<and> (\<not> s_Started s \<or> m_CanJoinAfterStart (s_MasterData s))
    | KSession host ml md \<Rightarrow> False)"

definition master_host :: "session \<Rightarrow> nat option" where
  "master_host s = (case s_kind s of KMaster h l li \<Rightarrow> h | KSession host ml md \<Rightarrow> None)"

definition master_list :: "session \<Rightarrow> nat option" where
  "master_list s = (case s_kind s of KMaster h l li \<Rightarrow> li | KSession host ml md \<Rightarrow> None)"

text \<open>The address argument of \<open>masterSessionNewHost\<close> and \<open>masterSessionConnectTo\<close>: a copy of the
  destination of a link.\<close>

definition copy_addr :: "endpoint \<Rightarrow> bin_serializer \<Rightarrow> bin_serializer res" where
  "copy_addr e bs = rbind (getCopyDerived e) (\<lambda>c. ser_arg write_addr (Some c) bs)"

definition master_addLink :: "nat \<Rightarrow> nat \<Rightarrow> world \<Rightarrow> (bool \<times> world) res" where
  "master_addLink i sid w =
     rbind (get_session sid w) (\<lambda>s.
       if \<not> canJoin s then Inr (False, w)
       else rbind (base_addLink i sid w) (\<lambda>w1.
            case master_host s of
              None \<Rightarrow> Inl NullDeref
            | Some h \<Rightarrow>
                rbind (deref h w1) (\<lambda>shost.
                rbind (deref i w1) (\<lambda>newLink.
                rbind (if link_eq newLink shost
                       then callRpc ''masterSessionNewHost'' (ser_arg write_addr (Some createEmpty)) i w1
                       else callRpc ''masterSessionNewHost'' (copy_addr (l_address shost)) i w1) (\<lambda>(r, w2).
                  Inr (True, w2))))))"

text \<open>The search of \<open>removeLink\<close> dereferences every link it passes.\<close>

fun find_pos :: "world \<Rightarrow> link \<Rightarrow> nat list \<Rightarrow> nat \<Rightarrow> nat option res" where
  "find_pos w l [] k = Inr None"
| "find_pos w l (j # js) k = rbind (deref j w) (\<lambda>sl. if link_eq sl l then Inr (Some k) else find_pos w l js (Suc k))"

text \<open>The loop that looks for the host with the best score. A link without statistics gets them.\<close>

fun elect_host :: "nat list \<Rightarrow> u32 \<Rightarrow> nat option \<Rightarrow> world \<Rightarrow> nat option \<times> world" where
  "elect_host [] highestScore host w = (host, w)"
| "elect_host (j # js) highestScore host w =
     (case lock w j of
        None \<Rightarrow> elect_host js highestScore host w
      | Some sl \<Rightarrow>
          (case cc_getOrAdd LinkStats 0 (fresh LinkStats) (l_comps sl) of (c, m) \<Rightarrow>
             let score = m_HostScore (as_stats c); w1 = put_link j (sl\<lparr>l_comps := m\<rparr>) w
             in if score > highestScore then elect_host js score (Some j) w1 else elect_host js highestScore host w1))"

definition removeSelf :: "nat \<Rightarrow> world \<Rightarrow> world res" where
  "removeSelf sid w =
     rbind (get_session sid w) (\<lambda>s.
       let s1 = s\<lparr>s_Links := filter (\<lambda>j. lock w j \<noteq> None) (s_Links s)\<rparr>
       in case s_kind s of
            KMaster h someoneLeft (Some li) \<Rightarrow>
              Inr (put_session sid (s1\<lparr>s_kind := KMaster h someoneLeft None\<rparr>)
                    (w\<lparr>w_SessionLists := (w_SessionLists w)[li := remove1 sid (w_SessionLists w ! li)]\<rparr>))
          | _ \<Rightarrow> Inr (put_session sid s1 w))"

definition set_host :: "nat \<Rightarrow> nat option \<Rightarrow> world \<Rightarrow> world" where
  "set_host sid h w =
     (case sm_find (w_sessions w) sid of
        None \<Rightarrow> w
      | Some s \<Rightarrow> (case s_kind s of
                    KMaster h0 l li \<Rightarrow> put_session sid (s\<lparr>s_kind := KMaster h l li\<rparr>) w
                  | KSession host ml md \<Rightarrow> w))"

text \<open>The part of \<open>removeLink\<close> after the host has left.\<close>

definition replace_host :: "nat \<Rightarrow> nat \<Rightarrow> nat list \<Rightarrow> nat option \<Rightarrow> world \<Rightarrow> world res" where
  "replace_host i sid others host w =
     (case elect_host others 0 host w of (host', w1) \<Rightarrow>
        let w2 = set_host sid host' w1
        in case host' of
             None \<Rightarrow> removeSelf sid w2
           | Some h \<Rightarrow>
               (case lock w2 h of
                  None \<Rightarrow> removeSelf sid w2
                | Some shost \<Rightarrow>
                    rbind (link_session i w2) (\<lambda>lsid.
                    rbind (callRpc_session ''masterSessionNewHost'' (copy_addr (l_address shost)) lsid (Some h) w2) (\<lambda>(r, w3).
                    rbind (callRpc ''masterSessionNewHost'' (ser_arg write_addr (Some createEmpty)) h w3) (\<lambda>(r', w4).
                      Inr w4)))))"

definition master_removeLink :: "nat \<Rightarrow> nat \<Rightarrow> world \<Rightarrow> world res" where
  "master_removeLink i sid w =
     rbind (get_session sid w) (\<lambda>s.
     rbind (deref i w) (\<lambda>l.
     rbind (find_pos w l (s_Links s) 0) (\<lambda>lIt.
       case lIt of
         None \<Rightarrow> Inr w
       | Some k \<Rightarrow>
           let others = take k (s_Links s) @ drop (Suc k) (s_Links s);
               w1 = put_session sid (s\<lparr>s_Links := others, s_kind := KMaster (master_host s) True (master_list s)\<rparr>) w
           in case master_host s of
                None \<Rightarrow> Inl NullDeref
              | Some h \<Rightarrow>
                  rbind (deref h w1) (\<lambda>shost.
                    if link_eq l shost then replace_host i sid others (master_host s) w1 else Inr w1))))"

text \<open>\<open>MasterSession::operator==(const SearchFilter&)\<close>.\<close>

definition matches :: "search_filter \<Rightarrow> session \<Rightarrow> bool" where
  "matches sf s =
     (let d = s_MasterData s
      in canJoin s \<and>
         m_Name d = sf_Name sf \<and>
         m_Type d = sf_Type sf \<and>
         (\<not> m_IsPrivate d \<or> sf_FindPrivate sf) \<and>
         ((m_IsP2p d \<and> sf_FindP2p sf) \<or> (\<not> m_IsP2p d \<and> sf_FindClientServer sf)) \<and>
         ((of_nat (length (s_Links s)) :: u32) \<ge> sf_MinPlayers sf \<and> m_MaxClients d \<le> sf_MaxPlayers sf) \<and>
         (float_le (sf_MinRating sf) (m_Rating d) \<and> float_le (m_Rating d) (sf_MaxRating sf)))"

text \<open>The loop of \<open>sendConnectRequests\<close> over the links of a peer to peer session. The session's links
  do not change in it.\<close>

fun connect_peers :: "nat \<Rightarrow> endpoint \<Rightarrow> nat list \<Rightarrow> world \<Rightarrow> world res" where
  "connect_peers i addrCpy [] w = Inr w"
| "connect_peers i addrCpy (j # js) w =
     (case lock w j of
        None \<Rightarrow> connect_peers i addrCpy js w
      | Some sl \<Rightarrow>
          rbind (callRpc ''masterSessionConnectTo'' (ser_arg write_addr (Some addrCpy)) j w) (\<lambda>(r, w1).
          rbind (callRpc ''masterSessionConnectTo'' (copy_addr (l_address sl)) i w1) (\<lambda>(r', w2).
            connect_peers i addrCpy js w2)))"

definition sendConnectRequests :: "nat \<Rightarrow> nat \<Rightarrow> world \<Rightarrow> world res" where
  "sendConnectRequests i sid w =
     rbind (get_session sid w) (\<lambda>s.
     rbind (deref i w) (\<lambda>newLink.
       if m_IsP2p (s_MasterData s)
       then rbind (getCopyDerived (l_address newLink)) (\<lambda>addrCpy. connect_peers i addrCpy (s_Links s) w)
       else case master_host s of
              None \<Rightarrow> Inl NullDeref
            | Some h \<Rightarrow>
                rbind (deref h w) (\<lambda>shost.
                rbind (callRpc ''masterSessionConnectTo'' (copy_addr (l_address shost)) i w) (\<lambda>(r, w1). Inr w1))))"

section \<open>Virtual calls\<close>

definition session_addLink :: "nat \<Rightarrow> nat \<Rightarrow> world \<Rightarrow> (bool \<times> world) res" where
  "session_addLink i sid w =
     rbind (get_session sid w) (\<lambda>s. case s_kind s of
        KSession host ml md \<Rightarrow> rbind (base_addLink i sid w) (\<lambda>w1. Inr (True, w1))
      | KMaster h l li \<Rightarrow> master_addLink i sid w)"

definition session_removeLink :: "nat \<Rightarrow> nat \<Rightarrow> world \<Rightarrow> world res" where
  "session_removeLink i sid w =
     rbind (get_session sid w) (\<lambda>s. case s_kind s of
        KSession host ml md \<Rightarrow> normal_removeLink i sid w
      | KMaster h l li \<Rightarrow> master_removeLink i sid w)"

section \<open>The lists\<close>

definition MM_NEW_SERVER_LIST_THRESHOLD :: nat where "MM_NEW_SERVER_LIST_THRESHOLD = 1000"

definition addSession :: "nat \<Rightarrow> master_session_data \<Rightarrow> nat \<Rightarrow> world \<Rightarrow> nat \<times> world" where
  "addSession host data li w =
     (case SessionBase data (KMaster (Some host) False (Some li)) w of (sid, w1) \<Rightarrow>
        (sid, w1\<lparr>w_SessionLists := (w_SessionLists w1)[li := w_SessionLists w1 ! li @ [sid]]\<rparr>))"

fun first_open :: "nat list list \<Rightarrow> nat \<Rightarrow> nat option" where
  "first_open [] k = None"
| "first_open (sl # sls) k = (if length sl < MM_NEW_SERVER_LIST_THRESHOLD then Some k else first_open sls (Suc k))"

definition registerSession :: "nat \<Rightarrow> master_session_data \<Rightarrow> world \<Rightarrow> nat \<times> world" where
  "registerSession link data w =
     (case first_open (w_SessionLists w) 0 of
        Some li \<Rightarrow> addSession link data li w
      | None \<Rightarrow> addSession link data (length (w_SessionLists w)) (w\<lparr>w_SessionLists := w_SessionLists w @ [[]]\<rparr>))"

fun findFromFilter :: "search_filter \<Rightarrow> world \<Rightarrow> nat list \<Rightarrow> nat option" where
  "findFromFilter sf w [] = None"
| "findFromFilter sf w (sid # sids) =
     (case sm_find (w_sessions w) sid of
        Some s \<Rightarrow> if matches sf s then Some sid else findFromFilter sf w sids
      | None \<Rightarrow> findFromFilter sf w sids)"

text \<open>The vector of lists is far shorter than the bound \<open>UINT_MAX\<close> of the loop.\<close>

fun findServer :: "search_filter \<Rightarrow> world \<Rightarrow> nat list list \<Rightarrow> nat option" where
  "findServer sf w [] = None"
| "findServer sf w (sl # sls) =
     (case findFromFilter sf w sl of Some sid \<Rightarrow> Some sid | None \<Rightarrow> findServer sf w sls)"

definition findServerFromFilter :: "search_filter \<Rightarrow> world \<Rightarrow> nat option" where
  "findServerFromFilter sf w = findServer sf w (w_SessionLists w)"

end
