(* ===== verification/Network_Rpc.thy ===== *)
theory Network_Rpc
  imports Master_Sessions
begin

text \<open>
  \<open>LinkManager.cpp\<close>, \<open>Link::create\<close> and \<open>~Link\<close>, the methods of \<open>LinkState\<close> with what they send,
  \<open>MatchMakerData.cpp\<close>, the handlers of the remote calls of \<open>LinkState.cpp\<close>, \<open>MasterSession.cpp\<close> and
  \<open>MatchMakerData.cpp\<close>, and the public calls of \<open>Network.cpp\<close>.

  \<open>sockname\<close> is \<open>getsockname\<close>. A handler gets its arguments deserialized; a shared pointer to an
  address is \<open>None\<close> when it is null.
\<close>

section \<open>Links\<close>

text \<open>\<open>~Link\<close> removes the socket of the link from the reception threads.\<close>

definition destroy_link :: "nat \<Rightarrow> world \<Rightarrow> world res" where
  "destroy_link i w =
     rbind (deref i w) (\<lambda>l.
     rbind (ssm_removeSocket (Some (BSDSocket_init\<lparr>m_Socket := l_socket l\<rparr>)) (w_recv w)) (\<lambda>ts.
       Inr (w\<lparr>w_recv := ts, w_links := sm_erase i (w_links w)\<rparr>)))"

text \<open>\<open>Link::create\<close>. If the local address cannot be found, the destructor runs on a link without a
  socket.\<close>

definition link_create ::
  "(u32 \<Rightarrow> int + byte list) \<Rightarrow> nat option \<Rightarrow> sock_addr \<Rightarrow> world \<Rightarrow> (nat option \<times> world) res" where
  "link_create sockname session sap w =
     rbind (createSource sockname (snd sap)) (\<lambda>(source, err).
       case source of
         None \<Rightarrow>
           rbind (ssm_removeSocket None (w_recv w)) (\<lambda>ts. Inr (None, w\<lparr>w_recv := ts\<rparr>))
       | Some src \<Rightarrow>
           let i = w_nextLink w;
               w1 = (put_link i (new_link (snd sap) (fst sap) src) w)\<lparr>w_nextLink := Suc i\<rparr>
           in case session of
                None \<Rightarrow> Inr (Some i, w1)
              | Some sid \<Rightarrow>
                  rbind (session_addLink i sid w1) (\<lambda>(ok, w2).
                    if \<not> ok then rbind (destroy_link i w2) (\<lambda>w3. Inr (None, w3)) else Inr (Some i, w2)))"

section \<open>LinkManager\<close>

definition lm_insert :: "sock_addr \<Rightarrow> nat \<Rightarrow> world \<Rightarrow> world" where
  "lm_insert sap i w = w\<lparr>w_linkArray := w_linkArray w @ [i], w_linkMap := sm_set sap i (w_linkMap w)\<rparr>"

text \<open>\<open>add\<close> creates the link, and with it enters it into the session, before it looks for another link
  of the pair; a link that is discarded is destroyed.\<close>

definition lm_add :: "(u32 \<Rightarrow> int + byte list) \<Rightarrow> nat \<Rightarrow> sock_addr \<Rightarrow> world \<Rightarrow> (nat option \<times> world) res" where
  "lm_add sockname sid sap w =
     rbind (link_create sockname (Some sid) sap w) (\<lambda>(link, w1).
       case link of
         None \<Rightarrow> Inr (None, w1)
       | Some i \<Rightarrow>
           if sm_find (w_linkMap w1) sap \<noteq> None then rbind (destroy_link i w1) (\<lambda>w2. Inr (None, w2))
           else Inr (Some i, lm_insert sap i w1))"

definition lm_getOrAdd ::
  "(u32 \<Rightarrow> int + byte list) \<Rightarrow> nat option \<Rightarrow> sock_addr \<Rightarrow> world \<Rightarrow> (bool \<times> nat option \<times> world) res" where
  "lm_getOrAdd sockname session sap w =
     (case sm_find (w_linkMap w) sap of
        Some i \<Rightarrow> Inr (False, Some i, w)
      | None \<Rightarrow>
          rbind (link_create sockname session sap w) (\<lambda>(link, w1).
            case link of
              None \<Rightarrow> Inr (True, None, w1)
            | Some i \<Rightarrow> Inr (True, Some i, lm_insert sap i w1)))"

definition lm_get :: "sock_addr \<Rightarrow> world \<Rightarrow> nat option" where
  "lm_get sap w = sm_find (w_linkMap w) sap"

definition lm_has :: "sock_addr \<Rightarrow> world \<Rightarrow> bool" where
  "lm_has sap w \<longleftrightarrow> sm_find (w_linkMap w) sap \<noteq> None"

text \<open>\<open>forEachLink\<close> looks at the array again in every round, so links that the callback adds are
  visited too, up to \<open>UINT_MAX\<close>. The state \<open>'s\<close> of the callback holds the world; \<open>wld\<close> is the world
  in it.\<close>

function forEachLink_from :: "(nat \<Rightarrow> 's \<Rightarrow> 's res) \<Rightarrow> ('s \<Rightarrow> world) \<Rightarrow> nat \<Rightarrow> 's \<Rightarrow> 's res" where
  "forEachLink_from cb wld i s =
     (if i < 2 ^ 32 - 1 \<and> i < length (w_linkArray (wld s))
      then rbind (cb (w_linkArray (wld s) ! i) s) (\<lambda>s1. forEachLink_from cb wld (Suc i) s1)
      else Inr s)"
  by pat_completeness auto

termination
  by (relation "measure (\<lambda>(cb, wld, i, s). 2 ^ 32 - i)") auto

declare forEachLink_from.simps [simp del]

definition forEachLink :: "(nat \<Rightarrow> 's \<Rightarrow> 's res) \<Rightarrow> ('s \<Rightarrow> world) \<Rightarrow> 's \<Rightarrow> 's res" where
  "forEachLink cb wld s = forEachLink_from cb wld 0 s"

section \<open>LinkState\<close>

definition put_state :: "link_state \<Rightarrow> link_component components \<Rightarrow> link_component components" where
  "put_state s m = cc_put LinkState 0 (CLinkState s) m"

text \<open>\<open>getOrAdd<LinkState>()->connect( md )\<close>.\<close>

definition link_connect :: "meta_data \<Rightarrow> nat \<Rightarrow> world \<Rightarrow> (bool \<times> world) res" where
  "link_connect md i w =
     rbind (deref i w) (\<lambda>l.
       case cc_getOrAdd LinkState 0 (fresh LinkState) (l_comps l) of (c, m) \<Rightarrow>
         (case ls_connect (as_state c) of (ok, s) \<Rightarrow>
            let w1 = put_link i (l\<lparr>l_comps := put_state s m\<rparr>) w
            in if \<not> ok then Inr (False, w1)
               else rbind (callRpc ''linkStateConnect'' (ser_arg write_meta md) i w1) (\<lambda>(r, w2). Inr (r = Send_Fine, w2))))"

text \<open>The arguments of \<open>linkStateDisconnect\<close>.\<close>

definition disconnect_args :: "bool \<Rightarrow> endpoint option \<Rightarrow> bin_serializer \<Rightarrow> bin_serializer res" where
  "disconnect_args isKick a bs = rbind (ser_arg write_bool isKick bs) (ser_arg write_addr a)"

text \<open>What \<open>LinkState::disconnect\<close> does after the locked region: tell the peer or the application, and
  take the link out of its session.\<close>

definition notify_disconnect :: "bool \<Rightarrow> bool \<Rightarrow> endpoint \<Rightarrow> nat \<Rightarrow> world \<Rightarrow> world res" where
  "notify_disconnect isKick isReceive dest i w =
     (if \<not> isReceive
      then rbind (callRpc ''linkStateDisconnect'' (disconnect_args isKick (Some createEmpty)) i w) (\<lambda>(r, w1). Inr w1)
      else Inr (push_event (EventDisconnect i (if isKick then Kicked else Closed) dest) w))"

definition leave_session :: "nat option \<Rightarrow> nat \<Rightarrow> world \<Rightarrow> world res" where
  "leave_session session i w = (case session of None \<Rightarrow> Inr w | Some sid \<Rightarrow> session_removeLink i sid w)"

text \<open>\<open>Link::disconnect\<close> with \<open>LinkState::disconnect\<close>.\<close>

definition link_disconnect :: "bool \<Rightarrow> bool \<Rightarrow> bool \<Rightarrow> nat \<Rightarrow> world \<Rightarrow> (bool \<times> world) res" where
  "link_disconnect isKick isReceive removeLink i w =
     rbind (deref i w) (\<lambda>l.
       case cc_get LinkState 0 (l_comps l) of
         None \<Rightarrow> Inr (False, w)
       | Some c \<Rightarrow>
           (case ls_disconnect (as_state c) of (disconnected, s) \<Rightarrow>
              let w1 = put_link i (l\<lparr>l_comps := put_state s (l_comps l)\<rparr>) w
              in rbind (if disconnected then notify_disconnect isKick isReceive (l_address l) i w1 else Inr w1) (\<lambda>w2.
                 rbind (if removeLink then leave_session (l_session l) i w2 else Inr w2) (\<lambda>w3.
                   Inr (disconnected, w3)))))"

section \<open>Handlers of LinkState.cpp\<close>

text \<open>\<open>RPC_BEGIN\<close> binds a reference to the session of the link.\<close>

definition linkStateNewConnection :: "meta_data \<Rightarrow> endpoint option \<Rightarrow> nat \<Rightarrow> world \<Rightarrow> world res" where
  "linkStateNewConnection md a i w = rbind (link_session i w) (\<lambda>s. Inr (push_event (EventNewConnection i md a) w))"

definition linkStateDisconnect :: "bool \<Rightarrow> endpoint option \<Rightarrow> nat \<Rightarrow> world \<Rightarrow> world res" where
  "linkStateDisconnect isKick remote i w =
     rbind (link_session i w) (\<lambda>sid.
       case remote of
         None \<Rightarrow> Inl NullDeref
       | Some a \<Rightarrow>
           if \<not> isZero a then Inr (push_event (EventDisconnect i (if isKick then Kicked else Closed) a) w)
           else rbind (link_disconnect isKick True True i w) (\<lambda>(disconnected, w1).
                if \<not> disconnected then Inr w1
                else rbind (get_session sid w1) (\<lambda>s.
                     rbind (imBoss sid w1) (\<lambda>boss.
                       if \<not> m_IsP2p (s_MasterData s) \<and> boss
                       then rbind (deref i w1) (\<lambda>l.
                            rbind (link_session i w1) (\<lambda>lsid.
                            rbind (getCopyDerived (l_address l)) (\<lambda>dest.
                            rbind (callRpc_session ''linkStateDisconnect'' (disconnect_args isKick (Some dest)) lsid (Some i) w1) (\<lambda>(r, w2).
                              Inr w2))))
                       else Inr w1))))"

text \<open>The body of \<open>linkStateAccepted\<close>; its second argument is not used.\<close>

definition linkStateAccepted :: "meta_data \<Rightarrow> nat \<Rightarrow> world \<Rightarrow> world res" where
  "linkStateAccepted md i w =
     rbind (link_session i w) (\<lambda>sid.
     rbind (deref i w) (\<lambda>l.
       case cc_get LinkState 0 (l_comps l) of
         None \<Rightarrow> Inr w
       | Some c \<Rightarrow>
           (case ls_accept (as_state c) of (ok, s) \<Rightarrow>
              let w1 = put_link i (l\<lparr>l_comps := put_state s (l_comps l)\<rparr>) w
              in if ok then Inr (push_event (EventNewConnection i md (Some (l_address l))) w1) else Inr w1)))"

text \<open>\<open>rpc_dsr_linkStateAccepted\<close>: the tuple is default constructed, so its shared pointer to an address
  list is null when \<open>readOrWrite\<close> calls a method through it.\<close>

definition read_addr_list :: "address_list option \<Rightarrow> bin_serializer \<Rightarrow> (address_list \<times> bin_serializer) res option" where
  "read_addr_list p bs = (case p of None \<Rightarrow> Some (Inl NullDeref) | Some l \<Rightarrow> read_addrs l bs)"

definition rpc_dsr_linkStateAccepted :: "bin_serializer \<Rightarrow> nat \<Rightarrow> world \<Rightarrow> world res option" where
  "rpc_dsr_linkStateAccepted bs i w =
     (case read_meta [] bs of
        Inl e \<Rightarrow> Some (Inl e)
      | Inr (v, bs1) \<Rightarrow>
          (case read_addr_list None bs1 of
             None \<Rightarrow> None
           | Some (Inl e) \<Rightarrow> Some (Inl e)
           | Some (Inr (al, bs2)) \<Rightarrow> Some (linkStateAccepted (case v of Some md \<Rightarrow> md | None \<Rightarrow> []) i w)))"

text \<open>The callback of \<open>linkStateConnect\<close> that collects the addresses of the connected links.\<close>

definition collect_connected :: "nat \<Rightarrow> address_list \<Rightarrow> world \<Rightarrow> (address_list \<times> world) res" where
  "collect_connected j addrList w =
     rbind (deref j w) (\<lambda>lb. Inr (if isConnected (l_comps lb) then addAddress (l_address lb) [] addrList else addrList, w))"

text \<open>What the host of a client server session does with a new connection: send the list of the connected
  addresses to the new peer and the new address to the others.\<close>

definition announce_connection :: "meta_data \<Rightarrow> endpoint \<Rightarrow> nat \<Rightarrow> nat \<Rightarrow> world \<Rightarrow> world res" where
  "announce_connection md addr i sid w =
     rbind (forLink (Some i) collect_connected sid [] w) (\<lambda>(addrList, w1).
     rbind (session_metaData sid w1) (\<lambda>smd.
     rbind (callRpc ''linkStateAccepted'' (\<lambda>bs. rbind (ser_arg write_meta smd bs) (ser_arg write_addrs addrList)) i w1) (\<lambda>(r, w2).
     rbind (getCopyDerived addr) (\<lambda>dest.
     rbind (callRpc_session ''linkStateNewConnection''
              (\<lambda>bs. rbind (ser_arg write_meta md bs) (ser_arg write_addr (Some dest))) sid (Some i) w2) (\<lambda>(r', w3).
       Inr w3)))))"

definition linkStateConnect :: "meta_data \<Rightarrow> nat \<Rightarrow> world \<Rightarrow> world res" where
  "linkStateConnect md i w =
     rbind (link_session i w) (\<lambda>sid.
     rbind (deref i w) (\<lambda>l.
       case cc_getOrAdd LinkState 0 (fresh LinkState) (l_comps l) of (c, m) \<Rightarrow>
         (case ls_incoming (as_state c) of (ok, st) \<Rightarrow>
            let w1 = put_link i (l\<lparr>l_comps := put_state st m\<rparr>) w
            in if \<not> ok then Inr w1
               else let w2 = push_event (EventNewConnection i md (Some (l_address l))) w1
                    in rbind (get_session sid w2) (\<lambda>s.
                       rbind (imBoss sid w2) (\<lambda>boss.
                         if \<not> m_IsP2p (s_MasterData s) \<and> boss then announce_connection md (l_address l) i sid w2 else Inr w2)))))"

section \<open>Handlers of MasterSession.cpp\<close>

definition masterSessionConnectTo :: "(u32 \<Rightarrow> int + byte list) \<Rightarrow> endpoint option \<Rightarrow> nat \<Rightarrow> world \<Rightarrow> world res" where
  "masterSessionConnectTo sockname toAddr i w =
     rbind (link_session i w) (\<lambda>sid.
     rbind (deref i w) (\<lambda>l.
       case toAddr of
         None \<Rightarrow> Inl NullDeref
       | Some a \<Rightarrow>
           rbind (lm_getOrAdd sockname (Some sid) (a, l_socket l) w) (\<lambda>(wasNew, newLink, w1).
             case newLink of
               None \<Rightarrow> Inr w1
             | Some j \<Rightarrow>
                 rbind (session_metaData sid w1) (\<lambda>md.
                 rbind (link_connect md j w1) (\<lambda>(ok, w2). Inr w2)))))"

definition masterSessionNewHost :: "endpoint option \<Rightarrow> nat \<Rightarrow> world \<Rightarrow> world res" where
  "masterSessionNewHost hostAddr i w =
     rbind (link_session i w) (\<lambda>sid.
       case hostAddr of
         None \<Rightarrow> Inl NullDeref
       | Some a \<Rightarrow>
           let host = (if isZero a then None else Some a)
           in rbind (updateHost host sid w) (\<lambda>w1. Inr (push_event (EventNewHost i host) w1)))"

section \<open>MatchMakerData\<close>

fun as_matchmaker :: "link_component \<Rightarrow> bool \<times> bool" where
  "as_matchmaker (CMatchMaker r j) = (r, j)" | "as_matchmaker _ = (False, False)"

text \<open>\<open>getOrAdd<MatchMakerData>()->registerServer\<close>; \<open>cb\<close> says whether the callback can be called.\<close>

definition mm_registerServer :: "bool \<Rightarrow> master_session_data \<Rightarrow> meta_data \<Rightarrow> nat \<Rightarrow> world \<Rightarrow> (bool \<times> world) res" where
  "mm_registerServer cb data md i w =
     rbind (deref i w) (\<lambda>l.
       case cc_getOrAdd MatchMakerData 0 (fresh MatchMakerData) (l_comps l) of (c, m) \<Rightarrow>
         (case as_matchmaker c of (r, j) \<Rightarrow>
            if r then Inr (False, put_link i (l\<lparr>l_comps := m\<rparr>) w)
            else rbind (callRpc ''masterLinkRpcRegisterServer'' (\<lambda>bs. rbind (ser_arg write_msd data bs) (ser_arg write_meta md)) i
                          (put_link i (l\<lparr>l_comps := cc_put MatchMakerData 0 (CMatchMaker cb j) m\<rparr>) w)) (\<lambda>(res, w1). Inr (True, w1))))"

definition mm_joinServer :: "bool \<Rightarrow> search_filter \<Rightarrow> meta_data \<Rightarrow> nat \<Rightarrow> world \<Rightarrow> (bool \<times> world) res" where
  "mm_joinServer cb sf md i w =
     rbind (deref i w) (\<lambda>l.
       case cc_getOrAdd MatchMakerData 0 (fresh MatchMakerData) (l_comps l) of (c, m) \<Rightarrow>
         (case as_matchmaker c of (r, j) \<Rightarrow>
            if j then Inr (False, put_link i (l\<lparr>l_comps := m\<rparr>) w)
            else rbind (callRpc ''masterLinkRpcJoinServer'' (\<lambda>bs. rbind (ser_arg write_sf sf bs) (ser_arg write_meta md)) i
                          (put_link i (l\<lparr>l_comps := cc_put MatchMakerData 0 (CMatchMaker r cb) m\<rparr>) w)) (\<lambda>(res, w1). Inr (True, w1))))"

section \<open>Handlers of MatchMakerData.cpp\<close>

definition masterLinkRpcRegisterResult :: "bool \<Rightarrow> nat \<Rightarrow> world \<Rightarrow> world res" where
  "masterLinkRpcRegisterResult succes i w =
     rbind (link_session i w) (\<lambda>sid.
     rbind (deref i w) (\<lambda>l.
       Inr (if cc_get MatchMakerData 0 (l_comps l) \<noteq> None then push_event (EventRegisterResult i succes) w else w)))"

definition masterLinkRpcJoinResult :: "bool \<Rightarrow> nat \<Rightarrow> world \<Rightarrow> world res" where
  "masterLinkRpcJoinResult succes i w =
     rbind (link_session i w) (\<lambda>sid.
     rbind (deref i w) (\<lambda>l.
       Inr (if cc_get MatchMakerData 0 (l_comps l) \<noteq> None then push_event (EventJoinResult i succes) w else w)))"

definition updateCustomMatchmakingMd :: "meta_data \<Rightarrow> nat \<Rightarrow> world \<Rightarrow> world res" where
  "updateCustomMatchmakingMd md i w = rbind (deref i w) (\<lambda>l. Inr (put_link i (l\<lparr>l_md := md\<rparr>) w))"

text \<open>\<open>registerSession\<close> never returns null, so the failure branch of the handler is not reached.\<close>

definition masterLinkRpcRegisterServer :: "master_session_data \<Rightarrow> meta_data \<Rightarrow> nat \<Rightarrow> world \<Rightarrow> world res" where
  "masterLinkRpcRegisterServer data md i w =
     rbind (updateCustomMatchmakingMd md i w) (\<lambda>w1.
       case registerSession i data w1 of (sid, w2) \<Rightarrow>
         rbind (session_addLink i sid w2) (\<lambda>(ok, w3).
         rbind (callRpc ''masterLinkRpcRegisterResult'' (ser_arg write_bool True) i w3) (\<lambda>(r, w4). Inr w4)))"

definition masterLinkRpcJoinServer :: "search_filter \<Rightarrow> meta_data \<Rightarrow> nat \<Rightarrow> world \<Rightarrow> world res" where
  "masterLinkRpcJoinServer sf md i w =
     rbind (updateCustomMatchmakingMd md i w) (\<lambda>w1.
       case findServerFromFilter sf w1 of
         Some sid \<Rightarrow>
           rbind (session_addLink i sid w1) (\<lambda>(ok, w2).
           rbind (sendConnectRequests i sid w2) (\<lambda>w3.
           rbind (callRpc ''masterLinkRpcJoinResult'' (ser_arg write_bool True) i w3) (\<lambda>(r, w4). Inr w4)))
       | None \<Rightarrow> rbind (callRpc ''masterLinkRpcJoinResult'' (ser_arg write_bool False) i w1) (\<lambda>(r, w2). Inr w2))"

definition masterLinkRpcStartSession :: "nat \<Rightarrow> world \<Rightarrow> world res" where
  "masterLinkRpcStartSession i w =
     rbind (link_session i w) (\<lambda>sid. rbind (session_start sid w) (\<lambda>(ok, w1). Inr w1))"

section \<open>Public calls of the network\<close>

text \<open>\<open>sock\<close> is the socket that \<open>ISocket::create( 0 )\<close> returned, \<open>junk\<close> the uninitialised data of the new
  session.\<close>

definition registerServer ::
  "(u32 \<Rightarrow> int + byte list) \<Rightarrow> u32 option \<Rightarrow> master_session_data \<Rightarrow> bool \<Rightarrow> endpoint \<Rightarrow> cstring \<Rightarrow> cstring \<Rightarrow> bool \<Rightarrow> bool \<Rightarrow> u32 \<Rightarrow>
   u32 \<Rightarrow> cstring \<Rightarrow> meta_data \<Rightarrow> meta_data \<Rightarrow> world \<Rightarrow> (nat option \<times> world) res" where
  "registerServer sockname sock junk cb masterAddr name type isP2p canJoinAfterStart rating maxClients password hostMd customMd w =
     (case sock of
        None \<Rightarrow> Inr (None, w)
      | Some h \<Rightarrow>
          (case SessionBase junk (KSession None None hostMd) w of (sid, w1) \<Rightarrow>
             rbind (lm_add sockname sid (masterAddr, h) w1) (\<lambda>(link, w2).
               case link of
                 None \<Rightarrow> Inr (None, w2)
               | Some i \<Rightarrow>
                   rbind (setMasterLink i sid w2) (\<lambda>w3.
                   rbind (mm_registerServer cb
                            \<lparr>m_IsP2p = isP2p, m_UsedMatchmaker = True, m_IsPrivate = password \<noteq> [], m_Rating = rating,
                             m_MaxClients = maxClients, m_CanJoinAfterStart = canJoinAfterStart, m_Name = name, m_Type = type,
                             m_Password = password, m_MetaData = []\<rparr> customMd i w3) (\<lambda>(ok, w4).
                     Inr (Some sid, w4))))))"

definition joinServer ::
  "(u32 \<Rightarrow> int + byte list) \<Rightarrow> u32 option \<Rightarrow> master_session_data \<Rightarrow> bool \<Rightarrow> endpoint \<Rightarrow> cstring \<Rightarrow> cstring \<Rightarrow> u32 \<Rightarrow> u32 \<Rightarrow> u32 \<Rightarrow> u32 \<Rightarrow>
   bool \<Rightarrow> bool \<Rightarrow> meta_data \<Rightarrow> meta_data \<Rightarrow> world \<Rightarrow> (nat option \<times> world) res" where
  "joinServer sockname sock junk cb masterAddr name type minRating maxRating minPlayers maxPlayers findP2p findClientServer joinMd customMd w =
     (case sock of
        None \<Rightarrow> Inr (None, w)
      | Some h \<Rightarrow>
          (case SessionBase junk (KSession None None joinMd) w of (sid, w1) \<Rightarrow>
             rbind (lm_add sockname sid (masterAddr, h) w1) (\<lambda>(link, w2).
               case link of
                 None \<Rightarrow> Inr (None, w2)
               | Some i \<Rightarrow>
                   rbind (setMasterLink i sid w2) (\<lambda>w3.
                   rbind (mm_joinServer cb
                            \<lparr>sf_Name = name, sf_Type = type, sf_MinRating = minRating, sf_MaxRating = maxRating,
                             sf_MinPlayers = minPlayers, sf_MaxPlayers = maxPlayers, sf_FindPrivate = False, sf_FindP2p = findP2p,
                             sf_FindClientServer = findClientServer, sf_CustomMatchmakingMd = []\<rparr> customMd i w3) (\<lambda>(ok, w4).
                     Inr (Some sid, w4))))))"

definition network_kick :: "nat \<Rightarrow> world \<Rightarrow> (bool \<times> world) res" where
  "network_kick i w = link_disconnect True False True i w"

definition network_disconnect :: "nat \<Rightarrow> world \<Rightarrow> (bool \<times> world) res" where
  "network_disconnect i w = link_disconnect False False True i w"

text \<open>\<open>Session::disconnect\<close>.\<close>

definition session_disconnect :: "nat \<Rightarrow> world \<Rightarrow> (bool \<times> world) res" where
  "session_disconnect sid w =
     rbind (forLink None (\<lambda>i u w. rbind (link_disconnect False False True i w) (\<lambda>(d, w1). Inr ((), w1))) sid () w) (\<lambda>(u, w1).
       Inr (True, w1))"

definition disconnectAll :: "world \<Rightarrow> (bool \<times> world) res" where
  "disconnectAll w =
     rbind (forEachLink (\<lambda>i w. rbind (link_disconnect False False True i w) (\<lambda>(d, w1). Inr w1)) (\<lambda>w. w) w) (\<lambda>w1. Inr (True, w1))"

text \<open>\<open>handleReceivedPacket\<close> after the datagram was read: \<open>lost\<close> says whether it is dropped by the
  simulation of packet loss; a new link has no session. The answer has the jobs that were added.\<close>

definition handleReceivedPacket ::
  "(u32 \<Rightarrow> int + byte list) \<Rightarrow> bool \<Rightarrow> u32 \<Rightarrow> ERecvResult \<times> byte list \<times> endpoint \<times> int \<Rightarrow> world \<Rightarrow>
   ((nat \<times> nat) option \<times> world) res option" where
  "handleReceivedPacket sockname lost sock received w =
     (case received of (r, data, etp, err) \<Rightarrow>
        if lost then Some (Inr (None, w))
        else if err \<noteq> 0 then Some (Inr (None, w))
        else if r = Recv_Succes \<and> int (length data) \<ge> MM_MIN_HDR_SIZE
        then (case rbind (getCopyDerived etp) (\<lambda>a. lm_getOrAdd sockname None (a, sock) w) of
                Inl e \<Rightarrow> Some (Inl e)
              | Inr (wasNew, None, w1) \<Rightarrow> Some (Inr (None, w1))
              | Inr (wasNew, Some i, w1) \<Rightarrow>
                  (case deref i w1 of
                     Inl e \<Rightarrow> Some (Inl e)
                   | Inr l \<Rightarrow>
                       (case link_receive (recv_view data) (l_comps l) of
                          None \<Rightarrow> None
                        | Some (Inl e) \<Rightarrow> Some (Inl e)
                        | Some (Inr (job, m)) \<Rightarrow>
                            Some (Inr (map_option (\<lambda>ch. (i, ch)) job, put_link i (l\<lparr>l_comps := m\<rparr>) w1)))))
        else Some (Inr (None, w)))"

end
