(* ===== verification/Send_Thread.thy ===== *)
theory Send_Thread
  imports Network_Rpc
begin

text \<open>
  \<open>SendThread.cpp\<close> and \<open>Link::send\<close>: one round of the thread that sends what is queued on all channels
  of all links. The endless loop around it sleeps, leaves when the thread is closing, reads the time and
  does one round; the rounds are steps of the network. A round is a sequence of steps on components with
  their own locks, here without other threads in between.

  The first component of the state of a round is the list of the datagrams handed to \<open>Link::send\<close>: the
  socket, the address, the bytes and what \<open>sendto\<close> answered.
\<close>

type_synonym sent_datagram = "u32 \<times> endpoint \<times> byte list \<times> ESendResult"

text \<open>\<open>Link::send\<close> looks at the answer of the socket only to log it.\<close>

definition link_send :: "(u32 \<Rightarrow> byte list \<Rightarrow> byte list \<Rightarrow> int option) \<Rightarrow> link \<Rightarrow> byte list \<Rightarrow> sent_datagram" where
  "link_send os_sendto l data =
     (case bsd_send os_sendto (l_address l) data (Some 0) (BSDSocket_init\<lparr>m_Socket := l_socket l\<rparr>) of
        (res, err) \<Rightarrow> (l_socket l, l_address l, data, res))"

text \<open>The callback of the round.\<close>

definition resend_link ::
  "(u32 \<Rightarrow> byte list \<Rightarrow> byte list \<Rightarrow> int option) \<Rightarrow> u64 \<Rightarrow> nat \<Rightarrow> sent_datagram list \<times> world \<Rightarrow> (sent_datagram list \<times> world) res" where
  "resend_link os_sendto time i s =
     (case s of (out, w) \<Rightarrow>
        rbind (deref i w) (\<lambda>l.
        rbind (link_dispatch time (l_comps l)) (\<lambda>(ds, m).
          Inr (out @ map (link_send os_sendto l) ds, put_link i (l\<lparr>l_comps := m\<rparr>) w))))"

text \<open>One round of \<open>resendThread\<close>; \<open>lm\<close> tells whether the network has a \<open>LinkManager\<close>.\<close>

definition resendThread ::
  "(u32 \<Rightarrow> byte list \<Rightarrow> byte list \<Rightarrow> int option) \<Rightarrow> bool \<Rightarrow> u64 \<Rightarrow> sent_datagram list \<times> world \<Rightarrow> (sent_datagram list \<times> world) res" where
  "resendThread os_sendto lm time s = (if \<not> lm then Inr s else forEachLink (resend_link os_sendto time) snd s)"

end
