(* ===== verification/Link_Registry.thy ===== *)
theory Link_Registry
  imports Send_Thread Transition
begin

text \<open>
  What the operations of the network keep: the map and the array of the \<open>LinkManager\<close> always describe
  the same links, and a link that is found under an address and a socket has that address and socket.

  \<open>frame\<close> is the relation between the worlds before and after an operation that creates and destroys no
  link; every operation except the creation of links is shown to be in it, and the invariant follows
  for all of them at once.
\<close>

section \<open>Frames\<close>

definition sap_of :: "world \<Rightarrow> nat \<Rightarrow> sock_addr option" where
  "sap_of w i = map_option (\<lambda>l. (l_address l, l_socket l)) (lock w i)"

definition frame :: "world \<Rightarrow> world \<Rightarrow> bool" where
  "frame w w' \<longleftrightarrow> w_linkMap w' = w_linkMap w \<and> w_linkArray w' = w_linkArray w \<and> w_nextLink w' = w_nextLink w \<and>
     w_recv w' = w_recv w \<and> (\<forall>i. sap_of w' i = sap_of w i) \<and> (sm_ok (w_links w) \<longrightarrow> sm_ok (w_links w'))"

lemma rbind_InrE: "rbind m f = Inr y \<Longrightarrow> (\<And>x. m = Inr x \<Longrightarrow> f x = Inr y \<Longrightarrow> P) \<Longrightarrow> P"
  by (auto simp: rbind_eq_Inr)

lemma checked_InrE: "checked r k = Inr y \<Longrightarrow> (\<And>s. r = Inr (True, s) \<Longrightarrow> k s = Inr y \<Longrightarrow> P) \<Longrightarrow> P"
  by (auto simp: checked_def rbind_eq_Inr split: if_splits)

lemmas resE = rbind_InrE checked_InrE

named_theorems frames \<open>operations that create and destroy no link\<close>

lemma frame_refl [simp]: "frame w w"
  by (simp add: frame_def)

lemma frame_trans: "frame w w1 \<Longrightarrow> frame w1 w2 \<Longrightarrow> frame w w2"
  by (auto simp: frame_def)

lemma frame_put_session [simp]:
  "frame w (put_session sid s w1) \<longleftrightarrow> frame w w1" "frame (put_session sid s w1) w \<longleftrightarrow> frame w1 w"
  by (simp_all add: frame_def sap_of_def lock_def put_session_def)

lemma frame_push_event [simp]:
  "frame w (push_event e w1) \<longleftrightarrow> frame w w1" "frame (push_event e w1) w \<longleftrightarrow> frame w1 w"
  by (simp_all add: frame_def sap_of_def lock_def push_event_def)

lemma frame_set_links [simp]:
  "frame w (set_links sid ls w1) \<longleftrightarrow> frame w w1" "frame (set_links sid ls w1) w \<longleftrightarrow> frame w1 w"
  by (simp_all add: set_links_def split: option.split)

lemma frame_set_host [simp]:
  "frame w (set_host sid h w1) \<longleftrightarrow> frame w w1" "frame (set_host sid h w1) w \<longleftrightarrow> frame w1 w"
  by (simp_all add: set_host_def split: option.split session_kind.split)

lemma frame_lists [simp]:
  "frame w (w1\<lparr>w_SessionLists := x\<rparr>) \<longleftrightarrow> frame w w1" "frame (w1\<lparr>w_SessionLists := x\<rparr>) w \<longleftrightarrow> frame w1 w"
  by (simp_all add: frame_def sap_of_def lock_def)

lemma frame_SessionBase: "SessionBase data kind w = (sid, w') \<Longrightarrow> frame w w'"
  by (auto simp: SessionBase_def frame_def sap_of_def lock_def)

lemma frame_put_link:
  "lock w i = Some l \<Longrightarrow> l_address l' = l_address l \<Longrightarrow> l_socket l' = l_socket l \<Longrightarrow> frame w (put_link i l' w)"
  by (simp add: frame_def sap_of_def lock_def put_link_def sm_ok_set)

lemma frame_put_comps [simp]:
  "lock w i = Some l \<Longrightarrow> frame w (put_link i (l\<lparr>l_comps := m\<rparr>) w)"
  "lock w i = Some l \<Longrightarrow> frame w (put_link i (l\<lparr>l_md := md\<rparr>) w)"
  by (rule frame_put_link; simp)+

text \<open>First an update of the components of a link, then the rest.\<close>

lemma frame_after:
  "frame (put_link i (l\<lparr>l_comps := m\<rparr>) w) w' \<Longrightarrow> lock w i = Some l \<Longrightarrow> frame w w'"
  by (rule frame_trans [OF frame_put_comps(1)])

lemma deref_Inr: "deref i w = Inr l \<longleftrightarrow> lock w i = Some l"
  by (simp add: deref_def split: option.split)

lemma frame_on_comps [frames]: "on_comps i f w = Inr w' \<Longrightarrow> frame w w'"
  by (auto simp: on_comps_def rbind_eq_Inr deref_Inr intro: frame_put_link)

lemma frame_bufferMsg [frames]: "bufferMsg data ch sid w = Inr w' \<Longrightarrow> frame w w'"
  by (auto simp: bufferMsg_def rbind_eq_Inr split: if_splits)

lemma frame_base_addLink [frames]: "base_addLink i sid w = Inr w' \<Longrightarrow> frame w w'"
  by (force simp: base_addLink_def rbind_eq_Inr deref_Inr intro: frame_put_link)

text \<open>A loop over the links of a session: a relation between the state and world before and after that is
  reflexive and transitive and holds for the callback and for the removal of expired links holds for
  the loop.\<close>

lemma forLink_rel:
  assumes refl: "\<And>s w. R s w s w"
    and trans: "\<And>s w s1 w1 s2 w2. R s w s1 w1 \<Longrightarrow> R s1 w1 s2 w2 \<Longrightarrow> R s w s2 w2"
    and links: "\<And>s w ls. R s w s (set_links sid ls w)"
    and cb: "\<And>i s w s1 w1. cb i s w = Inr (s1, w1) \<Longrightarrow> R s w s1 w1"
  shows "forLink_from exclude cb sid k s w = Inr (s', w') \<Longrightarrow> R s w s' w'"
proof (induction "length (links_of sid w) - k" arbitrary: k s w rule: less_induct)
  case less
  let ?ls = "links_of sid w"
  show ?case
  proof (cases "k \<ge> length ?ls")
    case True
    with less.prems show ?thesis by (simp add: forLink_from.simps [of exclude cb sid k] refl)
  next
    case k: False
    then have ne: "?ls \<noteq> []" by auto
    show ?thesis
    proof (cases "lock w (?ls ! k)")
      case None
      let ?w = "set_links sid (take k ?ls @ drop (Suc k) ?ls) w"
      have "forLink_from exclude cb sid k s ?w = Inr (s', w')"
        using less.prems k None by (subst (asm) forLink_from.simps) (simp add: Let_def)
      from less.hyps [OF _ this] k links_of_set_links [OF ne] have "R s ?w s' w'" by fastforce
      then show ?thesis by (rule trans [OF links])
    next
      case (Some sl)
      show ?thesis
      proof (cases "Some (?ls ! k) = exclude")
        case True
        then have "forLink_from exclude cb sid (Suc k) s w = Inr (s', w')"
          using less.prems k Some by (subst (asm) forLink_from.simps) (simp add: Let_def)
        from less.hyps [OF _ this] k show ?thesis by simp
      next
        case False
        then obtain s1 w1 where c: "cb (?ls ! k) s w = Inr (s1, w1)" "links_of sid w1 = ?ls"
            "forLink_from exclude cb sid (Suc k) s1 w1 = Inr (s', w')"
          using less.prems k Some by (subst (asm) forLink_from.simps) (auto simp: Let_def split: sum.splits if_splits)
        from less.hyps [OF _ c(3)] c(2) k show ?thesis using trans [OF cb [OF c(1)]] by simp
      qed
    qed
  qed
qed

lemma forLink_rule:
  assumes "\<And>s w. R s w s w" and "\<And>s w s1 w1 s2 w2. R s w s1 w1 \<Longrightarrow> R s1 w1 s2 w2 \<Longrightarrow> R s w s2 w2"
    and "\<And>s w ls. R s w s (set_links sid ls w)" and "\<And>i s w s1 w1. cb i s w = Inr (s1, w1) \<Longrightarrow> R s w s1 w1"
    and "forLink exclude cb sid s w = Inr (s', w')"
  shows "R s w s' w'"
proof -
  have "forLink_from exclude cb sid 0 s w = Inr (s', w')" using assms(5) by (auto simp: forLink_def rbind_eq_Inr)
  then show ?thesis by (rule forLink_rel [where R = R, rotated 4]) (use assms(1-4) in blast)+
qed

lemma frame_forLink:
  assumes "\<And>i s w s1 w1. cb i s w = Inr (s1, w1) \<Longrightarrow> frame w w1" and "forLink exclude cb sid s w = Inr (s', w')"
  shows "frame w w'"
  by (rule forLink_rule [where R = "\<lambda>s w s' w'. frame w w'", OF _ _ _ _ assms(2)]) (auto intro: frame_trans assms(1))

lemma frame_send [frames]: "sendReliable_packets data session ex buffer ch w = Inr (r, w') \<Longrightarrow> frame w w'"
proof -
  assume a: "sendReliable_packets data session ex buffer ch w = Inr (r, w')"
  let ?cb = "\<lambda>i (queued :: bool) w. rbind (on_comps i (link_enqueue ch data) w) (\<lambda>w'. Inr (True, w'))"
  have cb: "frame w w1" if "?cb i s w = Inr (s1, w1)" for i s w s1 w1
    using that by (auto elim!: resE dest: frames)
  show ?thesis
  proof (cases session)
    case None
    with a show ?thesis by (auto simp: sendReliable_packets_def elim!: resE split: option.splits dest: frames)
  next
    case (Some sid)
    then obtain w1 q where w1: "(if buffer then bufferMsg data ch sid w else Inr w) = Inr w1"
        and fl: "forLink ex ?cb sid False w1 = Inr (q, w')"
      using a by (auto simp: sendReliable_packets_def elim!: resE simp del: if_split_asm)
    have "frame w w1" using w1 by (auto elim!: resE split: if_splits dest: frames)
    from frame_trans [OF this frame_forLink [OF cb fl]] show ?thesis .
  qed
qed

lemma frame_rpc [frames]:
  "sendReliable_serializers dataId session ex bs n buffer relay sys c w = Inr (r, w') \<Longrightarrow> frame w w'"
  "sendReliable dataId session ex b n buffer relay c w = Inr (r, w') \<Longrightarrow> frame w w'"
  "priv_send_rpc name b session ex buffer relay sys c w = Inr (r, w') \<Longrightarrow> frame w w'"
  "callRpc nm args i w = Inr (r, w') \<Longrightarrow> frame w w'"
  "callRpc_session nm args sid ex w = Inr (r, w') \<Longrightarrow> frame w w'"
  by (auto simp: sendReliable_serializers_def sendReliable_def priv_send_rpc_def callRpc_def callRpc_session_def
      elim!: resE split: if_splits dest: frames)

lemma frame_elect: "elect_host js hs host w = (h, w') \<Longrightarrow> frame w w'"
proof (induction js hs host w rule: elect_host.induct)
  case (2 j js hs host w)
  show ?case
  proof (cases "lock w j")
    case None
    with 2 show ?thesis by simp
  next
    case (Some sl)
    obtain c m where cm: "cc_getOrAdd LinkStats 0 (fresh LinkStats) (l_comps sl) = (c, m)" by fastforce
    have "frame w (put_link j (sl\<lparr>l_comps := m\<rparr>) w)" using Some by (intro frame_put_link) simp_all
    moreover have "frame (put_link j (sl\<lparr>l_comps := m\<rparr>) w) w'"
      using 2(2) [OF Some cm [symmetric] refl refl] 2(3) [OF Some cm [symmetric] refl refl] 2(4) Some cm
      by (simp add: Let_def split: if_splits)
    ultimately show ?thesis by (rule frame_trans)
  qed
qed simp

lemma frame_session_ops [frames]:
  "setMasterLink i sid w = Inr w' \<Longrightarrow> frame w w'"
  "updateHost a sid w = Inr w' \<Longrightarrow> frame w w'"
  "normal_removeLink i sid w = Inr w' \<Longrightarrow> frame w w'"
  "removeSelf sid w = Inr w' \<Longrightarrow> frame w w'"
  "session_start sid w = Inr (b, w') \<Longrightarrow> frame w w'"
  by (auto simp: setMasterLink_def updateHost_def normal_removeLink_def removeSelf_def session_start_def Let_def
      elim!: resE split: session_kind.splits option.splits if_splits)

lemma frame_replace_host [frames]: "replace_host i sid others host w = Inr w' \<Longrightarrow> frame w w'"
proof -
  assume a: "replace_host i sid others host w = Inr w'"
  obtain h w1 where e: "elect_host others 0 host w = (h, w1)" by fastforce
  have "frame (set_host sid h w1) w'" using a e
    by (auto simp: replace_host_def Let_def elim!: resE split: option.splits dest!: frames intro: frame_trans)
  then show ?thesis using frame_elect [OF e] by (auto intro: frame_trans)
qed

lemma frame_master_removeLink [frames]: "master_removeLink i sid w = Inr w' \<Longrightarrow> frame w w'"
  by (auto simp: master_removeLink_def Let_def elim!: resE split: option.splits if_splits dest!: frames)

lemma frame_master_addLink [frames]: "master_addLink i sid w = Inr (b, w') \<Longrightarrow> frame w w'"
  by (auto simp: master_addLink_def elim!: resE split: option.splits if_splits dest!: frames) (blast intro: frame_trans)+

lemma frame_connect_peers [frames]: "connect_peers i a js w = Inr w' \<Longrightarrow> frame w w'"
proof (induction js arbitrary: w)
  case (Cons j js)
  then show ?case by (auto elim!: resE split: option.splits dest!: frames intro: frame_trans)
qed simp

lemma frame_session_calls [frames]:
  "sendConnectRequests i sid w = Inr w' \<Longrightarrow> frame w w'"
  "session_addLink i sid w = Inr (b, w') \<Longrightarrow> frame w w'"
  "session_removeLink i sid w = Inr w' \<Longrightarrow> frame w w'"
  by (auto simp: sendConnectRequests_def session_addLink_def session_removeLink_def 
      elim!: resE split: session_kind.splits option.splits if_splits dest!: frames)

lemma frame_registerSession: "registerSession i data w = (sid, w') \<Longrightarrow> frame w w'"
  by (auto simp: registerSession_def addSession_def elim!: resE split: option.splits prod.splits dest!: frame_SessionBase)

lemma frame_link_ops [frames]:
  "link_connect md i w = Inr (b, w') \<Longrightarrow> frame w w'"
  "mm_registerServer cb data md i w = Inr (b, w') \<Longrightarrow> frame w w'"
  "mm_joinServer cb sf md i w = Inr (b, w') \<Longrightarrow> frame w w'"
  "updateCustomMatchmakingMd md i w = Inr w' \<Longrightarrow> frame w w'"
  by (auto simp: link_connect_def mm_registerServer_def mm_joinServer_def updateCustomMatchmakingMd_def Let_def deref_Inr
      elim!: resE split: prod.splits if_splits dest!: frames elim: frame_after)

lemma frame_disconnect_parts [frames]:
  "notify_disconnect k rc d i w = Inr w' \<Longrightarrow> frame w w'"
  "leave_session session i w = Inr w' \<Longrightarrow> frame w w'"
  by (auto simp: notify_disconnect_def leave_session_def elim!: resE split: if_splits option.splits dest!: frames)

lemma frame_link_disconnect [frames]: "link_disconnect k rc rm i w = Inr (b, w') \<Longrightarrow> frame w w'"
  by (auto simp: link_disconnect_def Let_def deref_Inr elim!: resE split: option.splits prod.splits if_splits dest!: frames)
    (blast intro: frame_trans dest: frame_after)+

lemma frame_handlers [frames]:
  "linkStateNewConnection md a i w = Inr w' \<Longrightarrow> frame w w'"
  "linkStateDisconnect k a i w = Inr w' \<Longrightarrow> frame w w'"
  "linkStateAccepted md i w = Inr w' \<Longrightarrow> frame w w'"
  "masterSessionNewHost a i w = Inr w' \<Longrightarrow> frame w w'"
  "masterLinkRpcRegisterResult b i w = Inr w' \<Longrightarrow> frame w w'"
  "masterLinkRpcJoinResult b i w = Inr w' \<Longrightarrow> frame w w'"
  "masterLinkRpcStartSession i w = Inr w' \<Longrightarrow> frame w w'"
  by (auto simp: linkStateNewConnection_def linkStateDisconnect_def linkStateAccepted_def masterSessionNewHost_def Let_def
      masterLinkRpcRegisterResult_def masterLinkRpcJoinResult_def masterLinkRpcStartSession_def deref_Inr
      elim!: resE split: option.splits prod.splits if_splits dest!: frames)
    (blast intro: frame_trans)+

lemma frame_collect: "collect_connected j al w = Inr (al', w') \<Longrightarrow> frame w w'"
  by (auto simp: collect_connected_def elim!: resE)

lemma frame_announce [frames]: "announce_connection md a i sid w = Inr w' \<Longrightarrow> frame w w'"
  by (auto simp: announce_connection_def elim!: resE dest!: frames frame_forLink [of collect_connected, OF frame_collect, rotated])
    (blast intro: frame_trans)

lemma frame_linkStateConnect [frames]: "linkStateConnect md i w = Inr w' \<Longrightarrow> frame w w'"
  by (auto simp: linkStateConnect_def Let_def deref_Inr elim!: resE split: prod.splits if_splits dest!: frames)
    (blast dest: frame_after)+

lemma frame_master_handlers [frames]:
  "masterLinkRpcRegisterServer data md i w = Inr w' \<Longrightarrow> frame w w'"
  "masterLinkRpcJoinServer sf md i w = Inr w' \<Longrightarrow> frame w w'"
  by (auto simp: masterLinkRpcRegisterServer_def masterLinkRpcJoinServer_def
      elim!: resE split: prod.splits option.splits dest!: frames frame_registerSession)
    (blast intro: frame_trans)+

lemma frame_forEachLink:
  assumes "\<And>i s s1. cb i s = Inr s1 \<Longrightarrow> frame (wld s) (wld s1)"
    and "forEachLink_from cb wld k s = Inr s'"
  shows "frame (wld s) (wld s')"
  using assms
proof (induction cb wld k s rule: forEachLink_from.induct [case_names visit])
  case (visit cb wld k s)
  show ?case
  proof (cases "k < 2 ^ 32 - 1 \<and> k < length (w_linkArray (wld s))")
    case True
    then obtain s1 where s1: "cb (w_linkArray (wld s) ! k) s = Inr s1" "forEachLink_from cb wld (Suc k) s1 = Inr s'"
      using visit.prems(2) by (subst (asm) forEachLink_from.simps) (auto elim!: resE)
    show ?thesis by (rule frame_trans [OF visit.prems(1) [OF s1(1)] visit.IH [OF True visit.prems(1) s1(2)]])
  next
    case False
    then show ?thesis using visit.prems(2) by (subst (asm) forEachLink_from.simps) auto
  qed
qed

lemma frame_resendRound [frames]:
  assumes "resendThread os_sendto lm time (out, w) = Inr (out', w')"
  shows "frame w w'"
proof -
  have "frame (snd s) (snd s1)" if "resend_link os_sendto time i s = Inr s1" for i s s1
    using that by (cases s) (auto simp: resend_link_def deref_Inr elim!: resE)
  from frame_forEachLink [of "resend_link os_sendto time" snd, OF this] assms
  show ?thesis by (fastforce simp: resendThread_def forEachLink_def split: if_splits)
qed

lemma frame_disconnects [frames]:
  "session_disconnect sid w = Inr (b, w') \<Longrightarrow> frame w w'"
  "disconnectAll w = Inr (b, w') \<Longrightarrow> frame w w'"
  by (auto simp: session_disconnect_def disconnectAll_def forEachLink_def elim!: resE
      dest!: frame_forLink [rotated] frame_forEachLink [where wld = "\<lambda>w. w", rotated] dest: frames)

section \<open>The invariant\<close>

definition lm_inv :: "world \<Rightarrow> bool" where
  "lm_inv w \<longleftrightarrow> sm_ok (w_links w) \<and> sm_ok (w_linkMap w) \<and> distinct (w_linkArray w) \<and>
     set (w_linkArray w) = snd ` set (w_linkMap w) \<and>
     (\<forall>sap i. sm_find (w_linkMap w) sap = Some i \<longrightarrow> sap_of w i = Some sap) \<and>
     (\<forall>i. sap_of w i \<noteq> None \<longrightarrow> i < w_nextLink w)"

declare split_paired_All [simp del] split_paired_Ex [simp del]

lemma lm_inv_init: "lm_inv (Network_init sid)"
  by (simp add: lm_inv_def Network_init_def sap_of_def lock_def)

lemma lm_inv_frame: "lm_inv w \<Longrightarrow> frame w w' \<Longrightarrow> lm_inv w'"
  by (simp add: lm_inv_def frame_def)

lemma lm_inv_mapped: "lm_inv w \<Longrightarrow> i \<in> snd ` set (w_linkMap w) \<Longrightarrow> sap_of w i \<noteq> None"
proof -
  assume inv: "lm_inv w" and "i \<in> snd ` set (w_linkMap w)"
  then obtain sap where "(sap, i) \<in> set (w_linkMap w)" by auto
  then have "sm_find (w_linkMap w) sap = Some i" using inv by (auto simp: lm_inv_def intro: sm_mem_find)
  then show ?thesis using inv by (simp add: lm_inv_def)
qed

lemma lm_inv_new_id: "lm_inv w \<Longrightarrow> w_nextLink w \<notin> snd ` set (w_linkMap w)"
  using lm_inv_mapped [of w "w_nextLink w"] unfolding lm_inv_def by blast

lemma sap_of_put_link: "sap_of (put_link i l w) j = (if j = i then Some (l_address l, l_socket l) else sap_of w j)"
  by (simp add: sap_of_def lock_def put_link_def)

lemma sap_of_simps [simp]: "sap_of (w\<lparr>w_nextLink := n\<rparr>) j = sap_of w j" "sap_of (w\<lparr>w_recv := ts\<rparr>) j = sap_of w j"
  by (simp_all add: sap_of_def lock_def)

lemma lm_inv_new_link:
  assumes "lm_inv w" and "l_address l = fst sap" and "l_socket l = snd sap"
  shows "lm_inv ((put_link (w_nextLink w) l w)\<lparr>w_nextLink := Suc (w_nextLink w)\<rparr>)"
proof -
  have "sap_of (put_link (w_nextLink w) l w) j = Some s" if "sm_find (w_linkMap w) s = Some j" for s j
  proof -
    have "j \<noteq> w_nextLink w" using lm_inv_new_id [OF assms(1)] sm_find_Some_mem [OF that] by force
    with that assms(1) show ?thesis by (simp add: sap_of_put_link lm_inv_def)
  qed
  moreover have "w_linkMap (put_link (w_nextLink w) l w) = w_linkMap w" "w_linkArray (put_link (w_nextLink w) l w) = w_linkArray w"
      "sm_ok (w_links (put_link (w_nextLink w) l w))"
    using assms(1) by (simp_all add: put_link_def lm_inv_def sm_ok_set)
  ultimately show ?thesis using assms(1) by (auto simp: lm_inv_def sap_of_put_link less_SucI)
qed

lemma lm_inv_destroy:
  assumes "lm_inv w" and "destroy_link i w = Inr w'" and "i \<notin> snd ` set (w_linkMap w)"
  shows "lm_inv w' \<and> w_linkMap w' = w_linkMap w \<and> w_linkArray w' = w_linkArray w"
proof -
  obtain ts where w': "w' = w\<lparr>w_recv := ts, w_links := sm_erase i (w_links w)\<rparr>"
    using assms(2) by (auto simp: destroy_link_def elim!: resE)
  have ok: "sm_ok (w_links w)" using assms(1) by (simp add: lm_inv_def)
  have sap: "sap_of w' j = (if j = i then None else sap_of w j)" for j
    using sm_find_erase [OF ok] by (simp add: w' sap_of_def lock_def)
  have "sap_of w' j = Some s" if "sm_find (w_linkMap w) s = Some j" for s j
  proof -
    have "j \<noteq> i" using assms(3) sm_find_Some_mem [OF that] by force
    with that assms(1) show ?thesis by (simp add: sap lm_inv_def)
  qed
  moreover have "sm_ok (w_links w')" using ok by (simp add: w' sm_ok_erase)
  moreover have "j < w_nextLink w" if "sap_of w' j \<noteq> None" for j using that assms(1) by (auto simp: sap lm_inv_def split: if_splits)
  ultimately show ?thesis using assms(1) by (auto simp: lm_inv_def w')
qed

lemma link_create_inv:
  assumes "lm_inv w" and "link_create sockname session sap w = Inr (r, w')"
  shows "lm_inv w'" and "w_linkMap w' = w_linkMap w" and "w_linkArray w' = w_linkArray w"
    and "r = Some i \<Longrightarrow> i \<notin> snd ` set (w_linkMap w) \<and> sap_of w' i = Some sap"
proof -
  obtain source err where src: "createSource sockname (snd sap) = Inr (source, err)"
    using assms(2) by (auto simp: link_create_def elim!: resE)
  have "lm_inv w' \<and> w_linkMap w' = w_linkMap w \<and> w_linkArray w' = w_linkArray w \<and>
    (\<forall>i. r = Some i \<longrightarrow> i \<notin> snd ` set (w_linkMap w) \<and> sap_of w' i = Some sap)"
  proof (cases source)
    case None
    then obtain ts where "w' = w\<lparr>w_recv := ts\<rparr>" "r = None" using assms(2) src by (auto simp: link_create_def elim!: resE)
    with assms(1) show ?thesis by (simp add: lm_inv_def)
  next
    case (Some sr)
    let ?n = "w_nextLink w"
    define w1 where "w1 = (put_link ?n (new_link (snd sap) (fst sap) sr) w)\<lparr>w_nextLink := Suc ?n\<rparr>"
    have inv1: "lm_inv w1" unfolding w1_def by (rule lm_inv_new_link [OF assms(1)]) (simp_all add: new_link_def)
    have m1: "w_linkMap w1 = w_linkMap w" "w_linkArray w1 = w_linkArray w" "sap_of w1 ?n = Some sap"
      by (simp_all add: w1_def put_link_def) (simp add: sap_of_def lock_def new_link_def)
    note fresh = lm_inv_new_id [OF assms(1)]
    show ?thesis
    proof (cases session)
      case None
      then show ?thesis using assms(2) src Some inv1 m1 fresh by (auto simp: link_create_def w1_def [symmetric] Let_def)
    next
      case s: (Some sid)
      obtain ok w2 where a: "session_addLink ?n sid w1 = Inr (ok, w2)"
          and e: "(if \<not> ok then rbind (destroy_link ?n w2) (\<lambda>w3. Inr (None, w3)) else Inr (Some ?n, w2)) = Inr (r, w')"
        using assms(2) src Some s by (auto simp: link_create_def w1_def [symmetric] Let_def elim!: resE)
      have f: "frame w1 w2" using a by (rule frames)
      have inv2: "lm_inv w2" using lm_inv_frame [OF inv1 f] .
      have m2: "w_linkMap w2 = w_linkMap w" "w_linkArray w2 = w_linkArray w" "sap_of w2 ?n = Some sap"
        using f m1 by (simp_all add: frame_def)
      show ?thesis
      proof (cases ok)
        case True
        then show ?thesis using e inv2 m2 fresh by auto
      next
        case False
        then obtain w3 where w3: "destroy_link ?n w2 = Inr w3" "r = None" "w' = w3" using e by (auto elim!: resE)
        from lm_inv_destroy [OF inv2 w3(1)] w3 m2 fresh show ?thesis by simp
      qed
    qed
  qed
  then show "lm_inv w'" and "w_linkMap w' = w_linkMap w" and "w_linkArray w' = w_linkArray w"
    and "r = Some i \<Longrightarrow> i \<notin> snd ` set (w_linkMap w) \<and> sap_of w' i = Some sap" by blast+
qed

lemma set_sm_set_new: "sm_find m k = None \<Longrightarrow> set (sm_set k v m) = insert (k, v) (set m)"
  by (induction k v m rule: sm_set.induct) auto

lemma lm_inv_insert:
  assumes "lm_inv w" and "sm_find (w_linkMap w) sap = None" and "i \<notin> snd ` set (w_linkMap w)" and "sap_of w i = Some sap"
  shows "lm_inv (lm_insert sap i w)"
proof -
  have "sap_of (lm_insert sap i w) j = sap_of w j" for j by (simp add: lm_insert_def sap_of_def lock_def)
  then show ?thesis using assms by (auto simp: lm_inv_def lm_insert_def sm_ok_set set_sm_set_new)
qed

lemma lm_inv_add: "lm_inv w \<Longrightarrow> lm_add sockname sid sap w = Inr (r, w') \<Longrightarrow> lm_inv w'"
proof -
  assume inv: "lm_inv w" and a: "lm_add sockname sid sap w = Inr (r, w')"
  then obtain r1 w1 where c: "link_create sockname (Some sid) sap w = Inr (r1, w1)" by (auto simp: lm_add_def elim!: resE)
  note l = link_create_inv [OF inv c]
  show ?thesis
  proof (cases r1)
    case None
    with a c l show ?thesis by (auto simp: lm_add_def)
  next
    case (Some i)
    show ?thesis
    proof (cases "sm_find (w_linkMap w1) sap")
      case None
      with a c Some have "w' = lm_insert sap i w1" by (auto simp: lm_add_def)
      with lm_inv_insert [OF l(1) None] l(2) l(4) [OF Some] show ?thesis by simp
    next
      case (Some j)
      then have "destroy_link i w1 = Inr w'" using a c \<open>r1 = Some i\<close> by (auto simp: lm_add_def elim!: resE)
      from lm_inv_destroy [OF l(1) this] l(2) l(4) [OF \<open>r1 = Some i\<close>] show ?thesis by simp
    qed
  qed
qed

lemma lm_inv_getOrAdd:
  assumes "lm_inv w" and "lm_getOrAdd sockname session sap w = Inr (b, r, w')"
  shows "lm_inv w' \<and> (\<forall>i. r = Some i \<longrightarrow> sap_of w' i = Some sap \<and> sm_find (w_linkMap w') sap = Some i)"
proof (cases "sm_find (w_linkMap w) sap")
  case (Some i)
  with assms show ?thesis by (auto simp: lm_getOrAdd_def lm_inv_def)
next
  case None
  then obtain r1 w1 where c: "link_create sockname session sap w = Inr (r1, w1)" using assms(2)
    by (auto simp: lm_getOrAdd_def elim!: resE)
  note l = link_create_inv [OF assms(1) c]
  show ?thesis
  proof (cases r1)
    case N: None
    with assms(2) None c l show ?thesis by (auto simp: lm_getOrAdd_def)
  next
    case (Some i)
    then have w': "w' = lm_insert sap i w1" "r = Some i" using assms(2) None c by (auto simp: lm_getOrAdd_def)
    have "lm_inv w'" using lm_inv_insert [OF l(1)] None l(2) l(4) [OF Some] w' by simp
    then show ?thesis using w' by (simp add: lm_inv_def) (simp add: lm_insert_def)
  qed
qed

section \<open>All operations\<close>

text \<open>A step of the network: a public call, the reception of a datagram or the execution of a remote call
  on a link, with any arguments. Steps that end the process are not steps.\<close>

inductive net_step :: "(u32 \<Rightarrow> int + byte list) \<Rightarrow> world \<Rightarrow> world \<Rightarrow> bool" for sockname where
  register: "registerServer sockname sock junk cb ma nm ty p2p cj ra mc pw hmd cmd w = Inr (r, w') \<Longrightarrow> net_step sockname w w'"
| join: "joinServer sockname sock junk cb ma nm ty r1 r2 p1 p2 fp fc jmd cmd w = Inr (r, w') \<Longrightarrow> net_step sockname w w'"
| send: "sendReliable dataId session ex b n buffer relay c w = Inr (res, w') \<Longrightarrow> net_step sockname w w'"
| kick: "network_kick i w = Inr (b, w') \<Longrightarrow> net_step sockname w w'"
| disconnect: "network_disconnect i w = Inr (b, w') \<Longrightarrow> net_step sockname w w'"
| disconnect_session: "session_disconnect sid w = Inr (b, w') \<Longrightarrow> net_step sockname w w'"
| disconnect_all: "disconnectAll w = Inr (b, w') \<Longrightarrow> net_step sockname w w'"
| packet: "handleReceivedPacket sockname lost sock rcv w = Some (Inr (job, w')) \<Longrightarrow> net_step sockname w w'"
| new_connection: "linkStateNewConnection md a i w = Inr w' \<Longrightarrow> net_step sockname w w'"
| disconnected: "linkStateDisconnect k a i w = Inr w' \<Longrightarrow> net_step sockname w w'"
| accepted: "linkStateAccepted md i w = Inr w' \<Longrightarrow> net_step sockname w w'"
| connect: "linkStateConnect md i w = Inr w' \<Longrightarrow> net_step sockname w w'"
| connect_to: "masterSessionConnectTo sockname a i w = Inr w' \<Longrightarrow> net_step sockname w w'"
| new_host: "masterSessionNewHost a i w = Inr w' \<Longrightarrow> net_step sockname w w'"
| register_result: "masterLinkRpcRegisterResult ok i w = Inr w' \<Longrightarrow> net_step sockname w w'"
| join_result: "masterLinkRpcJoinResult ok i w = Inr w' \<Longrightarrow> net_step sockname w w'"
| register_server: "masterLinkRpcRegisterServer data md i w = Inr w' \<Longrightarrow> net_step sockname w w'"
| join_server: "masterLinkRpcJoinServer sf md i w = Inr w' \<Longrightarrow> net_step sockname w w'"
| resend: "resendThread os_sendto lm time ([], w) = Inr (out, w') \<Longrightarrow> net_step sockname w w'"
| start_session: "masterLinkRpcStartSession i w = Inr w' \<Longrightarrow> net_step sockname w w'"

abbreviation net_reach :: "(u32 \<Rightarrow> int + byte list) \<Rightarrow> world \<Rightarrow> bool" where
  "net_reach sockname \<equiv> reachable (\<lambda>w. \<exists>sid. w = Network_init sid) (net_step sockname)"

lemma lm_inv_session: "lm_inv w \<Longrightarrow> SessionBase data kind w = (sid, w1) \<Longrightarrow> lm_inv w1"
  by (rule lm_inv_frame [OF _ frame_SessionBase])

lemma lm_inv_register:
  assumes "lm_inv w"
  shows "registerServer sockname sock junk cb ma nm ty p2p cj ra mc pw hmd cmd w = Inr (r, w') \<Longrightarrow> lm_inv w'"
    and "joinServer sockname sock junk cb ma nm ty r1 r2 p1 p2 fp fc jmd cmd w = Inr (r, w') \<Longrightarrow> lm_inv w'"
  using assms
  by (auto simp: registerServer_def joinServer_def elim!: resE split: option.splits prod.splits
      dest!: frames)
    (blast intro: lm_inv_frame dest: lm_inv_session lm_inv_add)+

lemma lm_inv_packet:
  assumes "lm_inv w" and "handleReceivedPacket sockname lost sock rcv w = Some (Inr (job, w'))"
  shows "lm_inv w'"
proof -
  obtain r data etp err where rcv: "rcv = (r, data, etp, err)" by (cases rcv)
  consider "w' = w" | b w1 a where "lm_getOrAdd sockname None (a, sock) w = Inr (b, None, w1)" "w' = w1"
    | b w1 a i l m where "lm_getOrAdd sockname None (a, sock) w = Inr (b, Some i, w1)" "lock w1 i = Some l"
        "w' = put_link i (l\<lparr>l_comps := m\<rparr>) w1"
    using assms(2) unfolding handleReceivedPacket_def rcv
    by (auto simp: deref_Inr elim!: resE split: if_splits sum.splits prod.splits option.splits)
  then show ?thesis
  proof cases
    case 3
    then show ?thesis using lm_inv_getOrAdd [OF assms(1)] lm_inv_frame frame_put_comps(1) by blast
  qed (use assms(1) lm_inv_getOrAdd in blast)+
qed

lemma lm_inv_connect_to: "lm_inv w \<Longrightarrow> masterSessionConnectTo sockname a i w = Inr w' \<Longrightarrow> lm_inv w'"
  by (auto simp: masterSessionConnectTo_def elim!: resE split: option.splits prod.splits dest!: frames)
    (blast intro: lm_inv_frame dest: lm_inv_getOrAdd)+

lemma lm_inv_step: "net_step sockname w w' \<Longrightarrow> lm_inv w \<Longrightarrow> lm_inv w'"
proof (induction rule: net_step.induct)
  case (kick i w b w')
  then show ?case by (auto simp: network_kick_def dest: frames intro: lm_inv_frame)
next
  case (disconnect i w b w')
  then show ?case by (auto simp: network_disconnect_def dest: frames intro: lm_inv_frame)
qed (auto dest: frames lm_inv_register lm_inv_packet lm_inv_connect_to intro: lm_inv_frame)

interpretation net: state_machine "\<lambda>w. \<exists>sid. w = Network_init sid" "net_step sockname" lm_inv
  by unfold_locales (auto intro: lm_inv_init lm_inv_step)

lemma net_reach_more: "net_reach sockname w \<Longrightarrow> net_step sockname w w' \<Longrightarrow> net_reach sockname w'"
  by (rule reachable.more)

lemma net_reach_init: "net_reach sockname (Network_init sid)"
  by (rule reachable.start) blast

lemma snd_image_iff: "y \<in> snd ` S \<longleftrightarrow> (\<exists>x. (x, y) \<in> S)"
  by force

section \<open>Properties\<close>

text \<open>C24: Whatever calls, datagrams and remote calls a network has processed, its link manager is
  consistent: a link found under an address and a socket is alive and has that address and socket, the
  array that the send thread walks holds every link of the map exactly once, and no two of its links
  have the same address and socket.\<close>

theorem link_manager_consistent:
  assumes "net_reach sockname w"
  shows "(\<forall>sap i. lm_get sap w = Some i \<longrightarrow> (\<exists>l. lock w i = Some l \<and> (l_address l, l_socket l) = sap)) \<and>
    distinct (w_linkArray w) \<and> (\<forall>i. i \<in> set (w_linkArray w) \<longleftrightarrow> (\<exists>sap. lm_get sap w = Some i)) \<and>
    inj_on (sap_of w) (set (w_linkArray w))"
proof -
  have inv: "lm_inv w" using net.invariant [OF assms] .
  have ok: "sm_ok (w_linkMap w)" using inv by (simp add: lm_inv_def)
  have get: "lm_get sap w = Some i \<Longrightarrow> sap_of w i = Some sap" for sap i using inv by (simp add: lm_inv_def lm_get_def)
  have arr: "i \<in> set (w_linkArray w) \<longleftrightarrow> (\<exists>sap. lm_get sap w = Some i)" for i
  proof -
    have "i \<in> set (w_linkArray w) \<longleftrightarrow> (\<exists>sap. (sap, i) \<in> set (w_linkMap w))" 
      using inv snd_image_iff [of i "set (w_linkMap w)"] by (simp add: lm_inv_def)
    also have "\<dots> \<longleftrightarrow> (\<exists>sap. lm_get sap w = Some i)"
      using sm_mem_find [OF ok] sm_find_Some_mem unfolding lm_get_def by metis
    finally show ?thesis .
  qed
  have "inj_on (sap_of w) (set (w_linkArray w))"
  proof (rule inj_onI)
    fix i j assume "i \<in> set (w_linkArray w)" "j \<in> set (w_linkArray w)" and eq: "sap_of w i = sap_of w j"
    then obtain s t where st: "lm_get s w = Some i" "lm_get t w = Some j" using arr by blast
    have "s = t" using get [OF st(1)] get [OF st(2)] eq by simp
    with st show "i = j" by simp
  qed
  moreover have "distinct (w_linkArray w)" using inv by (simp add: lm_inv_def)
  ultimately show ?thesis using arr get by (auto simp: sap_of_def)
qed

theorem link_manager_consistent_witness:
  "\<exists>w. net_reach (\<lambda>s. Inr []) w \<and> w_linkArray w = [0] \<and> distinct (w_linkArray w)"
proof -
  let ?rcv = "(Recv_Succes, [0, 0, 0, 0, 26, 0] :: byte list, createEmpty, 0 :: int)"
  have "case handleReceivedPacket (\<lambda>s. Inr []) False 5 ?rcv (Network_init 0) of Some (Inr (None, w)) \<Rightarrow> w_linkArray w = [0] | _ \<Rightarrow> False"
    by code_simp
  then obtain w where w: "handleReceivedPacket (\<lambda>s. Inr []) False 5 ?rcv (Network_init 0) = Some (Inr (None, w))" "w_linkArray w = [0]"
    by (auto split: option.splits sum.splits prod.splits)
  then have r: "net_reach (\<lambda>s. Inr []) w" using net_reach_more [OF net_reach_init net_step.packet] by blast
  from link_manager_consistent [OF r] r w(2) show ?thesis by blast
qed

end
