(* ===== verification/Network_Sending.thy ===== *)
theory Network_Sending
  imports Link_Registry
begin

text \<open>
  What reaches whom: a remote call whose arguments fit in a packet is queued on its link, a message to a
  session is queued on every live link of the session except the excluded one, and a link that joins
  later gets the buffered messages first.
\<close>

section \<open>Remote calls\<close>

context codec
begin

lemma ser_arg_ok:
  assumes "bs_inv s" and "m_Owns s" and "valid x" and "length (content s) + length (enc x) \<le> max_stream"
  shows "\<exists>s'. ser_arg put x s = Inr s' \<and> appended s (enc x) s'"
  using put_ok [OF assms] by (auto simp: ser_arg_def)

end

text \<open>The packet of a remote call: the header, the name with its terminating null, and the arguments.\<close>

definition rpc_image :: "string \<Rightarrow> byte list \<Rightarrow> bool \<Rightarrow> byte list" where
  "rpc_image nm args sysBit =
     [comp_byte ReliableSend, makeChannelAndFlags 0 False sysBit True True, packet_RPC] @ cstr nm @ [0] @ args"

definition args_write :: "(bin_serializer \<Rightarrow> bin_serializer res) \<Rightarrow> byte list \<Rightarrow> bool" where
  "args_write args bytes \<longleftrightarrow> (\<exists>bs. args bs_reset = Inr bs \<and> appended bs_reset bytes bs)"

lemma rpc_packet_ok:
  assumes "string_ok (cstr nm)" and "bs_inv payload" and "length nm + 1 + length (content payload) \<le> 1894"
  shows "\<exists>bn b. write_string (cstr nm) bs_reset = Inr (True, bn) \<and>
    createNormalPacket (comp_byte ReliableSend) packet_RPC [bn, payload] 2 0 False sys MM_MAX_FRAGMENTSIZE = Inr [b] \<and>
    bs_inv b \<and> content b = rpc_image nm (content payload) sys"
proof -
  obtain bn where bn: "write_string (cstr nm) bs_reset = Inr (True, bn)" "bs_inv bn" "content bn = cstr nm @ [0]"
    using string_codec.put_ok [of bs_reset "cstr nm"] assms by (auto simp: appended_def max_stream_def cstr_def)
  let ?msg = "cstr nm @ [0] @ content payload"
  have msg: "concat (map content [bn, payload]) = ?msg" using bn(3) by simp
  have c: "chop (nat (1900 - 6)) ?msg = [?msg]" using assms(3) by (subst chop.simps) (simp add: cstr_def)
  have l: "length (concat (map content [bn, payload])) < 2 ^ 32" unfolding msg using assms(3) by (simp add: cstr_def)
  have iv: "\<forall>b \<in> set [bn, payload]. bs_inv b" using bn(2) assms(2) by simp
  obtain b where "createNormalPacket (comp_byte ReliableSend) packet_RPC [bn, payload] 2 0 False sys 1900 = Inr [b]"
      "content b = rpc_image nm (content payload) sys" "bs_inv b"
    using createNormalPacket_ok [OF iv l, of 1900 "comp_byte ReliableSend" packet_RPC 0 False sys] c
    unfolding msg by (auto simp: rpc_image_def numeral_2_eq_2)
  with bn(1) show ?thesis by (auto simp: MM_MAX_FRAGMENTSIZE_def)
qed

text \<open>The packets that a call hands to \<open>sendReliable\<close> are one packet with the call.\<close>

lemma priv_send_rpc_eq:
  assumes "string_ok (cstr nm)" and "args_write args bytes" and "length nm + 1 + length bytes \<le> 1894"
  shows "\<exists>b. bs_inv b \<and> content b = rpc_image nm bytes sys \<and>
    (\<forall>session ex w. rbind (args bs_reset) (\<lambda>bs. priv_send_rpc (cstr nm) bs session ex False False sys 0 w) =
       sendReliable_packets [b] session ex False 0 w)"
proof -
  obtain bs where bs: "args bs_reset = Inr bs" "bs_inv bs" "content bs = bytes"
    using assms(2) by (auto simp: args_write_def appended_def)
  obtain bn b where "write_string (cstr nm) bs_reset = Inr (True, bn)"
    "createNormalPacket (comp_byte ReliableSend) packet_RPC [bn, bs] 2 0 False sys MM_MAX_FRAGMENTSIZE = Inr [b]"
    "bs_inv b" "content b = rpc_image nm bytes sys"
    using rpc_packet_ok [OF assms(1) bs(2), of sys] assms(3) bs(3) by auto
  with bs show ?thesis by (auto simp: priv_send_rpc_def sendReliable_serializers_def checked_def)
qed

text \<open>The world after packets were queued on a link.\<close>

definition queue_on :: "nat \<Rightarrow> nat \<Rightarrow> bin_serializer list \<Rightarrow> world \<Rightarrow> world" where
  "queue_on ch i ps w = (case lock w i of None \<Rightarrow> w | Some l \<Rightarrow> put_link i (l\<lparr>l_comps := link_enqueue ch ps (l_comps l)\<rparr>) w)"

lemma callRpc_ok:
  assumes "string_ok (cstr nm)" and "args_write args bytes" and "length nm + 1 + length bytes \<le> 1894" and "lock w i \<noteq> None"
  shows "\<exists>b. bs_inv b \<and> content b = rpc_image nm bytes True \<and> callRpc nm args i w = Inr (Send_Fine, queue_on 0 i [b] w)"
proof -
  obtain b where "bs_inv b" "content b = rpc_image nm bytes True"
      "callRpc nm args i w = sendReliable_packets [b] None (Some i) False 0 w"
    using priv_send_rpc_eq [OF assms(1-3), of True] by (auto simp: callRpc_def)
  with assms(4) show ?thesis by (auto simp: sendReliable_packets_def on_comps_def deref_def queue_on_def)
qed

section \<open>Messages to a session\<close>

lemma lock_queue_on [simp]:
  "lock (queue_on ch i ps w) j = (if j = i then map_option (\<lambda>l. l\<lparr>l_comps := link_enqueue ch ps (l_comps l)\<rparr>) (lock w i) else lock w j)"
  by (auto simp: queue_on_def put_link_def lock_def split: option.split)

lemma queue_on_rest [simp]:
  "w_sessions (queue_on ch i ps w) = w_sessions w" "links_of sid (queue_on ch i ps w) = links_of sid w"
  "w_SessionLists (queue_on ch i ps w) = w_SessionLists w"
  by (simp_all add: queue_on_def put_link_def links_of_def split: option.split)

lemma lock_set_links [simp]: "lock (set_links sid ls w) = lock w"
  by (simp add: set_links_def put_session_def lock_def fun_eq_iff split: option.split)

text \<open>The callback of \<open>sendReliable\<close>, and the links on which it runs.\<close>

definition send_cb :: "nat \<Rightarrow> bin_serializer list \<Rightarrow> nat \<Rightarrow> bool \<Rightarrow> world \<Rightarrow> (bool \<times> world) res" where
  "send_cb ch ps i queued w = rbind (on_comps i (link_enqueue ch ps) w) (\<lambda>w'. Inr (True, w'))"

definition receivers :: "nat option \<Rightarrow> world \<Rightarrow> nat list \<Rightarrow> nat list" where
  "receivers ex w ls = filter (\<lambda>j. lock w j \<noteq> None \<and> Some j \<noteq> ex) ls"

lemma send_cb_eq: "lock w i \<noteq> None \<Longrightarrow> send_cb ch ps i q w = Inr (True, queue_on ch i ps w)"
  by (auto simp: send_cb_def on_comps_def deref_def queue_on_def)

lemma receivers_cong: "(\<And>j. (lock w' j = None) = (lock w j = None)) \<Longrightarrow> receivers ex w' ls = receivers ex w ls"
  by (simp add: receivers_def)

text \<open>The loop from a position: every receiver gets the packets once for each time it is in the rest of the
  list, expired links are dropped, nothing else changes.\<close>

lemma forLink_send:
  "\<exists>w'. forLink_from ex (send_cb ch ps) sid k q w = Inr (q \<or> receivers ex w (drop k (links_of sid w)) \<noteq> [], w') \<and>
     (distinct (drop k (links_of sid w)) \<longrightarrow> (\<forall>j. lock w' j =
        (if j \<in> set (receivers ex w (drop k (links_of sid w)))
         then map_option (\<lambda>l. l\<lparr>l_comps := link_enqueue ch ps (l_comps l)\<rparr>) (lock w j) else lock w j)))"
proof (induction "length (links_of sid w) - k" arbitrary: k q w rule: less_induct)
  case less
  let ?ls = "links_of sid w"
  show ?case
  proof (cases "k < length ?ls")
    case False
    then show ?thesis by (simp add: forLink_from.simps [of ex "send_cb ch ps" sid k] receivers_def)
  next
    case k: True
    then have ne: "?ls \<noteq> []" and d: "drop k ?ls = ?ls ! k # drop (Suc k) ?ls" by (auto simp: Cons_nth_drop_Suc)
    show ?thesis
    proof (cases "lock w (?ls ! k)")
      case None
      let ?w = "set_links sid (take k ?ls @ drop (Suc k) ?ls) w"
      have e: "forLink_from ex (send_cb ch ps) sid k q w = forLink_from ex (send_cb ch ps) sid k q ?w"
        using k None by (subst forLink_from.simps) (simp add: Let_def)
      have l: "drop k (links_of sid ?w) = drop (Suc k) ?ls" "length (links_of sid ?w) - k < length ?ls - k"
        using k by (simp_all add: links_of_set_links [OF ne])
      have "receivers ex w (drop k ?ls) = receivers ex ?w (drop (Suc k) ?ls)" unfolding d using None by (simp add: receivers_def)
      then show ?thesis using less.hyps [OF l(2), of q] d unfolding e l(1) by auto
    next
      case (Some sl)
      show ?thesis
      proof (cases "Some (?ls ! k) = ex")
        case True
        then have e: "forLink_from ex (send_cb ch ps) sid k q w = forLink_from ex (send_cb ch ps) sid (Suc k) q w"
          using k Some by (subst forLink_from.simps) (simp add: Let_def)
        have "receivers ex w (drop k ?ls) = receivers ex w (drop (Suc k) ?ls)" unfolding d using True by (simp add: receivers_def)
        moreover have "length ?ls - Suc k < length ?ls - k" using k by simp
        ultimately show ?thesis using less.hyps [of w "Suc k" q] d unfolding e by force
      next
        case False
        let ?w = "queue_on ch (?ls ! k) ps w"
        have e: "forLink_from ex (send_cb ch ps) sid k q w = forLink_from ex (send_cb ch ps) sid (Suc k) True ?w"
          using k Some False by (subst forLink_from.simps) (simp add: Let_def send_cb_eq)
        have r: "receivers ex w (drop k ?ls) = ?ls ! k # receivers ex ?w (drop (Suc k) ?ls)"
          unfolding d using Some False by (auto simp: receivers_def intro: filter_cong)
        have "set (receivers ex ?w (drop (Suc k) ?ls)) \<subseteq> set (drop (Suc k) ?ls)" by (auto simp: receivers_def)
        moreover have "length (links_of sid ?w) - Suc k < length ?ls - k" using k by simp
        moreover note less.hyps [OF this, of True]
        ultimately show ?thesis using d r unfolding e by (elim exE conjE, intro exI) auto
      qed
    qed
  qed
qed

lemma send_session:
  assumes "sm_find (w_sessions w) sid = Some s"
  shows "\<exists>w'. sendReliable_packets ps (Some sid) ex False ch w =
      Inr (if receivers ex w (s_Links s) = [] then Send_NotSent else Send_Fine, w') \<and>
    (distinct (s_Links s) \<longrightarrow> (\<forall>j. lock w' j =
        (if j \<in> set (receivers ex w (s_Links s))
         then map_option (\<lambda>l. l\<lparr>l_comps := link_enqueue ch ps (l_comps l)\<rparr>) (lock w j) else lock w j)))"
proof -
  have l: "links_of sid w = s_Links s" using assms by (simp add: links_of_def)
  have "sendReliable_packets ps (Some sid) ex False ch w =
      rbind (forLink_from ex (send_cb ch ps) sid 0 False w) (\<lambda>(q, w'). Inr (if q then Send_Fine else Send_NotSent, w'))"
    using assms by (simp add: sendReliable_packets_def forLink_def get_session_def send_cb_def [abs_def])
  with forLink_send [of ex ch ps sid 0 False w] show ?thesis unfolding l by auto
qed

section \<open>Buffered messages\<close>

definition buffered_of :: "nat \<Rightarrow> world \<Rightarrow> bin_serializer list list option" where
  "buffered_of sid w = map_option s_BufferedPackets (sm_find (w_sessions w) sid)"

lemma buffered_of_simps [simp]:
  "buffered_of sid (put_link i l w) = buffered_of sid w" "buffered_of sid (set_links k ls w) = buffered_of sid w"
  by (auto simp: buffered_of_def put_link_def set_links_def put_session_def split: option.split)

lemma buffered_of_send:
  assumes "sendReliable_packets ps (Some sid) ex False ch w = Inr (r, w')"
  shows "buffered_of i w' = buffered_of i w"
proof -
  obtain q where "forLink ex (send_cb ch ps) sid False w = Inr (q, w')"
    using assms by (auto simp: sendReliable_packets_def send_cb_def [abs_def] elim!: resE)
  then show ?thesis
    by (rule forLink_rule [where R = "\<lambda>s w s' w'. buffered_of i w' = buffered_of i w", rotated 4])
      (auto simp: send_cb_def on_comps_def elim!: resE)
qed

lemma sendReliable_buffer:
  "sendReliable_packets ps (Some sid) ex True ch w =
     rbind (bufferMsg ps ch sid w) (\<lambda>w1. sendReliable_packets ps (Some sid) ex False ch w1)"
  by (cases "bufferMsg ps ch sid w") (simp_all add: sendReliable_packets_def)

lemma comp_at_enqueue:
  "comp_at ReliableSend j (link_enqueue ch ps m) =
     (if j = ch then CReliableSend (enqueue_list ps (as_send (comp_at ReliableSend ch m))) else comp_at ReliableSend j m)"
  by (simp add: link_enqueue_def comp_at_on_comp)

lemma comp_at_enqueue_fold:
  "distinct chs \<Longrightarrow> as_send (comp_at ReliableSend j (foldl (\<lambda>m ch. link_enqueue ch (b ! ch) m) m chs)) =
     (if j \<in> set chs then enqueue_list (b ! j) (as_send (comp_at ReliableSend j m)) else as_send (comp_at ReliableSend j m))"
  by (induction chs arbitrary: m) (auto simp: comp_at_enqueue)

section \<open>Links without a session\<close>

lemma link_session_None: "lock w i = Some l \<Longrightarrow> l_session l = None \<Longrightarrow> link_session i w = Inl NullDeref"
  by (simp add: link_session_def deref_def)

lemma created_without_session:
  assumes "link_create sockname None sap w = Inr (Some i, w')"
  shows "\<exists>l. lock w' i = Some l \<and> l_session l = None"
  using assms
  by (auto simp: link_create_def new_link_def Let_def lock_def put_link_def elim!: resE split: option.splits prod.splits)

lemma getOrAdd_without_session:
  assumes "lm_getOrAdd sockname None sap w = Inr (b, Some i, w')" and "sm_find (w_linkMap w) sap = None"
  shows "\<exists>l. lock w' i = Some l \<and> l_session l = None \<and> sm_find (w_linkMap w') sap = Some i"
  using assms created_without_session [of sockname sap w i]
  by (auto simp: lm_getOrAdd_def lm_insert_def lock_def elim!: resE split: option.splits prod.splits)

section \<open>Leaving while the session is traversed\<close>

lemma memcmp_self [simp]: "memcmp a a n = 0"
proof (induction a arbitrary: n)
  case (Cons x a)
  then show ?case by (cases n) auto
qed simp

lemma link_eq_self [simp]: "link_eq l l"
  by (simp add: link_eq_def ep_eq_def)

lemma link_eq_comps [simp]: "link_eq (l\<lparr>l_comps := m\<rparr>) l' = link_eq l l'" "link_eq l' (l\<lparr>l_comps := m\<rparr>) = link_eq l' l"
  by (simp_all add: link_eq_def)

lemma callRpc_links:
  assumes "callRpc nm args i w = Inr (r, w')"
  shows "w_sessions w' = w_sessions w"
  using assms
  by (auto simp: callRpc_def priv_send_rpc_def sendReliable_serializers_def sendReliable_packets_def on_comps_def put_link_def elim!: resE)

lemma notify_sessions: "notify_disconnect k rcv d i w = Inr w' \<Longrightarrow> w_sessions w' = w_sessions w"
  by (auto simp: notify_disconnect_def push_event_def elim!: resE split: if_splits dest: callRpc_links)

lemma disconnect_shrinks:
  assumes s: "sm_find (w_sessions w) sid = Some s" "s_kind s = KSession a b c" and j: "j \<in> set (s_Links s)"
    and l: "lock w j = Some l" "l_session l = Some sid" "cc_get LinkState 0 (l_comps l) = Some x"
    and d: "link_disconnect False False True j w = Inr (r, w')"
  shows "links_of sid w' \<noteq> s_Links s"
proof -
  obtain w2 w3 where w2: "w_sessions w2 = w_sessions w" and w3: "session_removeLink j sid w2 = Inr w3" "w' = w3"
  proof -
    let ?w1 = "put_link j (l\<lparr>l_comps := put_state (snd (ls_disconnect (as_state x))) (l_comps l)\<rparr>) w"
    obtain w2 where w2: "(if fst (ls_disconnect (as_state x)) then notify_disconnect False False (l_address l) j ?w1 else Inr ?w1) = Inr w2"
        "session_removeLink j sid w2 = Inr w'"
      using d l by (auto simp: link_disconnect_def deref_def leave_session_def Let_def case_prod_unfold elim!: resE)
    have "w_sessions w2 = w_sessions w" using w2(1) notify_sessions by (fastforce simp: put_link_def split: if_splits)
    with w2(2) that show ?thesis by blast
  qed
  have n: "normal_removeLink j sid w2 = Inr w'" using w3 w2 s by (simp add: session_removeLink_def get_session_def)
  then obtain l2 where l2: "lock w2 j = Some l2" "links_of sid w' = filter (keeps w2 l2) (s_Links s)"
    using w2 s by (auto simp: normal_removeLink_def get_session_def deref_Inr links_of_def put_session_def elim!: resE)
  then have "\<not> keeps w2 l2 j" by (simp add: keeps_def)
  with j l2(2) show ?thesis by (metis filter_id_conv)
qed

section \<open>Examples\<close>

text \<open>A session with two links on the matchmaking server, the first of them its host and the second one
  with the given score; \<open>p2p\<close> says whether it is a peer to peer session.\<close>

definition example_data :: "bool \<Rightarrow> master_session_data" where
  "example_data p2p = \<lparr>m_IsP2p = p2p, m_UsedMatchmaker = True, m_IsPrivate = False, m_Rating = 0, m_MaxClients = 4,
     m_CanJoinAfterStart = True, m_Name = [], m_Type = [], m_Password = [], m_MetaData = []\<rparr>"

definition example_filter :: search_filter where
  "example_filter = \<lparr>sf_Name = [], sf_Type = [], sf_MinRating = 0, sf_MaxRating = 0, sf_MinPlayers = 0, sf_MaxPlayers = 8,
     sf_FindPrivate = False, sf_FindP2p = True, sf_FindClientServer = True, sf_CustomMatchmakingMd = []\<rparr>"

definition example_session :: "bool \<Rightarrow> session" where
  "example_session p2p = \<lparr>s_Id = 0, s_Started = False, s_MasterData = example_data p2p, s_Links = [0, 1],
     s_BufferedPackets = replicate MM_NUM_CHANNELS [], s_Listeners = [], s_kind = KMaster (Some 0) False (Some 0)\<rparr>"

definition example_link :: "u32 \<Rightarrow> u32 \<Rightarrow> link" where
  "example_link sock points = \<lparr>l_session = Some 0, l_socket = sock, l_address = createEmpty, l_source = createEmpty, l_md = [],
     l_comps = cc_put LinkStats 0 (CLinkStats (LinkStats_init\<lparr>m_HostScore := points\<rparr>)) []\<rparr>"

definition example_world :: "bool \<Rightarrow> world" where
  "example_world p2p = (Network_init 1)\<lparr>w_links := [(0, example_link 5 0), (1, example_link 6 9)], w_nextLink := 2,
     w_sessions := [(0, example_session p2p)], w_nextSession := 1, w_SessionLists := [[0]]\<rparr>"

lemma example_facts:
  "sm_find (w_sessions (example_world p2p)) 0 = Some (example_session p2p)"
  "s_kind (example_session p2p) = KMaster (Some 0) False (Some 0)"
  "lock (example_world p2p) 0 = Some (example_link 5 0)"
  "lock (example_world p2p) 1 = Some (example_link 6 9)"
  "find_pos (example_world p2p) (example_link 5 0) (s_Links (example_session p2p)) 0 = Inr (Some 0)"
  "s_Links (example_session p2p) = [0, 1]"
  "w_SessionLists (example_world p2p) = [[0]]"
  by (simp_all add: example_world_def Network_init_def lock_def deref_def link_eq_def example_session_def example_link_def ep_eq_def)

section \<open>Properties\<close>

text \<open>The comparison that orders the links of the \<open>LinkManager\<close> is the lexicographic order of address
  bytes and socket, and the equality of links is the equality of both: the pairs are strictly and
  totally ordered, as a map key has to be.\<close>

theorem sap_less_lexicographic:
  assumes "endpoint_ok (fst a)" and "endpoint_ok (fst b)"
  shows "(sap_less a b \<longleftrightarrow> a < b) \<and> (sap_less a b \<or> sap_less b a \<or> a = b)"
proof -
  obtain x m y n where ab: "a = (x, m)" "b = (y, n)" by (cases a, cases b)
  have "ep_less x y \<longleftrightarrow> x < y" "ep_less y x \<longleftrightarrow> y < x" "ep_eq x y \<longleftrightarrow> x = y" "ep_eq y x \<longleftrightarrow> x = y"
    using assms ab ep_order [of x y] ep_order [of y x] by auto
  then show ?thesis unfolding ab sap_less_def by (simp add: less_prod_def') fastforce
qed

theorem sap_less_lexicographic_witness:
  "sap_less (createEmpty, 5) (createEmpty, 6) \<and> (sap_less (createEmpty, 6) (createEmpty, 5) = ((createEmpty, 6 :: u32) < (createEmpty, 5)))"
  using sap_less_lexicographic [of "(createEmpty, 5)" "(createEmpty, 6)"]
    sap_less_lexicographic [of "(createEmpty, 6)" "(createEmpty, 5)"] by (simp add: less_prod_def')

text \<open>C25: A message to a session is queued, after what is already queued there, on every link of the session
  that is alive and not excluded, on the given channel, and on no other link; the call returns \<open>Fine\<close>
  exactly if there is such a link.\<close>

theorem session_send_reaches:
  assumes "sm_find (w_sessions w) sid = Some s" and "distinct (s_Links s)"
  shows "\<exists>w'. sendReliable_packets ps (Some sid) ex False ch w =
      Inr (if \<exists>j. j \<in> set (s_Links s) \<and> lock w j \<noteq> None \<and> Some j \<noteq> ex then Send_Fine else Send_NotSent, w') \<and>
    (\<forall>j. lock w' j =
        (if j \<in> set (s_Links s) \<and> Some j \<noteq> ex
         then map_option (\<lambda>l. l\<lparr>l_comps := link_enqueue ch ps (l_comps l)\<rparr>) (lock w j) else lock w j))"
proof -
  have m: "receivers ex w (s_Links s) = [] \<longleftrightarrow> \<not> (\<exists>j. j \<in> set (s_Links s) \<and> lock w j \<noteq> None \<and> Some j \<noteq> ex)"
    "j \<in> set (receivers ex w (s_Links s)) \<longleftrightarrow> j \<in> set (s_Links s) \<and> lock w j \<noteq> None \<and> Some j \<noteq> ex" for j
    unfolding receivers_def by (auto simp: filter_empty_conv)
  from send_session [OF assms(1), of ps ex ch] obtain w' where w':
    "sendReliable_packets ps (Some sid) ex False ch w = Inr (if receivers ex w (s_Links s) = [] then Send_NotSent else Send_Fine, w')"
    "\<And>j. lock w' j = (if j \<in> set (receivers ex w (s_Links s))
       then map_option (\<lambda>l. l\<lparr>l_comps := link_enqueue ch ps (l_comps l)\<rparr>) (lock w j) else lock w j)"
    using assms(2) by blast
  show ?thesis using w' unfolding m by (intro exI [of _ w']) auto
qed

theorem session_send_reaches_witness:
  "\<exists>w'. sendReliable_packets [bs_reset] (Some 0) (Some 0) False 2 (example_world True) = Inr (Send_Fine, w') \<and>
     lock w' 0 = Some (example_link 5 0) \<and>
     lock w' 1 = Some ((example_link 6 9)\<lparr>l_comps := link_enqueue 2 [bs_reset] (l_comps (example_link 6 9))\<rparr>)"
proof -
  have "distinct (s_Links (example_session True))" by (simp add: example_facts)
  from session_send_reaches [OF example_facts(1) this, of "[bs_reset]" "Some 0" 2] obtain w' where
    e: "sendReliable_packets [bs_reset] (Some 0) (Some 0) False 2 (example_world True) =
      Inr (if \<exists>j. j \<in> {0, 1} \<and> lock (example_world True) j \<noteq> None \<and> Some j \<noteq> Some 0 then Send_Fine else Send_NotSent, w')"
    and l: "\<And>j. lock w' j = (if j \<in> {0, 1} \<and> Some j \<noteq> Some 0
         then map_option (\<lambda>l. l\<lparr>l_comps := link_enqueue 2 [bs_reset] (l_comps l)\<rparr>) (lock (example_world True) j)
         else lock (example_world True) j)"
    unfolding example_facts by auto
  have "\<exists>j. j \<in> {0, 1} \<and> lock (example_world True) j \<noteq> None \<and> Some j \<noteq> Some 0" by (rule exI [of _ 1]) (simp add: example_facts del: One_nat_def)
  with e l [of 0] l [of 1] show ?thesis by (simp add: example_facts del: One_nat_def)
qed

text \<open>C26: A link that joins a session after a message was sent to the session with buffering gets that
  message: its send queue on that channel becomes what it was, then the messages buffered before, then
  this one, in the order in which they were sent.\<close>

theorem late_joiner_gets_buffered:
  assumes "sendReliable_packets ps (Some sid) ex True ch w = Inr (r, w1)" and "sm_find (w_sessions w) sid = Some s"
    and "length (s_BufferedPackets s) = MM_NUM_CHANNELS" and "ch < MM_NUM_CHANNELS" and "lock w1 i = Some l"
  shows "\<exists>w2 l2. base_addLink i sid w1 = Inr w2 \<and> lock w2 i = Some l2 \<and> l_session l2 = Some sid \<and> i \<in> set (links_of sid w2) \<and>
    as_send (comp_at ReliableSend ch (l_comps l2)) =
      enqueue_list (s_BufferedPackets s ! ch @ ps) (as_send (comp_at ReliableSend ch (l_comps l)))"
proof -
  have "buffered_of sid w1 = Some ((s_BufferedPackets s)[ch := s_BufferedPackets s ! ch @ ps])"
    using assms(1-4) by (auto simp: sendReliable_buffer bufferMsg_def get_session_def put_session_def elim!: resE
        dest!: buffered_of_send [where i = sid] simp: buffered_of_def)
  then obtain s1 where s1: "sm_find (w_sessions w1) sid = Some s1"
      "s_BufferedPackets s1 = (s_BufferedPackets s)[ch := s_BufferedPackets s ! ch @ ps]"
    by (auto simp: buffered_of_def)
  show ?thesis using s1 assms(3-5)
    by (simp add: base_addLink_def get_session_def deref_def lock_def put_session_def put_link_def links_of_def
        enqueue_buffered_def comp_at_enqueue_fold)
qed

theorem late_joiner_gets_buffered_witness:
  "\<exists>w1 w2 l2. sendReliable_packets [bs_reset] (Some 0) None True 2 (example_world True) = Inr (Send_Fine, w1) \<and>
     base_addLink 1 0 w1 = Inr w2 \<and> lock w2 1 = Some l2 \<and> l_session l2 = Some 0"
proof -
  let ?w = "example_world True"
  have b: "s_BufferedPackets (example_session True) = replicate MM_NUM_CHANNELS []" by (simp add: example_session_def)
  obtain wb where wb: "bufferMsg [bs_reset] 2 0 ?w = Inr wb" "sm_find (w_sessions wb) 0 \<noteq> None" "lock wb = lock ?w" "links_of 0 wb = [0, 1]"
    by (simp add: bufferMsg_def get_session_def example_facts b MM_NUM_CHANNELS_def put_session_def lock_def fun_eq_iff links_of_def)
  then obtain s where s: "sm_find (w_sessions wb) 0 = Some s" "s_Links s = [0, 1]" by (auto simp: links_of_def)
  have r: "receivers None wb (s_Links s) = [0, 1]" "distinct (s_Links s)"
    by (simp_all add: s(2) receivers_def wb(3) example_facts del: One_nat_def)
  from send_session [OF s(1), of "[bs_reset]" None 2] r obtain w1 where
    w1: "sendReliable_packets [bs_reset] (Some 0) None False 2 wb = Inr (Send_Fine, w1)" "lock w1 1 \<noteq> None"
    by (auto simp: wb(3) example_facts simp del: One_nat_def)
  then have e: "sendReliable_packets [bs_reset] (Some 0) None True 2 ?w = Inr (Send_Fine, w1)"
    by (simp add: sendReliable_buffer wb(1))
  obtain l where l: "lock w1 1 = Some l" using w1(2) by blast
  have "length (s_BufferedPackets (example_session True)) = MM_NUM_CHANNELS" "2 < MM_NUM_CHANNELS"
    by (simp_all add: b MM_NUM_CHANNELS_def)
  from late_joiner_gets_buffered [OF e example_facts(1) this l] e show ?thesis by blast
qed



text \<open>The handler of \<open>linkStateAccepted\<close> never runs: whatever the packet holds, reading its second
  argument calls a method through a null pointer. So the peer that accepted a connection takes the
  other side down instead of telling it.\<close>

theorem linkStateAccepted_unreadable: "\<exists>e. rpc_dsr_linkStateAccepted bs i w = Some (Inl e)"
  by (simp add: rpc_dsr_linkStateAccepted_def read_addr_list_def split: sum.split)

text \<open>A link that is made for the first datagram of an unknown peer has no session, so a remote call that
  uses the session of its link ends in a null dereference: a peer that is not introduced by the
  matchmaking server cannot connect.\<close>

theorem first_contact_has_no_session:
  assumes "handleReceivedPacket sockname False sock (Recv_Succes, data, etp, 0) w = Some (Inr (job, w'))"
    and "endpoint_ok etp" and "lm_get (etp, sock) w = None" and "lm_get (etp, sock) w' = Some i"
  shows "linkStateConnect md i w' = Inl NullDeref \<and> linkStateDisconnect kick a i w' = Inl NullDeref \<and>
    masterSessionNewHost a i w' = Inl NullDeref \<and> masterLinkRpcStartSession i w' = Inl NullDeref"
proof -
  have n: "sm_find (w_linkMap w) (etp, sock) = None" "sm_find (w_linkMap w') (etp, sock) = Some i" using assms(3,4) by (simp_all add: lm_get_def)
  have len: "int (length data) \<ge> MM_MIN_HDR_SIZE"
    using assms(1) n by (auto simp: handleReceivedPacket_def split: if_splits)
  obtain b r w1 where g: "lm_getOrAdd sockname None (etp, sock) w = Inr (b, r, w1)"
    using assms(1) len by (auto simp: handleReceivedPacket_def getCopyDerived_ok [OF assms(2)] split: if_splits sum.splits prod.splits)
  have "\<exists>l. lock w' i = Some l \<and> l_session l = None"
  proof (cases r)
    case None
    then have "w' = w1" using assms(1) len g by (simp add: handleReceivedPacket_def getCopyDerived_ok [OF assms(2)])
    moreover have "w_linkMap w1 = w_linkMap w"
      using g n None by (auto simp: lm_getOrAdd_def link_create_def Let_def elim!: resE split: option.splits prod.splits)
    ultimately show ?thesis using n by simp
  next
    case (Some k)
    then obtain l where l: "lock w1 k = Some l" "l_session l = None" "sm_find (w_linkMap w1) (etp, sock) = Some k"
      using getOrAdd_without_session [of sockname "(etp, sock)" w b k w1] g n by blast
    then obtain m where "w' = put_link k (l\<lparr>l_comps := m\<rparr>) w1"
      using assms(1) len g Some
      by (auto simp: handleReceivedPacket_def getCopyDerived_ok [OF assms(2)] deref_def split: option.splits sum.splits prod.splits)
    with l n show ?thesis by (simp add: put_link_def lock_def)
  qed
  then have "link_session i w' = Inl NullDeref" by (auto intro: link_session_None)
  then show ?thesis
    by (simp add: linkStateConnect_def linkStateDisconnect_def masterSessionNewHost_def masterLinkRpcStartSession_def)
qed

theorem first_contact_has_no_session_witness:
  "\<exists>w. lm_get (createEmpty, 5) w = Some 0 \<and> linkStateConnect [] 0 w = Inl NullDeref"
proof -
  let ?rcv = "(Recv_Succes, [0, 0, 0, 0, 26, 0] :: byte list, createEmpty, 0 :: int)"
  have "case handleReceivedPacket (\<lambda>s. Inr []) False 5 ?rcv (Network_init 0) of Some (Inr (j, w)) \<Rightarrow> lm_get (createEmpty, 5) w = Some 0 | _ \<Rightarrow> False"
    by code_simp
  then obtain j w where w: "handleReceivedPacket (\<lambda>s. Inr []) False 5 ?rcv (Network_init 0) = Some (Inr (j, w))" "lm_get (createEmpty, 5) w = Some 0"
    by (auto split: option.splits sum.splits prod.splits)
  have "lm_get (createEmpty, 5) (Network_init 0) = None" by (simp add: lm_get_def Network_init_def)
  from first_contact_has_no_session [OF w(1) createEmpty_ok this w(2)] w(2) show ?thesis by blast
qed

end
