(* ===== verification/Matchmaking.thy ===== *)
theory Matchmaking
  imports Network_Sending "HOL-Library.Multiset"
begin

text \<open>
  What the matchmaking server guarantees: the search for a session, the lists of sessions, the choice
  of a new host, and when a session can be joined.
\<close>

section \<open>Search\<close>

definition session_matches :: "search_filter \<Rightarrow> world \<Rightarrow> nat \<Rightarrow> bool" where
  "session_matches sf w sid = (case sm_find (w_sessions w) sid of None \<Rightarrow> False | Some s \<Rightarrow> matches sf s)"

lemma findFromFilter_find: "findFromFilter sf w sids = find (session_matches sf w) sids"
  by (induction sids) (auto simp: session_matches_def split: option.split)

lemma find_append: "find P (xs @ ys) = (case find P xs of Some x \<Rightarrow> Some x | None \<Rightarrow> find P ys)"
  by (induction xs) auto

lemma findServer_find: "findServer sf w sls = find (session_matches sf w) (concat sls)"
  by (induction sls) (auto simp: findFromFilter_find find_append split: option.split)

section \<open>Lists\<close>

lemma first_open_Some:
  "first_open sls k = Some li \<Longrightarrow> k \<le> li \<and> li < k + length sls \<and> length (sls ! (li - k)) < MM_NEW_SERVER_LIST_THRESHOLD"
proof (induction sls k rule: first_open.induct)
  case (2 sl sls k)
  then show ?case by (auto simp: nth_Cons' split: if_splits)
qed simp

lemma first_open_None: "first_open sls k = None \<Longrightarrow> \<forall>sl \<in> set sls. MM_NEW_SERVER_LIST_THRESHOLD \<le> length sl"
  by (induction sls k rule: first_open.induct) (auto split: if_splits)

definition lists_ok :: "world \<Rightarrow> bool" where
  "lists_ok w \<longleftrightarrow> (\<forall>sl \<in> set (w_SessionLists w). length sl \<le> MM_NEW_SERVER_LIST_THRESHOLD)"

lemma addSession_lists:
  assumes "addSession host data li w = (sid, w')"
  shows "w_SessionLists w' = (w_SessionLists w)[li := w_SessionLists w ! li @ [sid]]" and "sid = w_nextSession w"
    and "sm_find (w_sessions w') sid = Some \<lparr>s_Id = w_NextSessionId w, s_Started = False, s_MasterData = data, s_Links = [],
           s_BufferedPackets = replicate MM_NUM_CHANNELS [], s_Listeners = [], s_kind = KMaster (Some host) False (Some li)\<rparr>"
    and "w_links w' = w_links w" and "i \<noteq> sid \<Longrightarrow> sm_find (w_sessions w') i = sm_find (w_sessions w) i"
  using assms by (auto simp: addSession_def SessionBase_def)

lemma mset_concat_update:
  "li < length xss \<Longrightarrow> mset (concat (xss[li := xss ! li @ [x]])) = add_mset x (mset (concat xss))"
proof (induction xss arbitrary: li)
  case (Cons xs xss)
  then show ?case by (cases li) auto
qed simp

text \<open>What registering does to the lists and the sessions.\<close>

lemma registerSession_eq:
  assumes "registerSession link data w = (sid, w')"
  shows "\<exists>li. sm_find (w_sessions w') sid = Some \<lparr>s_Id = w_NextSessionId w, s_Started = False, s_MasterData = data, s_Links = [],
           s_BufferedPackets = replicate MM_NUM_CHANNELS [], s_Listeners = [], s_kind = KMaster (Some link) False (Some li)\<rparr> \<and>
    li < length (w_SessionLists w') \<and> sid \<in> set (w_SessionLists w' ! li) \<and> w_links w' = w_links w \<and> sid = w_nextSession w \<and>
    (\<forall>i. i \<noteq> sid \<longrightarrow> sm_find (w_sessions w') i = sm_find (w_sessions w) i) \<and>
    mset (concat (w_SessionLists w')) = add_mset sid (mset (concat (w_SessionLists w))) \<and>
    (lists_ok w \<longrightarrow> lists_ok w')"
proof (cases "first_open (w_SessionLists w) 0")
  case (Some li)
  have a: "addSession link data li w = (sid, w')" using assms Some by (simp add: registerSession_def)
  note l = addSession_lists [OF a]
  from first_open_Some [OF Some] have li: "li < length (w_SessionLists w)" "length (w_SessionLists w ! li) < MM_NEW_SERVER_LIST_THRESHOLD"
    by simp_all
  have "lists_ok w'" if "lists_ok w"
    using that li set_update_subset_insert [of "w_SessionLists w" li "w_SessionLists w ! li @ [sid]"]
    by (auto simp: lists_ok_def l(1))
  then show ?thesis using l li mset_concat_update [OF li(1)] by (intro exI [of _ li]) simp
next
  case None
  let ?w = "w\<lparr>w_SessionLists := w_SessionLists w @ [[]]\<rparr>"
  have a: "addSession link data (length (w_SessionLists w)) ?w = (sid, w')" using assms None by (simp add: registerSession_def)
  note l = addSession_lists [OF a]
  have "lists_ok w'" if "lists_ok w"
    using that by (auto simp: lists_ok_def l(1) MM_NEW_SERVER_LIST_THRESHOLD_def)
  then show ?thesis using l by (intro exI [of _ "length (w_SessionLists w)"]) simp
qed

section \<open>Sending changes no session\<close>

text \<open>The part of a session that sending does not change.\<close>

definition core :: "session \<Rightarrow> session_kind \<times> master_session_data \<times> bool" where
  "core s = (s_kind s, s_MasterData s, s_Started s)"

definition core_of :: "world \<Rightarrow> nat \<Rightarrow> (session_kind \<times> master_session_data \<times> bool) option" where
  "core_of w sid = map_option core (sm_find (w_sessions w) sid)"

definition same_sessions :: "world \<Rightarrow> world \<Rightarrow> bool" where
  "same_sessions w w' \<longleftrightarrow> w_SessionLists w' = w_SessionLists w \<and> core_of w' = core_of w"

named_theorems same \<open>operations that change no session\<close>

lemma same_refl [simp]: "same_sessions w w"
  by (simp add: same_sessions_def)

lemma same_trans: "same_sessions w w1 \<Longrightarrow> same_sessions w1 w2 \<Longrightarrow> same_sessions w w2"
  by (simp add: same_sessions_def)

lemma same_put_link [simp]:
  "same_sessions w (put_link i l w1) \<longleftrightarrow> same_sessions w w1" "same_sessions (put_link i l w1) w \<longleftrightarrow> same_sessions w1 w"
  by (simp_all add: same_sessions_def put_link_def core_of_def fun_eq_iff)

lemma core_of_put [simp]: "core_of (put_session sid s w) i = (if i = sid then Some (core s) else core_of w i)"
  by (simp add: core_of_def put_session_def)

lemma same_set_links [simp]: "same_sessions w (set_links sid ls w)"
  by (auto simp: same_sessions_def set_links_def fun_eq_iff core_of_def core_def put_session_def split: option.split)

lemma same_on_comps [same]: "on_comps i f w = Inr w' \<Longrightarrow> same_sessions w w'"
  by (auto simp: on_comps_def elim!: resE)

lemma same_forLink:
  assumes "\<And>i s w s1 w1. cb i s w = Inr (s1, w1) \<Longrightarrow> same_sessions w w1" and "forLink exclude cb sid s w = Inr (s', w')"
  shows "same_sessions w w'"
  by (rule forLink_rule [where R = "\<lambda>s w s' w'. same_sessions w w'", OF _ _ _ _ assms(2)]) (auto intro: same_trans assms(1))

lemma same_send [same]:
  assumes "sendReliable_packets data session ex False ch w = Inr (r, w')"
  shows "same_sessions w w'"
proof -
  let ?cb = "\<lambda>i (queued :: bool) w. rbind (on_comps i (link_enqueue ch data) w) (\<lambda>w'. Inr (True, w'))"
  have cb: "same_sessions w w1" if "?cb i s w = Inr (s1, w1)" for i s w s1 w1
    using that by (auto elim!: resE dest: same)
  show ?thesis
  proof (cases session)
    case None
    with assms show ?thesis by (auto simp: sendReliable_packets_def elim!: resE split: option.splits dest: same)
  next
    case (Some sid)
    then obtain q where "forLink ex ?cb sid False w = Inr (q, w')"
      using assms by (auto simp: sendReliable_packets_def elim!: resE)
    from same_forLink [OF cb this] show ?thesis .
  qed
qed

lemma same_rpc [same]:
  "callRpc nm args i w = Inr (r, w') \<Longrightarrow> same_sessions w w'"
  "callRpc_session nm args sid ex w = Inr (r, w') \<Longrightarrow> same_sessions w w'"
  by (auto simp: sendReliable_serializers_def priv_send_rpc_def callRpc_def callRpc_session_def elim!: resE dest: same)

section \<open>Choosing a host\<close>

definition score :: "world \<Rightarrow> nat \<Rightarrow> u32" where
  "score w j = (case lock w j of None \<Rightarrow> 0 | Some l \<Rightarrow> m_HostScore (as_stats (comp_at LinkStats 0 (l_comps l))))"

text \<open>The first link with the highest score, if that is above \<open>s0\<close>.\<close>

definition best_host :: "world \<Rightarrow> u32 \<Rightarrow> nat list \<Rightarrow> nat \<Rightarrow> bool" where
  "best_host w s0 js k \<longleftrightarrow> k < length js \<and> s0 < score w (js ! k) \<and> (\<forall>j \<in> set js. score w j \<le> score w (js ! k)) \<and>
     (\<forall>k' < k. score w (js ! k') < score w (js ! k))"

lemma score_getOrAdd:
  assumes "lock w j = Some sl" and "cc_getOrAdd LinkStats 0 (fresh LinkStats) (l_comps sl) = (c, m)"
  shows "score (put_link j (sl\<lparr>l_comps := m\<rparr>) w) = score w" and "score w j = m_HostScore (as_stats c)"
proof -
  have "comp_at LinkStats 0 m = comp_at LinkStats 0 (l_comps sl)" using comp_at_getOrAdd [of LinkStats 0 LinkStats 0 "l_comps sl"] assms(2) by simp
  then show "score (put_link j (sl\<lparr>l_comps := m\<rparr>) w) = score w"
    using assms(1) by (auto simp: score_def put_link_def lock_def fun_eq_iff)
  show "score w j = m_HostScore (as_stats c)" using getOrAdd_at [of LinkStats 0 "l_comps sl"] assms by (simp add: score_def)
qed

lemma best_host_Cons:
  "best_host w s0 js k \<Longrightarrow> score w j \<le> s0 \<Longrightarrow> best_host w s0 (j # js) (Suc k)"
  "best_host w (score w j) js k \<Longrightarrow> s0 < score w j \<Longrightarrow> best_host w s0 (j # js) (Suc k)"
  "s0 < score w j \<Longrightarrow> \<forall>x \<in> set js. score w x \<le> score w j \<Longrightarrow> best_host w s0 (j # js) 0"
  by (auto simp: best_host_def nth_Cons' less_Suc_eq_0_disj intro: order.strict_implies_order le_less_trans less_trans)

lemma elect_host_spec:
  "elect_host js s0 host w = (h, w') \<Longrightarrow>
     (\<exists>k. best_host w s0 js k \<and> h = Some (js ! k)) \<or> (h = host \<and> (\<forall>j \<in> set js. score w j \<le> s0))"
proof (induction js s0 host w rule: elect_host.induct)
  case (2 j js s0 host w)
  show ?case
  proof (cases "lock w j")
    case None
    then have "score w j \<le> s0" by (simp add: score_def)
    with 2(1) [OF None] 2(4) None show ?thesis by (auto dest: best_host_Cons(1))
  next
    case (Some sl)
    obtain c m where cm: "cc_getOrAdd LinkStats 0 (fresh LinkStats) (l_comps sl) = (c, m)" by fastforce
    let ?w1 = "put_link j (sl\<lparr>l_comps := m\<rparr>) w"
    note sc = score_getOrAdd [OF Some cm]
    have b: "best_host ?w1 = best_host w" by (simp add: best_host_def sc(1) fun_eq_iff)
    show ?thesis
    proof (cases "s0 < score w j")
      case True
      then have "elect_host js (score w j) (Some j) ?w1 = (h, w')" using 2(4) Some cm sc(2) by (simp add: Let_def)
      with 2(2) [OF Some cm [symmetric] refl refl] True sc b
      have "(\<exists>k. best_host w (score w j) js k \<and> h = Some (js ! k)) \<or> (h = Some j \<and> (\<forall>x \<in> set js. score w x \<le> score w j))" by simp
      then show ?thesis using best_host_Cons(2) [OF _ True] best_host_Cons(3) [OF True] by (metis nth_Cons_0 nth_Cons_Suc)
    next
      case False
      then have "elect_host js s0 host ?w1 = (h, w')" using 2(4) Some cm sc(2) by (simp add: Let_def)
      with 2(3) [OF Some cm [symmetric] refl refl] False sc b
      have "(\<exists>k. best_host w s0 js k \<and> h = Some (js ! k)) \<or> (h = host \<and> (\<forall>x \<in> set js. score w x \<le> s0))" by simp
      then show ?thesis using best_host_Cons(1) [of w s0 js _ j] False by (metis not_less nth_Cons_Suc set_ConsD)
    qed
  qed
qed simp

lemma same_elect: "elect_host js s0 host w = (h, w') \<Longrightarrow> same_sessions w w'"
proof (induction js s0 host w rule: elect_host.induct)
  case (2 j js s0 host w)
  show ?case
  proof (cases "lock w j")
    case None
    with 2 show ?thesis by simp
  next
    case (Some sl)
    obtain c m where cm: "cc_getOrAdd LinkStats 0 (fresh LinkStats) (l_comps sl) = (c, m)" by fastforce
    show ?thesis
      using 2(2) [OF Some cm [symmetric] refl refl] 2(3) [OF Some cm [symmetric] refl refl] 2(4) Some cm
      by (simp add: Let_def split: if_splits)
  qed
qed simp

section \<open>Leaving a session\<close>

lemma core_set_host:
  "core_of w sid = Some (KMaster h0 l li, d, st) \<Longrightarrow>
     core_of (set_host sid h w) = (core_of w)(sid \<mapsto> (KMaster h l li, d, st)) \<and> w_SessionLists (set_host sid h w) = w_SessionLists w"
  by (auto simp: core_of_def set_host_def fun_eq_iff core_def put_session_def)

lemma lock_set_host [simp]: "lock (set_host sid h w) = lock w"
  by (simp add: set_host_def put_session_def lock_def fun_eq_iff split: option.split session_kind.split)

text \<open>After the host left: the choice, and that the session stays in its list.\<close>

lemma replace_host_spec:
  assumes r: "replace_host i sid others (Some h) w = Inr w'" and c: "core_of w sid = Some (KMaster (Some h) l li, d, st)"
    and h: "lock w h \<noteq> None"
  shows "\<exists>h'. core_of w' sid = Some (KMaster (Some h') l li, d, st) \<and> w_SessionLists w' = w_SessionLists w \<and>
    ((\<exists>k. best_host w 0 others k \<and> h' = others ! k) \<or> (h' = h \<and> (\<forall>j \<in> set others. score w j = 0)))"
proof -
  obtain e w1 where e: "elect_host others 0 (Some h) w = (e, w1)" by fastforce
  note sp = elect_host_spec [OF e]
  have f: "sap_of w1 j = sap_of w j" for j using frame_elect [OF e] by (simp add: frame_def)
  have alive: "\<exists>h'. e = Some h' \<and> lock w1 h' \<noteq> None"
  proof -
    have "lock w (others ! k) \<noteq> None" if "best_host w 0 others k" for k
      using that by (auto simp: best_host_def score_def split: option.splits)
    with sp h have "\<exists>h'. e = Some h' \<and> lock w h' \<noteq> None" by auto
    then show ?thesis using f by (metis sap_of_def map_option_is_None)
  qed
  then obtain h' sh where h': "e = Some h'" "lock w1 h' = Some sh" by blast
  have sess: "same_sessions w w1" using same_elect [OF e] .
  have c1: "core_of w1 sid = Some (KMaster (Some h) l li, d, st)" using sess c by (simp add: same_sessions_def)
  let ?w2 = "set_host sid (Some h') w1"
  have "same_sessions ?w2 w'" using r e h'
    by (auto simp: replace_host_def Let_def elim!: resE dest!: same intro: same_trans)
  then have "core_of w' sid = Some (KMaster (Some h') l li, d, st)" "w_SessionLists w' = w_SessionLists w"
    using core_set_host [OF c1, of "Some h'"] sess by (simp_all add: same_sessions_def)
  with sp h'(1) show ?thesis by auto
qed

lemma find_pos_mem: "find_pos w l js k = Inr (Some n) \<Longrightarrow> \<exists>m. n = k + m \<and> m < length js \<and>
    (\<exists>sl. lock w (js ! m) = Some sl \<and> link_eq sl l)"
proof (induction js arbitrary: k)
  case (Cons j js)
  then obtain sl where sl: "lock w j = Some sl" "(if link_eq sl l then Inr (Some k) else find_pos w l js (Suc k)) = Inr (Some n)"
    by (auto simp: deref_Inr elim!: resE)
  show ?case
  proof (cases "link_eq sl l")
    case True
    then show ?thesis using sl by (intro exI [of _ 0]) auto
  next
    case False
    with Cons.IH [of "Suc k"] sl obtain m where "n = Suc k + m" "m < length js" "\<exists>sl. lock w (js ! m) = Some sl \<and> link_eq sl l"
      by auto
    then show ?thesis by (intro exI [of _ "Suc m"]) simp
  qed
qed simp

text \<open>The whole of \<open>MasterSession::removeLink\<close> when the link is in the session.\<close>

lemma master_removeLink_spec:
  assumes r: "master_removeLink i sid w = Inr w'" and s: "sm_find (w_sessions w) sid = Some s"
    and k: "s_kind s = KMaster (Some h) left li" and l: "lock w i = Some l" and p: "find_pos w l (s_Links s) 0 = Inr (Some n)"
  shows "\<exists>h'. core_of w' sid = Some (KMaster (Some h') True li, s_MasterData s, s_Started s) \<and> w_SessionLists w' = w_SessionLists w \<and>
    (let others = take n (s_Links s) @ drop (Suc n) (s_Links s); hl = the (lock w h)
     in if link_eq l hl then (\<exists>k. best_host w 0 others k \<and> h' = others ! k) \<or> (h' = h \<and> (\<forall>j \<in> set others. score w j = 0))
        else h' = h)"
proof -
  let ?o = "take n (s_Links s) @ drop (Suc n) (s_Links s)"
  let ?w1 = "put_session sid (s\<lparr>s_Links := ?o, s_kind := KMaster (Some h) True li\<rparr>) w"
  have lk: "lock ?w1 = lock w" by (simp add: lock_def put_session_def fun_eq_iff)
  have mh: "master_host s = Some h" "master_list s = li" using k by (simp_all add: master_host_def master_list_def)
  have "master_removeLink i sid w =
      rbind (deref h ?w1) (\<lambda>hl. if link_eq l hl then replace_host i sid ?o (Some h) ?w1 else Inr ?w1)"
    by (simp add: master_removeLink_def get_session_def s deref_def [of i] l p mh Let_def cong: if_cong)
  with r obtain hl where hl: "lock w h = Some hl"
      and e: "(if link_eq l hl then replace_host i sid ?o (Some h) ?w1 else Inr ?w1) = Inr w'"
    by (auto simp: deref_Inr lk elim!: resE simp del: if_split_asm)
  have c: "core_of ?w1 sid = Some (KMaster (Some h) True li, s_MasterData s, s_Started s)" by (simp add: core_def)
  have sc: "score ?w1 = score w" by (simp add: score_def lk fun_eq_iff)
  then have b: "best_host ?w1 = best_host w" by (simp add: best_host_def fun_eq_iff)
  show ?thesis
  proof (cases "link_eq l hl")
    case True
    with e have "replace_host i sid ?o (Some h) ?w1 = Inr w'" by simp
    from replace_host_spec [OF this c] lk hl sc b True show ?thesis by (simp add: Let_def put_session_def)
  next
    case False
    with e have "w' = ?w1" by simp
    with c hl False show ?thesis by (simp add: Let_def put_session_def)
  qed
qed

section \<open>Leaving succeeds\<close>

lemma args_write_addr: "endpoint_ok e \<Longrightarrow> args_write (ser_arg write_addr (Some e)) (1 # e)"
  using addr_codec.ser_arg_ok [of bs_reset "Some e"]
  by (simp add: args_write_def addr_ok_def addr_bytes_def max_stream_def endpoint_ok_def getLowLevelAddrSize_def)

lemma args_write_copy: "endpoint_ok e \<Longrightarrow> args_write (copy_addr e) (1 # e)"
  using args_write_addr [of e] by (simp add: args_write_def copy_addr_def getCopyDerived_ok)

lemma newHost_name: "string_ok (cstr ''masterSessionNewHost'')"
  by (simp add: string_ok_def cstr_def TempBuffSize_def of_char_def)

lemma endpoint_ok_length: "endpoint_ok e \<Longrightarrow> length e = 28"
  by (simp add: endpoint_ok_def getLowLevelAddrSize_def)

text \<open>Telling the links about a new host cannot fail while the links are alive.\<close>

lemma newHost_calls:
  assumes "endpoint_ok e"
  shows "lock w i \<noteq> None \<Longrightarrow> \<exists>b. callRpc ''masterSessionNewHost'' (ser_arg write_addr (Some e)) i w = Inr (Send_Fine, queue_on 0 i [b] w)"
    and "sm_find (w_sessions w) sid = Some s \<Longrightarrow>
      \<exists>r w'. callRpc_session ''masterSessionNewHost'' (copy_addr e) sid ex w = Inr (r, w')"
proof -
  show "\<exists>b. callRpc ''masterSessionNewHost'' (ser_arg write_addr (Some e)) i w = Inr (Send_Fine, queue_on 0 i [b] w)" if "lock w i \<noteq> None"
    using callRpc_ok [OF newHost_name args_write_addr [OF assms] _ that] endpoint_ok_length [OF assms] by auto
  assume s: "sm_find (w_sessions w) sid = Some s"
  have "length ''masterSessionNewHost'' + 1 + length (1 # e) \<le> 1894" using endpoint_ok_length [OF assms] by simp
  from priv_send_rpc_eq [OF newHost_name args_write_copy [OF assms] this, of False] send_session [OF s]
  show "\<exists>r w'. callRpc_session ''masterSessionNewHost'' (copy_addr e) sid ex w = Inr (r, w')"
    unfolding callRpc_session_def by metis
qed

text \<open>The parts of a link that the election does not change.\<close>

definition place_of :: "world \<Rightarrow> nat \<Rightarrow> (nat option \<times> endpoint) option" where
  "place_of w j = map_option (\<lambda>l. (l_session l, l_address l)) (lock w j)"

lemma elect_place: "elect_host js s0 host w = (h, w') \<Longrightarrow> place_of w' = place_of w \<and> w_sessions w' = w_sessions w"
proof (induction js s0 host w rule: elect_host.induct)
  case (2 j js s0 host w)
  show ?case
  proof (cases "lock w j")
    case None
    with 2 show ?thesis by simp
  next
    case (Some sl)
    obtain c m where cm: "cc_getOrAdd LinkStats 0 (fresh LinkStats) (l_comps sl) = (c, m)" by fastforce
    let ?w1 = "put_link j (sl\<lparr>l_comps := m\<rparr>) w"
    have "place_of ?w1 = place_of w" "w_sessions ?w1 = w_sessions w"
      using Some by (auto simp: place_of_def put_link_def lock_def fun_eq_iff)
    with 2(2) [OF Some cm [symmetric] refl refl] 2(3) [OF Some cm [symmetric] refl refl] 2(4) Some cm
    show ?thesis by (simp add: Let_def split: if_splits)
  qed
qed simp

lemma place_of_set_host [simp]: "place_of (set_host sid h w) = place_of w"
  by (simp add: place_of_def fun_eq_iff)

lemma session_set_host: "sm_find (w_sessions w) lsid \<noteq> None \<Longrightarrow> sm_find (w_sessions (set_host sid h w)) lsid \<noteq> None"
  by (auto simp: set_host_def put_session_def split: option.split session_kind.split)

lemma frame_alive: "frame w w' \<Longrightarrow> (lock w' j = None) = (lock w j = None)"
proof -
  assume "frame w w'"
  then have "sap_of w' j = sap_of w j" by (simp add: frame_def)
  then show ?thesis by (cases "lock w j"; cases "lock w' j") (simp_all add: sap_of_def)
qed

lemma replace_host_succeeds:
  assumes i: "place_of w i = Some (Some lsid, a)" "sm_find (w_sessions w) lsid \<noteq> None" "sm_find (w_sessions w) sid \<noteq> None"
    and ok: "\<forall>j l. lock w j = Some l \<longrightarrow> endpoint_ok (l_address l)"
  shows "\<exists>w'. replace_host i sid others host w = Inr w'"
proof -
  obtain e w1 where e: "elect_host others 0 host w = (e, w1)" by fastforce
  note ep = elect_place [OF e]
  let ?w2 = "set_host sid e w1"
  have s: "sm_find (w_sessions ?w2) lsid \<noteq> None" "sm_find (w_sessions ?w2) sid \<noteq> None"
    using session_set_host ep i(2,3) by metis+
  show ?thesis
  proof (cases "\<exists>h' sh. e = Some h' \<and> lock ?w2 h' = Some sh")
    case False
    then have "replace_host i sid others host w = removeSelf sid ?w2"
      using e by (cases e) (auto simp: replace_host_def Let_def split: option.split)
    with s(2) show ?thesis by (auto simp: removeSelf_def get_session_def Let_def split: session_kind.splits option.splits)
  next
    case True
    then obtain h' sh where h': "e = Some h'" "lock ?w2 h' = Some sh" by blast
    have pl: "place_of ?w2 = place_of w" using ep by simp
    have "endpoint_ok (l_address sh)" using pl [THEN fun_cong, of h'] h'(2) ok
      by (cases "lock w h'") (auto simp: place_of_def)
    then obtain r w3 where w3: "callRpc_session ''masterSessionNewHost'' (copy_addr (l_address sh)) lsid (Some h') ?w2 = Inr (r, w3)"
      using newHost_calls(2) s(1) by blast
    have ls: "link_session i ?w2 = Inr lsid" using pl [THEN fun_cong, of i] i(1)
      by (auto simp: place_of_def link_session_def deref_def)
    have "frame ?w2 w3" using w3 by (rule frames)
    then have "lock w3 h' \<noteq> None" using frame_alive h'(2) by force
    then obtain c where "callRpc ''masterSessionNewHost'' (ser_arg write_addr (Some createEmpty)) h' w3 = Inr (Send_Fine, queue_on 0 h' [c] w3)"
      using newHost_calls(1) [OF createEmpty_ok] by blast
    then show ?thesis using e h' ls w3 by (simp add: replace_host_def Let_def)
  qed
qed

lemma example_removeLink: "\<exists>w'. master_removeLink 0 0 (example_world p2p) = Inr w'"
proof -
  let ?s = "example_session p2p" and ?w = "example_world p2p"
  let ?w1 = "put_session 0 (?s\<lparr>s_Links := [1], s_kind := KMaster (Some 0) True (Some 0)\<rparr>) ?w"
  have lk: "lock ?w1 = lock ?w" by (simp add: lock_def put_session_def fun_eq_iff)
  have mh: "master_host ?s = Some 0" "master_list ?s = Some 0" by (simp_all add: example_facts master_host_def master_list_def)
  have "master_removeLink 0 0 ?w = replace_host 0 0 [1] (Some 0) ?w1"
    using lk by (simp add: master_removeLink_def get_session_def deref_def mh example_facts Let_def cong: if_cong)
  moreover have "\<exists>w'. replace_host 0 0 [1] (Some 0) ?w1 = Inr w'"
  proof (rule replace_host_succeeds)
    show "place_of ?w1 0 = Some (Some 0, createEmpty)" unfolding place_of_def lk by (simp add: example_facts example_link_def)
    show "\<forall>j l. lock ?w1 j = Some l \<longrightarrow> endpoint_ok (l_address l)"
      by (auto simp: lock_def put_session_def example_world_def example_link_def split: if_splits)
  qed (simp_all add: put_session_def)
  ultimately show ?thesis by simp
qed

section \<open>Registering\<close>

text \<open>The filter fits a session with this data that has just been registered by one link.\<close>

definition filter_admits :: "search_filter \<Rightarrow> master_session_data \<Rightarrow> bool" where
  "filter_admits sf d \<longleftrightarrow> m_Name d = sf_Name sf \<and> m_Type d = sf_Type sf \<and> (m_IsPrivate d \<longrightarrow> sf_FindPrivate sf) \<and>
     (if m_IsP2p d then sf_FindP2p sf else sf_FindClientServer sf) \<and> sf_MinPlayers sf \<le> 1 \<and> m_MaxClients d \<le> sf_MaxPlayers sf \<and>
     float_le (sf_MinRating sf) (m_Rating d) \<and> float_le (m_Rating d) (sf_MaxRating sf)"

lemma args_write_bool: "args_write (ser_arg write_bool b) [if b then 1 else 0]"
  using bool_codec.ser_arg_ok [of bs_reset b] by (simp add: args_write_def max_stream_def)

lemma registerResult_call:
  assumes "lock w i \<noteq> None"
  shows "\<exists>b. callRpc ''masterLinkRpcRegisterResult'' (ser_arg write_bool True) i w = Inr (Send_Fine, queue_on 0 i [b] w)"
proof -
  have "string_ok (cstr ''masterLinkRpcRegisterResult'')" by (simp add: string_ok_def cstr_def TempBuffSize_def of_char_def)
  from callRpc_ok [OF this args_write_bool _ assms, of True] show ?thesis by auto
qed

lemma register_handler:
  assumes l: "lock w i = Some l" and ok: "endpoint_ok (l_address l)"
  shows "\<exists>w' s. masterLinkRpcRegisterServer data md i w = Inr w' \<and> sm_find (w_sessions w') (w_nextSession w) = Some s \<and>
    s_MasterData s = data \<and> s_Links s = [i] \<and> \<not> s_Started s \<and> (\<exists>li. s_kind s = KMaster (Some i) False li) \<and>
    (\<forall>k. k \<noteq> w_nextSession w \<longrightarrow> sm_find (w_sessions w') k = sm_find (w_sessions w) k) \<and>
    mset (concat (w_SessionLists w')) = add_mset (w_nextSession w) (mset (concat (w_SessionLists w)))"
proof -
  define w1 where "w1 = put_link i (l\<lparr>l_md := md\<rparr>) w"
  have u: "updateCustomMatchmakingMd md i w = Inr w1" using l by (simp add: updateCustomMatchmakingMd_def deref_def w1_def)
  have w1: "w_nextSession w1 = w_nextSession w" "w_sessions w1 = w_sessions w" "w_SessionLists w1 = w_SessionLists w"
    "lock w1 i = Some (l\<lparr>l_md := md\<rparr>)" by (simp_all add: w1_def put_link_def lock_def)
  obtain sid w2 where r: "registerSession i data w1 = (sid, w2)" by fastforce
  from registerSession_eq [OF r] obtain li s2 where s2: "sm_find (w_sessions w2) sid = Some s2" "s_MasterData s2 = data" "s_Links s2 = []"
      "\<not> s_Started s2" "s_kind s2 = KMaster (Some i) False li" "w_links w2 = w_links w1" "sid = w_nextSession w1"
      "\<And>k. k \<noteq> sid \<Longrightarrow> sm_find (w_sessions w2) k = sm_find (w_sessions w1) k"
      "mset (concat (w_SessionLists w2)) = add_mset sid (mset (concat (w_SessionLists w1)))" by auto
  have l2: "lock w2 i = Some (l\<lparr>l_md := md\<rparr>)" using s2(6) w1(4) by (simp add: lock_def)
  obtain w3 l3 where w3: "base_addLink i sid w2 = Inr w3" "lock w3 i = Some l3" "w_SessionLists w3 = w_SessionLists w2"
      "sm_find (w_sessions w3) sid = Some (s2\<lparr>s_Links := [i]\<rparr>)" "\<And>k. k \<noteq> sid \<Longrightarrow> sm_find (w_sessions w3) k = sm_find (w_sessions w2) k"
    using s2(1,3) l2 by (simp add: base_addLink_def get_session_def deref_def put_session_def put_link_def lock_def)
  obtain b where b: "callRpc ''masterSessionNewHost'' (ser_arg write_addr (Some createEmpty)) i w3 = Inr (Send_Fine, queue_on 0 i [b] w3)"
    using newHost_calls(1) [OF createEmpty_ok, of w3 i] w3(2) by auto
  let ?w4 = "queue_on 0 i [b] w3"
  have "canJoin s2" "master_host s2 = Some i" using s2(4,5) by (simp_all add: canJoin_def master_host_def)
  then have a: "session_addLink i sid w2 = Inr (True, ?w4)"
    using s2(1,5) w3 b by (simp add: session_addLink_def get_session_def master_addLink_def deref_def)
  obtain c where c: "callRpc ''masterLinkRpcRegisterResult'' (ser_arg write_bool True) i ?w4 = Inr (Send_Fine, queue_on 0 i [c] ?w4)"
    using registerResult_call [of ?w4 i] w3(2) by auto
  have "masterLinkRpcRegisterServer data md i w = Inr (queue_on 0 i [c] ?w4)"
    by (simp add: masterLinkRpcRegisterServer_def u r a c)
  then show ?thesis using s2 w3 w1 by (intro exI [of _ "queue_on 0 i [c] ?w4"] exI [of _ "s2\<lparr>s_Links := [i]\<rparr>"]) simp
qed

section \<open>Properties\<close>

text \<open>Searching the lists of sessions is the search for the first session that fits the filter in the
  concatenation of the lists: the answer fits, and if there is no answer, no registered session fits.\<close>

theorem findServerFromFilter_finds:
  "findServerFromFilter sf w = find (session_matches sf w) (concat (w_SessionLists w))"
  by (simp add: findServerFromFilter_def findServer_find)

text \<open>Registering a session adds exactly one session, with the link as its host and the given data, to
  the lists; no list grows beyond the threshold, and the sessions registered before are not changed.\<close>

theorem registerSession_registers:
  assumes "registerSession link data w = (sid, w')" and "lists_ok w"
  shows "lists_ok w' \<and> mset (concat (w_SessionLists w')) = add_mset sid (mset (concat (w_SessionLists w))) \<and>
    (\<exists>s. sm_find (w_sessions w') sid = Some s \<and> master_host s = Some link \<and> s_MasterData s = data \<and> canJoin s) \<and>
    (\<forall>i. i \<noteq> sid \<longrightarrow> sm_find (w_sessions w') i = sm_find (w_sessions w) i)"
  using registerSession_eq [OF assms(1)] assms(2) by (fastforce simp: master_host_def canJoin_def)

theorem registerSession_registers_witness:
  "case registerSession 0 (example_data True) (Network_init 0) of (sid, w) \<Rightarrow> lists_ok w \<and> concat (w_SessionLists w) = [sid]"
proof -
  obtain sid w where e: "registerSession 0 (example_data True) (Network_init 0) = (sid, w)" by fastforce
  have "lists_ok (Network_init 0)" by (simp add: lists_ok_def Network_init_def)
  from registerSession_registers [OF e this] e show ?thesis
    by (auto simp: registerSession_def addSession_def SessionBase_def Network_init_def)
qed



text \<open>A session of the matchmaking server is never taken out of its list when links leave it: the branch
  that removes it is not reached, because the link that left still is the host when nobody else can be.
  So a client server session that everybody has left is still found by a search that does not ask for
  a minimal number of players.\<close>

theorem empty_session_stays_listed:
  assumes "master_removeLink i sid w = Inr w'" and "sm_find (w_sessions w) sid = Some s"
    and "s_kind s = KMaster (Some h) left li" and "lock w i = Some l" and "find_pos w l (s_Links s) 0 = Inr (Some n)"
    and "matches sf s" and "\<not> m_IsP2p (s_MasterData s)" and "sf_MinPlayers sf = 0" and "sid \<in> set (concat (w_SessionLists w))"
  shows "w_SessionLists w' = w_SessionLists w \<and> session_matches sf w' sid \<and> findServerFromFilter sf w' \<noteq> None"
proof -
  obtain h' where c: "core_of w' sid = Some (KMaster (Some h') True li, s_MasterData s, s_Started s)"
      and ls: "w_SessionLists w' = w_SessionLists w"
    using master_removeLink_spec [OF assms(1-5)] by blast
  then obtain s' where s': "sm_find (w_sessions w') sid = Some s'" "s_kind s' = KMaster (Some h') True li"
      "s_MasterData s' = s_MasterData s" "s_Started s' = s_Started s" by (auto simp: core_of_def core_def)
  have "matches sf s'" using assms(3,6,7,8) s' by (auto simp: matches_def canJoin_def Let_def)
  then have m: "session_matches sf w' sid" using s' by (simp add: session_matches_def)
  then have "findServerFromFilter sf w' \<noteq> None"
    using assms(9) ls by (auto simp: findServerFromFilter_def findServer_find find_None_iff)
  with m ls show ?thesis by simp
qed

theorem empty_session_stays_listed_witness:
  "\<exists>w'. master_removeLink 0 0 (example_world False) = Inr w' \<and> findServerFromFilter example_filter w' \<noteq> None"
proof -
  obtain w' where w': "master_removeLink 0 0 (example_world False) = Inr w'" using example_removeLink by blast
  have f: "\<not> m_IsP2p (s_MasterData (example_session False))" "sf_MinPlayers example_filter = 0"
      "(0 :: nat) \<in> set (concat (w_SessionLists (example_world False)))" "matches example_filter (example_session False)"
    by (simp_all add: example_session_def example_data_def example_filter_def example_facts matches_def canJoin_def) code_simp
  from empty_session_stays_listed [OF w' example_facts(1,2,3,5) f(4,1,2,3)] w' show ?thesis by blast
qed

text \<open>A peer to peer session that someone has left is not joinable: no search returns it, and a link
  that tries to join it is refused.\<close>

theorem left_p2p_not_joinable:
  assumes "master_removeLink i sid w = Inr w'" and "sm_find (w_sessions w) sid = Some s"
    and "s_kind s = KMaster (Some h) left li" and "lock w i = Some l" and "find_pos w l (s_Links s) 0 = Inr (Some n)"
    and "m_IsP2p (s_MasterData s)"
  shows "findServerFromFilter sf w' \<noteq> Some sid \<and> master_addLink j sid w' = Inr (False, w')"
proof -
  obtain h' where c: "core_of w' sid = Some (KMaster (Some h') True li, s_MasterData s, s_Started s)"
    using master_removeLink_spec [OF assms(1-5)] by blast
  then obtain s' where s': "sm_find (w_sessions w') sid = Some s'" "\<not> canJoin s'"
    using assms(6) by (auto simp: core_of_def core_def canJoin_def)
  then have "\<not> session_matches sf w' sid" by (simp add: session_matches_def matches_def Let_def)
  then have "findServerFromFilter sf w' \<noteq> Some sid"
    by (auto simp: findServerFromFilter_def findServer_find find_Some_iff)
  with s' show ?thesis by (simp add: master_addLink_def get_session_def)
qed

theorem left_p2p_not_joinable_witness:
  "\<exists>w'. master_removeLink 0 0 (example_world True) = Inr w' \<and> findServerFromFilter example_filter w' \<noteq> Some 0 \<and>
     master_addLink 7 0 w' = Inr (False, w')"
proof -
  obtain w' where w': "master_removeLink 0 0 (example_world True) = Inr w'" using example_removeLink by blast
  have "m_IsP2p (s_MasterData (example_session True))" by (simp add: example_session_def example_data_def)
  from left_p2p_not_joinable [OF w' example_facts(1,2,3,5) this] w' show ?thesis by blast
qed



end
