(* ===== verification/Listeners.thy ===== *)
theory Listeners
  imports Socket_Sets
begin

text \<open>
  \<open>Listener.cpp\<close> and \<open>ListenerManager.cpp\<close>: a listener owns a bound socket that the reception threads
  watch; the manager has at most one listener per port.

  The calls of the operating system are a record, one per call of \<open>startListen\<close>: they may answer
  differently each time. The flags are those of a new reception thread. The counter of the socket
  library is part of the state; a listener that is stopped gives up its reference to the socket, which
  is destroyed when no link uses it any more, so the counter does not change then.
\<close>

record os_calls =
  o_startup :: "u32 + u16"
  o_socket :: "IPProto \<Rightarrow> int + u32"
  o_setopt :: "u32 \<Rightarrow> int \<Rightarrow> int \<Rightarrow> bool \<Rightarrow> int option"
  o_getopt :: "u32 \<Rightarrow> int \<Rightarrow> int \<Rightarrow> int + u32"
  o_addrs :: "IPProto \<Rightarrow> cstring \<Rightarrow> int + byte list list"
  o_bind :: "u32 \<Rightarrow> byte list \<Rightarrow> int option"
  o_sockname :: "u32 \<Rightarrow> int + byte list"

record listener =
  li_Socket :: "bsd_socket option"
  li_Source :: "endpoint option"
  li_Listening :: bool

record listeners =
  lm_Listeners :: "(u16, listener) stdmap"
  lm_recv :: "reception_thread list"
  lm_NumInitialized :: u32

datatype EListenCallResult = Call_Fine | Call_AlreadyExistsOnPort | Call_SocketError

definition Listener_init :: listener where
  "Listener_init = \<lparr>li_Socket = None, li_Source = None, li_Listening = False\<rparr>"

definition ListenerManager_init :: listeners where
  "ListenerManager_init = \<lparr>lm_Listeners = [], lm_recv = [], lm_NumInitialized = 0\<rparr>"

text \<open>\<open>stopListen\<close> of a listener, which its destructor calls too.\<close>

definition listener_stopListen :: "listener \<Rightarrow> reception_thread list \<Rightarrow> (listener \<times> reception_thread list) res" where
  "listener_stopListen l ts =
     (case li_Socket l of
        None \<Rightarrow> Inr (l, ts)
      | Some s \<Rightarrow> rbind (ssm_removeSocket (Some s) ts) (\<lambda>ts'. Inr (l\<lparr>li_Socket := None, li_Listening := False\<rparr>, ts')))"

definition startListenIntern ::
  "os_calls \<Rightarrow> bool \<Rightarrow> bool \<Rightarrow> int \<Rightarrow> u16 \<Rightarrow> listener \<Rightarrow> reception_thread list \<Rightarrow> u32 \<Rightarrow>
   (bool \<times> listener \<times> reception_thread list \<times> u32) res" where
  "startListenIntern os dirty closing junk port l ts n =
     (case socket_new (o_startup os) n of
        (None, n1) \<Rightarrow> Inr (False, l, ts, n1)
      | (Some s, n1) \<Rightarrow>
          rbind (bsd_open (o_socket os) (o_setopt os) (o_getopt os) Ipv4 SocketOptions_init (Some junk) s) (\<lambda>(ok1, err1, s1).
          if \<not> ok1 then Inr (False, l\<lparr>li_Socket := Some s1\<rparr>, ts, n1)
          else rbind (bsd_bind (o_addrs os) (o_bind os) port err1 s1) (\<lambda>(ok2, err2, s2).
          if \<not> ok2 then Inr (False, l\<lparr>li_Socket := Some s2\<rparr>, ts, n1)
          else rbind (createSource (o_sockname os) (m_Socket s2)) (\<lambda>(source, err3).
          if source = None then Inr (False, l\<lparr>li_Socket := Some s2\<rparr>, ts, n1)
          else Inr (True, l\<lparr>li_Socket := Some s2, li_Source := source, li_Listening := True\<rparr>,
                    ssm_addSocket dirty closing s2 ts, n1)))))"

text \<open>\<open>Listener::startListen\<close>: a listener that could not start is destroyed, and with it the only reference
  to its socket.\<close>

definition listener_startListen ::
  "os_calls \<Rightarrow> bool \<Rightarrow> bool \<Rightarrow> int \<Rightarrow> u16 \<Rightarrow> reception_thread list \<Rightarrow> u32 \<Rightarrow>
   (listener option \<times> reception_thread list \<times> u32) res" where
  "listener_startListen os dirty closing junk port ts n =
     rbind (startListenIntern os dirty closing junk port Listener_init ts n) (\<lambda>(ok, l, ts1, n1).
       if ok then Inr (Some l, ts1, n1)
       else rbind (listener_stopListen l ts1) (\<lambda>(l2, ts2).
            Inr (None, ts2, if li_Socket l = None then n1 else snd (shutdown n1))))"

definition startListen ::
  "os_calls \<Rightarrow> bool \<Rightarrow> bool \<Rightarrow> int \<Rightarrow> u16 \<Rightarrow> listeners \<Rightarrow> (EListenCallResult \<times> listeners) res" where
  "startListen os dirty closing junk port m =
     (if sm_find (lm_Listeners m) port \<noteq> None then Inr (Call_AlreadyExistsOnPort, m)
      else rbind (listener_startListen os dirty closing junk port (lm_recv m) (lm_NumInitialized m)) (\<lambda>(listener, ts, n).
           case listener of
             Some l \<Rightarrow> Inr (Call_Fine, m\<lparr>lm_Listeners := sm_set port l (lm_Listeners m), lm_recv := ts, lm_NumInitialized := n\<rparr>)
           | None \<Rightarrow> Inr (Call_SocketError, m\<lparr>lm_recv := ts, lm_NumInitialized := n\<rparr>)))"

definition stopListen :: "u16 \<Rightarrow> listeners \<Rightarrow> listeners res" where
  "stopListen port m =
     (case sm_find (lm_Listeners m) port of
        None \<Rightarrow> Inr m
      | Some l \<Rightarrow>
          rbind (listener_stopListen l (lm_recv m)) (\<lambda>(l', ts).
            Inr (m\<lparr>lm_Listeners := sm_erase port (lm_Listeners m), lm_recv := ts\<rparr>)))"

definition findListener :: "u16 \<Rightarrow> listeners \<Rightarrow> listener option" where
  "findListener port m = sm_find (lm_Listeners m) port"

section \<open>Invariant\<close>

definition handle :: "listener \<Rightarrow> u32" where
  "handle l = (case li_Socket l of Some s \<Rightarrow> m_Socket s | None \<Rightarrow> INVALID_SOCKET)"

definition listening :: "listener \<Rightarrow> bool" where
  "listening l \<longleftrightarrow> li_Listening l \<and> li_Source l \<noteq> None \<and>
     (case li_Socket l of None \<Rightarrow> False | Some s \<Rightarrow> m_Open s \<and> m_Bound s \<and> m_Socket s \<noteq> INVALID_SOCKET)"

definition listeners_inv :: "listeners \<Rightarrow> bool" where
  "listeners_inv m \<longleftrightarrow> sm_ok (lm_Listeners m) \<and> (\<forall>t \<in> set (lm_recv m). rt_ok t) \<and>
     (\<forall>p l. sm_find (lm_Listeners m) p = Some l \<longrightarrow> listening l) \<and>
     (\<forall>p q l l'. sm_find (lm_Listeners m) p = Some l \<longrightarrow> sm_find (lm_Listeners m) q = Some l' \<longrightarrow> handle l = handle l' \<longrightarrow> p = q) \<and>
     (\<forall>h. h \<in> watched (lm_recv m) \<longleftrightarrow> (\<exists>p l. sm_find (lm_Listeners m) p = Some l \<and> handle l = h))"

text \<open>What the code relies on: the system returns a valid handle that is not in use.\<close>

definition fresh_handle :: "os_calls \<Rightarrow> listeners \<Rightarrow> bool" where
  "fresh_handle os m \<longleftrightarrow> (\<forall>p h. o_socket os p = Inr h \<longrightarrow> h \<noteq> INVALID_SOCKET \<and> h \<notin> watched (lm_recv m))"

inductive listeners_reach :: "listeners \<Rightarrow> bool" where
  init: "listeners_reach ListenerManager_init"
| start: "listeners_reach m \<Longrightarrow> fresh_handle os m \<Longrightarrow> startListen os d c junk port m = Inr (r, m') \<Longrightarrow> listeners_reach m'"
| stop: "listeners_reach m \<Longrightarrow> stopListen port m = Inr m' \<Longrightarrow> listeners_reach m'"

text \<open>The socket of a new listener has no handle or the one that the system returned.\<close>

lemma bsd_open_handle:
  "bsd_open os_socket os_setopt os_getopt ipv opts err BSDSocket_init = Inr (ok, err', s') \<Longrightarrow>
     m_Socket s' = INVALID_SOCKET \<or> os_socket ipv = Inr (m_Socket s')"
  by (auto simp: bsd_open_def Let_def BSDSocket_init_def rbind_eq_Inr split: if_splits sum.splits)

lemma bsd_bind_handle: "bsd_bind os_addrs os_bind port err s = Inr (ok, err', s') \<Longrightarrow> m_Socket s' = m_Socket s"
  unfolding bsd_bind_eq by (auto split: if_splits sum.splits option.splits)

lemma startListenIntern_cases:
  assumes st: "startListenIntern os d c junk port Listener_init ts n = Inr (ok, l, ts', n')"
    and fresh: "\<And>p. o_socket os p \<noteq> Inr INVALID_SOCKET"
  shows "if ok then listening l \<and> (\<exists>s. li_Socket l = Some s \<and> ts' = ssm_addSocket d c s ts \<and> o_socket os Ipv4 = Inr (m_Socket s))
         else ts' = ts \<and> (case li_Socket l of None \<Rightarrow> True | Some s \<Rightarrow> m_Socket s = INVALID_SOCKET \<or> o_socket os Ipv4 = Inr (m_Socket s))"
proof (cases "fst (socket_new (o_startup os) n)")
  case None
  with st show ?thesis by (auto simp: startListenIntern_def Listener_init_def split: prod.splits option.splits)
next
  case (Some s)
  then have s: "s = BSDSocket_init" by (auto simp: socket_new_def split: prod.splits if_splits)
  obtain n1 where n1: "socket_new (o_startup os) n = (Some BSDSocket_init, n1)" using Some s by (metis prod.collapse)
  obtain ok1 err1 s1 where o: "bsd_open (o_socket os) (o_setopt os) (o_getopt os) Ipv4 SocketOptions_init (Some junk) BSDSocket_init = Inr (ok1, err1, s1)"
    using bsd_open_returns [of "o_socket os" "o_setopt os" "o_getopt os" Ipv4 SocketOptions_init junk BSDSocket_init] by blast
  note h1 = bsd_open_handle [OF o]
  show ?thesis
  proof (cases ok1)
    case False
    then show ?thesis using st n1 o h1 by (auto simp: startListenIntern_def)
  next
    case True
    then have o': "bsd_open (o_socket os) (o_setopt os) (o_getopt os) Ipv4 SocketOptions_init (Some junk) BSDSocket_init = Inr (True, err1, s1)"
      using o by simp
    have op: "m_Open s1" "m_Socket s1 \<noteq> INVALID_SOCKET" using bsd_open_open [OF o' fresh] by auto
    obtain ok2 err2 s2 where b: "bsd_bind (o_addrs os) (o_bind os) port err1 s1 = Inr (ok2, err2, s2)"
      unfolding bsd_bind_eq by (metis prod.collapse)
    have h2: "m_Socket s2 = m_Socket s1" using bsd_bind_handle [OF b] .
    show ?thesis
    proof (cases ok2)
      case False
      then show ?thesis using st n1 o True b h1 h2 by (auto simp: startListenIntern_def)
    next
      case ok2: True
      then have "m_Bound s2" "m_Open s2" using bsd_bind_bound [of "o_addrs os" "o_bind os" port err1 s1] bsd_bind_open [OF b] b op by auto
      then show ?thesis using st n1 o True b ok2 h1 h2 op
        by (auto simp: startListenIntern_def listening_def rbind_eq_Inr split: if_splits)
    qed
  qed
qed

lemma listeners_invD:
  assumes "listeners_inv m"
  shows "sm_ok (lm_Listeners m)" and "\<forall>t \<in> set (lm_recv m). rt_ok t"
    and "sm_find (lm_Listeners m) p = Some l \<Longrightarrow> listening l"
    and "sm_find (lm_Listeners m) p = Some l \<Longrightarrow> sm_find (lm_Listeners m) q = Some l' \<Longrightarrow> handle l = handle l' \<Longrightarrow> p = q"
    and "h \<in> watched (lm_recv m) \<longleftrightarrow> (\<exists>p l. sm_find (lm_Listeners m) p = Some l \<and> handle l = h)"
  using assms by (simp_all add: listeners_inv_def)

lemma listeners_inv_init: "listeners_inv ListenerManager_init"
  by (simp add: listeners_inv_def ListenerManager_init_def sm_ok_def watched_def)

lemma listener_stop_ok:
  assumes ok: "\<forall>t \<in> set ts. rt_ok t" and st: "listener_stopListen l ts = Inr (l', ts')"
  shows "(\<forall>t \<in> set ts'. rt_ok t) \<and> watched ts' = watched ts - (case li_Socket l of None \<Rightarrow> {} | Some s \<Rightarrow> {m_Socket s})"
proof (cases "li_Socket l")
  case None
  with st ok show ?thesis by (simp add: listener_stopListen_def)
next
  case (Some s)
  with st have "ssm_removeSocket (Some s) ts = Inr ts'" by (auto simp: listener_stopListen_def rbind_eq_Inr)
  from ssm_remove_ok [OF ok this] Some show ?thesis by simp
qed

lemma listening_handle: "listening l \<Longrightarrow> handle l \<noteq> INVALID_SOCKET \<and> li_Socket l \<noteq> None"
  by (auto simp: listening_def handle_def split: option.splits)

lemma listeners_inv_start:
  assumes inv: "listeners_inv m" and fresh: "fresh_handle os m" and st: "startListen os d c junk port m = Inr (r, m')"
  shows "listeners_inv m' \<and>
    (r = Call_Fine \<longrightarrow> (\<exists>l. lm_Listeners m' = sm_set port l (lm_Listeners m) \<and> listening l \<and>
        watched (lm_recv m') = insert (handle l) (watched (lm_recv m)))) \<and>
    (r \<noteq> Call_Fine \<longrightarrow> lm_Listeners m' = lm_Listeners m \<and> watched (lm_recv m') = watched (lm_recv m))"
proof (cases "sm_find (lm_Listeners m) port")
  case (Some l)
  with st inv show ?thesis by (auto simp: startListen_def)
next
  case None
  have f: "\<And>p. o_socket os p \<noteq> Inr INVALID_SOCKET" using fresh by (auto simp: fresh_handle_def)
  have rt: "\<forall>t \<in> set (lm_recv m). rt_ok t" using inv by (simp add: listeners_inv_def)
  have valid: "INVALID_SOCKET \<notin> watched (lm_recv m)"
    using inv listening_handle by (auto simp: listeners_inv_def)
  obtain ok l ts1 n1 where si: "startListenIntern os d c junk port Listener_init (lm_recv m) (lm_NumInitialized m) = Inr (ok, l, ts1, n1)"
    using st None by (auto simp: startListen_def listener_startListen_def rbind_eq_Inr)
  note cs = startListenIntern_cases [OF si f]
  show ?thesis
  proof (cases ok)
    case True
    then obtain s where s: "listening l" "li_Socket l = Some s" "ts1 = ssm_addSocket d c s (lm_recv m)" "o_socket os Ipv4 = Inr (m_Socket s)"
      using cs by auto
    have m': "m' = m\<lparr>lm_Listeners := sm_set port l (lm_Listeners m), lm_recv := ts1, lm_NumInitialized := n1\<rparr>" "r = Call_Fine"
      using st None si True by (simp_all add: startListen_def listener_startListen_def)
    have w: "watched ts1 = insert (handle l) (watched (lm_recv m))" "\<forall>t \<in> set ts1. rt_ok t"
      using ssm_add_ok [OF rt, of d c s] s(2,3) by (simp_all add: handle_def)
    have new: "handle l \<notin> watched (lm_recv m)" using fresh s(2,4) by (auto simp: fresh_handle_def handle_def)
    have ok: "sm_ok (lm_Listeners m)" using inv by (simp add: listeners_inv_def)
    have other: "sm_find (lm_Listeners m) q = Some l' \<Longrightarrow> handle l' \<noteq> handle l" for q l'
      using inv new by (auto simp: listeners_inv_def)
    have "listeners_inv m'"
    proof -
      have f: "sm_find (lm_Listeners m') p = (if p = port then Some l else sm_find (lm_Listeners m) p)" for p
        by (simp add: m' sm_find_set)
      have r': "lm_recv m' = ts1" "sm_ok (lm_Listeners m')" by (simp_all add: m' sm_ok_set ok)
      have "h \<in> watched ts1 \<longleftrightarrow> (\<exists>p q. sm_find (lm_Listeners m') p = Some q \<and> handle q = h)" for h
      proof -
        have "(\<exists>p q. sm_find (lm_Listeners m') p = Some q \<and> handle q = h) \<longleftrightarrow>
            handle l = h \<or> (\<exists>p q. sm_find (lm_Listeners m) p = Some q \<and> handle q = h)"
          unfolding f using None by (metis option.distinct(1) option.inject)
        then show ?thesis using w(1) listeners_invD(5) [OF inv] by auto
      qed
      moreover have "\<forall>p q. sm_find (lm_Listeners m') p = Some q \<longrightarrow> listening q"
        using listeners_invD(3) [OF inv] s(1) by (simp add: f)
      moreover have "p = q" if "sm_find (lm_Listeners m') p = Some x" "sm_find (lm_Listeners m') q = Some y" "handle x = handle y" for p q x y
        using that listeners_invD(4) [OF inv] other unfolding f by (metis option.inject)
      ultimately show ?thesis using w(2) r' unfolding listeners_inv_def by blast
    qed
    with m' w s(1) show ?thesis by auto
  next
    case False
    then obtain l2 ts2 where l2: "listener_stopListen l ts1 = Inr (l2, ts2)"
      using st None si by (auto simp: startListen_def listener_startListen_def rbind_eq_Inr)
    have ts1: "ts1 = lm_recv m" using cs False by simp
    have m': "\<exists>n. m' = m\<lparr>lm_recv := ts2, lm_NumInitialized := n\<rparr>" "r = Call_SocketError"
      using st None si False l2 by (auto simp: startListen_def listener_startListen_def)
    have "watched ts2 = watched (lm_recv m)" "\<forall>t \<in> set ts2. rt_ok t"
      using listener_stop_ok [OF rt l2 [unfolded ts1]] cs False valid fresh
      by (auto simp: fresh_handle_def split: option.splits)
    with m' inv show ?thesis unfolding listeners_inv_def by (elim exE) simp
  qed
qed

lemma listeners_inv_stop:
  assumes inv: "listeners_inv m" and st: "stopListen port m = Inr m'"
  shows "listeners_inv m' \<and> sm_find (lm_Listeners m') port = None \<and>
    watched (lm_recv m') = watched (lm_recv m) - (case sm_find (lm_Listeners m) port of None \<Rightarrow> {} | Some l \<Rightarrow> {handle l})"
proof (cases "sm_find (lm_Listeners m) port")
  case None
  with st inv show ?thesis by (simp add: stopListen_def)
next
  case (Some l)
  have rt: "\<forall>t \<in> set (lm_recv m). rt_ok t" and ok: "sm_ok (lm_Listeners m)" using inv by (simp_all add: listeners_inv_def)
  have l: "listening l" using inv Some by (simp add: listeners_inv_def)
  then have sock: "(case li_Socket l of None \<Rightarrow> {} | Some s \<Rightarrow> {m_Socket s}) = {handle l}"
    by (auto simp: listening_def handle_def split: option.splits)
  obtain l' ts where r: "listener_stopListen l (lm_recv m) = Inr (l', ts)"
      "m' = m\<lparr>lm_Listeners := sm_erase port (lm_Listeners m), lm_recv := ts\<rparr>"
    using st Some by (auto simp: stopListen_def rbind_eq_Inr)
  have w: "watched ts = watched (lm_recv m) - {handle l}" "\<forall>t \<in> set ts. rt_ok t"
    using listener_stop_ok [OF rt r(1)] sock by simp_all
  note fe = sm_find_erase [OF ok]
  have same: "p = port" if "sm_find (lm_Listeners m) p = Some q" "handle q = handle l" for p q
    using that inv Some unfolding listeners_inv_def by blast
  have keep: "p \<noteq> port" if "sm_find (lm_Listeners m) p = Some q" "handle q \<noteq> handle l" for p q
    using that Some by auto
  have "listeners_inv m'"
  proof -
    have f: "sm_find (lm_Listeners m') p = (if p = port then None else sm_find (lm_Listeners m) p)" for p
      by (simp add: r(2) fe)
    have r': "lm_recv m' = ts" "sm_ok (lm_Listeners m')" by (simp_all add: r(2) sm_ok_erase ok)
    have "h \<in> watched ts \<longleftrightarrow> (\<exists>p q. sm_find (lm_Listeners m') p = Some q \<and> handle q = h)" for h
      unfolding f w(1) using listeners_invD(5) [OF inv, of h] same keep by (metis Diff_iff option.distinct(1) singleton_iff)
    moreover have "p = q" if "sm_find (lm_Listeners m') p = Some x" "sm_find (lm_Listeners m') q = Some y" "handle x = handle y" for p q x y
      using that listeners_invD(4) [OF inv] unfolding f by (metis option.distinct(1))
    moreover have "\<forall>p q. sm_find (lm_Listeners m') p = Some q \<longrightarrow> listening q"
      using listeners_invD(3) [OF inv] by (simp add: f)
    ultimately show ?thesis using w(2) r' unfolding listeners_inv_def by blast
  qed
  with w r(2) Some show ?thesis by (simp add: fe)
qed

lemma listeners_inv_reach: "listeners_reach m \<Longrightarrow> listeners_inv m"
  by (induction rule: listeners_reach.induct) (auto intro: listeners_inv_init dest: listeners_inv_start listeners_inv_stop)

section \<open>Properties\<close>


definition example_os :: os_calls where
  "example_os = \<lparr>o_startup = Inr 514, o_socket = (\<lambda>p. Inr 5), o_setopt = (\<lambda>s l k on. None),
     o_getopt = (\<lambda>s l k. Inr (if k = SO_REUSEADDR then 0 else 1)), o_addrs = (\<lambda>p port. Inr [[]]), o_bind = (\<lambda>s a. None),
     o_sockname = (\<lambda>s. Inr [])\<rparr>"


end
