(* ===== verification/Net_Variables.thy ===== *)
theory Net_Variables
  imports Network_World
begin

text \<open>
  \<open>Variables.h\<close>, \<open>NetVariable.cpp\<close>, \<open>Group.cpp\<close>, \<open>GroupCollection.cpp\<close>, the group functions of
  \<open>Network.cpp\<close> and \<open>Link.cpp\<close>, the list of constructed variables of \<open>PerThreadDataProvider.cpp\<close>, and
  the lookup of functions by name in \<open>Platform.cpp\<close>.

  Variables and groups are numbers in a store; a raw or shared pointer to an object that is no longer in
  the store is dangling, and using it is \<open>Inl NullDeref\<close>. The user's memory of a variable is its
  \<open>nv_Data\<close>. The thread local list of constructed variables is that of the one thread that creates
  groups. What a variable reads or writes is decided by the user's \<open>readOrWrite\<close>, a parameter.
\<close>

section \<open>State\<close>

datatype EVarControl = Unowned | Full | Semi | Remote

datatype EChangeOwnerCallResult = Owner_Fine | Owner_NotOwned | Owner_Fail

record net_variable =
  nv_Group :: "nat option"
  nv_Data :: "byte list"
  nv_Size :: u32
  nv_Bit :: byte
  nv_Changed :: bool
  nv_VarControl :: EVarControl
  nv_Owner :: "endpoint option"
  nv_UpdateCallbacks :: "nat list"

record var_group =
  g_Id :: u32
  g_TypeName :: cstring
  g_WasUngrouped :: bool
  g_Changed :: bool
  g_Variables :: "nat list"
  g_InitData :: bin_serializer
  g_Session :: nat

record group_collection =
  gc_IdPool :: "u32 list"
  gc_PendingGroups :: "nat list"
  gc_Groups :: "(u32, nat) stdmap"

record var_store =
  vs_vars :: "(nat, net_variable) stdmap"
  vs_nextVar :: nat
  vs_groups :: "(nat, var_group) stdmap"
  vs_nextGroup :: nat
  vs_constructed :: "nat list"

definition var_store_init :: var_store where
  "var_store_init = \<lparr>vs_vars = [], vs_nextVar = 0, vs_groups = [], vs_nextGroup = 0, vs_constructed = []\<rparr>"

definition get_var :: "nat \<Rightarrow> var_store \<Rightarrow> net_variable res" where
  "get_var j vs = (case sm_find (vs_vars vs) j of None \<Rightarrow> Inl NullDeref | Some v \<Rightarrow> Inr v)"

definition put_var :: "nat \<Rightarrow> net_variable \<Rightarrow> var_store \<Rightarrow> var_store" where
  "put_var j v vs = vs\<lparr>vs_vars := sm_set j v (vs_vars vs)\<rparr>"

definition get_group :: "nat \<Rightarrow> var_store \<Rightarrow> var_group res" where
  "get_group g vs = (case sm_find (vs_groups vs) g of None \<Rightarrow> Inl NullDeref | Some gr \<Rightarrow> Inr gr)"

definition put_group :: "nat \<Rightarrow> var_group \<Rightarrow> var_store \<Rightarrow> var_store" where
  "put_group g gr vs = vs\<lparr>vs_groups := sm_set g gr (vs_groups vs)\<rparr>"

section \<open>Group\<close>

definition group_markChanged :: "nat \<Rightarrow> var_store \<Rightarrow> var_store res" where
  "group_markChanged g vs = rbind (get_group g vs) (\<lambda>gr. Inr (put_group g (gr\<lparr>g_Changed := True\<rparr>) vs))"

definition group_unGroup :: "nat \<Rightarrow> var_store \<Rightarrow> var_store res" where
  "group_unGroup g vs =
     rbind (get_group g vs) (\<lambda>gr.
       if g_WasUngrouped gr then Inr vs
       else Inr (put_group g (gr\<lparr>g_WasUngrouped := True, g_Variables := []\<rparr>) vs))"

definition group_wasUngrouped :: "nat \<Rightarrow> var_store \<Rightarrow> bool res" where
  "group_wasUngrouped g vs = rbind (get_group g vs) (\<lambda>gr. Inr (g_WasUngrouped gr))"

text \<open>\<open>getUserVar\<close> answers null for an index that is too large; a variable is its own user variable here.\<close>

definition group_getUserVar :: "byte \<Rightarrow> nat \<Rightarrow> var_store \<Rightarrow> nat option res" where
  "group_getUserVar idx g vs =
     rbind (get_group g vs) (\<lambda>gr.
       if unat idx < length (g_Variables gr)
       then rbind (get_var (g_Variables gr ! unat idx) vs) (\<lambda>v. Inr (Some (g_Variables gr ! unat idx)))
       else Inr None)"

section \<open>NetVariable\<close>

text \<open>The constructor and the list of the variables that are not in a group yet.\<close>

definition NetVariable_new :: "byte list \<Rightarrow> u32 \<Rightarrow> var_store \<Rightarrow> nat \<times> var_store" where
  "NetVariable_new data sz vs =
     (let j = vs_nextVar vs
      in (j, (put_var j \<lparr>nv_Group = None, nv_Data = data, nv_Size = sz, nv_Bit = - 1, nv_Changed = False,
                nv_VarControl = Unowned, nv_Owner = None, nv_UpdateCallbacks = []\<rparr> vs)
             \<lparr>vs_nextVar := Suc j, vs_constructed := vs_constructed vs @ [j]\<rparr>))"

definition nv_initialize :: "nat \<Rightarrow> endpoint option \<Rightarrow> EVarControl \<Rightarrow> byte \<Rightarrow> nat \<Rightarrow> var_store \<Rightarrow> var_store res" where
  "nv_initialize g owner ctrl b j vs =
     rbind (get_var j vs) (\<lambda>v.
       Inr (put_var j (v\<lparr>nv_Group := Some g, nv_Bit := b, nv_Owner := (case owner of None \<Rightarrow> nv_Owner v | Some a \<Rightarrow> Some a),
                          nv_VarControl := ctrl\<rparr>) vs))"

definition nv_unGroup :: "nat \<Rightarrow> var_store \<Rightarrow> var_store res" where
  "nv_unGroup j vs =
     rbind (get_var j vs) (\<lambda>v.
       case nv_Group v of
         None \<Rightarrow> Inr vs
       | Some g \<Rightarrow> rbind (group_unGroup g vs) (\<lambda>vs1. Inr (put_var j (v\<lparr>nv_Group := None\<rparr>) vs1)))"

definition NetVariable_delete :: "nat \<Rightarrow> var_store \<Rightarrow> var_store res" where
  "NetVariable_delete j vs =
     rbind (nv_unGroup j (vs\<lparr>vs_constructed := remove1 j (vs_constructed vs)\<rparr>)) (\<lambda>vs1.
       Inr (vs1\<lparr>vs_vars := sm_erase j (vs_vars vs1)\<rparr>))"

definition nv_groupId :: "nat \<Rightarrow> var_store \<Rightarrow> u32 res" where
  "nv_groupId j vs =
     rbind (get_var j vs) (\<lambda>v. case nv_Group v of None \<Rightarrow> Inr (- 1) | Some g \<Rightarrow> rbind (get_group g vs) (\<lambda>gr. Inr (g_Id gr)))"

definition nv_markChanged :: "nat \<Rightarrow> var_store \<Rightarrow> var_store res" where
  "nv_markChanged j vs =
     rbind (get_var j vs) (\<lambda>v.
     rbind (case nv_Group v of None \<Rightarrow> Inr vs | Some g \<Rightarrow> group_markChanged g vs) (\<lambda>vs1.
       Inr (put_var j (v\<lparr>nv_Changed := True\<rparr>) vs1)))"

definition nv_markUnchanged :: "nat \<Rightarrow> var_store \<Rightarrow> var_store res" where
  "nv_markUnchanged j vs = rbind (get_var j vs) (\<lambda>v. Inr (put_var j (v\<lparr>nv_Changed := False\<rparr>) vs))"

definition nv_setNewOwner :: "endpoint option \<Rightarrow> nat \<Rightarrow> var_store \<Rightarrow> var_store res" where
  "nv_setNewOwner etp j vs =
     rbind (get_var j vs) (\<lambda>v.
       case etp of
         None \<Rightarrow> Inr (put_var j (v\<lparr>nv_Owner := None, nv_VarControl := Full\<rparr>) vs)
       | Some a \<Rightarrow> Inr (put_var j (v\<lparr>nv_Owner := Some a, nv_VarControl := Remote\<rparr>) vs))"

definition nv_addUpdateCallback :: "nat \<Rightarrow> nat \<Rightarrow> var_store \<Rightarrow> var_store res" where
  "nv_addUpdateCallback cb j vs =
     rbind (get_var j vs) (\<lambda>v. Inr (put_var j (v\<lparr>nv_UpdateCallbacks := nv_UpdateCallbacks v @ [cb]\<rparr>) vs))"

text \<open>The arguments of the remote call \<open>changeOwner\<close>, and \<open>NetVariable::changeOwner\<close>, which sends it to the
  session of the group with the relay and the system bit.\<close>

definition changeOwner_args :: "u32 \<Rightarrow> byte \<Rightarrow> endpoint \<Rightarrow> bin_serializer \<Rightarrow> bin_serializer res" where
  "changeOwner_args gid b a bs =
     rbind (getCopyDerived a) (\<lambda>c.
     rbind (ser_arg write32 gid bs) (\<lambda>bs1. rbind (ser_arg write8 b bs1) (ser_arg write_addr (Some c))))"

definition nv_changeOwner :: "endpoint \<Rightarrow> nat \<Rightarrow> var_store \<Rightarrow> world \<Rightarrow> (EChangeOwnerCallResult \<times> world) res" where
  "nv_changeOwner etp j vs w =
     rbind (get_var j vs) (\<lambda>v.
       if nv_Owner v \<noteq> None then Inr (Owner_NotOwned, w)
       else case nv_Group v of
              None \<Rightarrow> Inr (Owner_NotOwned, w)
            | Some g \<Rightarrow>
                rbind (get_group g vs) (\<lambda>gr.
                rbind (nv_groupId j vs) (\<lambda>gid.
                rbind (changeOwner_args gid (nv_Bit v) etp bs_reset) (\<lambda>bs.
                rbind (priv_send_rpc (cstr ''changeOwner'') bs (Some (g_Session gr)) None False True True 0 w) (\<lambda>(r, w1).
                  Inr (if r = Send_Fine then Owner_Fine else Owner_Fail, w1))))))"

text \<open>\<open>readOrWrite\<close>: \<open>user\<close> is the virtual function of the variable on its memory. The answer has the
  callbacks in the order of the calls, each with the new and the previous bytes. The previous bytes are
  kept in a buffer of \<open>MM_MAX_FRAGMENTSIZE\<close> bytes, and only if there are callbacks.\<close>

definition nv_readOrWrite ::
  "(bool \<Rightarrow> byte list \<Rightarrow> bin_serializer \<Rightarrow> (bool \<times> byte list \<times> bin_serializer) res) \<Rightarrow> bool \<Rightarrow> nat \<Rightarrow> bin_serializer \<Rightarrow> var_store \<Rightarrow>
   ((nat \<times> byte list \<times> byte list) list \<times> bin_serializer \<times> var_store) res" where
  "nv_readOrWrite user write j bs vs =
     rbind (get_var j vs) (\<lambda>v.
       let n = unat (nv_Size v); keep = (\<not> write \<and> nv_UpdateCallbacks v \<noteq> [])
       in rbind (if keep
                 then rbind (mem_load (Some (nv_Data v)) 0 n) (\<lambda>old. mem_store (Some (replicate (nat MM_MAX_FRAGMENTSIZE) 0)) 0 old)
                 else Inr None) (\<lambda>prev.
          rbind (user write (nv_Data v) bs) (\<lambda>(ok, data, bs1).
            if \<not> ok then Inl Terminate
            else let vs1 = put_var j (v\<lparr>nv_Data := data\<rparr>) vs
                 in if keep
                    then rbind (mem_load (Some data) 0 n) (\<lambda>new.
                         rbind (mem_load prev 0 n) (\<lambda>old.
                           Inr (if memcmp new old n \<noteq> 0 then map (\<lambda>cb. (cb, data, old)) (nv_UpdateCallbacks v) else [], bs1, vs1)))
                    else Inr ([], bs1, vs1))))"

section \<open>Groups of variables\<close>

text \<open>The loop of the constructor of \<open>Group\<close>; \<open>k\<close> is a byte.\<close>

fun init_vars :: "nat \<Rightarrow> EVarControl \<Rightarrow> nat list \<Rightarrow> byte \<Rightarrow> var_store \<Rightarrow> var_store res" where
  "init_vars g ctrl [] k vs = Inr vs"
| "init_vars g ctrl (j # js) k vs = rbind (nv_initialize g None ctrl k j vs) (\<lambda>vs1. init_vars g ctrl js (k + 1) vs1)"

definition Group_new ::
  "nat \<Rightarrow> nat list \<Rightarrow> cstring \<Rightarrow> bin_serializer \<Rightarrow> EVarControl \<Rightarrow> var_store \<Rightarrow> (nat \<times> var_store) res" where
  "Group_new session vars typeName initData ctrl vs =
     rbind (bs_copy initData) (\<lambda>d.
       let g = vs_nextGroup vs;
           vs1 = (put_group g \<lparr>g_Id = - 1, g_TypeName = typeName, g_WasUngrouped = False, g_Changed = False, g_Variables = vars,
                    g_InitData = d, g_Session = session\<rparr> vs)\<lparr>vs_nextGroup := Suc g\<rparr>
       in rbind (init_vars g ctrl vars 0 vs1) (\<lambda>vs2. Inr (g, vs2)))"

definition Group_delete :: "nat \<Rightarrow> var_store \<Rightarrow> var_store res" where
  "Group_delete g vs = rbind (group_unGroup g vs) (\<lambda>vs1. Inr (vs1\<lparr>vs_groups := sm_erase g (vs_groups vs1)\<rparr>))"

definition group_setNewOwnership :: "byte \<Rightarrow> endpoint option \<Rightarrow> nat \<Rightarrow> var_store \<Rightarrow> var_store res" where
  "group_setNewOwnership varIdx owner g vs =
     rbind (get_group g vs) (\<lambda>gr.
       if unat varIdx < length (g_Variables gr) then nv_setNewOwner owner (g_Variables gr ! unat varIdx) vs else Inl OutOfBounds)"

section \<open>GroupCollection\<close>

definition GroupCollection_init :: group_collection where
  "GroupCollection_init = \<lparr>gc_IdPool = [], gc_PendingGroups = [], gc_Groups = []\<rparr>"

text \<open>The answer says whether a job for \<open>tryProcessPendingGroups\<close> was added.\<close>

definition addNewPendingGroup ::
  "nat \<Rightarrow> nat list \<Rightarrow> cstring \<Rightarrow> bin_serializer \<Rightarrow> group_collection \<Rightarrow> var_store \<Rightarrow> (bool \<times> group_collection \<times> var_store) res" where
  "addNewPendingGroup session vars typeName initData gc vs =
     (if vars = [] then Inr (False, gc, vs)
      else rbind (Group_new session vars typeName initData Full vs) (\<lambda>(g, vs1).
           Inr (True, gc\<lparr>gc_PendingGroups := gc_PendingGroups gc @ [g]\<rparr>, vs1)))"

text \<open>The remote call \<open>createGroup\<close> of a collection of the network, to the whole session and buffered, or of
  one link.\<close>

definition createGroup_args :: "cstring \<Rightarrow> u32 \<Rightarrow> bin_serializer \<Rightarrow> bin_serializer \<Rightarrow> bin_serializer res" where
  "createGroup_args typeName gid initData bs =
     rbind (ser_arg write_string typeName bs) (\<lambda>bs1. rbind (ser_arg write32 gid bs1) (ser_arg bs_write_bs initData))"

definition msgGroupCreate_network :: "nat \<Rightarrow> cstring \<Rightarrow> u32 \<Rightarrow> bin_serializer \<Rightarrow> world \<Rightarrow> world res" where
  "msgGroupCreate_network session typeName gid initData w =
     rbind (createGroup_args typeName gid initData bs_reset) (\<lambda>bs.
     rbind (priv_send_rpc (cstr ''createGroup'') bs (Some session) None True True True 0 w) (\<lambda>(r, w1). Inr w1))"

definition msgGroupCreate_link :: "nat \<Rightarrow> cstring \<Rightarrow> u32 \<Rightarrow> bin_serializer \<Rightarrow> world \<Rightarrow> world res" where
  "msgGroupCreate_link i typeName gid initData w =
     rbind (callRpc ''createGroup'' (createGroup_args typeName gid initData) i w) (\<lambda>(r, w1). Inr w1)"

text \<open>The loop takes the group at the front and removes the one at the back. The measure is the number of ids;
  \<open>msg\<close> is the virtual \<open>msgGroupCreate\<close>.\<close>

function tryProcessPendingGroups ::
  "(nat \<Rightarrow> cstring \<Rightarrow> u32 \<Rightarrow> bin_serializer \<Rightarrow> world \<Rightarrow> world res) \<Rightarrow> group_collection \<Rightarrow> var_store \<Rightarrow> world \<Rightarrow>
   (group_collection \<times> var_store \<times> world) res" where
  "tryProcessPendingGroups msg gc vs w =
     (if gc_PendingGroups gc = [] \<or> gc_IdPool gc = [] then Inr (gc, vs, w)
      else let i = last (gc_IdPool gc); g = hd (gc_PendingGroups gc)
           in case get_group g vs of
                Inl e \<Rightarrow> Inl e
              | Inr gr \<Rightarrow>
                  (case msg (g_Session gr) (g_TypeName gr) i (g_InitData gr) w of
                     Inl e \<Rightarrow> Inl e
                   | Inr w1 \<Rightarrow>
                       tryProcessPendingGroups msg
                         (gc\<lparr>gc_IdPool := butlast (gc_IdPool gc), gc_PendingGroups := butlast (gc_PendingGroups gc),
                             gc_Groups := sm_set i g (gc_Groups gc)\<rparr>)
                         (put_group g (gr\<lparr>g_Id := i\<rparr>) vs) w1))"
  by pat_completeness auto
termination
  by (relation "measure (\<lambda>(msg, gc, vs, w). length (gc_IdPool gc))") auto

declare tryProcessPendingGroups.simps [simp del]

definition findGroup :: "u32 \<Rightarrow> group_collection \<Rightarrow> nat option" where
  "findGroup netId gc = sm_find (gc_Groups gc) netId"

text \<open>\<open>Network::createGroupInternal\<close> and \<open>Link::createGroup\<close>: the variables constructed by this thread become a
  group.\<close>

definition createGroupInternal ::
  "nat \<Rightarrow> cstring \<Rightarrow> bin_serializer \<Rightarrow> group_collection \<Rightarrow> var_store \<Rightarrow> (bool \<times> group_collection \<times> var_store) res" where
  "createGroupInternal session groupType initData gc vs =
     rbind (addNewPendingGroup session (vs_constructed vs) groupType initData gc vs) (\<lambda>(job, gc1, vs1).
       Inr (job, gc1, vs1\<lparr>vs_constructed := []\<rparr>))"

definition link_createGroup ::
  "nat \<Rightarrow> cstring \<Rightarrow> bin_serializer \<Rightarrow> group_collection \<Rightarrow> var_store \<Rightarrow> world \<Rightarrow> (bool \<times> group_collection \<times> var_store) res" where
  "link_createGroup i typeName initData gc vs w =
     rbind (link_session i w) (\<lambda>sid. createGroupInternal sid typeName initData gc vs)"

section \<open>Handlers\<close>

text \<open>An \<open>EventOwnerChanged\<close> that was pushed: the new owner, the group and the bit.\<close>

type_synonym owner_event = "endpoint option \<times> nat \<times> byte"

definition changeOwner :: "u32 \<Rightarrow> byte \<Rightarrow> endpoint option \<Rightarrow> nat \<Rightarrow> group_collection \<Rightarrow> var_store \<Rightarrow> world \<Rightarrow> (owner_event option \<times> var_store) res" where
  "changeOwner netId b owner i gc vs w =
     rbind (link_session i w) (\<lambda>sid.
       case findGroup netId gc of
         None \<Rightarrow> Inr (None, vs)
       | Some g \<Rightarrow> rbind (group_setNewOwnership b owner g vs) (\<lambda>vs1. Inr (Some (owner, g, b), vs1)))"

text \<open>\<open>EventOwnerChanged::process\<close>: the calls of \<open>onOwnerChanged\<close>, one for each listener of the session.\<close>

definition owner_process :: "owner_event \<Rightarrow> nat list \<Rightarrow> var_store \<Rightarrow> (nat \<times> nat \<times> endpoint option) list res" where
  "owner_process e ls vs =
     (case e of (newOwner, g, b) \<Rightarrow>
        rbind (group_wasUngrouped g vs) (\<lambda>un.
          if un then Inr []
          else rbind (group_getUserVar b g vs) (\<lambda>uv.
               case uv of None \<Rightarrow> Inr [] | Some j \<Rightarrow> Inr (map (\<lambda>l. (l, j, newOwner)) ls))))"

section \<open>Functions by name\<close>

text \<open>\<open>getPtrFromName\<close>: \<open>exported\<close> is the lookup of an exported function in the running image.\<close>

definition getPtrFromName :: "(cstring \<Rightarrow> 'f option) \<Rightarrow> cstring \<Rightarrow> (cstring, 'f) stdmap \<Rightarrow> 'f option \<times> (cstring, 'f) stdmap" where
  "getPtrFromName exported name cache =
     (case sm_find cache name of
        Some pf \<Rightarrow> (Some pf, cache)
      | None \<Rightarrow> (case exported name of Some pf \<Rightarrow> (Some pf, snd (sm_insert name pf cache)) | None \<Rightarrow> (None, cache)))"

definition priv_get_rpc_func :: "(cstring \<Rightarrow> 'f option) \<Rightarrow> cstring \<Rightarrow> (cstring, 'f) stdmap \<Rightarrow> 'f option \<times> (cstring, 'f) stdmap" where
  "priv_get_rpc_func exported name = getPtrFromName exported (cstr ''rpc_dsr_'' @ name)"

text \<open>\<open>Network::createRemoteGroup\<close>: the function that is called, if there is one.\<close>

definition createRemoteGroup :: "(cstring \<Rightarrow> 'f option) \<Rightarrow> cstring \<Rightarrow> (cstring, 'f) stdmap \<Rightarrow> 'f option \<times> (cstring, 'f) stdmap" where
  "createRemoteGroup exported typeName = getPtrFromName exported (cstr ''deserialize_'' @ typeName)"

text \<open>The handler of \<open>createGroup\<close>.\<close>

definition createGroup ::
  "(cstring \<Rightarrow> 'f option) \<Rightarrow> cstring \<Rightarrow> nat \<Rightarrow> (cstring, 'f) stdmap \<Rightarrow> world \<Rightarrow> ('f option \<times> (cstring, 'f) stdmap) res" where
  "createGroup exported typeName i cache w = rbind (link_session i w) (\<lambda>sid. Inr (createRemoteGroup exported typeName cache))"

end
