(* ===== verification/Variable_Groups.thy ===== *)
theory Variable_Groups
  imports Net_Variables Network_Sending
begin

text \<open>
  What the groups of variables guarantee: how a group is bound to its variables, when the update callbacks
  of a variable run, what handing over a variable does, and that no group is ever registered.
\<close>

section \<open>Binding\<close>

lemma put_var_simps [simp]:
  "sm_find (vs_vars (put_var j v vs)) i = (if i = j then Some v else sm_find (vs_vars vs) i)"
  "vs_groups (put_var j v vs) = vs_groups vs" "vs_constructed (put_var j v vs) = vs_constructed vs"
  by (simp_all add: put_var_def)

lemma put_group_simps [simp]:
  "sm_find (vs_groups (put_group g gr vs)) i = (if i = g then Some gr else sm_find (vs_groups vs) i)"
  "vs_vars (put_group g gr vs) = vs_vars vs" "vs_constructed (put_group g gr vs) = vs_constructed vs"
  by (simp_all add: put_group_def)

text \<open>A variable that became the \<open>k\<close>-th of a group.\<close>

definition bound_as :: "nat \<Rightarrow> EVarControl \<Rightarrow> byte \<Rightarrow> net_variable \<Rightarrow> net_variable" where
  "bound_as g ctrl k v = v\<lparr>nv_Group := Some g, nv_Bit := k, nv_VarControl := ctrl\<rparr>"

lemma nv_initialize_eq:
  "sm_find (vs_vars vs) j = Some v \<Longrightarrow> nv_initialize g None ctrl k j vs = Inr (put_var j (bound_as g ctrl k v) vs)"
  by (simp add: nv_initialize_def get_var_def bound_as_def)

lemma init_vars_ok:
  assumes "distinct js" and "\<And>j. j \<in> set js \<Longrightarrow> sm_find (vs_vars vs) j \<noteq> None"
  shows "\<exists>vs'. init_vars g ctrl js k vs = Inr vs' \<and> vs_groups vs' = vs_groups vs \<and>
    (\<forall>m < length js. sm_find (vs_vars vs') (js ! m) = map_option (bound_as g ctrl (k + of_nat m)) (sm_find (vs_vars vs) (js ! m))) \<and>
    (\<forall>j. j \<notin> set js \<longrightarrow> sm_find (vs_vars vs') j = sm_find (vs_vars vs) j)"
  using assms
proof (induction js arbitrary: k vs)
  case (Cons j js)
  obtain v where v: "sm_find (vs_vars vs) j = Some v" using Cons.prems(2) [of j] by auto
  let ?vs = "put_var j (bound_as g ctrl k v) vs"
  have "\<And>i. i \<in> set js \<Longrightarrow> sm_find (vs_vars ?vs) i \<noteq> None" using Cons.prems(2) by simp
  with Cons.IH [of ?vs "k + 1"] Cons.prems(1) obtain vs' where vs': "init_vars g ctrl js (k + 1) ?vs = Inr vs'"
      "vs_groups vs' = vs_groups vs"
      "\<And>m. m < length js \<Longrightarrow> sm_find (vs_vars vs') (js ! m) = map_option (bound_as g ctrl (k + 1 + of_nat m)) (sm_find (vs_vars ?vs) (js ! m))"
      "\<And>i. i \<notin> set js \<Longrightarrow> sm_find (vs_vars vs') i = sm_find (vs_vars ?vs) i" by auto
  have "sm_find (vs_vars vs') ((j # js) ! m) = map_option (bound_as g ctrl (k + of_nat m)) (sm_find (vs_vars vs) ((j # js) ! m))"
    if "m < length (j # js)" for m
  proof (cases m)
    case 0
    then show ?thesis using vs'(4) [of j] Cons.prems(1) v by simp
  next
    case (Suc n)
    then have "js ! n \<noteq> j" "n < length js" using that Cons.prems(1) by (auto simp: in_set_conv_nth)
    with Suc vs'(3) [of n] show ?thesis by (simp add: algebra_simps)
  qed
  with v vs'(1,2,4) show ?case by (simp add: nv_initialize_eq)
qed simp

lemma bs_copy_ok:
  assumes "bs_inv b" and "length (content b) \<le> max_stream"
  shows "\<exists>d. bs_copy b = Inr d \<and> content d = content b"
  using write_raw_ok [of bs_reset "content b"] load_all [OF assms(1)] assms(2)
  by (auto simp: bs_copy_def bs_write_bs_def appended_def)

text \<open>The variables that are constructed and not grouped are alive and different, whatever variables and groups
  were created and destroyed.\<close>

definition vs_inv :: "var_store \<Rightarrow> bool" where
  "vs_inv vs \<longleftrightarrow> sm_ok (vs_vars vs) \<and> distinct (vs_constructed vs) \<and>
     (\<forall>j \<in> set (vs_constructed vs). sm_find (vs_vars vs) j \<noteq> None) \<and> (\<forall>j. sm_find (vs_vars vs) j \<noteq> None \<longrightarrow> j < vs_nextVar vs)"

inductive vs_reach :: "var_store \<Rightarrow> bool" where
  init: "vs_reach var_store_init"
| new: "vs_reach vs \<Longrightarrow> vs_reach (snd (NetVariable_new data sz vs))"
| delete: "vs_reach vs \<Longrightarrow> NetVariable_delete j vs = Inr vs' \<Longrightarrow> vs_reach vs'"
| create: "vs_reach vs \<Longrightarrow> createGroupInternal sid ty d gc vs = Inr (job, gc', vs') \<Longrightarrow> vs_reach vs'"
| changed: "vs_reach vs \<Longrightarrow> nv_markChanged j vs = Inr vs' \<Longrightarrow> vs_reach vs'"
| owner: "vs_reach vs \<Longrightarrow> changeOwner netId b owner i gc vs w = Inr (e, vs') \<Longrightarrow> vs_reach vs'"
| read: "vs_reach vs \<Longrightarrow> nv_readOrWrite user wr j bs vs = Inr (cbs, bs', vs') \<Longrightarrow> vs_reach vs'"

lemma get_var_Inr: "get_var j vs = Inr v \<longleftrightarrow> sm_find (vs_vars vs) j = Some v"
  by (simp add: get_var_def split: option.split)

lemma vs_inv_put_group [simp]: "vs_inv (put_group g gr vs) \<longleftrightarrow> vs_inv vs"
  by (simp add: vs_inv_def put_group_def)

lemma vs_inv_put: "vs_inv vs \<Longrightarrow> sm_find (vs_vars vs) j \<noteq> None \<Longrightarrow> vs_inv (put_var j v vs)"
  by (auto simp: vs_inv_def put_var_def sm_ok_set sm_find_set)

lemma vs_inv_initialize: "vs_inv vs \<Longrightarrow> nv_initialize g a ctrl k j vs = Inr vs' \<Longrightarrow> vs_inv vs'"
  by (auto simp: nv_initialize_def get_var_Inr elim!: resE intro: vs_inv_put)

lemma vs_inv_init_vars: "vs_inv vs \<Longrightarrow> init_vars g ctrl js k vs = Inr vs' \<Longrightarrow> vs_inv vs'"
  by (induction js arbitrary: k vs) (auto elim!: resE dest: vs_inv_initialize)

lemma vs_inv_create: "vs_inv vs \<Longrightarrow> createGroupInternal sid ty d gc vs = Inr (job, gc', vs') \<Longrightarrow> vs_inv vs'"
proof -
  assume inv: "vs_inv vs" and c: "createGroupInternal sid ty d gc vs = Inr (job, gc', vs')"
  then obtain vs1 where "vs_inv vs1" "vs' = vs1\<lparr>vs_constructed := []\<rparr>"
  proof (cases "vs_constructed vs = []")
    case True
    with that inv c show ?thesis by (auto simp: createGroupInternal_def addNewPendingGroup_def)
  next
    case False
    then obtain g gr vs1 vs2 where "vs1 = (put_group g gr vs)\<lparr>vs_nextGroup := Suc g\<rparr>"
        "init_vars g Full (vs_constructed vs) 0 vs1 = Inr vs2" "vs' = vs2\<lparr>vs_constructed := []\<rparr>"
      using c by (auto simp: createGroupInternal_def addNewPendingGroup_def Group_new_def Let_def elim!: resE)
    moreover have "vs_inv ((put_group g gr vs)\<lparr>vs_nextGroup := Suc g\<rparr>)" for g gr
      using inv by (simp add: vs_inv_def put_group_def)
    ultimately show ?thesis using that vs_inv_init_vars by blast
  qed
  then show ?thesis by (simp add: vs_inv_def)
qed

lemma vs_inv_delete:
  assumes "vs_inv vs" and "NetVariable_delete j vs = Inr vs'"
  shows "vs_inv vs'"
proof -
  let ?vs = "vs\<lparr>vs_constructed := remove1 j (vs_constructed vs)\<rparr>"
  obtain vs1 where u: "nv_unGroup j ?vs = Inr vs1" "vs' = vs1\<lparr>vs_vars := sm_erase j (vs_vars vs1)\<rparr>"
    using assms(2) by (auto simp: NetVariable_delete_def elim!: resE)
  have inv: "vs_inv ?vs" "j \<notin> set (vs_constructed ?vs)" using assms(1) by (auto simp: vs_inv_def dest: notin_set_remove1)
  have "vs_inv vs1" "vs_constructed vs1 = vs_constructed ?vs"
    using u(1) inv by (auto simp: nv_unGroup_def group_unGroup_def get_var_Inr put_group_def elim!: resE split: option.splits if_splits
        intro!: vs_inv_put) (auto simp: vs_inv_def)
  with inv(2) show ?thesis unfolding u(2) by (auto simp: vs_inv_def sm_ok_erase sm_find_erase)
qed

lemma vs_inv_reach: "vs_reach vs \<Longrightarrow> vs_inv vs"
proof (induction rule: vs_reach.induct)
  case init
  then show ?case by (simp add: vs_inv_def var_store_init_def sm_ok_def)
next
  case (new vs data sz)
  then show ?case by (auto simp: vs_inv_def NetVariable_new_def Let_def put_var_def sm_ok_set sm_find_set less_SucI)
next
  case (delete vs j vs')
  then show ?case using vs_inv_delete by blast
next
  case (create vs sid ty d gc job gc' vs')
  then show ?case using vs_inv_create by blast
next
  case (changed vs j vs')
  then show ?case
    by (auto simp: nv_markChanged_def group_markChanged_def get_var_Inr elim!: resE split: option.splits intro!: vs_inv_put)
next
  case (owner vs netId b owner i gc w e vs')
  then show ?case
    by (auto simp: changeOwner_def group_setNewOwnership_def nv_setNewOwner_def get_var_Inr elim!: resE
        split: option.splits if_splits intro!: vs_inv_put)
next
  case (read vs user wr j bs cbs bs' vs')
  then show ?case by (auto simp: nv_readOrWrite_def get_var_Inr Let_def elim!: resE split: if_splits prod.splits intro!: vs_inv_put)
qed

section \<open>Registration\<close>

text \<open>Everything that changes a collection of groups.\<close>

inductive gc_reach :: "group_collection \<Rightarrow> bool" where
  init: "gc_reach GroupCollection_init"
| create: "gc_reach gc \<Longrightarrow> createGroupInternal sid ty d gc vs = Inr (job, gc', vs') \<Longrightarrow> gc_reach gc'"
| create_link: "gc_reach gc \<Longrightarrow> link_createGroup i ty d gc vs w = Inr (job, gc', vs') \<Longrightarrow> gc_reach gc'"
| process: "gc_reach gc \<Longrightarrow> tryProcessPendingGroups msg gc vs w = Inr (gc', vs', w') \<Longrightarrow> gc_reach gc'"

lemma createGroupInternal_gc:
  "createGroupInternal sid ty d gc vs = Inr (job, gc', vs') \<Longrightarrow> gc_IdPool gc' = gc_IdPool gc \<and> gc_Groups gc' = gc_Groups gc"
  by (auto simp: createGroupInternal_def addNewPendingGroup_def elim!: resE split: if_splits)

lemma no_ids: "gc_IdPool gc = [] \<Longrightarrow> tryProcessPendingGroups msg gc vs w = Inr (gc, vs, w)"
  by (simp add: tryProcessPendingGroups.simps)

lemma gc_reach_empty: "gc_reach gc \<Longrightarrow> gc_IdPool gc = [] \<and> gc_Groups gc = []"
proof (induction rule: gc_reach.induct)
  case (create_link gc i ty d vs w job gc' vs')
  then show ?case by (auto simp: link_createGroup_def elim!: resE dest!: createGroupInternal_gc)
qed (auto simp: GroupCollection_init_def no_ids dest!: createGroupInternal_gc)

section \<open>Ownership\<close>

text \<open>Reading the arguments of \<open>changeOwner\<close> in the order of \<open>Rpc.h\<close>.\<close>

definition read_changeOwner :: "bin_serializer \<Rightarrow> ((u32 \<times> byte \<times> endpoint option) option \<times> bin_serializer) res" where
  "read_changeOwner = seq_get read32 (seq_get read8 read_addr)"

interpretation owner_codec: codec_pair write8 read8 "\<lambda>b. [b]" "\<lambda>_. True" write_addr read_addr addr_bytes addr_ok ..

interpretation owner_args: codec_pair write32 read32 "\<lambda>x. rev (le32 x)" "\<lambda>_. True" "seq_put write8 write_addr" "seq_get read8 read_addr"
    "\<lambda>xy. [fst xy] @ addr_bytes (snd xy)" "\<lambda>xy. True \<and> addr_ok (snd xy)" ..

lemma changeOwner_args_ok:
  assumes "endpoint_ok a"
  shows "\<exists>bs. changeOwner_args gid b a bs_reset = Inr bs \<and> appended bs_reset (rev (le32 gid) @ [b] @ addr_bytes (Some a)) bs"
proof -
  have len: "length (addr_bytes (Some a)) = 29" using assms by (simp add: addr_bytes_def endpoint_ok_def getLowLevelAddrSize_def)
  obtain b1 where b1: "ser_arg write32 gid bs_reset = Inr b1" "appended bs_reset (rev (le32 gid)) b1"
    using u32_codec.ser_arg_ok [of bs_reset gid] by (auto simp: max_stream_def)
  obtain b2 where b2: "ser_arg write8 b b1 = Inr b2" "appended b1 [b] b2"
    using byte_codec.ser_arg_ok [of b1 b] b1(2) by (auto simp: appended_def max_stream_def)
  obtain b3 where b3: "ser_arg write_addr (Some a) b2 = Inr b3" "appended b2 (addr_bytes (Some a)) b3"
    using addr_codec.ser_arg_ok [of b2 "Some a"] b1(2) b2(2) len assms by (auto simp: appended_def max_stream_def addr_ok_def)
  have "appended bs_reset (rev (le32 gid) @ [b] @ addr_bytes (Some a)) b3"
    using appended_trans [OF appended_trans [OF b1(2) b2(2)] b3(2)] by simp
  then show ?thesis using b1(1) b2(1) b3(1) assms by (simp add: changeOwner_args_def getCopyDerived_ok)
qed

lemma read_changeOwner_ok:
  assumes "bs_inv s" and "unread s = rev (le32 gid) @ [b] @ addr_bytes a" and "addr_ok a"
  shows "\<exists>s'. read_changeOwner s = Inr (Some (gid, b, a), s')"
  using owner_args.pair.get_ok [of s "(gid, b, a)" "[]"] assms by (simp add: read_changeOwner_def)

section \<open>Names\<close>

text \<open>A sequence of lookups, with the cache.\<close>

fun lookups :: "(cstring \<Rightarrow> 'f option) \<Rightarrow> cstring list \<Rightarrow> (cstring, 'f) stdmap \<Rightarrow> 'f option list" where
  "lookups exported [] cache = []"
| "lookups exported (n # ns) cache = (case getPtrFromName exported n cache of (r, cache') \<Rightarrow> r # lookups exported ns cache')"

lemma getPtrFromName_eq:
  assumes "\<forall>n f. sm_find cache n = Some f \<longrightarrow> exported n = Some f" and "getPtrFromName exported n cache = (r, cache')"
  shows "r = exported n \<and> (\<forall>n f. sm_find cache' n = Some f \<longrightarrow> exported n = Some f)"
proof (cases "sm_find cache n")
  case None
  then show ?thesis using assms by (auto simp: getPtrFromName_def sm_insert_def sm_find_set split: option.splits if_splits)
next
  case (Some f)
  then have "r = Some f" "cache' = cache" using assms(2) by (simp_all add: getPtrFromName_def)
  with Some assms(1) show ?thesis by simp
qed

text \<open>Reading a variable from the network runs its update callbacks exactly if its bytes changed, each once and
  in the order in which they were added, with the new and the previous bytes; the variable then holds the
  bytes that were read.\<close>

lemma nv_read_notifies:
  assumes "sm_find (vs_vars vs) j = Some v" and "user False (nv_Data v) bs = Inr (True, data, bs')"
    and "length (nv_Data v) = unat (nv_Size v)" and "length data = unat (nv_Size v)" and "unat (nv_Size v) \<le> nat MM_MAX_FRAGMENTSIZE"
  shows "nv_readOrWrite user False j bs vs =
    Inr (if data = nv_Data v then [] else map (\<lambda>cb. (cb, data, nv_Data v)) (nv_UpdateCallbacks v), bs', put_var j (v\<lparr>nv_Data := data\<rparr>) vs)"
proof (cases "nv_UpdateCallbacks v")
  case Nil
  then show ?thesis using assms(1,2) by (simp add: nv_readOrWrite_def get_var_def Let_def)
next
  case (Cons c cs)
  let ?n = "unat (nv_Size v)" and ?buf = "nv_Data v @ replicate (1900 - unat (nv_Size v)) (0 :: byte)"
  have le: "?n \<le> 1900" using assms(5) by (simp add: MM_MAX_FRAGMENTSIZE_def)
  have load: "mem_load (Some (nv_Data v)) 0 ?n = Inr (nv_Data v)" "mem_load (Some data) 0 ?n = Inr data"
    "mem_load (Some ?buf) 0 ?n = Inr (nv_Data v)"
    using assms(3,4) le by (simp_all add: mem_load_in)
  have store: "mem_store (Some (replicate (nat MM_MAX_FRAGMENTSIZE) 0)) 0 (nv_Data v) = Inr (Some ?buf)"
    using assms(3) le by (simp add: mem_store_in MM_MAX_FRAGMENTSIZE_def)
  have "memcmp data (nv_Data v) ?n = 0 \<longleftrightarrow> data = nv_Data v" using memcmp_lex [of data "nv_Data v"] assms(3,4) by simp
  then show ?thesis using assms(1,2) Cons load store by (simp add: nv_readOrWrite_def get_var_def Let_def)
qed

section \<open>Properties\<close>

text \<open>Creating a group binds the variables that the thread has constructed: the new group is pending with
  exactly these variables in the order of their construction, each belongs to the group under its position
  (a byte) with full control, and the list of constructed variables is empty for the next group.\<close>

theorem group_creation_binds:
  assumes "vs_reach vs" and "vs_constructed vs \<noteq> []" and "bs_inv d" and "length (content d) \<le> max_stream"
  shows "\<exists>g gr vs'. createGroupInternal sid ty d gc vs = Inr (True, gc\<lparr>gc_PendingGroups := gc_PendingGroups gc @ [g]\<rparr>, vs') \<and>
    sm_find (vs_groups vs') g = Some gr \<and> g_Variables gr = vs_constructed vs \<and> content (g_InitData gr) = content d \<and>
    vs_constructed vs' = [] \<and>
    (\<forall>k < length (vs_constructed vs). \<exists>v. sm_find (vs_vars vs') (vs_constructed vs ! k) = Some v \<and>
       nv_Group v = Some g \<and> nv_Bit v = of_nat k \<and> nv_VarControl v = Full)"
proof -
  let ?js = "vs_constructed vs" and ?g = "vs_nextGroup vs"
  have js: "distinct ?js" "\<forall>j \<in> set ?js. sm_find (vs_vars vs) j \<noteq> None" using vs_inv_reach [OF assms(1)] by (simp_all add: vs_inv_def)
  obtain d' where d': "bs_copy d = Inr d'" "content d' = content d" using bs_copy_ok [OF assms(3,4)] by blast
  define gr where "gr = \<lparr>g_Id = - 1, g_TypeName = ty, g_WasUngrouped = False, g_Changed = False, g_Variables = ?js, g_InitData = d', g_Session = sid\<rparr>"
  define vs1 where "vs1 = (put_group ?g gr vs)\<lparr>vs_nextGroup := Suc ?g\<rparr>"
  have v1: "vs_vars vs1 = vs_vars vs" "sm_find (vs_groups vs1) ?g = Some gr" by (simp_all add: vs1_def)
  obtain vs2 where vs2: "init_vars ?g Full ?js 0 vs1 = Inr vs2" "vs_groups vs2 = vs_groups vs1"
      "\<forall>m < length ?js. sm_find (vs_vars vs2) (?js ! m) = map_option (bound_as ?g Full (0 + of_nat m)) (sm_find (vs_vars vs1) (?js ! m))"
    using init_vars_ok [OF js(1), of vs1 ?g Full 0] js(2) v1(1) by auto
  have "createGroupInternal sid ty d gc vs =
      Inr (True, gc\<lparr>gc_PendingGroups := gc_PendingGroups gc @ [?g]\<rparr>, vs2\<lparr>vs_constructed := []\<rparr>)"
    using assms(2) d'(1) vs2(1) by (simp add: createGroupInternal_def addNewPendingGroup_def Group_new_def Let_def gr_def vs1_def)
  moreover have "\<exists>v. sm_find (vs_vars vs2) (?js ! k) = Some v \<and> nv_Group v = Some ?g \<and> nv_Bit v = of_nat k \<and> nv_VarControl v = Full"
    if "k < length ?js" for k
  proof -
    have "?js ! k \<in> set ?js" using that by simp
    then obtain v where "sm_find (vs_vars vs) (?js ! k) = Some v" using js(2) by blast
    then show ?thesis using that vs2(3) by (simp add: v1(1) bound_as_def)
  qed
  ultimately show ?thesis using vs2(2) v1(2) d'(2) by (intro exI [of _ ?g] exI [of _ gr] exI) (auto simp: gr_def)
qed

theorem group_creation_binds_witness:
  "\<exists>g gr vs'. createGroupInternal 0 [] bs_reset GroupCollection_init (snd (NetVariable_new [7] 1 var_store_init)) =
      Inr (True, GroupCollection_init\<lparr>gc_PendingGroups := [g]\<rparr>, vs') \<and>
    sm_find (vs_groups vs') g = Some gr \<and> g_Variables gr = [0] \<and> vs_constructed vs' = []"
proof -
  let ?vs = "snd (NetVariable_new [7] 1 var_store_init)"
  have r: "vs_reach ?vs" by (intro vs_reach.new vs_reach.init)
  have c: "vs_constructed ?vs = [0]" by (simp add: NetVariable_new_def var_store_init_def Let_def)
  then have "vs_constructed ?vs \<noteq> []" by simp
  from group_creation_binds [OF r this bs_reset_inv(1), of 0 "[]" GroupCollection_init] c show ?thesis
    by (auto simp: max_stream_def GroupCollection_init_def)
qed

text \<open>No group is ever registered. The pool of group ids is never filled, so whatever groups are created, the
  pending ones stay pending, no group is found under an id, and a \<open>changeOwner\<close> that arrives has no effect.\<close>

theorem no_group_registered:
  assumes "gc_reach gc"
  shows "findGroup netId gc = None \<and> tryProcessPendingGroups msg gc vs w = Inr (gc, vs, w) \<and>
    (link_session i w = Inr sid \<longrightarrow> changeOwner netId b owner i gc vs w = Inr (None, vs))"
  using gc_reach_empty [OF assms] by (simp add: findGroup_def no_ids changeOwner_def)

theorem no_group_registered_witness: "gc_reach GroupCollection_init \<and> findGroup 5 GroupCollection_init = None"
  using no_group_registered [OF gc_reach.init, of 5] gc_reach.init by blast

text \<open>Handing over a variable leaves it without an owner. What \<open>changeOwner\<close> sends is read back as the same group,
  position and a non-null address, and a receiver that has the variable sets it to remote control, also the
  one that the address belongs to; nobody gets full control.\<close>

theorem handover_has_no_owner:
  assumes "endpoint_ok etp" and "findGroup gid gc = Some g" and "sm_find (vs_groups vs) g = Some gr"
    and "unat b < length (g_Variables gr)" and "sm_find (vs_vars vs) (g_Variables gr ! unat b) = Some v" and "link_session i w = Inr sid"
  shows "\<exists>bs s' owner vs' v'. changeOwner_args gid b etp bs_reset = Inr bs \<and> read_changeOwner bs = Inr (Some (gid, b, owner), s') \<and>
    changeOwner gid b owner i gc vs w = Inr (Some (owner, g, b), vs') \<and>
    sm_find (vs_vars vs') (g_Variables gr ! unat b) = Some v' \<and> nv_VarControl v' = Remote \<and> nv_Owner v' = Some etp"
proof -
  obtain bs where bs: "changeOwner_args gid b etp bs_reset = Inr bs" "appended bs_reset (rev (le32 gid) @ [b] @ addr_bytes (Some etp)) bs"
    using changeOwner_args_ok [OF assms(1)] by blast
  have "unread bs = rev (le32 gid) @ [b] @ addr_bytes (Some etp)" "bs_inv bs" using bs(2) by (simp_all add: appended_def unread_def)
  then obtain s' where "read_changeOwner bs = Inr (Some (gid, b, Some etp), s')"
    using read_changeOwner_ok [of bs gid b "Some etp"] assms(1) by (auto simp: addr_ok_def)
  moreover have "changeOwner gid b (Some etp) i gc vs w =
      Inr (Some (Some etp, g, b), put_var (g_Variables gr ! unat b) (v\<lparr>nv_Owner := Some etp, nv_VarControl := Remote\<rparr>) vs)"
    using assms(2-6) by (simp add: changeOwner_def group_setNewOwnership_def get_group_def nv_setNewOwner_def get_var_def)
  ultimately show ?thesis using bs(1)
    by (intro exI [of _ bs] exI [of _ s'] exI [of _ "Some etp"]
        exI [of _ "put_var (g_Variables gr ! unat b) (v\<lparr>nv_Owner := Some etp, nv_VarControl := Remote\<rparr>) vs"]) simp
qed

theorem handover_has_no_owner_witness:
  "\<exists>owner vs vs' v'. changeOwner 4 0 owner 0 (GroupCollection_init\<lparr>gc_Groups := [(4, 0)]\<rparr>) vs (example_world True) = Inr (Some (owner, 0, 0), vs') \<and>
     sm_find (vs_vars vs') 0 = Some v' \<and> nv_VarControl v' = Remote"
proof -
  define v where "v = \<lparr>nv_Group = Some 0, nv_Data = [7 :: byte], nv_Size = 1, nv_Bit = 0, nv_Changed = False, nv_VarControl = Full,
    nv_Owner = None, nv_UpdateCallbacks = []\<rparr>"
  define gr where "gr = \<lparr>g_Id = 4, g_TypeName = [], g_WasUngrouped = False, g_Changed = False, g_Variables = [0 :: nat], g_InitData = bs_reset, g_Session = 0\<rparr>"
  let ?gc = "GroupCollection_init\<lparr>gc_Groups := [(4, 0)]\<rparr>" and ?vs = "put_group 0 gr (put_var 0 v var_store_init)"
  have f: "findGroup 4 ?gc = Some 0" "sm_find (vs_groups ?vs) 0 = Some gr" "unat (0 :: byte) < length (g_Variables gr)"
    "sm_find (vs_vars ?vs) (g_Variables gr ! unat (0 :: byte)) = Some v"
    by (simp_all add: findGroup_def gr_def)
  have l: "link_session 0 (example_world True) = Inr 0"
    by (simp add: link_session_def deref_def example_facts) (simp add: example_link_def)
  have "g_Variables gr ! unat (0 :: byte) = 0" by (simp add: gr_def)
  with handover_has_no_owner [OF createEmpty_ok f l] show ?thesis by auto
qed

text \<open>The cache of function pointers is transparent: a sequence of lookups by name gives what looking up each
  name in the running image gives.\<close>

lemma cached_lookup_transparent: "lookups exported ns [] = map exported ns"
proof -
  have "lookups exported ns cache = map exported ns" if "\<forall>n f. sm_find cache n = Some f \<longrightarrow> exported n = Some f" for cache
    using that
  proof (induction ns arbitrary: cache)
    case (Cons n ns)
    obtain r cache' where g: "getPtrFromName exported n cache = (r, cache')" by fastforce
    from getPtrFromName_eq [OF Cons.prems g] Cons.IH [of cache'] g show ?case by simp
  qed simp
  from this [of "[]"] show ?thesis by simp
qed

text \<open>A variable that is destroyed ungroups all variables of its group, after which a change of owner in that
  group indexes an empty vector.\<close>

theorem ungrouped_change_out_of_bounds:
  assumes "sm_find (vs_vars vs) j = Some v" and "nv_Group v = Some g" and "sm_find (vs_groups vs) g = Some gr" and "\<not> g_WasUngrouped gr"
  shows "\<exists>vs'. NetVariable_delete j vs = Inr vs' \<and> group_setNewOwnership b owner g vs' = Inl OutOfBounds \<and>
    group_getUserVar b g vs' = Inr None"
  using assms by (simp add: NetVariable_delete_def nv_unGroup_def get_var_def group_unGroup_def get_group_def
      group_setNewOwnership_def group_getUserVar_def)

end
