(* ===== verification/Network_Actions.thy ===== *)
theory Network_Actions
  imports Mm_Prelude Transition
begin

text \<open>
  \<open>NetworkActions.cpp\<close>: a thread that takes actions from a queue, and the destructor that stops it. A step is
  one access to the closing flag or one region under the mutex; waiting on the condition variable releases
  the mutex. \<open>na_Processed\<close> records the calls of \<open>processAction\<close>, whose body is empty for both types.
\<close>

datatype ActionType = AddLink | RemoveLink

datatype action_pc = At_Loop | At_Lock | Waiting | Woken | Ended

datatype destroy_pc = Alive | Closing_Set | Joining

record network_actions =
  na_Actions :: "(nat \<times> ActionType) list"
  na_Closing :: bool
  na_Thread :: action_pc
  na_Destroy :: destroy_pc
  na_Processed :: "(nat \<times> ActionType) list"

definition NetworkActions_init :: network_actions where
  "NetworkActions_init = \<lparr>na_Actions = [], na_Closing = False, na_Thread = At_Loop, na_Destroy = Alive, na_Processed = []\<rparr>"

text \<open>\<open>notify_one\<close> wakes the thread if it is waiting and is lost otherwise.\<close>

definition notify_one :: "network_actions \<Rightarrow> network_actions" where
  "notify_one s = (if na_Thread s = Waiting then s\<lparr>na_Thread := Woken\<rparr> else s)"

definition addAction :: "nat \<times> ActionType \<Rightarrow> network_actions \<Rightarrow> network_actions" where
  "addAction a s = notify_one (s\<lparr>na_Actions := na_Actions s @ [a]\<rparr>)"

text \<open>The rest of a round of \<open>actionThread\<close> with the mutex held.\<close>

definition process_actions :: "network_actions \<Rightarrow> network_actions" where
  "process_actions s = s\<lparr>na_Processed := na_Processed s @ na_Actions s, na_Actions := [], na_Thread := At_Loop\<rparr>"

definition action_loop :: "network_actions \<Rightarrow> network_actions" where
  "action_loop s = s\<lparr>na_Thread := if na_Closing s then Ended else At_Lock\<rparr>"

definition action_lock :: "network_actions \<Rightarrow> network_actions" where
  "action_lock s = (if na_Actions s = [] then s\<lparr>na_Thread := Waiting\<rparr> else process_actions s)"

text \<open>The destructor: the flag, then the region under the mutex, then \<open>join\<close>.\<close>

definition destroy_begin :: "network_actions \<Rightarrow> network_actions" where
  "destroy_begin s = s\<lparr>na_Closing := True, na_Destroy := Closing_Set\<rparr>"

definition destroy_notify :: "network_actions \<Rightarrow> network_actions" where
  "destroy_notify s = notify_one (s\<lparr>na_Actions := [], na_Destroy := Joining\<rparr>)"

text \<open>The steps; \<open>added\<close> are the actions that were added so far. Nothing is added during the destruction.\<close>

inductive na_step :: "(nat \<times> ActionType) list \<times> network_actions \<Rightarrow> (nat \<times> ActionType) list \<times> network_actions \<Rightarrow> bool" where
  add: "na_Destroy s = Alive \<Longrightarrow> na_step (added, s) (added @ [a], addAction a s)"
| loop: "na_Thread s = At_Loop \<Longrightarrow> na_step (added, s) (added, action_loop s)"
| lock: "na_Thread s = At_Lock \<Longrightarrow> na_step (added, s) (added, action_lock s)"
| woken: "na_Thread s = Woken \<Longrightarrow> na_step (added, s) (added, process_actions s)"
| close: "na_Destroy s = Alive \<Longrightarrow> na_step (added, s) (added, destroy_begin s)"
| notify: "na_Destroy s = Closing_Set \<Longrightarrow> na_step (added, s) (added, destroy_notify s)"

inductive_cases na_stepE: "na_step (added, s) c'"

abbreviation na_reach :: "(nat \<times> ActionType) list \<times> network_actions \<Rightarrow> bool" where
  "na_reach \<equiv> reachable (\<lambda>c. c = ([], NetworkActions_init)) na_step"

lemma na_reach_more: "na_reach c \<Longrightarrow> na_step c c' \<Longrightarrow> na_reach c'"
  by (rule reachable.more)

definition na_inv :: "(nat \<times> ActionType) list \<Rightarrow> network_actions \<Rightarrow> bool" where
  "na_inv added s \<longleftrightarrow>
     (na_Destroy s \<noteq> Joining \<longrightarrow> na_Processed s @ na_Actions s = added) \<and>
     (na_Destroy s = Joining \<longrightarrow> na_Actions s = [] \<and> (\<exists>lost. na_Processed s @ lost = added)) \<and>
     (na_Thread s = Waiting \<longrightarrow> na_Actions s = []) \<and> (na_Closing s \<longleftrightarrow> na_Destroy s \<noteq> Alive) \<and> (na_Thread s = Ended \<longrightarrow> na_Closing s)"

lemmas na_ops = addAction_def notify_one_def process_actions_def action_loop_def action_lock_def destroy_begin_def destroy_notify_def

lemma na_inv_step: "na_step c c' \<Longrightarrow> na_inv (fst c) (snd c) \<Longrightarrow> na_inv (fst c') (snd c')"
  by (induction rule: na_step.induct) (auto simp: na_inv_def na_ops)

interpretation na: state_machine "\<lambda>c. c = ([], NetworkActions_init)" na_step "\<lambda>c. na_inv (fst c) (snd c)"
  by unfold_locales (simp add: na_inv_def NetworkActions_init_def, rule na_inv_step)

section \<open>Properties\<close>

text \<open>Actions are processed in the order in which they were added, each at most once, and while the object is not
  being destroyed the thread never sleeps with an action in the queue, so every action that was added and not
  processed is in the queue of a thread that can go on.\<close>

theorem actions_in_order:
  assumes "na_reach (added, s)" and "na_Destroy s = Alive"
  shows "na_Processed s @ na_Actions s = added \<and> (na_Actions s \<noteq> [] \<longrightarrow> na_Thread s \<in> {At_Loop, At_Lock, Woken}) \<and>
    (na_Actions s \<noteq> [] \<longrightarrow> (\<exists>s'. na_step\<^sup>*\<^sup>* (added, s) (added, s') \<and> na_Processed s' = added))"
proof -
  have inv: "na_inv added s" using na.invariant [OF assms(1)] by simp
  then have eq: "na_Processed s @ na_Actions s = added" and cl: "\<not> na_Closing s" using assms(2) by (simp_all add: na_inv_def)
  have th: "na_Thread s \<in> {At_Loop, At_Lock, Woken}" if "na_Actions s \<noteq> []"
    using that inv cl by (cases "na_Thread s") (auto simp: na_inv_def)
  have lock: "na_step\<^sup>*\<^sup>* (added, t) (added, process_actions t) \<and> na_Processed (process_actions t) = added"
    if "na_Thread t = At_Lock" "na_Actions t \<noteq> []" "na_Processed t @ na_Actions t = added" for t
    using that na_step.lock [of t added] by (auto simp: action_lock_def process_actions_def)
  have "\<exists>s'. na_step\<^sup>*\<^sup>* (added, s) (added, s') \<and> na_Processed s' = added" if ne: "na_Actions s \<noteq> []"
  proof (cases "na_Thread s")
    case At_Loop
    then have "na_step (added, s) (added, action_loop s)" by (rule na_step.loop)
    moreover have "na_Thread (action_loop s) = At_Lock" "na_Actions (action_loop s) = na_Actions s" "na_Processed (action_loop s) = na_Processed s"
      using cl by (simp_all add: action_loop_def)
    ultimately show ?thesis using lock [of "action_loop s"] ne eq by (auto intro: converse_rtranclp_into_rtranclp)
  next
    case At_Lock
    then show ?thesis using lock ne eq by blast
  next
    case Woken
    then have "na_step (added, s) (added, process_actions s)" by (rule na_step.woken)
    then show ?thesis using eq by (auto simp: process_actions_def)
  qed (use th [OF ne] in auto)
  with eq th show ?thesis by blast
qed

theorem actions_in_order_witness:
  "\<exists>s. na_reach ([(1, AddLink)], s) \<and> na_Processed s @ na_Actions s = [(1, AddLink)]"
proof -
  have a: "na_step ([], NetworkActions_init) ([(1, AddLink)], addAction (1, AddLink) NetworkActions_init)"
    using na_step.add [of NetworkActions_init "[]" "(1, AddLink)"] by (simp add: NetworkActions_init_def)
  have r: "na_reach ([(1, AddLink)], addAction (1, AddLink) NetworkActions_init)" using na_reach_more [OF reachable_self a] .
  have "na_Destroy (addAction (1, AddLink) NetworkActions_init) = Alive" by (simp add: na_ops NetworkActions_init_def)
  from actions_in_order [OF r this] r show ?thesis by blast
qed

text \<open>The destructor can hang: the flag is set and the notification sent between the test of the flag and the lock
  of the thread, which then waits for a notification that is already gone. Only a spurious wakeup would end the wait.\<close>

theorem destructor_can_hang:
  "\<exists>s. na_reach ([], s) \<and> na_Destroy s = Joining \<and> na_Thread s = Waiting \<and> (\<forall>c. \<not> na_step ([], s) c)"
proof -
  let ?s1 = "action_loop NetworkActions_init" and ?s2 = "destroy_begin (action_loop NetworkActions_init)"
  let ?s3 = "destroy_notify ?s2" and ?s4 = "action_lock (destroy_notify ?s2)"
  note d = na_ops NetworkActions_init_def
  have "na_reach ([], ?s1)" by (rule na_reach_more [OF reachable_self]) (rule na_step.loop, simp add: d)
  then have "na_reach ([], ?s2)" by (rule na_reach_more) (rule na_step.close, simp add: d)
  then have "na_reach ([], ?s3)" by (rule na_reach_more) (rule na_step.notify, simp add: d)
  then have "na_reach ([], ?s4)" by (rule na_reach_more) (rule na_step.lock, simp add: d)
  moreover have "na_Destroy ?s4 = Joining" "na_Thread ?s4 = Waiting" by (simp_all add: d)
  moreover have "\<not> na_step ([], ?s4) c" for c by (auto simp: d elim: na_stepE)
  ultimately show ?thesis by blast
qed

end
