(* ===== verification/Send_Rounds.thy ===== *)
theory Send_Rounds
  imports Link_Registry
begin

text \<open>
  What a round of the send thread sends: for every registered link, the queues of all channels that are
  due and all acknowledgements that are due, each link after the other in the order of the array.
\<close>

section \<open>Acknowledgements on all channels\<close>

definition acks_due :: "link_stats \<Rightarrow> u64 \<Rightarrow> reliable_ack_send \<Rightarrow> bool" where
  "acks_due ls time s \<longleftrightarrow> time - m_LastAckTS s > ucast (m_AckAggregateTime ls)"

definition due_acks :: "u64 \<Rightarrow> nat \<Rightarrow> link_component components \<Rightarrow> u32 list" where
  "due_acks time i m =
     (let s = as_acks (comp_at ReliableAckSend i m)
      in if acks_due (as_stats (comp_at LinkStats 0 m)) time s then m_ReceivedPackets s else [])"

definition ack_datagrams :: "nat \<Rightarrow> u32 list list \<Rightarrow> byte list list" where
  "ack_datagrams i groups = map (\<lambda>g. ack_header i @ acks_bytes g) groups"

definition mtu_ok :: "link_component components \<Rightarrow> bool" where
  "mtu_ok m \<longleftrightarrow> (case mtuAdjusted (as_stats (comp_at LinkStats 0 m)) of Inr mtu \<Rightarrow> unat mtu \<le> 1000000000 | Inl e \<Rightarrow> False)"

lemma ack_intervalDispatch_ok:
  assumes "mtu_ok m"
  shows "\<exists>groups s'. ack_intervalDispatch (as_stats (comp_at LinkStats 0 m)) i time (as_acks (comp_at ReliableAckSend i m)) =
      Inr (ack_datagrams i groups, s') \<and> concat groups = due_acks time i m"
proof -
  let ?ls = "as_stats (comp_at LinkStats 0 m)" and ?s = "as_acks (comp_at ReliableAckSend i m)"
  obtain mtu where mtu: "mtuAdjusted ?ls = Inr mtu" "unat mtu \<le> 1000000000"
    using assms by (auto simp: mtu_ok_def split: sum.splits)
  show ?thesis
  proof (cases "acks_due ?ls time ?s")
    case True
    then show ?thesis using ack_resend_ok [OF mtu, of i "?s\<lparr>m_LastAckTS := time\<rparr>"]
      by (auto simp: ack_intervalDispatch_def acks_due_def due_acks_def ack_datagrams_def)
  next
    case False
    then show ?thesis
      by (intro exI [of _ "[]"]) (simp add: ack_intervalDispatch_def acks_due_def due_acks_def ack_datagrams_def)
  qed
qed

lemma ack_datagrams_upd:
  "i \<notin> set js \<Longrightarrow>
    concat (map (\<lambda>j. ack_datagrams j ((groups(i := g)) j)) (i # js)) =
    ack_datagrams i g @ concat (map (\<lambda>j. ack_datagrams j (groups j)) js)"
  by (induction js) auto

lemma due_acks_absent: "cc_get ReliableAckSend i m = None \<Longrightarrow> due_acks time i m = []"
  by (simp add: due_acks_def comp_at_def fresh_def Let_def ReliableAckSend_init_def)

lemma dispatch_acks_ok:
  assumes "mtu_ok m" and "distinct is"
  shows "\<exists>groups m'. dispatch_acks time is m = Inr (concat (map (\<lambda>i. ack_datagrams i (groups i)) is), m') \<and>
    (\<forall>i \<in> set is. concat (groups i) = due_acks time i m) \<and>
    (\<forall>t i. t \<noteq> ReliableAckSend \<longrightarrow> comp_at t i m' = comp_at t i m)"
  using assms
proof (induction "is" arbitrary: m)
  case Nil
  then show ?case by simp
next
  case (Cons i js)
  show ?case
  proof (cases "cc_get ReliableAckSend i m")
    case None
    obtain groups m' where g: "dispatch_acks time js m = Inr (concat (map (\<lambda>i. ack_datagrams i (groups i)) js), m')"
      "\<forall>i \<in> set js. concat (groups i) = due_acks time i m" "\<forall>t i. t \<noteq> ReliableAckSend \<longrightarrow> comp_at t i m' = comp_at t i m"
      using Cons.IH [of m] Cons.prems by auto
    have "dispatch_acks time (i # js) m = Inr (concat (map (\<lambda>j. ack_datagrams j ((groups(i := [])) j)) (i # js)), m')"
      using None g(1) ack_datagrams_upd [of i js groups "[]"] Cons.prems(2) by (simp add: ack_datagrams_def del: fun_upd_apply)
    then show ?thesis using g(2,3) Cons.prems(2) due_acks_absent [OF None]
      by (intro exI [of _ "groups(i := [])"] exI [of _ m'] conjI) auto
  next
    case (Some c)
    then have c: "c = comp_at ReliableAckSend i m" by (simp add: comp_at_def)
    define m1 where "m1 = snd (cc_getOrAdd LinkStats 0 (fresh LinkStats) m)"
    have ga: "cc_getOrAdd LinkStats 0 (fresh LinkStats) m = (comp_at LinkStats 0 m, m1)"
      unfolding m1_def by (rule getOrAdd_pair)
    obtain gi s where gi: "ack_intervalDispatch (as_stats (comp_at LinkStats 0 m)) i time (as_acks c) = Inr (ack_datagrams i gi, s)"
      "concat gi = due_acks time i m"
      using ack_intervalDispatch_ok [OF Cons.prems(1), of i time] c by auto
    define m2 where "m2 = cc_put ReliableAckSend i (CReliableAckSend s) m1"
    have at2: "comp_at t j m2 = (if t = ReliableAckSend \<and> j = i then CReliableAckSend s else comp_at t j m)" for t j
      by (simp add: m2_def m1_def comp_at_put comp_at_getOrAdd)
    have due: "due_acks time j m2 = due_acks time j m" if "j \<in> set js" for j
      using that Cons.prems(2) at2 by (auto simp: due_acks_def)
    have "mtu_ok m2" using Cons.prems(1) at2 by (simp add: mtu_ok_def)
    then obtain groups m' where g: "dispatch_acks time js m2 = Inr (concat (map (\<lambda>i. ack_datagrams i (groups i)) js), m')"
      "\<forall>i \<in> set js. concat (groups i) = due_acks time i m2" "\<forall>t i. t \<noteq> ReliableAckSend \<longrightarrow> comp_at t i m' = comp_at t i m2"
      using Cons.IH [of m2] Cons.prems by auto
    have "dispatch_acks time (i # js) m = Inr (concat (map (\<lambda>j. ack_datagrams j ((groups(i := gi)) j)) (i # js)), m')"
      using Some ga gi(1) g(1) ack_datagrams_upd [of i js groups gi] Cons.prems(2)
      by (simp add: m2_def [symmetric] del: fun_upd_apply)
    then show ?thesis using g(2,3) gi(2) due at2 Cons.prems(2)
      by (intro exI [of _ "groups(i := gi)"] exI [of _ m'] conjI) auto
  qed
qed

section \<open>One link\<close>

text \<open>A link whose round cannot fail: its statistics give a delay and a packet size, and every queued
  packet fits into the send buffer.\<close>

definition ready :: "link_component components \<Rightarrow> bool" where
  "ready m \<longleftrightarrow> (\<exists>delay. reliableResendDelay (as_stats (comp_at LinkStats 0 m)) = Inr delay) \<and> mtu_ok m \<and>
     (\<forall>i c. cc_get ReliableSend i m = Some c \<longrightarrow> (\<forall>p \<in> snd ` set (m_SendQueue (as_send c)). sendable p))"

text \<open>The datagrams of a round on one link: the queues that are due with their sequence numbers, channel
  after channel, then the acknowledgements that are due, grouped. The queues stay as they are.\<close>

definition dispatched :: "u64 \<Rightarrow> link_component components \<Rightarrow> byte list list \<Rightarrow> link_component components \<Rightarrow> bool" where
  "dispatched time m ds m' \<longleftrightarrow>
     (\<exists>delay n groups. reliableResendDelay (as_stats (comp_at LinkStats 0 m)) = Inr delay \<and>
        ds = concat (map (\<lambda>i. due_images delay time (cc_get ReliableSend i m)) [0 ..< cc_count ReliableSend m]) @
             concat (map (\<lambda>i. ack_datagrams i (groups i)) [0 ..< n]) \<and>
        (\<forall>i < n. concat (groups i) = due_acks time i m) \<and> (\<forall>i \<ge> n. due_acks time i m = [])) \<and>
     (\<forall>i. m_SendQueue (as_send (comp_at ReliableSend i m')) = m_SendQueue (as_send (comp_at ReliableSend i m)))"

lemma cc_get_beyond: "cc_count t m \<le> i \<Longrightarrow> cc_get t i m = None"
  by (auto simp: cc_count_def cc_get_def split: option.splits)

lemma link_dispatch_ok:
  assumes "ready m"
  shows "\<exists>ds m'. link_dispatch time m = Inr (ds, m') \<and> dispatched time m ds m'"
proof -
  obtain delay where d: "reliableResendDelay (as_stats (comp_at LinkStats 0 m)) = Inr delay"
    using assms by (auto simp: ready_def)
  obtain m1 where m1: "dispatch_sends time [0 ..< cc_count ReliableSend m] m =
      Inr (concat (map (\<lambda>i. due_images delay time (cc_get ReliableSend i m)) [0 ..< cc_count ReliableSend m]), m1)"
    "\<forall>i. m_SendQueue (as_send (comp_at ReliableSend i m1)) = m_SendQueue (as_send (comp_at ReliableSend i m))"
    "\<forall>t i. t \<noteq> ReliableSend \<longrightarrow> comp_at t i m1 = comp_at t i m"
    using dispatch_sends_ok [OF d distinct_upt, of 0 "cc_count ReliableSend m" time] assms by (auto simp: ready_def)
  let ?n = "cc_count ReliableAckSend m1"
  have due: "due_acks time i m1 = due_acks time i m" for i using m1(3) by (simp add: due_acks_def)
  have "mtu_ok m1" using assms m1(3) by (simp add: ready_def mtu_ok_def)
  then obtain groups m2 where m2: "dispatch_acks time [0 ..< ?n] m1 = Inr (concat (map (\<lambda>i. ack_datagrams i (groups i)) [0 ..< ?n]), m2)"
    "\<forall>i \<in> set [0 ..< ?n]. concat (groups i) = due_acks time i m1" "\<forall>t i. t \<noteq> ReliableAckSend \<longrightarrow> comp_at t i m2 = comp_at t i m1"
    using dispatch_acks_ok [OF _ distinct_upt] by blast
  have "\<forall>i \<ge> ?n. due_acks time i m = []" using due_acks_absent [OF cc_get_beyond] due by metis
  then have "dispatched time m (concat (map (\<lambda>i. due_images delay time (cc_get ReliableSend i m)) [0 ..< cc_count ReliableSend m]) @
      concat (map (\<lambda>i. ack_datagrams i (groups i)) [0 ..< ?n])) m2"
    unfolding dispatched_def using d m1(2,3) m2(2,3) due by (intro conjI exI [of _ delay] exI [of _ ?n] exI [of _ groups]) simp_all
  then show ?thesis using m1(1) m2(1) by (simp add: link_dispatch_def)
qed

section \<open>All links\<close>

definition link_round ::
  "(u32 \<Rightarrow> byte list \<Rightarrow> byte list \<Rightarrow> int option) \<Rightarrow> u64 \<Rightarrow> world \<Rightarrow> world \<Rightarrow> nat \<Rightarrow> sent_datagram list \<Rightarrow> bool" where
  "link_round os_sendto time w w' i part \<longleftrightarrow>
     (\<exists>l ds m'. lock w i = Some l \<and> part = map (link_send os_sendto l) ds \<and> dispatched time (l_comps l) ds m' \<and>
        lock w' i = Some (l\<lparr>l_comps := m'\<rparr>))"

lemma resend_rounds:
  assumes "distinct is" and "is = drop k (w_linkArray w)" and "length (w_linkArray w) < 2 ^ 32"
    and "\<forall>i \<in> set is. \<exists>l. lock w i = Some l \<and> ready (l_comps l)"
  shows "\<exists>parts w'. forEachLink_from (resend_link os_sendto time) snd k (out, w) = Inr (out @ concat parts, w') \<and>
    list_all2 (link_round os_sendto time w w') is parts \<and> (\<forall>i. i \<notin> set is \<longrightarrow> lock w' i = lock w i)"
  using assms
proof (induction "is" arbitrary: k w out)
  case Nil
  then show ?case by (subst forEachLink_from.simps) auto
next
  case (Cons i js)
  then have k: "k < length (w_linkArray w)" by (metis drop_eq_Nil list.distinct(1) not_le_imp_less)
  have i: "w_linkArray w ! k = i" "js = drop (Suc k) (w_linkArray w)"
    using Cons.prems(2) by (simp_all add: Cons_nth_drop_Suc [OF k, symmetric])
  obtain l where l: "lock w i = Some l" "ready (l_comps l)" using Cons.prems(4) by auto
  obtain ds m where ds: "link_dispatch time (l_comps l) = Inr (ds, m)" "dispatched time (l_comps l) ds m"
    using link_dispatch_ok [OF l(2)] by blast
  define w1 where "w1 = put_link i (l\<lparr>l_comps := m\<rparr>) w"
  have lk: "lock w1 j = (if j = i then Some (l\<lparr>l_comps := m\<rparr>) else lock w j)" for j
    by (simp add: w1_def lock_def put_link_def)
  have arr: "w_linkArray w1 = w_linkArray w" by (simp add: w1_def put_link_def)
  have cb: "resend_link os_sendto time i (out, w) = Inr (out @ map (link_send os_sendto l) ds, w1)"
    using l(1) ds(1) by (simp add: resend_link_def deref_def w1_def)
  have alive: "\<forall>j \<in> set js. \<exists>l. lock w1 j = Some l \<and> ready (l_comps l)" using Cons.prems(1,4) lk by auto
  obtain parts w' where p: "forEachLink_from (resend_link os_sendto time) snd (Suc k) (out @ map (link_send os_sendto l) ds, w1) =
      Inr ((out @ map (link_send os_sendto l) ds) @ concat parts, w')"
    "list_all2 (link_round os_sendto time w1 w') js parts" "\<forall>j. j \<notin> set js \<longrightarrow> lock w' j = lock w1 j"
    using Cons.IH [of "Suc k" w1 "out @ map (link_send os_sendto l) ds", unfolded arr, OF _ i(2) Cons.prems(3) alive] Cons.prems(1)
    by (auto simp del: append_assoc)
  have same: "lock w1 j = lock w j" if "j \<in> set js" for j using that lk Cons.prems(1) by auto
  have "list_all2 (link_round os_sendto time w w') js parts"
    using p(2) by (rule list.rel_mono_strong) (simp add: link_round_def same)
  moreover have "link_round os_sendto time w w' i (map (link_send os_sendto l) ds)"
    using l(1) ds(2) p(3) Cons.prems(1) lk by (auto simp: link_round_def)
  moreover have "forEachLink_from (resend_link os_sendto time) snd k (out, w) = Inr (out @ concat (map (link_send os_sendto l) ds # parts), w')"
    using k i(1) cb p(1) Cons.prems(3) by (subst forEachLink_from.simps) simp
  ultimately show ?case using p(3) lk
    by (intro exI [of _ "map (link_send os_sendto l) ds # parts"] exI [of _ w']) auto
qed

section \<open>Properties\<close>


lemma demo_round_world:
  "\<exists>w l. net_reach (\<lambda>s. Inr []) w \<and> w_linkArray w = [0] \<and> lock w 0 = Some l \<and> ready (l_comps l) \<and> due_acks 1000 0 (l_comps l) = [0]"
proof -
  let ?rcv = "(Recv_Succes, [0, 0, 0, 0, 17, 24, 0, 97, 0] :: byte list, createEmpty, 0 :: int)"
  obtain m where m: "link_receive (recv_view [0, 0, 0, 0, 17, 24, 0, 97, 0]) [] = Some (Inr (Some 0, m))"
    "cc_get ReliableSend i m = None" "cc_get LinkStats i m = None"
    "as_acks (comp_at ReliableAckSend 0 m) = addAck 0 ReliableAckSend_init" for i
    using demo_link_receive by blast
  have "case rbind (getCopyDerived createEmpty) (\<lambda>a. lm_getOrAdd (\<lambda>s. Inr []) None (a, 5) (Network_init 0)) of
      Inr (True, Some i, w) \<Rightarrow> i = 0 \<and> w_linkArray w = [0] \<and> (case lock w 0 of Some l \<Rightarrow> l_comps l = [] | None \<Rightarrow> False)
    | _ \<Rightarrow> False"
    by code_simp
  then obtain w l where w: "rbind (getCopyDerived createEmpty) (\<lambda>a. lm_getOrAdd (\<lambda>s. Inr []) None (a, 5) (Network_init 0)) = Inr (True, Some 0, w)"
    "w_linkArray w = [0]" "lock w 0 = Some l" "l_comps l = []"
    by (auto split: sum.splits prod.splits option.splits bool.splits)
  let ?w = "put_link 0 (l\<lparr>l_comps := m\<rparr>) w"
  have "handleReceivedPacket (\<lambda>s. Inr []) False 5 ?rcv (Network_init 0) = Some (Inr (Some (0, 0), ?w))"
    using w m(1) by (simp add: handleReceivedPacket_def MM_MIN_HDR_SIZE_def deref_def)
  then have "net_reach (\<lambda>s. Inr []) ?w" using net_reach_more [OF net_reach_init net_step.packet] by blast
  moreover have "ready m" using m(2,3) LinkStats_values by (simp add: ready_def mtu_ok_def comp_at_def fresh_def)
  moreover have "due_acks 1000 0 m = [0]"
    using m(3,4) by (simp add: due_acks_def acks_due_def comp_at_def fresh_def addAck_def ReliableAckSend_init_def LinkStats_init_def)
  ultimately show ?thesis using w(2) by (intro exI [of _ ?w] exI [of _ "l\<lparr>l_comps := m\<rparr>"]) (simp add: put_link_def lock_def)
qed


end
