(* ===== verification/Link_Pair.thy ===== *)
theory Link_Pair
  imports Send_Rounds
begin

text \<open>
  Two links that are connected by a network: the composition of \<open>Link::callRpc\<close>, the send thread, \<open>Link::receive\<close>
  and the jobs of the channels, with all channels and both directions at once. Each side has the components
  of a link; what a side sends goes into the set of its datagrams, from which the other side may receive any
  one at any time or never. The theorems reduce a pair of links to the channels of \<open>Stream_Protocol\<close> by a
  simulation, one for each side and channel, and conclude what arrives.
\<close>

section \<open>The pair\<close>

text \<open>The sides are \<open>True\<close> and \<open>False\<close>. The histories are the remote calls made on a side and a channel, and
  the events of remote calls that a side produced on a channel.\<close>

record 'f link_pair =
  lp_comps :: "bool \<Rightarrow> link_component components"
  lp_out :: "bool \<Rightarrow> byte list set"
  lp_calls :: "bool \<Rightarrow> nat \<Rightarrow> (cstring \<times> byte list) list"
  lp_events :: "bool \<Rightarrow> nat \<Rightarrow> 'f event_rpc list"

definition link_pair_init :: "'f link_pair" where
  "link_pair_init = \<lparr>lp_comps = (\<lambda>x. []), lp_out = (\<lambda>x. {}), lp_calls = (\<lambda>x ch. []), lp_events = (\<lambda>x ch. [])\<rparr>"

inductive pair_step :: "(cstring \<Rightarrow> 'f option) \<Rightarrow> 'f link_pair \<Rightarrow> 'f link_pair \<Rightarrow> bool" for rpcs where
  call: "string_ok nm \<Longrightarrow> bs_inv payload \<Longrightarrow> length nm + 1 + length (content payload) \<le> 1894 \<Longrightarrow> ch < MM_NUM_CHANNELS \<Longrightarrow>
     rpc_packets nm payload False sys (of_nat ch) = Inr data \<Longrightarrow>
     pair_step rpcs s (s\<lparr>lp_comps := (lp_comps s)(x := link_enqueue ch data (lp_comps s x)),
       lp_calls := (lp_calls s)(x := (lp_calls s x)(ch := lp_calls s x ch @ [(nm, content payload)]))\<rparr>)"
| dispatch: "link_dispatch time (lp_comps s x) = Inr (ds, m) \<Longrightarrow>
     pair_step rpcs s (s\<lparr>lp_comps := (lp_comps s)(x := m), lp_out := (lp_out s)(x := lp_out s x \<union> set ds)\<rparr>)"
| receive: "d \<in> lp_out s (\<not> x) \<Longrightarrow> link_receive (recv_view d) (lp_comps s x) = Some (Inr (job, m)) \<Longrightarrow>
     pair_step rpcs s (s\<lparr>lp_comps := (lp_comps s)(x := m)\<rparr>)"
| proceed: "ch < MM_NUM_CHANNELS \<Longrightarrow> link_proceed rpcs ch (lp_comps s x) = Inr (es, m) \<Longrightarrow>
     pair_step rpcs s (s\<lparr>lp_comps := (lp_comps s)(x := m),
       lp_events := (lp_events s)(x := (lp_events s x)(ch := lp_events s x ch @ es))\<rparr>)"

abbreviation pair_reach :: "(cstring \<Rightarrow> 'f option) \<Rightarrow> 'f link_pair \<Rightarrow> bool" where
  "pair_reach rpcs \<equiv> reachable (\<lambda>s. s = link_pair_init) (pair_step rpcs)"

section \<open>Headers\<close>

definition header_of :: "byte list \<Rightarrow> (byte \<times> nat) option" where
  "header_of d =
     (case read_header (recv_view d) of
        Inl e \<Rightarrow> None
      | Inr (pi, ct, bs) \<Rightarrow> Some (ct, unat (m_ChannelAndFlags pi AND MM_CHANNEL_MASK)))"

lemma channel_lt: "unat (fl AND MM_CHANNEL_MASK) < MM_NUM_CHANNELS"
proof -
  have "fl AND MM_CHANNEL_MASK \<le> 7" by (simp add: MM_CHANNEL_MASK_def word_and_le1)
  then have "unat (fl AND MM_CHANNEL_MASK) \<le> unat (7 :: byte)" by (simp only: word_le_nat_alt)
  then show ?thesis by (simp add: MM_NUM_CHANNELS_def)
qed

lemma channel_of_nat: "ch < MM_NUM_CHANNELS \<Longrightarrow> unat ((of_nat ch :: byte) AND 7) = ch"
proof -
  have "\<forall>ch \<in> set [0 ..< 8]. unat ((of_nat ch :: byte) AND 7) = ch" by code_simp
  then show "ch < MM_NUM_CHANNELS \<Longrightarrow> unat ((of_nat ch :: byte) AND 7) = ch" by (simp add: MM_NUM_CHANNELS_def)
qed

lemma header_of_data:
  assumes "length (m_Data p) \<le> MM_MAX_SENDSIZE - 7"
  shows "header_of (rev (le32 seq) @ packet_bytes p) = Some (comp_byte ReliableSend, unat (m_Flags p AND MM_CHANNEL_MASK))"
  using read_header_data [OF refl assms, of seq] by (auto simp: header_of_def)

lemma header_of_acks:
  assumes "length (ack_header i @ acks_bytes as) \<le> MM_MAX_RECVSIZE" and "i < MM_NUM_CHANNELS"
  shows "header_of (ack_header i @ acks_bytes as) = Some (comp_byte ReliableAckSend, i)"
proof -
  have z: "rev (le32 0) = [0, 0, 0, 0]" by code_simp
  have "unread (recv_view (ack_header i @ acks_bytes as)) = rev (le32 0) @ comp_byte ReliableAckSend
      # makeChannelAndFlags (of_nat i) False True True True # acks_bytes as"
    using recv_view_ok(2) [OF assms(1)] z by (simp add: ack_header_def)
  from read_header_ok(1) [OF recv_view_ok(1) [OF assms(1)] this] show ?thesis
    using channel_of_nat [OF assms(2)] by (simp add: header_of_def flags_channel)
qed

section \<open>The operations of a link on one channel\<close>

text \<open>The streams without the times of the last sending, which the channels of \<open>Stream_Protocol\<close> do not have.\<close>

definition sender :: "nat \<Rightarrow> link_component components \<Rightarrow> reliable_send" where
  "sender i m = (as_send (comp_at ReliableSend i m))\<lparr>m_LastResendTS := 0\<rparr>"

definition receiver :: "nat \<Rightarrow> link_component components \<Rightarrow> reliable_recv" where
  "receiver i m = as_recv (comp_at ReliableRecv i m)"

definition acker :: "nat \<Rightarrow> link_component components \<Rightarrow> reliable_ack_send" where
  "acker i m = (as_acks (comp_at ReliableAckSend i m))\<lparr>m_LastAckTS := 0\<rparr>"

lemma resend_timestamp: "resend (s\<lparr>m_LastResendTS := t\<rparr>) = resend s"
  by (simp add: resend_def)

lemma ack_resend_timestamp:
  "ack_resend ls i (s\<lparr>m_LastAckTS := t\<rparr>) = rbind (ack_resend ls i s) (\<lambda>(ds, a). Inr (ds, a\<lparr>m_LastAckTS := t\<rparr>))"
  by (auto simp: ack_resend_def rbind_def split: sum.split prod.split)

lemma comp_at_stats: "t \<noteq> LinkStats \<Longrightarrow> comp_at t i (snd (cc_getOrAdd LinkStats 0 c m)) = comp_at t i m"
  by (simp add: comp_at_def cc_get_stats)

lemma intervalDispatch_split:
  assumes "intervalDispatch ls time s = Inr (ds, s')"
  shows "s'\<lparr>m_LastResendTS := 0\<rparr> = s\<lparr>m_LastResendTS := 0\<rparr> \<and> (ds = [] \<or> resend (s\<lparr>m_LastResendTS := 0\<rparr>) = Inr ds)"
  using assms by (auto simp: intervalDispatch_def resend_timestamp Let_def elim!: resE split: if_splits)

lemma ack_intervalDispatch_split:
  assumes "ack_intervalDispatch ls i time s = Inr (ds, s')"
  shows "(ds = [] \<and> s'\<lparr>m_LastAckTS := 0\<rparr> = s\<lparr>m_LastAckTS := 0\<rparr>) \<or>
    ack_resend ls i (s\<lparr>m_LastAckTS := 0\<rparr>) = Inr (ds, s'\<lparr>m_LastAckTS := 0\<rparr>)"
  using assms by (auto simp: ack_intervalDispatch_def ack_resend_timestamp elim!: resE split: if_splits prod.splits)

text \<open>The datagrams of a channel in a round: nothing, or what \<open>resend\<close> makes of its queue.\<close>

lemma dispatch_sends_split:
  assumes "dispatch_sends time is m = Inr (ds, m')" and "distinct is"
  shows "\<exists>D. ds = concat (map D is) \<and>
    (\<forall>i. D i = [] \<or> i \<in> set is \<and> cc_get ReliableSend i m \<noteq> None \<and> resend (sender i m) = Inr (D i)) \<and>
    (\<forall>i. sender i m' = sender i m) \<and> (\<forall>t i. t \<noteq> ReliableSend \<longrightarrow> comp_at t i m' = comp_at t i m) \<and>
    (\<forall>t i. t \<noteq> LinkStats \<longrightarrow> cc_get t i m = None \<longrightarrow> cc_get t i m' = None)"
  using assms
proof (induction "is" arbitrary: m ds)
  case Nil
  then show ?case by (auto intro: exI [of _ "\<lambda>i. []"])
next
  case (Cons i js)
  show ?case
  proof (cases "cc_get ReliableSend i m")
    case None
    then have "dispatch_sends time js m = Inr (ds, m')" using Cons.prems(1) by simp
    then obtain D where D: "ds = concat (map D js)"
      "\<forall>j. D j = [] \<or> j \<in> set js \<and> cc_get ReliableSend j m \<noteq> None \<and> resend (sender j m) = Inr (D j)"
      "\<forall>j. sender j m' = sender j m" "\<forall>t j. t \<noteq> ReliableSend \<longrightarrow> comp_at t j m' = comp_at t j m"
      "\<forall>t i. t \<noteq> LinkStats \<longrightarrow> cc_get t i m = None \<longrightarrow> cc_get t i m' = None"
      using Cons.IH Cons.prems(2) by (metis distinct.simps(2))
    then show ?thesis using D None by (intro exI [of _ D] conjI) auto
  next
    case (Some c)
    define m1 where "m1 = snd (cc_getOrAdd LinkStats 0 (fresh LinkStats) m)"
    have ga: "cc_getOrAdd LinkStats 0 (fresh LinkStats) m = (comp_at LinkStats 0 m, m1)"
      unfolding m1_def by (rule getOrAdd_pair)
    obtain di si dj where r: "intervalDispatch (as_stats (comp_at LinkStats 0 m)) time (as_send c) = Inr (di, si)"
      "dispatch_sends time js (cc_put ReliableSend i (CReliableSend si) m1) = Inr (dj, m')" "ds = di @ dj"
      using Cons.prems(1) Some ga by (auto elim!: resE split: prod.splits)
    define m2 where "m2 = cc_put ReliableSend i (CReliableSend si) m1"
    have c: "comp_at ReliableSend i m = c" using Some by (simp add: comp_at_def)
    have at2: "comp_at t j m2 = (if t = ReliableSend \<and> j = i then CReliableSend si else comp_at t j m)" for t j
      by (simp add: m2_def m1_def comp_at_put comp_at_getOrAdd)
    have get2: "t \<noteq> LinkStats \<Longrightarrow> cc_get t j m2 = (if t = ReliableSend \<and> j = i then Some (CReliableSend si) else cc_get t j m)" for t j
      by (simp add: m2_def m1_def cc_get_put cc_get_stats)
    note di = intervalDispatch_split [OF r(1)]
    have snd2: "sender j m2 = sender j m" for j using di c by (auto simp: sender_def at2)
    obtain D where D: "dj = concat (map D js)"
      "\<forall>j. D j = [] \<or> j \<in> set js \<and> cc_get ReliableSend j m2 \<noteq> None \<and> resend (sender j m2) = Inr (D j)"
      "\<forall>j. sender j m' = sender j m2" "\<forall>t j. t \<noteq> ReliableSend \<longrightarrow> comp_at t j m' = comp_at t j m2"
      "\<forall>t i. t \<noteq> LinkStats \<longrightarrow> cc_get t i m2 = None \<longrightarrow> cc_get t i m' = None"
      using Cons.IH [of m2 dj] r(2) Cons.prems(2) by (auto simp: m2_def)
    define E where "E = D(i := di)"
    have "ds = concat (map E (i # js))" using concat_map_upd [of i js D di] r(3) D(1) Cons.prems(2) by (simp add: E_def)
    moreover have "E j = [] \<or> j \<in> set (i # js) \<and> cc_get ReliableSend j m \<noteq> None \<and> resend (sender j m) = Inr (E j)" for j
    proof (cases "j = i")
      case True
      then show ?thesis using di c Some by (auto simp: E_def sender_def)
    next
      case False
      then show ?thesis using D(2) [rule_format, of j] by (auto simp: E_def snd2 get2)
    qed
    moreover have "cc_get t j m' = None" if "t \<noteq> LinkStats" "cc_get t j m = None" for t j
      using that D(5) get2 [of t j] Some by (cases "t = ReliableSend \<and> j = i") auto
    ultimately show ?thesis using D(3,4) snd2 at2 by (intro exI [of _ E] conjI) auto
  qed
qed

lemma dispatch_acks_split:
  assumes "dispatch_acks time is m = Inr (ds, m')" and "distinct is"
  shows "\<exists>D. ds = concat (map D is) \<and>
    (\<forall>i. (D i = [] \<and> acker i m' = acker i m) \<or> i \<in> set is \<and> cc_get ReliableAckSend i m \<noteq> None \<and>
       ack_resend (as_stats (comp_at LinkStats 0 m)) i (acker i m) = Inr (D i, acker i m')) \<and>
    (\<forall>t i. t \<noteq> ReliableAckSend \<longrightarrow> comp_at t i m' = comp_at t i m) \<and>
    (\<forall>t i. t \<noteq> LinkStats \<longrightarrow> cc_get t i m = None \<longrightarrow> cc_get t i m' = None)"
  using assms
proof (induction "is" arbitrary: m ds)
  case Nil
  then show ?case by (auto intro: exI [of _ "\<lambda>i. []"])
next
  case (Cons i js)
  show ?case
  proof (cases "cc_get ReliableAckSend i m")
    case None
    then have "dispatch_acks time js m = Inr (ds, m')" using Cons.prems(1) by simp
    from Cons.IH [OF this] Cons.prems(2) obtain D where D: "ds = concat (map D js)"
      "\<forall>i. (D i = [] \<and> acker i m' = acker i m) \<or> i \<in> set js \<and> cc_get ReliableAckSend i m \<noteq> None \<and>
         ack_resend (as_stats (comp_at LinkStats 0 m)) i (acker i m) = Inr (D i, acker i m')"
      "\<forall>t i. t \<noteq> ReliableAckSend \<longrightarrow> comp_at t i m' = comp_at t i m"
      "\<forall>t i. t \<noteq> LinkStats \<longrightarrow> cc_get t i m = None \<longrightarrow> cc_get t i m' = None"
      by auto
    have "D i = []" using D(2) None by auto
    with D show ?thesis by (intro exI [of _ D] conjI) auto
  next
    case (Some c)
    define m1 where "m1 = snd (cc_getOrAdd LinkStats 0 (fresh LinkStats) m)"
    have ga: "cc_getOrAdd LinkStats 0 (fresh LinkStats) m = (comp_at LinkStats 0 m, m1)"
      unfolding m1_def by (rule getOrAdd_pair)
    obtain di si dj where r: "ack_intervalDispatch (as_stats (comp_at LinkStats 0 m)) i time (as_acks c) = Inr (di, si)"
      "dispatch_acks time js (cc_put ReliableAckSend i (CReliableAckSend si) m1) = Inr (dj, m')" "ds = di @ dj"
      using Cons.prems(1) Some ga by (auto elim!: resE split: prod.splits)
    define m2 where "m2 = cc_put ReliableAckSend i (CReliableAckSend si) m1"
    have c: "comp_at ReliableAckSend i m = c" using Some by (simp add: comp_at_def)
    have at2: "comp_at t j m2 = (if t = ReliableAckSend \<and> j = i then CReliableAckSend si else comp_at t j m)" for t j
      by (simp add: m2_def m1_def comp_at_put comp_at_getOrAdd)
    have get2: "t \<noteq> LinkStats \<Longrightarrow> cc_get t j m2 = (if t = ReliableAckSend \<and> j = i then Some (CReliableAckSend si) else cc_get t j m)" for t j
      by (simp add: m2_def m1_def cc_get_put cc_get_stats)
    have ls2: "comp_at LinkStats 0 m2 = comp_at LinkStats 0 m" by (simp add: at2)
    note di = ack_intervalDispatch_split [OF r(1)]
    have ack2: "acker j m2 = (if j = i then si\<lparr>m_LastAckTS := 0\<rparr> else acker j m)" for j by (simp add: acker_def at2)
    have "dispatch_acks time js m2 = Inr (dj, m')" using r(2) by (simp add: m2_def)
    from Cons.IH [OF this] Cons.prems(2) obtain D where D: "dj = concat (map D js)"
      "\<forall>j. (D j = [] \<and> acker j m' = acker j m2) \<or> j \<in> set js \<and> cc_get ReliableAckSend j m2 \<noteq> None \<and>
         ack_resend (as_stats (comp_at LinkStats 0 m)) j (acker j m2) = Inr (D j, acker j m')"
      "\<forall>t j. t \<noteq> ReliableAckSend \<longrightarrow> comp_at t j m' = comp_at t j m2"
      "\<forall>t i. t \<noteq> LinkStats \<longrightarrow> cc_get t i m2 = None \<longrightarrow> cc_get t i m' = None"
      unfolding ls2 by auto
    have i': "acker i m' = si\<lparr>m_LastAckTS := 0\<rparr>" using D(2) [rule_format, of i] Cons.prems(2) by (auto simp: ack2)
    define E where "E = D(i := di)"
    have "ds = concat (map E (i # js))" using concat_map_upd [of i js D di] r(3) D(1) Cons.prems(2) by (simp add: E_def)
    moreover have "(E j = [] \<and> acker j m' = acker j m) \<or> j \<in> set (i # js) \<and> cc_get ReliableAckSend j m \<noteq> None \<and>
        ack_resend (as_stats (comp_at LinkStats 0 m)) j (acker j m) = Inr (E j, acker j m')" for j
    proof (cases "j = i")
      case True
      then show ?thesis using di i' c Some by (auto simp: E_def acker_def)
    next
      case False
      then show ?thesis using D(2) [rule_format, of j] by (auto simp: E_def ack2 get2)
    qed
    moreover have "cc_get t j m' = None" if "t \<noteq> LinkStats" "cc_get t j m = None" for t j
      using that D(4) get2 [of t j] Some by (cases "t = ReliableAckSend \<and> j = i") auto
    ultimately show ?thesis using D(3) at2 by (intro exI [of _ E] conjI) auto
  qed
qed

lemma sender_cong: "comp_at ReliableSend i m' = comp_at ReliableSend i m \<Longrightarrow> sender i m' = sender i m"
  and receiver_cong: "comp_at ReliableRecv i m' = comp_at ReliableRecv i m \<Longrightarrow> receiver i m' = receiver i m"
  and acker_cong: "comp_at ReliableAckSend i m' = comp_at ReliableAckSend i m \<Longrightarrow> acker i m' = acker i m"
  by (simp_all add: sender_def receiver_def acker_def)

lemma link_dispatch_split:
  assumes "link_dispatch time m = Inr (ds, m')"
  shows "\<exists>S A. set ds = (\<Union>i. set (S i)) \<union> (\<Union>i. set (A i)) \<and>
    (\<forall>i. S i = [] \<or> cc_get ReliableSend i m \<noteq> None \<and> resend (sender i m) = Inr (S i)) \<and>
    (\<forall>i. (A i = [] \<and> acker i m' = acker i m) \<or> cc_get ReliableAckSend i m \<noteq> None \<and>
       ack_resend (as_stats (comp_at LinkStats 0 m)) i (acker i m) = Inr (A i, acker i m')) \<and>
    (\<forall>i. sender i m' = sender i m) \<and> (\<forall>i. receiver i m' = receiver i m) \<and>
    comp_at LinkStats 0 m' = comp_at LinkStats 0 m \<and>
    (\<forall>t i. t \<noteq> LinkStats \<longrightarrow> cc_get t i m = None \<longrightarrow> cc_get t i m' = None)"
proof -
  let ?n = "cc_count ReliableSend m"
  obtain ds1 m1 ds2 where r: "dispatch_sends time [0 ..< ?n] m = Inr (ds1, m1)"
    "dispatch_acks time [0 ..< cc_count ReliableAckSend m1] m1 = Inr (ds2, m')" "ds = ds1 @ ds2"
    using assms by (auto simp: link_dispatch_def elim!: resE)
  let ?k = "cc_count ReliableAckSend m1"
  from dispatch_sends_split [OF r(1) distinct_upt] obtain S where S: "ds1 = concat (map S [0 ..< ?n])"
    "\<forall>i. S i = [] \<or> i \<in> set [0 ..< ?n] \<and> cc_get ReliableSend i m \<noteq> None \<and> resend (sender i m) = Inr (S i)"
    "\<forall>i. sender i m1 = sender i m" "\<forall>t i. t \<noteq> ReliableSend \<longrightarrow> comp_at t i m1 = comp_at t i m"
    "\<forall>t i. t \<noteq> LinkStats \<longrightarrow> cc_get t i m = None \<longrightarrow> cc_get t i m1 = None" by blast
  from dispatch_acks_split [OF r(2) distinct_upt] obtain A where A: "ds2 = concat (map A [0 ..< ?k])"
    "\<forall>i. (A i = [] \<and> acker i m' = acker i m1) \<or> i \<in> set [0 ..< ?k] \<and> cc_get ReliableAckSend i m1 \<noteq> None \<and>
       ack_resend (as_stats (comp_at LinkStats 0 m1)) i (acker i m1) = Inr (A i, acker i m')"
    "\<forall>t i. t \<noteq> ReliableAckSend \<longrightarrow> comp_at t i m' = comp_at t i m1"
    "\<forall>t i. t \<noteq> LinkStats \<longrightarrow> cc_get t i m1 = None \<longrightarrow> cc_get t i m' = None" by blast
  have u: "set (concat (map D [0 ..< n])) = (\<Union>i. set (D i))" if "\<And>i. D i \<noteq> [] \<Longrightarrow> i < n" for D :: "nat \<Rightarrow> byte list list" and n
  proof -
    have "x \<in> set (D i) \<Longrightarrow> i < n" for x i using that [of i] by (cases "D i") auto
    then show ?thesis by fastforce
  qed
  have "set ds1 = (\<Union>i. set (S i))" unfolding S(1) using S(2) by (intro u) auto
  moreover have "set ds2 = (\<Union>i. set (A i))" unfolding A(1) using A(2) by (intro u) auto
  ultimately have "set ds = (\<Union>i. set (S i)) \<union> (\<Union>i. set (A i))" using r(3) by simp
  moreover have ak: "acker i m1 = acker i m" for i by (rule acker_cong) (use S(4) in simp)
  have ls: "comp_at LinkStats 0 m1 = comp_at LinkStats 0 m" using S(4) by simp
  have "(A i = [] \<and> acker i m' = acker i m) \<or> cc_get ReliableAckSend i m \<noteq> None \<and>
      ack_resend (as_stats (comp_at LinkStats 0 m)) i (acker i m) = Inr (A i, acker i m')" for i
    using A(2) [rule_format, of i] S(5) [rule_format, of ReliableAckSend i] unfolding ak ls by auto
  moreover have "sender i m' = sender i m" for i
    using sender_cong [of i m' m1] A(3) S(3) by simp
  moreover have "receiver i m' = receiver i m" for i by (rule receiver_cong) (use A(3) S(4) in simp)
  moreover have "S i = [] \<or> cc_get ReliableSend i m \<noteq> None \<and> resend (sender i m) = Inr (S i)" for i using S(2) by blast
  moreover have "comp_at LinkStats 0 m' = comp_at LinkStats 0 m" using A(3) S(4) by simp
  moreover have "t \<noteq> LinkStats \<Longrightarrow> cc_get t i m = None \<Longrightarrow> cc_get t i m' = None" for t i using A(4) S(5) by blast
  ultimately show ?thesis by blast
qed

section \<open>Receiving\<close>

lemma link_receive_data:
  assumes "read_header bs = Inr (pi, comp_byte ReliableSend, bs1)" and "link_receive bs m = Some (Inr (job, m'))"
    and "ch = unat (m_ChannelAndFlags pi AND MM_CHANNEL_MASK)"
  shows "\<exists>j r. receive bs1 pi (receiver ch m) = Some (Inr (j, r)) \<and>
    (\<forall>t i. comp_at t i m' =
       (if t = ReliableRecv \<and> i = ch then CReliableRecv r
        else if t = ReliableAckSend \<and> i = ch then CReliableAckSend (addAck (m_Sequence pi) (as_acks (comp_at ReliableAckSend ch m)))
        else comp_at t i m)) \<and>
    (\<forall>t i. i \<noteq> ch \<longrightarrow> cc_get t i m' = cc_get t i m)"
  using assms
  by (auto simp: link_receive_def Let_def receiver_def comp_at_put comp_at_getOrAdd comp_at_on_comp getOrAdd_at cc_get_put
      get_on_comp comp.get_or_add_other case_prod_unfold split: option.splits sum.splits)

lemma link_receive_ack:
  assumes "read_header bs = Inr (pi, comp_byte ReliableAckSend, bs1)" and "link_receive bs m = Some (Inr (job, m'))"
    and "ch = unat (m_ChannelAndFlags pi AND MM_CHANNEL_MASK)"
  shows "((\<forall>t i. comp_at t i m' = comp_at t i m) \<or>
      (\<exists>s. ack_receive bs1 (Some (as_send (comp_at ReliableSend ch m))) = Some (Inr (Some s)) \<and>
        (\<forall>t i. comp_at t i m' = (if t = ReliableSend \<and> i = ch then CReliableSend s else comp_at t i m)))) \<and>
    (\<forall>t i. i \<noteq> ch \<longrightarrow> cc_get t i m' = cc_get t i m)"
proof -
  define m1 where "m1 = snd (cc_getOrAdd ReliableAckRecv ch (fresh ReliableAckRecv) m)"
  have g: "cc_get ReliableSend ch m1 = cc_get ReliableSend ch m" unfolding m1_def by (intro comp.get_or_add_other) simp
  have at1: "comp_at t i m1 = comp_at t i m" for t i unfolding m1_def by (rule comp_at_getOrAdd)
  have get1: "i \<noteq> ch \<Longrightarrow> cc_get t i m1 = cc_get t i m" for t i unfolding m1_def by (intro comp.get_or_add_other) simp
  obtain x where x: "ack_receive bs1 (map_option as_send (cc_get ReliableSend ch m)) = Some (Inr x)"
    "m' = (case x of None \<Rightarrow> m1 | Some s \<Rightarrow> cc_put ReliableSend ch (CReliableSend s) m1)"
    using assms g by (auto simp: link_receive_def Let_def m1_def split: option.splits sum.splits)
  show ?thesis
  proof (cases x)
    case None
    then show ?thesis using x(2) at1 get1 by simp
  next
    case (Some s)
    then obtain c where "cc_get ReliableSend ch m = Some c"
      using x(1) by (cases "cc_get ReliableSend ch m") (auto simp: ack_receive_def elim!: resE split: option.splits)
    then have "ack_receive bs1 (Some (as_send (comp_at ReliableSend ch m))) = Some (Inr (Some s))"
      using x(1) Some by (simp add: comp_at_def)
    then show ?thesis using x(2) Some at1 get1 by (auto simp: comp_at_put cc_get_put)
  qed
qed

lemma link_receive_other:
  assumes "read_header bs = Inr (pi, ct, bs1)" and "link_receive bs m = Some (Inr (job, m'))"
    and "ct \<noteq> comp_byte ReliableSend" and "ct \<noteq> comp_byte ReliableAckSend"
  shows "(\<forall>t i. comp_at t i m' = comp_at t i m) \<and> (\<forall>t i. MM_NUM_CHANNELS \<le> i \<longrightarrow> cc_get t i m' = cc_get t i m)"
proof -
  let ?ch = "unat (m_ChannelAndFlags pi AND MM_CHANNEL_MASK)"
  have "comp_of_byte ct \<noteq> Some ReliableSend" "comp_of_byte ct \<noteq> Some ReliableAckSend"
    using assms(3,4) by (auto simp: comp_byte_of)
  then consider "m' = m" | u j where "m' = snd (cc_getOrAdd u j (fresh u) m)" "j = 0 \<or> j = ?ch"
    using assms(1,2) by (auto simp: link_receive_def Let_def split: option.splits EComponentType.splits)
  then show ?thesis
  proof cases
    case 2
    then have "j < MM_NUM_CHANNELS" using channel_lt [of "m_ChannelAndFlags pi"] by (auto simp: MM_NUM_CHANNELS_def)
    then show ?thesis using 2(1) by (auto simp: comp_at_getOrAdd comp.get_or_add_other)
  qed simp
qed

section \<open>What every link keeps\<close>

text \<open>A packet that goes into the queue of channel \<open>i\<close> has the number of the channel in its header.\<close>

definition queued_ok :: "nat \<Rightarrow> bin_serializer \<Rightarrow> bool" where
  "queued_ok i b \<longleftrightarrow> bs_inv b \<and>
     (\<exists>p. content b = packet_bytes p \<and> unat (m_Flags p AND MM_CHANNEL_MASK) = i \<and> length (m_Data p) \<le> MM_MAX_SENDSIZE - 7)"

definition link_ok :: "link_component components \<Rightarrow> bool" where
  "link_ok m \<longleftrightarrow> (\<forall>t i. t \<noteq> LinkStats \<longrightarrow> MM_NUM_CHANNELS \<le> i \<longrightarrow> cc_get t i m = None) \<and>
     as_stats (comp_at LinkStats 0 m) = LinkStats_init \<and>
     (\<forall>i. \<forall>(k, b) \<in> set (m_SendQueue (sender i m)). queued_ok i b)"

lemma set_ackList_subset: "set (m_SendQueue (ackList as s)) \<subseteq> set (m_SendQueue s)"
  by (induction "as" s rule: ackList.induct) (use set_sm_erase_subset in force)+

lemma queue_timestamp: "s\<lparr>m_LastResendTS := t, m_SendQueue := q\<rparr> = s\<lparr>m_SendQueue := q, m_LastResendTS := t\<rparr>"
  by (cases s) simp

lemma ackList_timestamp: "(ackList as s)\<lparr>m_LastResendTS := t\<rparr> = ackList as (s\<lparr>m_LastResendTS := t\<rparr>)"
  by (induction "as" s rule: ackList.induct) (simp_all add: queue_timestamp)

lemma enqueue_timestamp: "(enqueue b s)\<lparr>m_LastResendTS := t\<rparr> = enqueue b (s\<lparr>m_LastResendTS := t\<rparr>)"
  by (simp add: enqueue_def)

lemma link_enqueue_at:
  "comp_at t i (link_enqueue ch [b] m) =
     (if t = ReliableSend \<and> i = ch then CReliableSend (enqueue b (as_send (comp_at ReliableSend ch m))) else comp_at t i m)"
  by (simp add: link_enqueue_def comp_at_on_comp enqueue_def)

lemma link_enqueue_streams:
  "sender i (link_enqueue ch [b] m) = (if i = ch then enqueue b (sender i m) else sender i m)"
  "receiver i (link_enqueue ch [b] m) = receiver i m" "acker i (link_enqueue ch [b] m) = acker i m"
  by (auto simp: sender_def receiver_def acker_def link_enqueue_at enqueue_timestamp)

lemma link_ok_enqueue:
  assumes "link_ok m" and "queued_ok ch b" and "ch < MM_NUM_CHANNELS"
  shows "link_ok (link_enqueue ch [b] m)"
proof -
  have "queued_ok i c" if "(k, c) \<in> set (m_SendQueue (sender i (link_enqueue ch [b] m)))" for i k c
    using that assms(1,2) set_sm_set [of "m_SendSequence (sender ch m)" b "m_SendQueue (sender ch m)"]
    by (fastforce simp: link_enqueue_streams link_ok_def enqueue_def split: if_splits)
  then show ?thesis using assms(1,3)
    by (auto simp: link_ok_def link_enqueue_at) (auto simp: link_enqueue_def get_on_comp)
qed

lemma link_ok_dispatch:
  assumes "link_ok m" and "link_dispatch time m = Inr (ds, m')"
  shows "link_ok m'"
proof -
  obtain "\<forall>i. sender i m' = sender i m" "comp_at LinkStats 0 m' = comp_at LinkStats 0 m"
    "\<forall>t i. t \<noteq> LinkStats \<longrightarrow> cc_get t i m = None \<longrightarrow> cc_get t i m' = None"
    using link_dispatch_split [OF assms(2)] by blast
  then show ?thesis using assms(1) by (simp add: link_ok_def)
qed

lemma link_receive_header: "link_receive bs m = Some (Inr r) \<Longrightarrow> \<exists>pi ct bs1. read_header bs = Inr (pi, ct, bs1)"
  by (auto simp: link_receive_def split: sum.splits)

lemma link_ok_receive:
  assumes "link_ok m" and "link_receive bs m = Some (Inr (job, m'))"
  shows "link_ok m'"
proof -
  obtain pi ct bs1 where h: "read_header bs = Inr (pi, ct, bs1)" using link_receive_header [OF assms(2)] by blast
  let ?ch = "unat (m_ChannelAndFlags pi AND MM_CHANNEL_MASK)"
  have lt: "?ch < MM_NUM_CHANNELS" by (rule channel_lt)
  have *: "(\<forall>i. set (m_SendQueue (sender i m')) \<subseteq> set (m_SendQueue (sender i m))) \<and> comp_at LinkStats 0 m' = comp_at LinkStats 0 m \<and>
      (\<forall>t i. MM_NUM_CHANNELS \<le> i \<longrightarrow> cc_get t i m' = cc_get t i m)"
  proof (cases "ct = comp_byte ReliableSend \<or> ct = comp_byte ReliableAckSend")
    case False
    then show ?thesis using link_receive_other [OF h assms(2)] by (simp add: sender_def)
  next
    case True
    then show ?thesis
    proof
      assume "ct = comp_byte ReliableSend"
      from link_receive_data [OF h [unfolded this] assms(2) refl] lt show ?thesis by (auto simp: sender_def)
    next
      assume "ct = comp_byte ReliableAckSend"
      from link_receive_ack [OF h [unfolded this] assms(2) refl] obtain s where
        s: "(\<forall>t i. comp_at t i m' = comp_at t i m) \<or>
          ack_receive bs1 (Some (as_send (comp_at ReliableSend ?ch m))) = Some (Inr (Some s)) \<and>
          (\<forall>t i. comp_at t i m' = (if t = ReliableSend \<and> i = ?ch then CReliableSend s else comp_at t i m))"
        "\<forall>t i. i \<noteq> ?ch \<longrightarrow> cc_get t i m' = cc_get t i m" by blast
      have "set (m_SendQueue s) \<subseteq> set (m_SendQueue (sender ?ch m))"
        if "ack_receive bs1 (Some (as_send (comp_at ReliableSend ?ch m))) = Some (Inr (Some s))"
        using ack_receive_ackList [OF that] set_ackList_subset by (auto simp: sender_def)
      then have "set (m_SendQueue (sender i m')) \<subseteq> set (m_SendQueue (sender i m))" for i
        using s(1) by (cases "i = ?ch") (auto simp: sender_def)
      moreover have "comp_at LinkStats 0 m' = comp_at LinkStats 0 m" using s(1) by auto
      ultimately show ?thesis using s(2) lt by auto
    qed
  qed
  have "queued_ok i b" if "(k, b) \<in> set (m_SendQueue (sender i m'))" for i k b
  proof -
    have "(k, b) \<in> set (m_SendQueue (sender i m))" using * that by blast
    then show ?thesis using assms(1) by (auto simp: link_ok_def)
  qed
  then show ?thesis using assms(1) * by (auto simp: link_ok_def)
qed

lemma link_proceed_at:
  assumes "link_proceed rpcs ch m = Inr (es, m')"
  shows "\<exists>r. proceedRecvQueue rpcs (receiver ch m) = Inr (es, r) \<and>
    (\<forall>t i. comp_at t i m' = (if t = ReliableRecv \<and> i = ch then CReliableRecv r else comp_at t i m)) \<and>
    (\<forall>t i. i \<noteq> ch \<longrightarrow> cc_get t i m' = cc_get t i m)"
  using assms
  by (auto simp: link_proceed_def case_prod_unfold getOrAdd_at receiver_def comp_at_put comp_at_getOrAdd cc_get_put comp.get_or_add_other
      elim!: resE)

lemma link_ok_proceed:
  assumes "link_ok m" and "link_proceed rpcs ch m = Inr (es, m')" and "ch < MM_NUM_CHANNELS"
  shows "link_ok m'"
proof -
  obtain r where r: "\<forall>t i. comp_at t i m' = (if t = ReliableRecv \<and> i = ch then CReliableRecv r else comp_at t i m)"
    "\<forall>t i. i \<noteq> ch \<longrightarrow> cc_get t i m' = cc_get t i m"
    using link_proceed_at [OF assms(2)] by blast
  then have "sender i m' = sender i m" "comp_at LinkStats 0 m' = comp_at LinkStats 0 m" for i by (simp_all add: sender_def)
  then show ?thesis using assms(1,3) r(2) by (simp add: link_ok_def)
qed

lemma call_packet:
  assumes "string_ok nm" and "bs_inv payload" and "length nm + 1 + length (content payload) \<le> 1894" and "ch < MM_NUM_CHANNELS"
    and "rpc_packets nm payload False sys (of_nat ch) = Inr data"
  shows "\<exists>b p. data = [b] \<and> bs_inv b \<and> content b = packet_bytes p \<and> queued_ok ch b \<and> good_packet rpcs p \<and>
    p = RecvPacket packet_RPC (nm @ [0] @ content payload) (makeChannelAndFlags (of_nat ch) False sys True True)"
proof -
  let ?p = "RecvPacket packet_RPC (nm @ [0] @ content payload) (makeChannelAndFlags (of_nat ch) False sys True True)"
  obtain b where b: "data = [b]" "bs_inv b" "content b = packet_bytes ?p"
    using rpc_packets_ok [OF assms(1-3) refl refl, of False sys "of_nat ch"] assms(5) by auto
  note f = rpc_packet_fields [OF assms(3) refl, of "makeChannelAndFlags (of_nat ch) False sys True True"]
  have "queued_ok ch b" unfolding queued_ok_def
    using b(2,3) f(2,6) channel_of_nat [OF assms(4)] by (auto simp: flags_channel intro!: exI [of _ ?p])
  then show ?thesis using b rpc_packet_handled(2) [OF assms(1-3) refl refl] by blast
qed

definition pair_inv :: "'f link_pair \<Rightarrow> bool" where
  "pair_inv s \<longleftrightarrow> (\<forall>x. link_ok (lp_comps s x))"

lemma pair_inv_step: "pair_step rpcs s t \<Longrightarrow> pair_inv s \<Longrightarrow> pair_inv t"
proof (induction rule: pair_step.induct)
  case (call nm payload ch sys data s x)
  then show ?case using call_packet [OF call(1-5), of rpcs] link_ok_enqueue by (auto simp: pair_inv_def)
qed (auto simp: pair_inv_def intro: link_ok_dispatch link_ok_receive link_ok_proceed)

interpretation pair: state_machine "\<lambda>s. s = link_pair_init" "pair_step rpcs" pair_inv
proof
  show "pair_step rpcs s t \<Longrightarrow> pair_inv s \<Longrightarrow> pair_inv t" for s t by (rule pair_inv_step)
qed (auto simp: pair_inv_def link_pair_init_def link_ok_def sender_def comp_at_def cc_get_def fresh_def ReliableSend_init_def)

section \<open>A channel of the pair\<close>

definition call_packet_of :: "nat \<Rightarrow> cstring \<times> byte list \<Rightarrow> recv_packet \<Rightarrow> bool" where
  "call_packet_of ch c p \<longleftrightarrow> string_ok (fst c) \<and> length (fst c) + 1 + length (snd c) \<le> 1894 \<and>
     (\<exists>payload sys. bs_inv payload \<and> content payload = snd c \<and>
        p = RecvPacket packet_RPC (fst c @ [0] @ content payload) (makeChannelAndFlags (of_nat ch) False sys True True))"

text \<open>The state of the channel from side \<open>x\<close> to the other one. The network of the channel is the part of the
  datagrams of the sides whose header names the stream and the channel.\<close>

definition pair_rel :: "bool \<Rightarrow> nat \<Rightarrow> 'f channel \<Rightarrow> 'f link_pair \<Rightarrow> bool" where
  "pair_rel x ch a c \<longleftrightarrow>
     ch_send a = sender ch (lp_comps c x) \<and> ch_recv a = receiver ch (lp_comps c (\<not> x)) \<and> ch_acks a = acker ch (lp_comps c (\<not> x)) \<and>
     ch_net a = {d \<in> lp_out c x. header_of d = Some (comp_byte ReliableSend, ch)} \<and>
     {d \<in> lp_out c (\<not> x). header_of d = Some (comp_byte ReliableAckSend, ch)} \<subseteq> ch_back a \<and>
     list_all2 (call_packet_of ch) (lp_calls c x ch) (ch_sent a) \<and> ch_events a = lp_events c (\<not> x) ch"

lemma resend_headers:
  assumes "link_ok m" and "resend (sender i m) = Inr ds" and "d \<in> set ds"
  shows "header_of d = Some (comp_byte ReliableSend, i)"
proof -
  have q: "queued_ok i b" if "(k, b) \<in> set (m_SendQueue (sender i m))" for k b using assms(1) that by (auto simp: link_ok_def)
  then have "\<forall>b \<in> snd ` set (m_SendQueue (sender i m)). sendable b"
    by (force simp: queued_ok_def sendable_def packet_bytes_def MM_MAX_SENDSIZE_def MM_MAX_RECVSIZE_def)
  from resend_ok [OF this] obtain k b where kb: "(k, b) \<in> set (m_SendQueue (sender i m))" "d = data_image k b"
    using assms(2,3) by auto
  then obtain p where "content b = packet_bytes p" "unat (m_Flags p AND MM_CHANNEL_MASK) = i" "length (m_Data p) \<le> MM_MAX_SENDSIZE - 7"
    using q [OF kb(1)] by (auto simp: queued_ok_def)
  then show ?thesis using kb(2) header_of_data [of p k] by (simp add: data_image_def)
qed

lemma ack_headers:
  assumes "ack_resend LinkStats_init i s = Inr (ds, a)" and "i < MM_NUM_CHANNELS" and "d \<in> set ds"
  shows "header_of d = Some (comp_byte ReliableAckSend, i)"
proof -
  have "unat (1520 :: u32) \<le> 1000000000" by simp
  from ack_resend_ok [OF LinkStats_values(2) this, of i s] assms(1,3)
  obtain g where "d = ack_header i @ acks_bytes g" "length d < max 7 (unat (1520 :: u32)) + 4" by auto
  then show ?thesis using header_of_acks [OF _ assms(2), of g] by (simp add: MM_MAX_RECVSIZE_def)
qed

lemma dispatch_headers:
  assumes "link_ok m" and "link_dispatch time m = Inr (ds, m')"
  shows "\<exists>S A. {d \<in> set ds. header_of d = Some (comp_byte ReliableSend, ch)} = set S \<and>
      {d \<in> set ds. header_of d = Some (comp_byte ReliableAckSend, ch)} = set A \<and>
      (S = [] \<or> resend (sender ch m) = Inr S) \<and>
      ((A = [] \<and> acker ch m' = acker ch m) \<or> ack_resend LinkStats_init ch (acker ch m) = Inr (A, acker ch m')) \<and>
      sender ch m' = sender ch m \<and> receiver ch m' = receiver ch m"
proof -
  obtain S A where SA: "set ds = (\<Union>i. set (S i)) \<union> (\<Union>i. set (A i))"
    "\<forall>i. S i = [] \<or> cc_get ReliableSend i m \<noteq> None \<and> resend (sender i m) = Inr (S i)"
    "\<forall>i. (A i = [] \<and> acker i m' = acker i m) \<or> cc_get ReliableAckSend i m \<noteq> None \<and>
       ack_resend (as_stats (comp_at LinkStats 0 m)) i (acker i m) = Inr (A i, acker i m')"
    "\<forall>i. sender i m' = sender i m" "\<forall>i. receiver i m' = receiver i m"
    using link_dispatch_split [OF assms(2)] by blast
  have ls: "as_stats (comp_at LinkStats 0 m) = LinkStats_init" using assms(1) by (simp add: link_ok_def)
  have hS: "header_of d = Some (comp_byte ReliableSend, i)" if "d \<in> set (S i)" for d i
    using resend_headers [OF assms(1), of i "S i" d] SA(2) that by (metis empty_iff empty_set)
  have hA: "header_of d = Some (comp_byte ReliableAckSend, i)" if d: "d \<in> set (A i)" for d i
  proof -
    have "cc_get ReliableAckSend i m \<noteq> None" "ack_resend LinkStats_init i (acker i m) = Inr (A i, acker i m')"
      using SA(3) [rule_format, of i] d ls by auto
    moreover have "i < MM_NUM_CHANNELS"
      using calculation(1) assms(1) unfolding link_ok_def by (rule_tac ccontr) (simp add: not_less)
    ultimately show ?thesis using ack_headers d by blast
  qed
  have ne: "comp_byte ReliableSend \<noteq> comp_byte ReliableAckSend" by (simp add: comp_byte_inj)
  have "{d \<in> set ds. header_of d = Some (comp_byte ReliableSend, ch)} = set (S ch)"
    unfolding SA(1) using hS hA ne by auto
  moreover have "{d \<in> set ds. header_of d = Some (comp_byte ReliableAckSend, ch)} = set (A ch)"
    unfolding SA(1) using hS hA ne by auto
  ultimately show ?thesis using SA(2) [rule_format, of ch] SA(3) [rule_format, of ch] SA(4,5) ls by (intro exI [of _ "S ch"] exI [of _ "A ch"]) auto
qed

text \<open>A step of the pair is no step, or the corresponding step, of each channel.\<close>

lemma sim_call:
  assumes "pair_rel x ch a c" and "string_ok nm" and "bs_inv payload" and "length nm + 1 + length (content payload) \<le> 1894"
    and "k < MM_NUM_CHANNELS" and "rpc_packets nm payload False sys (of_nat k) = Inr data"
    and "c' = c\<lparr>lp_comps := (lp_comps c)(y := link_enqueue k data (lp_comps c y)),
       lp_calls := (lp_calls c)(y := (lp_calls c y)(k := lp_calls c y k @ [(nm, content payload)]))\<rparr>"
  shows "\<exists>a'. (channel_step rpcs LinkStats_init ch)\<^sup>*\<^sup>* a a' \<and> pair_rel x ch a' c'"
proof -
  obtain b p where b: "data = [b]" "bs_inv b" "content b = packet_bytes p" "good_packet rpcs p"
    "p = RecvPacket packet_RPC (nm @ [0] @ content payload) (makeChannelAndFlags (of_nat k) False sys True True)"
    using call_packet [OF assms(2-6), of rpcs] by blast
  show ?thesis
  proof (cases "y = x \<and> k = ch")
    case True
    let ?a = "a\<lparr>ch_send := enqueue b (ch_send a), ch_sent := ch_sent a @ [p]\<rparr>"
    have "channel_step rpcs LinkStats_init ch a ?a" using b(2-4) by (rule channel_step.send)
    moreover have "call_packet_of ch (nm, content payload) p" using assms(2-4) b(5) True by (auto simp: call_packet_of_def)
    then have "pair_rel x ch ?a c'"
      using assms(1,7) b(1) True by (auto simp: pair_rel_def link_enqueue_streams intro: list_all2_appendI)
    ultimately show ?thesis by blast
  next
    case False
    then have "pair_rel x ch a c'" using assms(1,7) b(1) by (cases "y = x") (simp_all add: pair_rel_def link_enqueue_streams)
    then show ?thesis by blast
  qed
qed

lemma sim_dispatch:
  assumes "pair_rel x ch a c" and "pair_inv c" and "link_dispatch time (lp_comps c y) = Inr (ds, m)"
    and "c' = c\<lparr>lp_comps := (lp_comps c)(y := m), lp_out := (lp_out c)(y := lp_out c y \<union> set ds)\<rparr>"
  shows "\<exists>a'. (channel_step rpcs LinkStats_init ch)\<^sup>*\<^sup>* a a' \<and> pair_rel x ch a' c'"
proof -
  have "link_ok (lp_comps c y)" using assms(2) by (simp add: pair_inv_def)
  from dispatch_headers [OF this assms(3), of ch] obtain S A where
    h: "{d \<in> set ds. header_of d = Some (comp_byte ReliableSend, ch)} = set S"
      "{d \<in> set ds. header_of d = Some (comp_byte ReliableAckSend, ch)} = set A"
    and S: "S = [] \<or> resend (sender ch (lp_comps c y)) = Inr S"
    and A: "(A = [] \<and> acker ch m = acker ch (lp_comps c y)) \<or>
      ack_resend LinkStats_init ch (acker ch (lp_comps c y)) = Inr (A, acker ch m)"
    and k: "sender ch m = sender ch (lp_comps c y)" "receiver ch m = receiver ch (lp_comps c y)" by blast
  show ?thesis
  proof (cases "y = x")
    case True
    let ?a = "a\<lparr>ch_net := ch_net a \<union> set S\<rparr>"
    have "ch_send a = sender ch (lp_comps c y)" using assms(1) True by (simp add: pair_rel_def)
    with S have "(channel_step rpcs LinkStats_init ch)\<^sup>*\<^sup>* a ?a"
      by (elim disjE) (auto intro!: r_into_rtranclp channel_step.transmit)
    moreover have "pair_rel x ch ?a c'" using assms(1,4) True h(1) k by (auto simp: pair_rel_def)
    ultimately show ?thesis by blast
  next
    case False
    then have y: "y = (\<not> x)" by simp
    let ?a = "a\<lparr>ch_acks := acker ch m, ch_back := ch_back a \<union> set A\<rparr>"
    have "ch_acks a = acker ch (lp_comps c y)" using assms(1) y by (simp add: pair_rel_def)
    moreover from this have "a\<lparr>ch_acks := acker ch (lp_comps c y), ch_back := ch_back a\<rparr> = a" by simp
    ultimately have "a = ?a \<or> channel_step rpcs LinkStats_init ch a ?a" using A
      by (elim disjE) (auto intro!: channel_step.ack_out)
    then have "(channel_step rpcs LinkStats_init ch)\<^sup>*\<^sup>* a ?a" by auto
    moreover have "pair_rel x ch ?a c'" using assms(1,4) y h(2) k by (auto simp: pair_rel_def)
    ultimately show ?thesis by blast
  qed
qed

lemma sim_proceed:
  assumes "pair_rel x ch a c" and "link_proceed rpcs k (lp_comps c y) = Inr (es, m)"
    and "c' = c\<lparr>lp_comps := (lp_comps c)(y := m),
       lp_events := (lp_events c)(y := (lp_events c y)(k := lp_events c y k @ es))\<rparr>"
  shows "\<exists>a'. (channel_step rpcs LinkStats_init ch)\<^sup>*\<^sup>* a a' \<and> pair_rel x ch a' c'"
proof -
  obtain r where r: "proceedRecvQueue rpcs (receiver k (lp_comps c y)) = Inr (es, r)"
    "\<forall>t i. comp_at t i m = (if t = ReliableRecv \<and> i = k then CReliableRecv r else comp_at t i (lp_comps c y))"
    using link_proceed_at [OF assms(2)] by blast
  have m: "sender i m = sender i (lp_comps c y)" "acker i m = acker i (lp_comps c y)"
    "receiver i m = (if i = k then r else receiver i (lp_comps c y))" for i
    using r(2) by (simp_all add: sender_def acker_def receiver_def)
  show ?thesis
  proof (cases "y = (\<not> x) \<and> k = ch")
    case True
    let ?a = "a\<lparr>ch_recv := r, ch_events := ch_events a @ es\<rparr>"
    have "channel_step rpcs LinkStats_init ch a ?a"
      by (rule channel_step.proceed) (use r(1) assms(1) True in \<open>simp add: pair_rel_def\<close>)
    moreover have "pair_rel x ch ?a c'" using assms(1,3) True m by (auto simp: pair_rel_def)
    ultimately show ?thesis by blast
  next
    case False
    then have "pair_rel x ch a c'" using assms(1,3) m by (cases "y = x") (simp_all add: pair_rel_def)
    then show ?thesis by blast
  qed
qed

lemma sim_receive:
  assumes "pair_rel x ch a c" and "d \<in> lp_out c (\<not> y)" and "link_receive (recv_view d) (lp_comps c y) = Some (Inr (job, m))"
    and "c' = c\<lparr>lp_comps := (lp_comps c)(y := m)\<rparr>"
  shows "\<exists>a'. (channel_step rpcs LinkStats_init ch)\<^sup>*\<^sup>* a a' \<and> pair_rel x ch a' c'"
proof -
  obtain pi ct bs where h: "read_header (recv_view d) = Inr (pi, ct, bs)" using link_receive_header [OF assms(3)] by blast
  let ?k = "unat (m_ChannelAndFlags pi AND MM_CHANNEL_MASK)"
  have hd: "header_of d = Some (ct, ?k)" using h by (simp add: header_of_def)
  have stays: ?thesis if "\<And>i. y = x \<Longrightarrow> sender i m = sender i (lp_comps c x)"
    "y \<noteq> x \<Longrightarrow> receiver ch m = receiver ch (lp_comps c y)" "y \<noteq> x \<Longrightarrow> acker ch m = acker ch (lp_comps c y)"
  proof -
    have "pair_rel x ch a c'" using assms(1,4) that by (cases "y = x") (auto simp: pair_rel_def)
    then show ?thesis by blast
  qed
  consider "ct = comp_byte ReliableSend" | "ct = comp_byte ReliableAckSend" | "ct \<noteq> comp_byte ReliableSend" "ct \<noteq> comp_byte ReliableAckSend"
    by blast
  then show ?thesis
  proof cases
    case 1
    obtain j r where r: "receive bs pi (receiver ?k (lp_comps c y)) = Some (Inr (j, r))"
      "\<forall>t i. comp_at t i m = (if t = ReliableRecv \<and> i = ?k then CReliableRecv r
         else if t = ReliableAckSend \<and> i = ?k then CReliableAckSend (addAck (m_Sequence pi) (as_acks (comp_at ReliableAckSend ?k (lp_comps c y))))
         else comp_at t i (lp_comps c y))"
      using link_receive_data [OF h [unfolded 1] assms(3) refl] by blast
    have m: "sender i m = sender i (lp_comps c y)" "receiver i m = (if i = ?k then r else receiver i (lp_comps c y))"
      "acker i m = (if i = ?k then addAck (m_Sequence pi) (acker i (lp_comps c y)) else acker i (lp_comps c y))" for i
      using r(2) by (simp_all add: sender_def receiver_def acker_def addAck_def)
    show ?thesis
    proof (cases "y \<noteq> x \<and> ?k = ch")
      case True
      let ?a = "a\<lparr>ch_acks := addAck (m_Sequence pi) (ch_acks a), ch_recv := r\<rparr>"
      have "d \<in> ch_net a" "ch_recv a = receiver ?k (lp_comps c y)"
        using assms(1,2) hd 1 True by (cases x; cases y; auto simp: pair_rel_def)+
      then have "channel_step rpcs LinkStats_init ch a ?a" using h [unfolded 1] r(1) by (intro channel_step.data) auto
      moreover have "pair_rel x ch ?a c'" using assms(1,4) True m by (cases x; cases y; simp add: pair_rel_def)
      ultimately show ?thesis by blast
    next
      case False
      then show ?thesis using m by (intro stays) auto
    qed
  next
    case 2
    note ack = link_receive_ack [OF h [unfolded 2] assms(3) refl]
    show ?thesis
    proof (cases "\<forall>t i. comp_at t i m = comp_at t i (lp_comps c y)")
      case True
      then show ?thesis by (intro stays) (simp_all add: sender_def receiver_def acker_def)
    next
      case False
      then obtain s where s: "ack_receive bs (Some (as_send (comp_at ReliableSend ?k (lp_comps c y)))) = Some (Inr (Some s))"
        "\<forall>t i. comp_at t i m = (if t = ReliableSend \<and> i = ?k then CReliableSend s else comp_at t i (lp_comps c y))"
        using ack by blast
      obtain as where as: "read_acks bs [] = Some (Inr as)" "s = ackList as (as_send (comp_at ReliableSend ?k (lp_comps c y)))"
        using ack_receive_ackList [OF s(1)] by blast
      have m: "receiver i m = receiver i (lp_comps c y)" "acker i m = acker i (lp_comps c y)"
        "sender i m = (if i = ?k then ackList as (sender i (lp_comps c y)) else sender i (lp_comps c y))" for i
        using s(2) as(2) by (simp_all add: sender_def receiver_def acker_def ackList_timestamp)
      show ?thesis
      proof (cases "y = x \<and> ?k = ch")
        case True
        let ?a = "a\<lparr>ch_send := ackList as (ch_send a)\<rparr>"
        have "d \<in> ch_back a" using assms(1,2) hd 2 True by (auto simp: pair_rel_def)
        then have "channel_step rpcs LinkStats_init ch a ?a"
          using h [unfolded 2] as(1) by (intro channel_step.ack_in) (auto simp: ack_receive_def)
        moreover have "pair_rel x ch ?a c'" using assms(1,4) True m by (simp add: pair_rel_def)
        ultimately show ?thesis by blast
      next
        case False
        then have "y = x \<Longrightarrow> ch \<noteq> ?k" by blast
        then have "pair_rel x ch a c'" using assms(1,4) m by (cases "y = x") (auto simp: pair_rel_def)
        then show ?thesis by blast
      qed
    qed
  next
    case 3
    then show ?thesis using link_receive_other [OF h assms(3)]
      by (intro stays) (simp_all add: sender_def receiver_def acker_def)
  qed
qed

interpretation chan: simulation "\<lambda>a. a = channel_init" "channel_step rpcs LinkStats_init ch"
    "\<lambda>s. s = link_pair_init" "pair_step rpcs" "pair_rel x ch"
proof
  fix c :: "'a link_pair" assume "c = link_pair_init"
  then show "\<exists>a. a = channel_init \<and> pair_rel x ch a c"
    by (auto simp: pair_rel_def channel_init_def link_pair_init_def sender_def receiver_def acker_def comp_at_def cc_get_def fresh_def
        ReliableSend_init_def ReliableAckSend_init_def)
next
  fix c c' :: "'a link_pair" and a
  assume r: "pair_reach rpcs c" and rel: "pair_rel x ch a c" and st: "pair_step rpcs c c'"
  have inv: "pair_inv c" by (rule pair.invariant [OF r])
  from st show "\<exists>a'. (channel_step rpcs LinkStats_init ch)\<^sup>*\<^sup>* a a' \<and> pair_rel x ch a' c'"
  proof (cases rule: pair_step.cases)
    case call
    then show ?thesis using sim_call [OF rel] by blast
  next
    case dispatch
    then show ?thesis using sim_dispatch [OF rel inv] by blast
  next
    case receive
    then show ?thesis using sim_receive [OF rel] by blast
  next
    case proceed
    then show ?thesis using sim_proceed [OF rel] by blast
  qed
qed

lemma reachable_channel:
  "reachable (\<lambda>a. a = channel_init) (channel_step rpcs ls ch) a \<Longrightarrow> channel_reach rpcs ls ch channel_init a"
  by (induction rule: reachable.induct) (auto intro: channel_reach.start channel_reach.more)

section \<open>What arrives\<close>

text \<open>What an event of a remote call performs: the function, its argument bytes and the channel it is told, if the
  serializer that it is given is well formed.\<close>

definition performed :: "'f event_rpc \<Rightarrow> ('f \<times> byte list \<times> nat) option" where
  "performed e = (case EventRpc_process e of Inl x \<Rightarrow> None | Inr (f, bs, ch) \<Rightarrow> if bs_inv bs then Some (f, unread bs, unat ch) else None)"

text \<open>What a call should perform at the other side: nothing when the name is unknown there.\<close>

definition performed_call :: "(cstring \<Rightarrow> 'f option) \<Rightarrow> nat \<Rightarrow> cstring \<times> byte list \<Rightarrow> ('f \<times> byte list \<times> nat) option list" where
  "performed_call rpcs ch c = (case rpcs (fst c) of None \<Rightarrow> [] | Some f \<Rightarrow> [Some (f, snd c, ch)])"

lemma handle_call:
  assumes "call_packet_of ch c p" and "ch < MM_NUM_CHANNELS"
  shows "\<exists>es. handlePacket rpcs p = Inr es \<and> map performed es = performed_call rpcs ch c"
proof -
  obtain payload sys where c: "string_ok (fst c)" "length (fst c) + 1 + length (content payload) \<le> 1894" "bs_inv payload"
    "content payload = snd c"
    "p = RecvPacket packet_RPC (fst c @ [0] @ content payload) (makeChannelAndFlags (of_nat ch) False sys True True)"
    using assms(1) by (auto simp: call_packet_of_def)
  have h: "handlePacket rpcs p = Inr (rpc_events rpcs (fst c) p)"
    by (rule rpc_packet_handled(1) [OF c(1,3,2) refl c(5)])
  show ?thesis
  proof (cases "rpcs (fst c)")
    case None
    then show ?thesis using h by (simp add: rpc_events_def performed_call_def)
  next
    case (Some f)
    then show ?thesis using h rpc_event_args [OF c(2) refl c(5), of f] channel_of_nat [OF assms(2)] c(4)
      by (auto simp: rpc_events_def performed_call_def performed_def)
  qed
qed

lemma handle_calls:
  assumes "list_all2 (call_packet_of ch) cs ps" and "ch < MM_NUM_CHANNELS" and "handle_all rpcs ps = Inr es"
  shows "map performed es = concat (map (performed_call rpcs ch) cs)"
  using assms(1,3)
proof (induction arbitrary: es rule: list_all2_induct)
  case Nil
  then show ?case by simp
next
  case (Cons c cs p ps)
  obtain e1 where "handlePacket rpcs p = Inr e1" "map performed e1 = performed_call rpcs ch c"
    using handle_call [OF Cons.hyps(1) assms(2), of rpcs] by blast
  then show ?case using Cons.prems Cons.IH by (auto elim!: resE)
qed

lemma pair_channel:
  assumes "pair_reach rpcs s"
  shows "\<exists>a. reachable (\<lambda>a. a = channel_init) (channel_step rpcs LinkStats_init ch) a \<and> pair_rel x ch a s"
  using chan.simulated [OF assms] by blast

lemma pair_rel_length: "pair_rel x ch a s \<Longrightarrow> length (ch_sent a) = length (lp_calls s x ch)"
  by (auto simp: pair_rel_def dest: list_all2_lengthD)

section \<open>Everything can be delivered\<close>

lemma channel_steps_sent:
  assumes "(channel_step rpcs ls ch)\<^sup>*\<^sup>* a b"
  shows "\<exists>ps. ch_sent b = ch_sent a @ ps"
  using assms
proof (induction rule: rtranclp_induct)
  case (step b c)
  from step.hyps(2) have "\<exists>ps. ch_sent c = ch_sent b @ ps" by (cases rule: channel_step.cases) auto
  with step.IH show ?case by auto
qed simp

lemma pair_follow:
  assumes "pair_reach rpcs s" and "reachable (\<lambda>a. a = channel_init) (channel_step rpcs LinkStats_init ch) a"
    and "pair_rel x ch a s" and "pair_step rpcs s t" and "lp_calls t = lp_calls s"
  shows "\<exists>b. reachable (\<lambda>a. a = channel_init) (channel_step rpcs LinkStats_init ch) b \<and> pair_rel x ch b t \<and> ch_sent b = ch_sent a"
proof -
  obtain b where b: "(channel_step rpcs LinkStats_init ch)\<^sup>*\<^sup>* a b" "pair_rel x ch b t"
    using chan.sim_step [OF assms(1-4)] by blast
  obtain ps where ps: "ch_sent b = ch_sent a @ ps" using channel_steps_sent [OF b(1)] by blast
  have "length (ch_sent b) = length (ch_sent a)" using pair_rel_length [OF b(2)] pair_rel_length [OF assms(3)] assms(5) by simp
  with ps have "ch_sent b = ch_sent a" by simp
  with b(2) reachable_steps [OF b(1) assms(2)] show ?thesis by blast
qed

lemma link_receive_ok:
  assumes "read_header bs = Inr (pi, comp_byte ReliableSend, bs1)" and "ch = unat (m_ChannelAndFlags pi AND MM_CHANNEL_MASK)"
    and "receive bs1 pi (receiver ch m) = Some (Inr (j, r))"
  shows "\<exists>job m'. link_receive bs m = Some (Inr (job, m')) \<and> receiver ch m' = r"
  using assms by (auto simp: link_receive_def Let_def receiver_def case_prod_unfold getOrAdd_at comp_at_on_comp comp_at_put)

lemma link_ok_ready:
  assumes "link_ok m"
  shows "ready m"
proof -
  have ls: "as_stats (comp_at LinkStats 0 m) = LinkStats_init" using assms by (simp add: link_ok_def)
  have "sendable p" if c: "cc_get ReliableSend i m = Some c" and p: "p \<in> snd ` set (m_SendQueue (as_send c))" for i c p
  proof -
    obtain k where "(k, p) \<in> set (m_SendQueue (sender i m))" using c p by (auto simp: sender_def comp_at_def)
    then have "queued_ok i p" using assms by (auto simp: link_ok_def)
    then show ?thesis by (auto simp: queued_ok_def sendable_def packet_bytes_def MM_MAX_SENDSIZE_def MM_MAX_RECVSIZE_def)
  qed
  then show ?thesis using LinkStats_values by (auto simp: ready_def mtu_ok_def ls)
qed

lemma pair_transmit:
  assumes "link_ok m" and "time = m_LastResendTS (as_send (comp_at ReliableSend ch m)) + 43"
  shows "\<exists>ds m'. link_dispatch time m = Inr (ds, m') \<and> (\<lambda>(k, b). data_image k b) ` set (m_SendQueue (sender ch m)) \<subseteq> set ds"
proof -
  have ls: "as_stats (comp_at LinkStats 0 m) = LinkStats_init" using assms by (simp add: link_ok_def)
  obtain ds m' where d: "link_dispatch time m = Inr (ds, m')" "dispatched time m ds m'"
    using link_dispatch_ok [OF link_ok_ready [OF assms(1)]] by blast
  show ?thesis
  proof (cases "cc_get ReliableSend ch m")
    case None
    then have "m_SendQueue (sender ch m) = []" by (simp add: sender_def comp_at_def fresh_def ReliableSend_init_def)
    with d(1) show ?thesis by auto
  next
    case (Some c)
    then have n: "ch < cc_count ReliableSend m" using cc_get_beyond [of ReliableSend m ch] by (cases "cc_count ReliableSend m \<le> ch") auto
    have "send_due 42 time (as_send c)" using assms(2) Some by (simp add: send_due_def comp_at_def)
    then have "set (queue_images (as_send c)) = set (due_images 42 time (cc_get ReliableSend ch m))" using Some by (simp add: due_images_def)
    also have "\<dots> \<subseteq> set ds" using d(2) n ls LinkStats_values(1) by (auto simp: dispatched_def intro!: bexI [of _ ch])
    finally have "(\<lambda>(k, b). data_image k b) ` set (m_SendQueue (sender ch m)) \<subseteq> set ds"
      using Some by (simp add: queue_images_def sender_def comp_at_def)
    with d(1) show ?thesis by blast
  qed
qed

abbreviation chan_reach :: "(cstring \<Rightarrow> 'f option) \<Rightarrow> nat \<Rightarrow> 'f channel \<Rightarrow> bool" where
  "chan_reach rpcs ch \<equiv> reachable (\<lambda>a. a = channel_init) (channel_step rpcs LinkStats_init ch)"

lemma chan_inv:
  assumes "chan_reach rpcs ch a" and "length (ch_sent a) \<le> 2 ^ 30"
  shows "channel_inv rpcs a" and "keep_inv ch a" and "length (ch_sent a) \<le> seq_bound"
proof -
  show b: "length (ch_sent a) \<le> seq_bound" using assms(2) by (simp add: seq_bound_def)
  show "channel_inv rpcs a" using channel_inv_reach [OF reachable_channel [OF assms(1)] b] .
  show "keep_inv ch a" using keep_inv_reach [OF reachable_channel [OF assms(1)] demo_mtu assms(2)] .
qed

lemma pair_receive_one:
  assumes "pair_reach rpcs s" and "chan_reach rpcs ch a" and "pair_rel x ch a s" and "length (ch_sent a) \<le> 2 ^ 30"
    and "i < length (ch_sent a)" and "rev (le32 (of_nat i)) @ packet_bytes (ch_sent a ! i) \<in> ch_net a"
  shows "\<exists>t b. pair_step rpcs s t \<and> chan_reach rpcs ch b \<and> pair_rel x ch b t \<and> ch_sent b = ch_sent a \<and>
    lp_calls t = lp_calls s \<and> lp_out t = lp_out s \<and> arrived b i \<and> (\<forall>j. arrived a j \<longrightarrow> arrived b j)"
proof -
  let ?d = "rev (le32 (of_nat i)) @ packet_bytes (ch_sent a ! i)" and ?m = "lp_comps s (\<not> x)"
  note inv = chan_inv [OF assms(2,4)]
  obtain pi bs job r where r: "read_header (recv_view ?d) = Inr (pi, comp_byte ReliableSend, bs)"
    "receive bs pi (ch_recv a) = Some (Inr (job, r))"
    "arrived (a\<lparr>ch_acks := ch_acks a, ch_recv := r\<rparr>) i" "\<forall>j. arrived a j \<longrightarrow> arrived (a\<lparr>ch_acks := ch_acks a, ch_recv := r\<rparr>) j"
    using data_arrives [OF inv(1,3) assms(5) refl, of "ch_acks a"] assms(4) by blast
  have d: "?d \<in> lp_out s x" "header_of ?d = Some (comp_byte ReliableSend, ch)" and m: "ch_recv a = receiver ch ?m"
    using assms(3,6) by (auto simp: pair_rel_def)
  have ch: "ch = unat (m_ChannelAndFlags pi AND MM_CHANNEL_MASK)" using d(2) r(1) by (simp add: header_of_def)
  obtain job' m' where m': "link_receive (recv_view ?d) ?m = Some (Inr (job', m'))" "receiver ch m' = r"
    using link_receive_ok [OF r(1) ch, of ?m job r] r(2) m by auto
  let ?t = "s\<lparr>lp_comps := (lp_comps s)((\<not> x) := m')\<rparr>"
  have st: "pair_step rpcs s ?t" using d(1) m'(1) by (intro pair_step.receive [where x = "\<not> x"]) auto
  obtain b where b: "chan_reach rpcs ch b" "pair_rel x ch b ?t" "ch_sent b = ch_sent a"
    using pair_follow [OF assms(1-3) st] by auto
  have "ch_recv b = r" using b(2) m'(2) by (simp add: pair_rel_def)
  then have "arrived b j \<longleftrightarrow> arrived (a\<lparr>ch_acks := ch_acks a, ch_recv := r\<rparr>) j" for j by (simp add: arrived_def)
  with st b r(3,4) show ?thesis by (intro exI [of _ ?t] exI [of _ b]) simp
qed

lemma pair_receive_list:
  assumes "pair_reach rpcs s" and "chan_reach rpcs ch a" and "pair_rel x ch a s" and "length (ch_sent a) \<le> 2 ^ 30"
    and "set is \<subseteq> {..< length (ch_sent a)}" and "\<forall>i \<in> set is. rev (le32 (of_nat i)) @ packet_bytes (ch_sent a ! i) \<in> ch_net a"
  shows "\<exists>t b. (pair_step rpcs)\<^sup>*\<^sup>* s t \<and> chan_reach rpcs ch b \<and> pair_rel x ch b t \<and> ch_sent b = ch_sent a \<and>
    lp_calls t = lp_calls s \<and> (\<forall>i \<in> set is. arrived b i) \<and> (\<forall>j. arrived a j \<longrightarrow> arrived b j)"
  using assms
proof (induction "is" arbitrary: s a)
  case Nil
  then show ?case by auto
next
  case (Cons i js)
  have i: "i < length (ch_sent a)" "rev (le32 (of_nat i)) @ packet_bytes (ch_sent a ! i) \<in> ch_net a" using Cons.prems(5,6) by auto
  obtain t b where t: "pair_step rpcs s t" "chan_reach rpcs ch b" "pair_rel x ch b t" "ch_sent b = ch_sent a"
    "lp_calls t = lp_calls s" "lp_out t = lp_out s" "arrived b i" "\<forall>j. arrived a j \<longrightarrow> arrived b j"
    using pair_receive_one [OF Cons.prems(1-4) i] by blast
  have net: "ch_net b = ch_net a" using t(3,6) Cons.prems(3) by (simp add: pair_rel_def)
  have r: "pair_reach rpcs t" by (rule reachable.more [OF Cons.prems(1) t(1)])
  obtain u c where u: "(pair_step rpcs)\<^sup>*\<^sup>* t u" "chan_reach rpcs ch c" "pair_rel x ch c u" "ch_sent c = ch_sent b" "lp_calls u = lp_calls t"
    "\<forall>i \<in> set js. arrived c i" "\<forall>j. arrived b j \<longrightarrow> arrived c j"
    using Cons.IH [OF r t(2,3)] Cons.prems(4-6) t(4) net by auto
  have "(pair_step rpcs)\<^sup>*\<^sup>* s u" using t(1) u(1) by (rule converse_rtranclp_into_rtranclp)
  then show ?case using u t by (intro exI [of _ u] exI [of _ c]) auto
qed

lemma pair_send_missing:
  assumes "pair_reach rpcs s" and "length (lp_calls s x ch) \<le> 2 ^ 30"
  shows "\<exists>t a. pair_step rpcs s t \<and> chan_reach rpcs ch a \<and> pair_rel x ch a t \<and> lp_calls t = lp_calls s \<and>
    (\<forall>i < length (ch_sent a). \<not> arrived a i \<longrightarrow> rev (le32 (of_nat i)) @ packet_bytes (ch_sent a ! i) \<in> ch_net a)"
proof -
  let ?m = "lp_comps s x" and ?img = "\<lambda>(k, b). data_image k b"
  obtain a where a: "chan_reach rpcs ch a" "pair_rel x ch a s" using pair_channel [OF assms(1)] by blast
  have ok: "link_ok ?m" using pair.invariant [OF assms(1)] by (simp add: pair_inv_def)
  obtain ds m' where d: "link_dispatch (m_LastResendTS (as_send (comp_at ReliableSend ch ?m)) + 43) ?m = Inr (ds, m')"
    "?img ` set (m_SendQueue (sender ch ?m)) \<subseteq> set ds"
    using pair_transmit [OF ok refl] by blast
  let ?t = "s\<lparr>lp_comps := (lp_comps s)(x := m'), lp_out := (lp_out s)(x := lp_out s x \<union> set ds)\<rparr>"
  have st: "pair_step rpcs s ?t" using d(1) by (rule pair_step.dispatch)
  obtain b where b: "chan_reach rpcs ch b" "pair_rel x ch b ?t" "ch_sent b = ch_sent a"
    using pair_follow [OF assms(1) a st] by auto
  have len: "length (ch_sent b) \<le> 2 ^ 30" using pair_rel_length [OF b(2)] assms(2) by simp
  note inv = chan_inv [OF b(1) len]
  have sd: "ch_send b = sender ch ?m" using b(2) link_dispatch_split [OF d(1)] by (auto simp: pair_rel_def)
  have si: "send_inv (ch_sent b) (ch_send b)" using inv(1) by (simp add: channel_inv_def)
  have hd: "header_of e = Some (comp_byte ReliableSend, ch)" if "e \<in> ?img ` set (m_SendQueue (sender ch ?m))" for e
    using resend_headers [OF ok, of ch "map ?img (m_SendQueue (sender ch ?m))" e] that
      send_inv_resend [OF si] inv(1) sd by (auto simp: channel_inv_def)
  have "rev (le32 (of_nat i)) @ packet_bytes (ch_sent b ! i) \<in> ch_net b" if i: "i < length (ch_sent b)" "\<not> arrived b i" for i
  proof -
    have "sm_find (m_SendQueue (ch_send b)) (of_nat i) \<noteq> None" using inv(2) i by (auto simp: keep_inv_def)
    then have "rev (le32 (of_nat i)) @ packet_bytes (ch_sent b ! i) \<in> ?img ` set (m_SendQueue (sender ch ?m))"
      using transmit_net [OF si _ i(1) inv(3)] sd by simp
    then show ?thesis using hd b(2) d(2) by (auto simp: pair_rel_def)
  qed
  with st b show ?thesis by (intro exI [of _ ?t] exI [of _ b]) simp
qed

lemma pair_proceed_all:
  assumes "chan_reach rpcs ch a" and "pair_rel x ch a s" and "length (ch_sent a) \<le> 2 ^ 30" and "ch < MM_NUM_CHANNELS"
    and "\<forall>i < length (ch_sent a). arrived a i"
  shows "\<exists>t. pair_step rpcs s t \<and> lp_calls t = lp_calls s \<and>
    map performed (lp_events t (\<not> x) ch) = concat (map (performed_call rpcs ch) (lp_calls s x ch))"
proof -
  obtain es r where es: "proceedRecvQueue rpcs (ch_recv a) = Inr (es, r)" "handle_all rpcs (ch_sent a) = Inr (ch_events a @ es)"
    using proceed_all [of rpcs a] chan_inv [OF assms(1,3)] assms(5) by auto
  have rb: "ch_recv a = receiver ch (lp_comps s (\<not> x))" "ch_events a = lp_events s (\<not> x) ch"
    "list_all2 (call_packet_of ch) (lp_calls s x ch) (ch_sent a)" using assms(2) by (simp_all add: pair_rel_def)
  obtain m2 where m2: "link_proceed rpcs ch (lp_comps s (\<not> x)) = Inr (es, m2)"
    using es(1) rb(1) by (simp add: link_proceed_def case_prod_unfold getOrAdd_at receiver_def)
  let ?u = "s\<lparr>lp_comps := (lp_comps s)((\<not> x) := m2), lp_events := (lp_events s)((\<not> x) := (lp_events s (\<not> x))(ch := lp_events s (\<not> x) ch @ es))\<rparr>"
  have "pair_step rpcs s ?u" using assms(4) m2 by (rule pair_step.proceed)
  moreover have "map performed (lp_events ?u (\<not> x) ch) = concat (map (performed_call rpcs ch) (lp_calls s x ch))"
    using handle_calls [OF rb(3) assms(4) es(2)] rb(2) by simp
  ultimately show ?thesis by (intro exI [of _ ?u]) simp
qed

lemma pair_deliver:
  assumes "pair_reach rpcs s" and "length (lp_calls s x ch) \<le> 2 ^ 30" and "ch < MM_NUM_CHANNELS"
  shows "\<exists>t. (pair_step rpcs)\<^sup>*\<^sup>* s t \<and> lp_calls t = lp_calls s \<and>
    map performed (lp_events t (\<not> x) ch) = concat (map (performed_call rpcs ch) (lp_calls s x ch))"
proof -
  obtain s1 a where a: "pair_step rpcs s s1" "chan_reach rpcs ch a" "pair_rel x ch a s1" "lp_calls s1 = lp_calls s"
    "\<forall>i < length (ch_sent a). \<not> arrived a i \<longrightarrow> rev (le32 (of_nat i)) @ packet_bytes (ch_sent a ! i) \<in> ch_net a"
    using pair_send_missing [OF assms(1,2)] by blast
  have r1: "pair_reach rpcs s1" by (rule reachable.more [OF assms(1) a(1)])
  have len: "length (ch_sent a) \<le> 2 ^ 30" using pair_rel_length [OF a(3)] a(4) assms(2) by simp
  let ?is = "filter (\<lambda>i. \<not> arrived a i) [0 ..< length (ch_sent a)]"
  obtain t b where t: "(pair_step rpcs)\<^sup>*\<^sup>* s1 t" "chan_reach rpcs ch b" "pair_rel x ch b t" "ch_sent b = ch_sent a" "lp_calls t = lp_calls s1"
    "\<forall>i \<in> set ?is. arrived b i" "\<forall>j. arrived a j \<longrightarrow> arrived b j"
    using pair_receive_list [OF r1 a(2,3) len, of ?is] a(5) by auto
  have "arrived b i" if "i < length (ch_sent b)" for i using that t(4,6,7) by (cases "arrived a i") auto
  then obtain u where u: "pair_step rpcs t u" "lp_calls u = lp_calls t"
    "map performed (lp_events u (\<not> x) ch) = concat (map (performed_call rpcs ch) (lp_calls t x ch))"
    using pair_proceed_all [OF t(2,3) _ assms(3)] len t(4) by auto
  have "(pair_step rpcs)\<^sup>*\<^sup>* s u" using converse_rtranclp_into_rtranclp [OF a(1) t(1)] u(1) by (rule rtranclp.rtrancl_into_rtrancl)
  then show ?thesis using u(2,3) t(5) a(4) by auto
qed

text \<open>What arrived at any moment.\<close>

lemma pair_prefix:
  assumes "pair_reach rpcs s" and "ch < MM_NUM_CHANNELS" and "length (lp_calls s x ch) \<le> seq_bound"
  shows "\<exists>k \<le> length (lp_calls s x ch).
    map performed (lp_events s (\<not> x) ch) = concat (map (performed_call rpcs ch) (take k (lp_calls s x ch)))"
proof -
  obtain a where a: "chan_reach rpcs ch a" "pair_rel x ch a s" using pair_channel [OF assms(1)] by blast
  have b: "length (ch_sent a) \<le> seq_bound" using pair_rel_length [OF a(2)] assms(3) by simp
  let ?k = "unat (m_RecvSequence (ch_recv a))"
  have inv: "channel_inv rpcs a" by (rule channel_inv_reach [OF reachable_channel [OF a(1)] b])
  have "?k \<le> length (ch_sent a)" using channel_inv_recv(1) [OF inv b] by (simp add: recv_inv_def)
  moreover have "list_all2 (call_packet_of ch) (take ?k (lp_calls s x ch)) (take ?k (ch_sent a))"
    using a(2) by (auto simp: pair_rel_def intro: list_all2_takeI)
  then have "map performed (ch_events a) = concat (map (performed_call rpcs ch) (take ?k (lp_calls s x ch)))"
    using handle_calls [OF _ assms(2) channel_inv_recv(2) [OF inv b]] by blast
  ultimately show ?thesis using a(2) pair_rel_length [OF a(2)] by (intro exI [of _ ?k]) (simp add: pair_rel_def)
qed

text \<open>A pair of links after one remote call on channel 2.\<close>

lemma demo_pair:
  "\<exists>s. pair_reach demo_rpcs s \<and> lp_calls s True 2 = [([97], [17, 24, 0, 97, 0])]"
proof -
  have c: "content demo_bs = [17, 24, 0, 97, 0]" by (simp add: demo_bs_def content_def)
  have nm: "string_ok [97]" by (simp add: string_ok_def TempBuffSize_def)
  have l: "length [97 :: byte] + 1 + length (content demo_bs) \<le> 1894" by (simp add: c)
  obtain b where b: "rpc_packets [97] demo_bs False True (of_nat 2) = Inr [b]"
    using rpc_packets_ok [OF nm demo_bs_ok(1) l refl refl] by blast
  let ?i = "link_pair_init :: unit link_pair"
  let ?s = "?i\<lparr>lp_comps := (lp_comps ?i)(True := link_enqueue 2 [b] (lp_comps ?i True)),
    lp_calls := (lp_calls ?i)(True := (lp_calls ?i True)(2 := lp_calls ?i True 2 @ [([97], content demo_bs)]))\<rparr>"
  have "pair_step demo_rpcs ?i ?s"
    by (rule pair_step.call [OF nm demo_bs_ok(1) l _ b]) (simp add: MM_NUM_CHANNELS_def)
  then have "pair_reach demo_rpcs ?s" by (rule reachable.more [OF reachable_self])
  moreover have "lp_calls ?s True 2 = [([97], [17, 24, 0, 97, 0])]" by (simp add: c link_pair_init_def)
  ultimately show ?thesis by blast
qed

lemma demo_performed: "performed_call demo_rpcs 2 ([97], bs) = [Some ((), bs, 2)]"
  by (simp add: performed_call_def demo_rpcs_def)

section \<open>Properties\<close>

text \<open>C1: Remote calls arrive in order, once and unchanged. Two links exchange remote calls on all channels in
  both directions; the network may lose, repeat, delay and reorder their datagrams. At every moment the
  functions that one side has called on a channel, with their argument bytes, are those of a prefix of the calls
  that the other side made on this channel, in the same order. Calls of unknown functions are dropped.\<close>

theorem rpcs_arrive_in_order:
  assumes "pair_reach rpcs s" and "ch < MM_NUM_CHANNELS" and "length (lp_calls s x ch) \<le> seq_bound"
  shows "\<exists>k \<le> length (lp_calls s x ch).
    map performed (lp_events s (\<not> x) ch) = concat (map (performed_call rpcs ch) (take k (lp_calls s x ch)))"
  using pair_prefix [OF assms] .

theorem rpcs_arrive_in_order_witness:
  "\<exists>s. pair_reach demo_rpcs s \<and> lp_events s False 2 \<noteq> [] \<and>
     (\<exists>k \<le> length (lp_calls s True 2).
        map performed (lp_events s (\<not> True) 2) = concat (map (performed_call demo_rpcs 2) (take k (lp_calls s True 2))))"
proof -
  obtain s where s: "pair_reach demo_rpcs s" "lp_calls s True 2 = [([97], [17, 24, 0, 97, 0])]" using demo_pair by blast
  have ch: "2 < MM_NUM_CHANNELS" by (simp add: MM_NUM_CHANNELS_def)
  obtain t where t: "(pair_step demo_rpcs)\<^sup>*\<^sup>* s t" "lp_calls t = lp_calls s"
    "map performed (lp_events t (\<not> True) 2) = concat (map (performed_call demo_rpcs 2) (lp_calls s True 2))"
    using pair_deliver [OF s(1) _ ch, of True] s(2) by auto
  have r: "pair_reach demo_rpcs t" by (rule reachable_steps [OF t(1) s(1)])
  have b: "length (lp_calls t True 2) \<le> seq_bound" using s(2) t(2) by (simp add: seq_bound_def)
  have "lp_events t False 2 \<noteq> []" using t(3) s(2) by (auto simp: demo_performed)
  with r rpcs_arrive_in_order [OF r ch b] show ?thesis by blast
qed

text \<open>C2: Every remote call can still arrive. From every reachable state of two links, whatever was lost before, there
  are steps of the two sides after which all calls made on a channel so far have been performed at the other
  side, in order.\<close>

theorem rpcs_can_arrive:
  assumes "pair_reach rpcs s" and "ch < MM_NUM_CHANNELS" and "length (lp_calls s x ch) \<le> 2 ^ 30"
  shows "\<exists>t. (pair_step rpcs)\<^sup>*\<^sup>* s t \<and> lp_calls t = lp_calls s \<and>
    map performed (lp_events t (\<not> x) ch) = concat (map (performed_call rpcs ch) (lp_calls s x ch))"
  using pair_deliver [OF assms(1,3,2)] .

theorem rpcs_can_arrive_witness:
  "\<exists>s t. pair_reach demo_rpcs s \<and> (pair_step demo_rpcs)\<^sup>*\<^sup>* s t \<and>
     map performed (lp_events t False 2) = [Some ((), [17, 24, 0, 97, 0], 2)]"
proof -
  obtain s where s: "pair_reach demo_rpcs s" "lp_calls s True 2 = [([97], [17, 24, 0, 97, 0])]" using demo_pair by blast
  have ch: "2 < MM_NUM_CHANNELS" by (simp add: MM_NUM_CHANNELS_def)
  have b: "length (lp_calls s True 2) \<le> 2 ^ 30" using s(2) by simp
  obtain t where t: "(pair_step demo_rpcs)\<^sup>*\<^sup>* s t"
    "map performed (lp_events t (\<not> True) 2) = concat (map (performed_call demo_rpcs 2) (lp_calls s True 2))"
    using rpcs_can_arrive [OF s(1) ch b] by blast
  then have "map performed (lp_events t False 2) = [Some ((), [17, 24, 0, 97, 0], 2)]" using s(2) by (simp add: demo_performed)
  with s(1) t(1) show ?thesis by (intro exI [of _ s] exI [of _ t]) simp
qed

end
