(* ===== verification/Spin_Lock.thy ===== *)
theory Spin_Lock
  imports Mm_Prelude Transition
begin

text \<open>
  The spin lock of \<open>Threading.h\<close> and the programs of \<open>UnitTest/MyTests.h\<close> that use it: \<open>SpinLockTest\<close> and
  \<open>SpinLockVsNormalLock\<close>. The threads are interleaved at the level of single reads and writes of shared memory,
  so an increment without the lock could lose another one. Every thread is a program counter with its loop
  counter and its register. \<open>test_and_set\<close> and \<open>clear\<close> of \<open>atomic_flag\<close> and the addition of \<open>atomic<u32>\<close> are
  single steps; a thread that finds a \<open>mutex\<close> taken stays where it is.
\<close>

section \<open>The lock\<close>

definition test_and_set :: "bool \<Rightarrow> bool \<times> bool" where
  "test_and_set locked = (locked, True)"

text \<open>One round of the loop of \<open>lock\<close>: whether the lock was obtained, and the flag.\<close>

definition spin_lock :: "bool \<Rightarrow> bool \<times> bool" where
  "spin_lock locked = (case test_and_set locked of (old, new) \<Rightarrow> (\<not> old, new))"

definition spin_unlock :: "bool \<Rightarrow> bool" where
  "spin_unlock locked = False"

text \<open>\<open>std::mutex\<close>: the thread is blocked while the mutex is taken.\<close>

definition mutex_lock :: "bool \<Rightarrow> bool \<times> bool" where
  "mutex_lock locked = (if locked then (False, locked) else (True, True))"

definition mutex_unlock :: "bool \<Rightarrow> bool" where
  "mutex_unlock locked = False"

section \<open>The threads\<close>

datatype adder = SpinAdd | MutexAdd | AtomicAdd

datatype pc = LoopTest | Acquire | Load | Store | Release | Add | Finished

record thread =
  t_pc :: pc
  t_j :: u32
  t_reg :: u32

record adders =
  ad_locked :: bool
  ad_num :: u32
  ad_threads :: "thread list"

definition thread_start :: thread where
  "thread_start = \<lparr>t_pc = LoopTest, t_j = 0, t_reg = 0\<rparr>"

definition adders_start :: "bool \<Rightarrow> nat \<Rightarrow> adders" where
  "adders_start locked kThread = \<lparr>ad_locked = locked, ad_num = 0, ad_threads = replicate kThread thread_start\<rparr>"

definition acquire :: "adder \<Rightarrow> bool \<Rightarrow> bool \<times> bool" where
  "acquire kind = (if kind = SpinAdd then spin_lock else mutex_lock)"

definition release_lock :: "adder \<Rightarrow> bool \<Rightarrow> bool" where
  "release_lock kind = (if kind = SpinAdd then spin_unlock else mutex_unlock)"

text \<open>A step of one thread: the shared flag and number, and the thread afterwards.\<close>

definition thread_step :: "adder \<Rightarrow> u32 \<Rightarrow> bool \<Rightarrow> u32 \<Rightarrow> thread \<Rightarrow> bool \<times> u32 \<times> thread" where
  "thread_step kind mp locked num t =
     (case t_pc t of
        LoopTest \<Rightarrow>
          (locked, num, t\<lparr>t_pc := if t_j t < mp then (if kind = AtomicAdd then Add else Acquire) else Finished\<rparr>)
      | Acquire \<Rightarrow>
          (case acquire kind locked of (got, locked') \<Rightarrow> (locked', num, if got then t\<lparr>t_pc := Load\<rparr> else t))
      | Load \<Rightarrow> (locked, num, t\<lparr>t_pc := Store, t_reg := num\<rparr>)
      | Store \<Rightarrow> (locked, t_reg t + 1, t\<lparr>t_pc := Release\<rparr>)
      | Release \<Rightarrow> (release_lock kind locked, num, t\<lparr>t_pc := LoopTest, t_j := t_j t + 1\<rparr>)
      | Add \<Rightarrow> (locked, num + 1, t\<lparr>t_pc := LoopTest, t_j := t_j t + 1\<rparr>)
      | Finished \<Rightarrow> (locked, num, t))"

definition run_thread :: "adder \<Rightarrow> u32 \<Rightarrow> nat \<Rightarrow> adders \<Rightarrow> adders" where
  "run_thread kind mp i s =
     (case thread_step kind mp (ad_locked s) (ad_num s) (ad_threads s ! i) of
        (locked, num, t) \<Rightarrow> \<lparr>ad_locked = locked, ad_num = num, ad_threads = (ad_threads s)[i := t]\<rparr>)"

inductive adders_step :: "adder \<Rightarrow> u32 \<Rightarrow> adders \<Rightarrow> adders \<Rightarrow> bool" for kind mp where
  run: "i < length (ad_threads s) \<Longrightarrow> adders_step kind mp s (run_thread kind mp i s)"

abbreviation adders_reach :: "adder \<Rightarrow> u32 \<Rightarrow> nat \<Rightarrow> adders \<Rightarrow> bool" where
  "adders_reach kind mp n \<equiv> reachable (\<lambda>s. s = adders_start False n) (adders_step kind mp)"

definition all_finished :: "adders \<Rightarrow> bool" where
  "all_finished s \<longleftrightarrow> (\<forall>t \<in> set (ad_threads s). t_pc t = Finished)"

lemma length_run_thread [simp]: "length (ad_threads (run_thread kind mp i s)) = length (ad_threads s)"
  by (simp add: run_thread_def split: prod.split)

section \<open>Invariant\<close>

definition in_cs :: "thread \<Rightarrow> bool" where
  "in_cs t \<longleftrightarrow> t_pc t \<in> {Load, Store, Release}"

text \<open>The increments that a thread has made.\<close>

definition incs :: "thread \<Rightarrow> nat" where
  "incs t = unat (t_j t) + (if t_pc t = Release then 1 else 0)"

definition thread_ok :: "adder \<Rightarrow> u32 \<Rightarrow> thread \<Rightarrow> bool" where
  "thread_ok kind mp t \<longleftrightarrow>
     (case t_pc t of
        LoopTest \<Rightarrow> t_j t \<le> mp
      | Finished \<Rightarrow> t_j t = mp
      | Add \<Rightarrow> t_j t < mp \<and> kind = AtomicAdd
      | _ \<Rightarrow> t_j t < mp \<and> kind \<noteq> AtomicAdd)"

definition adders_inv :: "adder \<Rightarrow> u32 \<Rightarrow> nat \<Rightarrow> adders \<Rightarrow> bool" where
  "adders_inv kind mp n s \<longleftrightarrow> length (ad_threads s) = n \<and> (\<forall>t \<in> set (ad_threads s). thread_ok kind mp t) \<and>
     sum_list (map (\<lambda>t. of_bool (in_cs t)) (ad_threads s)) = (of_bool (ad_locked s) :: nat) \<and>
     (\<forall>t \<in> set (ad_threads s). t_pc t = Store \<longrightarrow> t_reg t = ad_num s) \<and>
     ad_num s = of_nat (sum_list (map incs (ad_threads s)))"

lemma sum_list_map_update:
  fixes f :: "'a \<Rightarrow> nat"
  shows "i < length xs \<Longrightarrow> sum_list (map f (xs[i := x])) + f (xs ! i) = sum_list (map f xs) + f x"
  by (induction xs arbitrary: i) (auto split: nat.split)

lemma sum_list_two:
  fixes f :: "'a \<Rightarrow> nat"
  assumes "i < length xs" and "k < length xs" and "i \<noteq> k"
  shows "f (xs ! i) + f (xs ! k) \<le> sum_list (map f xs)"
proof -
  have "(\<Sum>j \<in> {i, k}. f (xs ! j)) \<le> (\<Sum>j = 0 ..< length xs. f (xs ! j))"
    by (rule sum_mono2) (use assms in auto)
  then show ?thesis using assms by (simp add: sum_list_sum_nth)
qed

lemma unat_suc:
  fixes a b :: u32
  assumes "a < b"
  shows "unat (a + 1) = unat a + 1"
proof -
  have "1 + a \<noteq> 0"
  proof
    assume "1 + a = 0"
    then have "a = - 1" by (simp add: add.commute eq_neg_iff_add_eq_0)
    then show False using assms word_order.extremum [of b] by simp
  qed
  then show ?thesis using unatSuc [of a] by (simp add: add.commute)
qed

lemmas thread_simps = thread_step_def acquire_def release_lock_def spin_lock_def test_and_set_def spin_unlock_def mutex_lock_def
  mutex_unlock_def in_cs_def incs_def thread_ok_def

text \<open>A step of one thread keeps the invariant of the thread; the flag changes with its membership in the
  critical section and the number with its increments.\<close>

lemma thread_step_ok:
  assumes "thread_step kind mp locked num t = (locked', num', t')" and "thread_ok kind mp t" and "in_cs t \<longrightarrow> locked"
    and "t_pc t = Store \<longrightarrow> t_reg t = num"
  shows "thread_ok kind mp t'"
    and "(of_bool (in_cs t') :: nat) + of_bool locked = of_bool (in_cs t) + of_bool locked'"
    and "num' + of_nat (incs t) = num + of_nat (incs t')"
    and "t_pc t' = Store \<longrightarrow> t_reg t' = num'"
    and "num' = num \<or> in_cs t \<or> kind = AtomicAdd"
  using assms
  by (cases "t_pc t"; auto simp: thread_simps unat_suc inc_le dest: leD split: if_splits; fail)+

lemma cs_locked:
  assumes "adders_inv kind mp n s" and "i < n" and "in_cs (ad_threads s ! i)"
  shows "ad_locked s"
proof -
  have "(of_bool (in_cs (ad_threads s ! i)) :: nat) \<le> sum_list (map (\<lambda>t. of_bool (in_cs t)) (ad_threads s))"
    by (rule member_le_sum_list) (use assms in \<open>auto simp: adders_inv_def intro!: imageI\<close>)
  then show ?thesis using assms by (cases "ad_locked s") (auto simp: adders_inv_def)
qed

lemma cs_exclusive:
  assumes "adders_inv kind mp n s" and "i < n" and "k < n" and "in_cs (ad_threads s ! i)" and "in_cs (ad_threads s ! k)"
  shows "i = k"
proof (rule ccontr)
  assume "i \<noteq> k"
  then have "of_bool (in_cs (ad_threads s ! i)) + of_bool (in_cs (ad_threads s ! k)) \<le> (of_bool (ad_locked s) :: nat)"
    using sum_list_two [of i "ad_threads s" k "\<lambda>t. of_bool (in_cs t)"] assms(1-3) by (simp add: adders_inv_def)
  then show False using assms(4,5) by (cases "ad_locked s") simp_all
qed

lemma adders_inv_run:
  assumes "adders_inv kind mp n s" and "i < n"
  shows "adders_inv kind mp n (run_thread kind mp i s)"
proof -
  let ?ts = "ad_threads s" and ?cs = "\<lambda>t. of_bool (in_cs t) :: nat"
  have len: "length ?ts = n" and ok: "\<And>t. t \<in> set ?ts \<Longrightarrow> thread_ok kind mp t"
    and st: "\<And>t. t \<in> set ?ts \<Longrightarrow> t_pc t = Store \<Longrightarrow> t_reg t = ad_num s"
    and sums: "sum_list (map ?cs ?ts) = of_bool (ad_locked s)" "ad_num s = of_nat (sum_list (map incs ?ts))"
    using assms(1) by (auto simp: adders_inv_def)
  have i: "?ts ! i \<in> set ?ts" using assms(2) len by simp
  obtain l x t where step: "thread_step kind mp (ad_locked s) (ad_num s) (?ts ! i) = (l, x, t)" by (metis prod_cases3)
  note t = thread_step_ok [OF step ok [OF i]]
  have pre: "in_cs (?ts ! i) \<longrightarrow> ad_locked s" "t_pc (?ts ! i) = Store \<longrightarrow> t_reg (?ts ! i) = ad_num s"
    using cs_locked [OF assms] st [OF i] by blast+
  have "sum_list (map ?cs (?ts[i := t])) = of_bool l"
    using sum_list_map_update [of i ?ts ?cs t] t(2) [OF pre] assms(2) len sums(1) by simp
  moreover have "x = of_nat (sum_list (map incs (?ts[i := t])))"
  proof -
    have "of_nat (sum_list (map incs (?ts[i := t]))) + of_nat (incs (?ts ! i)) = (of_nat (sum_list (map incs ?ts)) + of_nat (incs t) :: u32)"
      using sum_list_map_update [of i ?ts incs t] assms(2) len by (metis of_nat_add)
    then show ?thesis using t(3) [OF pre] sums(2) by (metis add_right_cancel)
  qed
  moreover have "t_reg u = x" if u: "u \<in> set (?ts[i := t])" "t_pc u = Store" for u
  proof -
    obtain k where k: "k < n" "u = (?ts[i := t]) ! k" using u(1) len by (auto simp: in_set_conv_nth)
    show ?thesis
    proof (cases "k = i")
      case True
      then show ?thesis using k u(2) t(4) [OF pre] assms(2) len by simp
    next
      case False
      then have "u = ?ts ! k" using k by simp
      moreover from this have "thread_ok kind mp u" "t_reg u = ad_num s" using ok st u(2) k(1) len by auto
      moreover from calculation(1) have "\<not> in_cs (?ts ! i)" using cs_exclusive [OF assms(1,2) k(1)] False u(2) by (auto simp: in_cs_def)
      ultimately show ?thesis using t(5) [OF pre] u(2) by (auto simp: thread_ok_def)
    qed
  qed
  moreover have "\<forall>u \<in> set (?ts[i := t]). thread_ok kind mp u" using ok t(1) [OF pre] set_update_subset_insert [of ?ts i t] by auto
  ultimately show ?thesis using step len by (simp add: run_thread_def adders_inv_def)
qed

interpretation adders: state_machine "\<lambda>s. s = adders_start False n" "adders_step kind mp" "adders_inv kind mp n"
proof
  show "adders_inv kind mp n t" if "adders_step kind mp s t" "adders_inv kind mp n s" for s t
    using that
  proof cases
    case (run i)
    then have "i < n" using that(2) by (simp add: adders_inv_def)
    with run that(2) show ?thesis by (simp add: adders_inv_run)
  qed
next
  show "adders_inv kind mp n s" if "s = adders_start False n" for s
    using that by (auto simp: adders_inv_def adders_start_def thread_start_def in_cs_def incs_def thread_ok_def sum_list_replicate)
qed

section \<open>The threads can finish\<close>

text \<open>The steps a thread still has to take when it is not held up.\<close>

definition todo :: "u32 \<Rightarrow> thread \<Rightarrow> nat" where
  "todo mp t = 5 * (unat mp - unat (t_j t)) +
     (if t_pc t = LoopTest then 1 else 0) -
     (case t_pc t of Load \<Rightarrow> 1 | Store \<Rightarrow> 2 | Release \<Rightarrow> 3 | _ \<Rightarrow> 0)"

lemma thread_step_todo:
  assumes "thread_step kind mp locked num t = (locked', num', t')" and "thread_ok kind mp t" and "t_pc t \<noteq> Finished"
    and "in_cs t \<or> \<not> locked"
  shows "todo mp t' < todo mp t"
proof -
  have le: "t_j t < mp \<Longrightarrow> unat (t_j t) < unat mp" "t_j t \<le> mp \<Longrightarrow> unat (t_j t) \<le> unat mp"
    by (simp_all add: word_less_nat_alt word_le_nat_alt)
  show ?thesis using assms le
    by (cases "t_pc t") (auto simp: thread_simps todo_def unat_suc split: if_splits)
qed

lemma adders_progress:
  assumes "adders_inv kind mp n s" and "\<not> all_finished s"
  shows "\<exists>i < n. sum_list (map (todo mp) (ad_threads (run_thread kind mp i s))) < sum_list (map (todo mp) (ad_threads s))"
proof -
  let ?ts = "ad_threads s"
  have len: "length ?ts = n" and ok: "\<And>t. t \<in> set ?ts \<Longrightarrow> thread_ok kind mp t" using assms(1) by (auto simp: adders_inv_def)
  have "\<exists>i < n. t_pc (?ts ! i) \<noteq> Finished \<and> (in_cs (?ts ! i) \<or> \<not> ad_locked s)"
  proof (cases "ad_locked s")
    case True
    then have "sum_list (map (\<lambda>t. of_bool (in_cs t)) ?ts) = (1 :: nat)" using assms(1) by (simp add: adders_inv_def)
    moreover have "sum_list (map (\<lambda>t. of_bool (in_cs t)) ?ts) = (0 :: nat)" if "\<forall>t \<in> set ?ts. \<not> in_cs t"
      using that by (simp add: sum_list_eq_0_iff)
    ultimately obtain t where "t \<in> set ?ts" "in_cs t" by fastforce
    then show ?thesis using len by (auto simp: in_set_conv_nth in_cs_def)
  next
    case False
    then show ?thesis using assms(2) len by (auto simp: all_finished_def in_set_conv_nth)
  qed
  then obtain i where i: "i < n" "t_pc (?ts ! i) \<noteq> Finished" "in_cs (?ts ! i) \<or> \<not> ad_locked s" by blast
  obtain l x t where step: "thread_step kind mp (ad_locked s) (ad_num s) (?ts ! i) = (l, x, t)" by (metis prod_cases3)
  have "todo mp t < todo mp (?ts ! i)" using thread_step_todo [OF step ok i(2,3)] i(1) len by simp
  then have "sum_list (map (todo mp) (?ts[i := t])) < sum_list (map (todo mp) ?ts)"
    using sum_list_map_update [of i ?ts "todo mp" t] i(1) len by linarith
  then show ?thesis using i(1) step by (auto simp: run_thread_def)
qed

lemma adders_finish:
  assumes "adders_inv kind mp n s"
  shows "\<exists>t. (adders_step kind mp)\<^sup>*\<^sup>* s t \<and> all_finished t"
  using assms
proof (induction "sum_list (map (todo mp) (ad_threads s))" arbitrary: s rule: less_induct)
  case less
  show ?case
  proof (cases "all_finished s")
    case False
    then obtain i where i: "i < n" "sum_list (map (todo mp) (ad_threads (run_thread kind mp i s))) < sum_list (map (todo mp) (ad_threads s))"
      using adders_progress [OF less.prems] by blast
    have "adders_step kind mp s (run_thread kind mp i s)" using i(1) less.prems by (intro adders_step.run) (simp add: adders_inv_def)
    then show ?thesis using less.hyps [OF i(2) adders_inv_run [OF less.prems i(1)]] by (meson converse_rtranclp_into_rtranclp)
  qed auto
qed

lemma finished_num:
  assumes "adders_inv kind mp n s" and "all_finished s"
  shows "ad_num s = of_nat n * mp" and "\<not> ad_locked s"
proof -
  have t: "incs t = unat mp" "\<not> in_cs t" if "t \<in> set (ad_threads s)" for t
    using that assms by (auto simp: adders_inv_def all_finished_def thread_ok_def incs_def in_cs_def)
  have "map incs (ad_threads s) = replicate n (unat mp)"
    using t(1) assms(1) by (auto simp: adders_inv_def intro: replicate_eqI)
  then show "ad_num s = of_nat n * mp" using assms(1) by (simp add: adders_inv_def sum_list_replicate)
  have "map (\<lambda>t. of_bool (in_cs t) :: nat) (ad_threads s) = replicate n 0"
    using t(2) assms(1) by (auto simp: adders_inv_def intro: replicate_eqI)
  then show "\<not> ad_locked s" using assms(1) by (auto simp: adders_inv_def sum_list_replicate)
qed

section \<open>SpinLockVsNormalLock\<close>

text \<open>The phases of the test: for each number of threads the addition with the spin lock, with the mutex and with
  the atomic number. The locks are the same in all phases. The results are the values of the assertions.\<close>

inductive lock_phases :: "u32 \<Rightarrow> (adder \<Rightarrow> bool) \<Rightarrow> (adder \<times> nat) list \<Rightarrow> bool list \<Rightarrow> (adder \<Rightarrow> bool) \<Rightarrow> bool" for mp where
  no_phase: "lock_phases mp locks [] [] locks"
| one_phase: "reachable (\<lambda>s. s = adders_start (locks kind) kThread) (adders_step kind mp) s \<Longrightarrow> all_finished s \<Longrightarrow>
     lock_phases mp (locks(kind := ad_locked s)) phases results locks' \<Longrightarrow>
     lock_phases mp locks ((kind, kThread) # phases) ((ad_num s = of_nat kThread * mp) # results) locks'"

definition SpinLockVsNormalLock_phases :: "(adder \<times> nat) list" where
  "SpinLockVsNormalLock_phases = concat (map (\<lambda>k. [(SpinAdd, k), (MutexAdd, k), (AtomicAdd, k)]) [100, 50, 25, 8, 4])"

lemma lock_phases_pass:
  "lock_phases mp locks phases results locks' \<Longrightarrow> locks = (\<lambda>k. False) \<Longrightarrow> results = replicate (length phases) True \<and> locks' = (\<lambda>k. False)"
proof (induction rule: lock_phases.induct)
  case (one_phase locks kind n s phases results locks')
  have "adders_inv kind mp n s" using adders.invariant [of n kind mp s] one_phase.hyps(1) one_phase.prems by simp
  note f = finished_num [OF this one_phase.hyps(2)]
  then have "locks(kind := ad_locked s) = (\<lambda>k. False)" using one_phase.prems by auto
  then show ?case using one_phase.IH f(1) by simp
qed simp

lemma lock_phases_finish: "\<exists>results locks'. lock_phases mp (\<lambda>k. False) phases results locks'"
proof (induction phases)
  case (Cons p phases)
  obtain kind n where p: "p = (kind, n)" by fastforce
  let ?start = "adders_start False n"
  have r0: "adders_reach kind mp n ?start" by (rule reachable_self)
  obtain s where s: "(adders_step kind mp)\<^sup>*\<^sup>* ?start s" "all_finished s" using adders_finish [OF adders.invariant [OF r0]] by blast
  have r: "adders_reach kind mp n s" by (rule reachable_steps [OF s(1) r0])
  have "(\<lambda>k. False)(kind := ad_locked s) = (\<lambda>k. False)" using finished_num(2) [OF adders.invariant [OF r] s(2)] by auto
  then show ?case using lock_phases.one_phase [of "\<lambda>k. False" kind n mp s phases] r s(2) Cons.IH p by auto
qed (auto intro: lock_phases.no_phase)

text \<open>\<open>SpinLockVsNormalLock\<close> passes: every run of its fifteen phases, each of which can be run to its end, makes all
  assertions true and leaves the locks free.\<close>

lemma lock_comparison_passes:
  "\<exists>results locks'. lock_phases 1000 (\<lambda>k. False) SpinLockVsNormalLock_phases results locks'"
  "lock_phases 1000 (\<lambda>k. False) SpinLockVsNormalLock_phases results locks' \<Longrightarrow> results = replicate 15 True \<and> locks' = (\<lambda>k. False)"
proof -
  have n: "length SpinLockVsNormalLock_phases = 15" by (simp add: SpinLockVsNormalLock_phases_def)
  show "\<exists>results locks'. lock_phases 1000 (\<lambda>k. False) SpinLockVsNormalLock_phases results locks'" by (rule lock_phases_finish)
  show "lock_phases 1000 (\<lambda>k. False) SpinLockVsNormalLock_phases results locks' \<Longrightarrow> results = replicate 15 True \<and> locks' = (\<lambda>k. False)"
    using lock_phases_pass [OF _ refl] unfolding n [symmetric] .
qed

section \<open>Properties\<close>

text \<open>C21: The spin lock excludes and no increment is lost. Whatever the interleaving of the reads and writes of the
  threads, at most one thread is between \<open>lock\<close> and \<open>unlock\<close>; when all threads have finished, the number is
  the number of threads times the rounds, modulo \<open>2 ^ 32\<close>, and the lock is free; and every state leads to
  such an end. This is the assertion of \<open>SpinLockTest\<close> for every number of threads and rounds, for the spin
  lock, the mutex and the atomic number.\<close>

theorem locked_additions:
  assumes "adders_reach kind mp n s"
  shows "(\<forall>i < n. \<forall>k < n. in_cs (ad_threads s ! i) \<and> in_cs (ad_threads s ! k) \<longrightarrow> i = k) \<and>
    (all_finished s \<longrightarrow> ad_num s = of_nat n * mp \<and> \<not> ad_locked s) \<and>
    (\<exists>t. (adders_step kind mp)\<^sup>*\<^sup>* s t \<and> all_finished t)"
  using adders.invariant [OF assms] cs_exclusive [OF adders.invariant [OF assms]] finished_num adders_finish by blast

theorem locked_additions_witness:
  "\<exists>s t. adders_reach SpinAdd 1000 100 s \<and> in_cs (ad_threads s ! 7) \<and> (adders_step SpinAdd 1000)\<^sup>*\<^sup>* s t \<and> ad_num t = 100000"
proof -
  let ?start = "adders_start False 100"
  let ?s = "run_thread SpinAdd 1000 7 (run_thread SpinAdd 1000 7 ?start)"
  have l: "length (ad_threads ?start) = 100" by (simp add: adders_start_def)
  have r1: "adders_reach SpinAdd 1000 100 (run_thread SpinAdd 1000 7 ?start)"
    by (rule reachable.more [OF reachable_self]) (rule adders_step.run, simp add: l)
  have r: "adders_reach SpinAdd 1000 100 ?s"
    by (rule reachable.more [OF r1]) (rule adders_step.run, simp add: l)
  obtain t where t: "(adders_step SpinAdd 1000)\<^sup>*\<^sup>* ?s t" "all_finished t" using locked_additions [OF r] by blast
  have "adders_reach SpinAdd 1000 100 t" by (rule reachable_steps [OF t(1) r])
  from locked_additions [OF this] t(2) have "ad_num t = of_nat 100 * 1000" by blast
  moreover have "in_cs (ad_threads ?s ! 7)"
    by (simp add: run_thread_def adders_start_def thread_start_def thread_simps)
  ultimately show ?thesis using r t(1) by auto
qed

end
