(* ===== verification/Traced_Memory.thy ===== *)
theory Traced_Memory
  imports Std_Map Transition
begin

text \<open>
  \<open>Memory.h\<close> and \<open>Memory.cpp\<close>: the record of all allocations, and managed objects, which hold a shared pointer to
  themselves that does not count. The record is that of a debug build (\<open>MM_TRACE_MEMORY_LEAKS\<close>).

  A managed object has a control block with the counts of \<open>std::shared_ptr\<close> as the Visual C++ library keeps them,
  on which \<open>Shared::deref\<close> depends: \<open>_Decref\<close> destroys the object when the count becomes zero and then gives up
  the weak reference that all shared ones have in common; \<open>weak_ptr::lock\<close> succeeds when the count is not
  zero; \<open>expired\<close> is a count of zero. The counts are 32 bits wide and wrap around.
\<close>

section \<open>State\<close>

record memory_footprint =
  fp_func :: "byte list"
  fp_line :: u64
  fp_size :: u64

datatype object_state = Live | Freed

record managed =
  o_addr :: nat
  o_state :: object_state
  o_uses :: u32
  o_weaks :: u32
  o_self :: bool

record memory =
  m_Memory :: "(nat, memory_footprint) stdmap"
  m_objects :: "managed list"

datatype memory_error = DoubleDelete | UseAfterFree

section \<open>The record of allocations\<close>

definition trace_void :: "nat \<Rightarrow> memory_footprint \<Rightarrow> memory \<Rightarrow> memory" where
  "trace_void p fp h = h\<lparr>m_Memory := sm_set p fp (m_Memory h)\<rparr>"

definition untrace_void :: "nat \<Rightarrow> memory \<Rightarrow> bool \<times> memory" where
  "untrace_void p h =
     (if sm_find (m_Memory h) p \<noteq> None then (True, h\<lparr>m_Memory := sm_erase p (m_Memory h)\<rparr>) else (False, h))"

definition untrace :: "nat \<Rightarrow> memory \<Rightarrow> memory" where
  "untrace p h = snd (untrace_void p h)"

text \<open>The report: the lines of the leaks, or that there are none.\<close>

datatype leak_line = Leak_at memory_footprint | No_leaks

definition printUntracedMemory :: "memory \<Rightarrow> leak_line list" where
  "printUntracedMemory h = map (Leak_at \<circ> snd) (m_Memory h) @ (if m_Memory h = [] then [No_leaks] else [])"

text \<open>Arrays. \<open>new\<close> yields the address \<open>p\<close>.\<close>

definition doAllocN :: "nat \<Rightarrow> memory_footprint \<Rightarrow> memory \<Rightarrow> memory" where
  "doAllocN p fp h = trace_void p fp h"

definition doDeleteN :: "nat option \<Rightarrow> memory \<Rightarrow> memory" where
  "doDeleteN p h = (case p of None \<Rightarrow> h | Some a \<Rightarrow> snd (untrace_void a h))"

section \<open>Managed objects\<close>

definition upd_object :: "nat \<Rightarrow> (managed \<Rightarrow> managed) \<Rightarrow> memory \<Rightarrow> memory" where
  "upd_object i f h = h\<lparr>m_objects := (m_objects h)[i := f (m_objects h ! i)]\<rparr>"

text \<open>\<open>new T\<close> at the address \<open>p\<close>: the self pointer is null.\<close>

definition new_object :: "nat \<Rightarrow> memory \<Rightarrow> nat \<times> memory" where
  "new_object p h =
     (length (m_objects h), h\<lparr>m_objects := m_objects h @ [\<lparr>o_addr = p, o_state = Live, o_uses = 0, o_weaks = 0, o_self = False\<rparr>]\<rparr>)"

text \<open>\<open>trace\<close> of a managed object: a control block with one reference, which the self pointer takes over.\<close>

definition trace_managed :: "nat \<Rightarrow> memory_footprint \<Rightarrow> memory \<Rightarrow> memory" where
  "trace_managed i fp h =
     (let h1 = upd_object i (\<lambda>ob. ob\<lparr>o_self := True, o_uses := 1, o_weaks := 1\<rparr>) h
      in trace_void (o_addr (m_objects h1 ! i)) fp h1)"

definition doAlloc :: "nat \<Rightarrow> memory_footprint \<Rightarrow> memory \<Rightarrow> nat \<times> memory" where
  "doAlloc p fp h = (case new_object p h of (i, h1) \<Rightarrow> (i, trace_managed i fp h1))"

text \<open>Deletion of the object: the destructors, of which \<open>~ITraceable\<close> removes the record and then destroys the
  self pointer, whose reference may be the last one.\<close>

definition delete_object :: "nat \<Rightarrow> memory \<Rightarrow> memory_error + memory" where
  "delete_object i h =
     (let ob = m_objects h ! i
      in if o_state ob = Freed then Inl DoubleDelete
         else let h1 = untrace (o_addr ob) h
              in if \<not> o_self ob then Inr (upd_object i (\<lambda>ob. ob\<lparr>o_state := Freed\<rparr>) h1)
                 else if o_uses ob - 1 = 0 then Inl DoubleDelete
                 else Inr (upd_object i (\<lambda>ob. ob\<lparr>o_state := Freed, o_uses := o_uses ob - 1\<rparr>) h1))"

definition incref :: "nat \<Rightarrow> memory \<Rightarrow> memory" where
  "incref i h = upd_object i (\<lambda>ob. ob\<lparr>o_uses := o_uses ob + 1\<rparr>) h"

definition incwref :: "nat \<Rightarrow> memory \<Rightarrow> memory" where
  "incwref i h = upd_object i (\<lambda>ob. ob\<lparr>o_weaks := o_weaks ob + 1\<rparr>) h"

definition decwref :: "nat \<Rightarrow> memory \<Rightarrow> memory" where
  "decwref i h = upd_object i (\<lambda>ob. ob\<lparr>o_weaks := o_weaks ob - 1\<rparr>) h"

definition decref :: "nat \<Rightarrow> memory \<Rightarrow> memory_error + memory" where
  "decref i h =
     (let h1 = upd_object i (\<lambda>ob. ob\<lparr>o_uses := o_uses ob - 1\<rparr>) h
      in if o_uses (m_objects h1 ! i) = 0
         then case delete_object i h1 of Inl e \<Rightarrow> Inl e | Inr h2 \<Rightarrow> Inr (decwref i h2)
         else Inr h1)"

definition weak_expired :: "nat \<Rightarrow> memory \<Rightarrow> bool" where
  "weak_expired i h \<longleftrightarrow> o_uses (m_objects h ! i) = 0"

definition weak_lock :: "nat \<Rightarrow> memory \<Rightarrow> bool \<times> memory" where
  "weak_lock i h = (if o_uses (m_objects h ! i) = 0 then (False, h) else (True, incref i h))"

text \<open>\<open>reserve_sp\<close>: a copy of the self pointer gives its reference back twice, by \<open>deref\<close> and by its destructor,
  after the returned pointer was made.\<close>

definition reserve_sp :: "nat \<Rightarrow> memory_footprint \<Rightarrow> memory \<Rightarrow> memory_error + nat \<times> memory" where
  "reserve_sp p fp h =
     (case doAlloc p fp h of (i, h1) \<Rightarrow>
        case decref i (incref i h1) of
          Inl e \<Rightarrow> Inl e
        | Inr h2 \<Rightarrow> (case decref i (incref i h2) of Inl e \<Rightarrow> Inl e | Inr h3 \<Rightarrow> Inr (i, h3)))"

text \<open>\<open>release\<close> of a managed object.\<close>

definition doDelete :: "nat option \<Rightarrow> memory \<Rightarrow> memory_error + memory" where
  "doDelete p h = (case p of None \<Rightarrow> Inr h | Some i \<Rightarrow> delete_object i (untrace (o_addr (m_objects h ! i)) h))"

section \<open>Programs\<close>

text \<open>A program holds references: \<open>refs i\<close> shared and \<open>wrefs i\<close> weak pointers to object \<open>i\<close>, other than the self
  pointer, and arrays at the addresses \<open>raws\<close>. It copies and drops them, allocates at addresses that are not
  in use, and locks a weak pointer only as long as there is a shared one. No program holds \<open>2 ^ 31\<close> pointers to
  one object.\<close>

record program =
  pr_mem :: memory
  pr_refs :: "nat \<Rightarrow> nat"
  pr_wrefs :: "nat \<Rightarrow> nat"
  pr_raws :: "nat set"

definition program_start :: program where
  "program_start = \<lparr>pr_mem = \<lparr>m_Memory = [], m_objects = []\<rparr>, pr_refs = (\<lambda>i. 0), pr_wrefs = (\<lambda>i. 0), pr_raws = {}\<rparr>"

definition live_addrs :: "memory \<Rightarrow> nat set" where
  "live_addrs h = o_addr ` {ob \<in> set (m_objects h). o_state ob = Live}"

inductive program_step :: "program \<Rightarrow> program \<Rightarrow> bool" where
  make: "p \<notin> live_addrs (pr_mem s) \<union> pr_raws s \<Longrightarrow> reserve_sp p fp (pr_mem s) = Inr (i, h) \<Longrightarrow>
     program_step s (s\<lparr>pr_mem := h, pr_refs := (pr_refs s)(i := 1), pr_wrefs := (pr_wrefs s)(i := 0)\<rparr>)"
| copy: "0 < pr_refs s i \<Longrightarrow> pr_refs s i < 2 ^ 31 \<Longrightarrow>
     program_step s (s\<lparr>pr_mem := incref i (pr_mem s), pr_refs := (pr_refs s)(i := pr_refs s i + 1)\<rparr>)"
| drop: "0 < pr_refs s i \<Longrightarrow> decref i (pr_mem s) = Inr h \<Longrightarrow>
     program_step s (s\<lparr>pr_mem := h, pr_refs := (pr_refs s)(i := pr_refs s i - 1)\<rparr>)"
| weak_make: "0 < pr_refs s i + pr_wrefs s i \<Longrightarrow> pr_wrefs s i < 2 ^ 31 \<Longrightarrow>
     program_step s (s\<lparr>pr_mem := incwref i (pr_mem s), pr_wrefs := (pr_wrefs s)(i := pr_wrefs s i + 1)\<rparr>)"
| weak_drop: "0 < pr_wrefs s i \<Longrightarrow>
     program_step s (s\<lparr>pr_mem := decwref i (pr_mem s), pr_wrefs := (pr_wrefs s)(i := pr_wrefs s i - 1)\<rparr>)"
| weak_to_shared: "0 < pr_wrefs s i \<Longrightarrow> 0 < pr_refs s i \<Longrightarrow> pr_refs s i < 2 ^ 31 \<Longrightarrow> weak_lock i (pr_mem s) = (got, h) \<Longrightarrow>
     program_step s (s\<lparr>pr_mem := h, pr_refs := (pr_refs s)(i := if got then pr_refs s i + 1 else pr_refs s i)\<rparr>)"
| make_array: "p \<notin> live_addrs (pr_mem s) \<union> pr_raws s \<Longrightarrow>
     program_step s (s\<lparr>pr_mem := doAllocN p fp (pr_mem s), pr_raws := insert p (pr_raws s)\<rparr>)"
| delete_array: "p \<in> pr_raws s \<Longrightarrow>
     program_step s (s\<lparr>pr_mem := doDeleteN (Some p) (pr_mem s), pr_raws := pr_raws s - {p}\<rparr>)"

abbreviation program_reach :: "program \<Rightarrow> bool" where
  "program_reach \<equiv> reachable (\<lambda>s. s = program_start) program_step"

section \<open>Invariant\<close>

definition counts_ok :: "managed \<Rightarrow> nat \<Rightarrow> nat \<Rightarrow> bool" where
  "counts_ok ob r w \<longleftrightarrow> o_self ob \<and> r \<le> 2 ^ 31 \<and> w \<le> 2 ^ 31 \<and>
     (case o_state ob of
        Live \<Rightarrow> 0 < r \<and> o_uses ob = of_nat r \<and> o_weaks ob = of_nat w + 1
      | Freed \<Rightarrow> r = 0 \<and> o_uses ob = - 1 \<and> o_weaks ob = of_nat w)"

definition apart :: "managed list \<Rightarrow> bool" where
  "apart obs \<longleftrightarrow>
     (\<forall>i < length obs. \<forall>k < length obs. o_state (obs ! i) = Live \<longrightarrow> o_state (obs ! k) = Live \<longrightarrow> o_addr (obs ! i) = o_addr (obs ! k) \<longrightarrow> i = k)"

lemma apart_upd:
  assumes "apart obs" and "i < length obs" and "o_state ob = Live \<longrightarrow> o_state (obs ! i) = Live" and "o_addr ob = o_addr (obs ! i)"
  shows "apart (obs[i := ob])"
  using assms by (auto simp: apart_def nth_list_update)

definition program_inv :: "program \<Rightarrow> bool" where
  "program_inv s \<longleftrightarrow>
     (\<forall>i < length (m_objects (pr_mem s)). counts_ok (m_objects (pr_mem s) ! i) (pr_refs s i) (pr_wrefs s i)) \<and>
     (\<forall>i \<ge> length (m_objects (pr_mem s)). pr_refs s i = 0 \<and> pr_wrefs s i = 0) \<and>
     sm_ok (m_Memory (pr_mem s)) \<and> fst ` set (m_Memory (pr_mem s)) = live_addrs (pr_mem s) \<union> pr_raws s \<and>
     live_addrs (pr_mem s) \<inter> pr_raws s = {} \<and>
     apart (m_objects (pr_mem s))"

lemma objects_upd [simp]: "m_objects (upd_object i f h) = (m_objects h)[i := f (m_objects h ! i)]" "m_Memory (upd_object i f h) = m_Memory h"
  by (simp_all add: upd_object_def)

lemma live_addrs_nth: "live_addrs h = {o_addr (m_objects h ! i) | i. i < length (m_objects h) \<and> o_state (m_objects h ! i) = Live}"
  by (force simp: live_addrs_def in_set_conv_nth)

lemma live_addrs_upd:
  assumes "i < length (m_objects h)" and "o_state (f (m_objects h ! i)) = o_state (m_objects h ! i)"
    and "o_addr (f (m_objects h ! i)) = o_addr (m_objects h ! i)"
  shows "live_addrs (upd_object i f h) = live_addrs h"
  unfolding live_addrs_nth using assms by (simp add: nth_list_update) (metis (no_types, lifting))

text \<open>A change of the counts of one object.\<close>

lemma inv_counts:
  assumes "program_inv s" and "i < length (m_objects (pr_mem s))" and "ob = m_objects (pr_mem s) ! i"
    and "o_state (f ob) = o_state ob" and "o_addr (f ob) = o_addr ob" and "counts_ok (f ob) r w"
  shows "program_inv (s\<lparr>pr_mem := upd_object i f (pr_mem s), pr_refs := (pr_refs s)(i := r), pr_wrefs := (pr_wrefs s)(i := w)\<rparr>)"
proof -
  have "live_addrs (upd_object i f (pr_mem s)) = live_addrs (pr_mem s)" by (rule live_addrs_upd) (use assms in auto)
  then show ?thesis using assms apart_upd unfolding program_inv_def by (simp add: nth_list_update)
qed

lemma inv_object:
  assumes "program_inv s" and "0 < pr_refs s i + pr_wrefs s i"
  shows "i < length (m_objects (pr_mem s))" and "counts_ok (m_objects (pr_mem s) ! i) (pr_refs s i) (pr_wrefs s i)"
proof -
  show l: "i < length (m_objects (pr_mem s))"
    using assms unfolding program_inv_def by (metis add_is_0 not_less_zero not_le_imp_less)
  then show "counts_ok (m_objects (pr_mem s) ! i) (pr_refs s i) (pr_wrefs s i)" using assms(1) by (simp add: program_inv_def)
qed

lemma small_count:
  assumes "r \<le> 2 ^ 31"
  shows "of_nat r = (0 :: u32) \<longleftrightarrow> r = 0" and "of_nat r - 1 = (0 :: u32) \<longleftrightarrow> r = 1"
proof -
  have u: "unat (of_nat r :: u32) = r" using assms by (simp add: unat_of_nat take_bit_nat_eq_self)
  show "of_nat r = (0 :: u32) \<longleftrightarrow> r = 0" using u by (cases "r = 0") auto
  have "r = 1" if "of_nat r - 1 = (0 :: u32)"
  proof -
    have "of_nat r = (1 :: u32)" using that by simp
    then show ?thesis using u by simp
  qed
  then show "of_nat r - 1 = (0 :: u32) \<longleftrightarrow> r = 1" by auto
qed

lemma inv_live: "program_inv s \<Longrightarrow> 0 < pr_refs s i \<Longrightarrow> o_state (m_objects (pr_mem s) ! i) = Live"
  using inv_object(2) [of s i] by (auto simp: counts_ok_def split: object_state.splits)

text \<open>What \<open>reserve_sp\<close> yields: an object with one reference besides the self pointer.\<close>

lemma reserve_sp_result:
  "reserve_sp p fp h = Inr (length (m_objects h),
     h\<lparr>m_Memory := sm_set p fp (m_Memory h),
      m_objects := m_objects h @ [\<lparr>o_addr = p, o_state = Live, o_uses = 1, o_weaks = 1, o_self = True\<rparr>]\<rparr>)"
  by (simp add: reserve_sp_def doAlloc_def new_object_def trace_managed_def trace_void_def decref_def incref_def upd_object_def
      list_update_append Let_def)

text \<open>What dropping a reference does to a live object: only the last one destroys it.\<close>

lemma decref_result:
  assumes "i < length (m_objects h)" and "o_state (m_objects h ! i) = Live" and "counts_ok (m_objects h ! i) r w"
  shows "decref i h =
    Inr (if r = 1
         then upd_object i (\<lambda>ob. ob\<lparr>o_state := Freed, o_uses := - 1, o_weaks := o_weaks ob - 1\<rparr>) (untrace (o_addr (m_objects h ! i)) h)
         else upd_object i (\<lambda>ob. ob\<lparr>o_uses := o_uses ob - 1\<rparr>) h)"
proof (cases "r = 1")
  case True
  then have "o_uses (m_objects h ! i) = 1" "o_self (m_objects h ! i)" using assms by (auto simp: counts_ok_def)
  then show ?thesis using assms(1,2) True
    by (auto simp: decref_def delete_object_def decwref_def untrace_def untrace_void_def upd_object_def Let_def)
next
  case False
  then have "o_uses (m_objects h ! i) - 1 \<noteq> 0" using assms small_count(2) [of r] by (auto simp: counts_ok_def)
  then show ?thesis using assms(1) False by (simp add: decref_def Let_def)
qed

text \<open>The record of allocations as a set of addresses.\<close>

definition traced :: "memory \<Rightarrow> nat set" where
  "traced h = fst ` set (m_Memory h)"

lemma traced_find: "traced h = {p. sm_find (m_Memory h) p \<noteq> None}"
  by (auto simp: traced_def sm_find_None_iff)

lemma untrace_facts:
  assumes "sm_ok (m_Memory h)"
  shows "sm_ok (m_Memory (untrace p h))" "traced (untrace p h) = traced h - {p}" "m_objects (untrace p h) = m_objects h"
  using assms by (auto simp: untrace_def untrace_void_def traced_find sm_laws)

lemma trace_void_facts:
  assumes "sm_ok (m_Memory h)"
  shows "sm_ok (m_Memory (trace_void p fp h))" "traced (trace_void p fp h) = insert p (traced h)" "m_objects (trace_void p fp h) = m_objects h"
  using assms by (auto simp: trace_void_def traced_find sm_laws)

lemma inv_free:
  assumes "program_inv s" and "pr_refs s i = 1" and "ob = m_objects (pr_mem s) ! i"
  shows "program_inv (s\<lparr>pr_mem := upd_object i (\<lambda>ob. ob\<lparr>o_state := Freed, o_uses := - 1, o_weaks := o_weaks ob - 1\<rparr>) (untrace (o_addr ob) (pr_mem s)),
    pr_refs := (pr_refs s)(i := 0)\<rparr>)" (is "program_inv ?t")
proof -
  let ?h = "pr_mem s"
  note u = untrace_facts [of ?h "o_addr ob"]
  have i: "i < length (m_objects ?h)" "counts_ok ob (pr_refs s i) (pr_wrefs s i)" using inv_object [of s i] assms by auto
  have live: "o_state ob = Live" using inv_live [of s i] assms by simp
  have inv: "sm_ok (m_Memory ?h)" "traced ?h = live_addrs ?h \<union> pr_raws s" "live_addrs ?h \<inter> pr_raws s = {}"
    using assms(1) by (simp_all add: program_inv_def traced_def)
  have sole: "k = i" if "k < length (m_objects ?h)" "o_state (m_objects ?h ! k) = Live" "o_addr (m_objects ?h ! k) = o_addr ob" for k
    using that assms(1,3) live i(1) unfolding program_inv_def apart_def by metis
  have la: "live_addrs (pr_mem ?t) = live_addrs ?h - {o_addr ob}"
    unfolding live_addrs_nth using u(3) [OF inv(1)] sole assms(3) i(1) live by (auto simp: nth_list_update) metis
  have "o_addr ob \<in> live_addrs ?h" using i(1) live assms(3) by (auto simp: live_addrs_nth)
  then have "traced (pr_mem ?t) = live_addrs (pr_mem ?t) \<union> pr_raws ?t" "live_addrs (pr_mem ?t) \<inter> pr_raws ?t = {}"
    using la inv(2,3) u(2) [OF inv(1)] by (auto simp: traced_def)
  moreover have "counts_ok (m_objects (pr_mem ?t) ! k) (pr_refs ?t k) (pr_wrefs ?t k)" if "k < length (m_objects (pr_mem ?t))" for k
    using that assms i u(3) [OF inv(1)] live by (cases "k = i") (auto simp: program_inv_def counts_ok_def)
  moreover have "apart (m_objects (pr_mem ?t))" using assms(1,3) i(1) u(3) [OF inv(1)] by (simp add: program_inv_def apart_upd)
  ultimately show ?thesis using assms(1) u(1,3) [OF inv(1)] unfolding program_inv_def traced_def by simp
qed

lemma inv_make:
  assumes "program_inv s" and "p \<notin> live_addrs (pr_mem s) \<union> pr_raws s" and "reserve_sp p fp (pr_mem s) = Inr (i, h)"
  shows "program_inv (s\<lparr>pr_mem := h, pr_refs := (pr_refs s)(i := 1), pr_wrefs := (pr_wrefs s)(i := 0)\<rparr>)"
proof -
  let ?o = "m_objects (pr_mem s)" and ?n = "\<lparr>o_addr = p, o_state = Live, o_uses = 1, o_weaks = 1, o_self = True\<rparr>"
  have h: "i = length ?o" "h = trace_void p fp (pr_mem s)\<lparr>m_objects := ?o @ [?n]\<rparr>"
    using assms(3) by (auto simp: reserve_sp_result trace_void_def)
  have inv: "sm_ok (m_Memory (pr_mem s))" "traced (pr_mem s) = live_addrs (pr_mem s) \<union> pr_raws s"
    using assms(1) by (simp_all add: program_inv_def traced_def)
  have la: "live_addrs h = insert p (live_addrs (pr_mem s))" by (auto simp: live_addrs_def h(2) intro: image_eqI [where x = ?n])
  have tr: "traced h = insert p (traced (pr_mem s))" using trace_void_facts(2) [OF inv(1), of p fp] by (simp add: traced_def h(2))
  have addr: "o_addr (?o ! k) \<noteq> p" if "k < length ?o" "o_state (?o ! k) = Live" for k using that assms(2) by (auto simp: live_addrs_nth)
  show ?thesis using assms(1,2) la tr trace_void_facts(1) [OF inv(1), of p fp] addr inv(2)
    unfolding program_inv_def traced_def [symmetric] apart_def by (auto simp: h nth_append counts_ok_def less_Suc_eq)
qed

lemma inv_array:
  assumes "program_inv s" and "p \<notin> live_addrs (pr_mem s) \<union> pr_raws s"
  shows "program_inv (s\<lparr>pr_mem := doAllocN p fp (pr_mem s), pr_raws := insert p (pr_raws s)\<rparr>)"
proof -
  have ok: "sm_ok (m_Memory (pr_mem s))" using assms(1) by (simp add: program_inv_def)
  note t = trace_void_facts [OF ok, of p fp]
  have "live_addrs (trace_void p fp (pr_mem s)) = live_addrs (pr_mem s)" using t(3) by (simp add: live_addrs_def)
  then show ?thesis using assms t unfolding program_inv_def traced_def by (auto simp: doAllocN_def)
qed

lemma inv_array_free:
  assumes "program_inv s" and "p \<in> pr_raws s"
  shows "program_inv (s\<lparr>pr_mem := doDeleteN (Some p) (pr_mem s), pr_raws := pr_raws s - {p}\<rparr>)"
proof -
  have ok: "sm_ok (m_Memory (pr_mem s))" using assms(1) by (simp add: program_inv_def)
  note t = untrace_facts [OF ok, of p]
  have "live_addrs (untrace p (pr_mem s)) = live_addrs (pr_mem s)" using t(3) by (simp add: live_addrs_def)
  then show ?thesis using assms t unfolding program_inv_def traced_def by (auto simp: doDeleteN_def untrace_def)
qed

lemma inv_drop:
  assumes "program_inv s" and "0 < pr_refs s i"
  shows "\<exists>h. decref i (pr_mem s) = Inr h \<and> program_inv (s\<lparr>pr_mem := h, pr_refs := (pr_refs s)(i := pr_refs s i - 1)\<rparr>)"
proof -
  let ?ob = "m_objects (pr_mem s) ! i"
  have i: "i < length (m_objects (pr_mem s))" "counts_ok ?ob (pr_refs s i) (pr_wrefs s i)" using inv_object [OF assms(1)] assms(2) by auto
  have live: "o_state ?ob = Live" by (rule inv_live [OF assms])
  note d = decref_result [OF i(1) live i(2)]
  show ?thesis
  proof (cases "pr_refs s i = 1")
    case True
    then show ?thesis using d inv_free [OF assms(1) True refl] by simp
  next
    case False
    then have "counts_ok (?ob\<lparr>o_uses := o_uses ?ob - 1\<rparr>) (pr_refs s i - 1) (pr_wrefs s i)"
      using i(2) live assms(2) by (auto simp: counts_ok_def of_nat_diff)
    from inv_counts [where f = "\<lambda>ob. ob\<lparr>o_uses := o_uses ob - 1\<rparr>", OF assms(1) i(1) refl _ _ this] show ?thesis using d False by simp
  qed
qed

lemma inv_recount:
  assumes "program_inv s" and "0 < pr_refs s i + pr_wrefs s i"
    and "o_state (f (m_objects (pr_mem s) ! i)) = o_state (m_objects (pr_mem s) ! i)"
    and "o_addr (f (m_objects (pr_mem s) ! i)) = o_addr (m_objects (pr_mem s) ! i)"
    and "counts_ok (m_objects (pr_mem s) ! i) (pr_refs s i) (pr_wrefs s i) \<Longrightarrow> counts_ok (f (m_objects (pr_mem s) ! i)) r w"
  shows "program_inv (s\<lparr>pr_mem := upd_object i f (pr_mem s), pr_refs := (pr_refs s)(i := r), pr_wrefs := (pr_wrefs s)(i := w)\<rparr>)"
  using inv_counts [where f = f, OF assms(1) inv_object(1) [OF assms(1,2)] refl assms(3,4)] inv_object(2) [OF assms(1,2)] assms(5) by blast

lemma inv_copy:
  assumes "program_inv s" and "0 < pr_refs s i" and "pr_refs s i < 2 ^ 31"
  shows "program_inv (s\<lparr>pr_mem := incref i (pr_mem s), pr_refs := (pr_refs s)(i := pr_refs s i + 1)\<rparr>)"
proof -
  have "program_inv (s\<lparr>pr_mem := incref i (pr_mem s), pr_refs := (pr_refs s)(i := pr_refs s i + 1), pr_wrefs := (pr_wrefs s)(i := pr_wrefs s i)\<rparr>)"
    unfolding incref_def using assms(2,3) by (intro inv_recount assms(1)) (auto simp: counts_ok_def split: object_state.splits)
  then show ?thesis by simp
qed

lemma inv_weak:
  assumes "program_inv s" and "0 < pr_refs s i + pr_wrefs s i" and "pr_wrefs s i < 2 ^ 31"
  shows "program_inv (s\<lparr>pr_mem := incwref i (pr_mem s), pr_wrefs := (pr_wrefs s)(i := pr_wrefs s i + 1)\<rparr>)"
proof -
  have "program_inv (s\<lparr>pr_mem := incwref i (pr_mem s), pr_refs := (pr_refs s)(i := pr_refs s i), pr_wrefs := (pr_wrefs s)(i := pr_wrefs s i + 1)\<rparr>)"
    unfolding incwref_def using assms(3) by (intro inv_recount assms(1,2)) (auto simp: counts_ok_def split: object_state.splits)
  then show ?thesis by simp
qed

lemma inv_weak_drop:
  assumes "program_inv s" and "0 < pr_wrefs s i"
  shows "program_inv (s\<lparr>pr_mem := decwref i (pr_mem s), pr_wrefs := (pr_wrefs s)(i := pr_wrefs s i - 1)\<rparr>)"
proof -
  have "program_inv (s\<lparr>pr_mem := decwref i (pr_mem s), pr_refs := (pr_refs s)(i := pr_refs s i), pr_wrefs := (pr_wrefs s)(i := pr_wrefs s i - 1)\<rparr>)"
    unfolding decwref_def using assms(2) by (intro inv_recount assms(1)) (auto simp: counts_ok_def of_nat_diff split: object_state.splits)
  then show ?thesis by simp
qed

lemma weak_lock_live:
  assumes "program_inv s" and "0 < pr_refs s i"
  shows "weak_lock i (pr_mem s) = (True, incref i (pr_mem s))"
proof -
  have "counts_ok (m_objects (pr_mem s) ! i) (pr_refs s i) (pr_wrefs s i)" using inv_object(2) [OF assms(1)] assms(2) by simp
  then have "o_uses (m_objects (pr_mem s) ! i) \<noteq> 0"
    using inv_live [OF assms] assms(2) small_count(1) [of "pr_refs s i"] by (auto simp: counts_ok_def)
  then show ?thesis by (simp add: weak_lock_def)
qed

interpretation program: state_machine "\<lambda>s. s = program_start" program_step program_inv
proof
  show "program_inv t" if "program_step s t" "program_inv s" for s t
    using that
  proof cases
    case (drop i h)
    then show ?thesis using inv_drop [OF that(2) drop(2)] by auto
  next
    case (weak_to_shared i got h)
    then show ?thesis using weak_lock_live [OF that(2)] inv_copy [OF that(2)] by auto
  qed (use that(2) inv_make inv_copy inv_weak inv_weak_drop inv_array inv_array_free in \<open>simp_all\<close>)
qed (simp add: program_inv_def program_start_def live_addrs_def apart_def)

text \<open>\<open>reserve\<close> and \<open>release\<close> do not fit together for managed objects: the self pointer holds the only reference, and
  its destructor deletes the object that is being deleted.\<close>

lemma release_deletes_twice: "doAlloc p fp h = (i, h') \<Longrightarrow> doDelete (Some i) h' = Inl DoubleDelete"
  by (auto simp: doAlloc_def new_object_def trace_managed_def trace_void_def doDelete_def delete_object_def untrace_def untrace_void_def
      upd_object_def Let_def list_update_append)

lemma inv_live_iff:
  assumes "program_inv s" and "i < length (m_objects (pr_mem s))"
  shows "o_state (m_objects (pr_mem s) ! i) = Live \<longleftrightarrow> 0 < pr_refs s i"
proof -
  have "counts_ok (m_objects (pr_mem s) ! i) (pr_refs s i) (pr_wrefs s i)" using assms by (simp add: program_inv_def)
  then show ?thesis by (cases "o_state (m_objects (pr_mem s) ! i)") (auto simp: counts_ok_def)
qed

lemma inv_decref:
  assumes "program_inv s" and "0 < pr_refs s i"
  shows "\<exists>h. decref i (pr_mem s) = Inr h \<and> (o_state (m_objects h ! i) = Freed \<longleftrightarrow> pr_refs s i = 1)"
proof -
  obtain h where h: "decref i (pr_mem s) = Inr h" "program_inv (s\<lparr>pr_mem := h, pr_refs := (pr_refs s)(i := pr_refs s i - 1)\<rparr>)"
    using inv_drop [OF assms] by blast
  have i: "i < length (m_objects (pr_mem s))" "counts_ok (m_objects (pr_mem s) ! i) (pr_refs s i) (pr_wrefs s i)"
    using inv_object [OF assms(1)] assms(2) by auto
  have ok: "sm_ok (m_Memory (pr_mem s))" using assms(1) by (simp add: program_inv_def)
  have "length (m_objects h) = length (m_objects (pr_mem s))"
    using decref_result [OF i(1) inv_live [OF assms] i(2)] h(1) untrace_facts(3) [OF ok] by (auto split: if_splits)
  then show ?thesis using inv_live_iff [OF h(2), of i] h(1) i(1) assms(2) by (cases "o_state (m_objects h ! i)") auto
qed

lemma inv_no_leaks:
  assumes "program_inv s"
  shows "No_leaks \<in> set (printUntracedMemory (pr_mem s)) \<longleftrightarrow> (\<forall>i. pr_refs s i = 0) \<and> pr_raws s = {}"
proof -
  have "No_leaks \<in> set (printUntracedMemory (pr_mem s)) \<longleftrightarrow> fst ` set (m_Memory (pr_mem s)) = {}" by (auto simp: printUntracedMemory_def)
  also have "\<dots> \<longleftrightarrow> live_addrs (pr_mem s) = {} \<and> pr_raws s = {}" using assms by (simp add: program_inv_def)
  also have "live_addrs (pr_mem s) = {} \<longleftrightarrow> (\<forall>i. pr_refs s i = 0)"
    using inv_live_iff [OF assms] inv_object(1) [OF assms] by (auto simp: live_addrs_nth) (metis gr0I trans_less_add1)
  finally show ?thesis .
qed

section \<open>Properties\<close>

text \<open>C18: Managed objects live exactly as long as a pointer besides their own refers to them. Dropping a reference never
  deletes an object twice and destroys it exactly if it was the last one; the record holds exactly the live
  objects and arrays, so the report says that there are no leaks exactly if the program holds nothing any more.\<close>

theorem managed_lifetime:
  assumes "program_reach s"
  shows "(\<forall>i < length (m_objects (pr_mem s)). o_state (m_objects (pr_mem s) ! i) = Live \<longleftrightarrow> 0 < pr_refs s i) \<and>
    (\<forall>i. 0 < pr_refs s i \<longrightarrow> (\<exists>h. decref i (pr_mem s) = Inr h \<and> (o_state (m_objects h ! i) = Freed \<longleftrightarrow> pr_refs s i = 1))) \<and>
    fst ` set (m_Memory (pr_mem s)) = live_addrs (pr_mem s) \<union> pr_raws s \<and>
    (No_leaks \<in> set (printUntracedMemory (pr_mem s)) \<longleftrightarrow> (\<forall>i. pr_refs s i = 0) \<and> pr_raws s = {})"
  using program.invariant [OF assms] inv_live_iff inv_decref inv_no_leaks by (simp add: program_inv_def)

text \<open>C20: A weak pointer to a managed object never expires. The destructor of the self pointer takes the count below
  zero, so after the object is gone \<open>expired\<close> is false and \<open>lock\<close> yields a pointer to freed memory; copying that
  pointer and dropping the copy deletes the object again.\<close>

theorem weak_pointer_never_expires:
  assumes "program_reach s" and "pr_refs s i = 1" and "0 < pr_wrefs s i"
  shows "\<exists>h. decref i (pr_mem s) = Inr h \<and> o_state (m_objects h ! i) = Freed \<and> \<not> weak_expired i h \<and> fst (weak_lock i h) \<and>
    decref i (incref i (snd (weak_lock i h))) = Inl DoubleDelete"
proof -
  note inv = program.invariant [OF assms(1)]
  have r: "0 < pr_refs s i" using assms(2) by simp
  have i: "i < length (m_objects (pr_mem s))" "counts_ok (m_objects (pr_mem s) ! i) (pr_refs s i) (pr_wrefs s i)"
    using inv_object [OF inv] r by auto
  have ok: "sm_ok (m_Memory (pr_mem s))" using inv by (simp add: program_inv_def)
  note o = untrace_facts(3) [OF ok, of "o_addr (m_objects (pr_mem s) ! i)"]
  note d = decref_result [OF i(1) inv_live [OF inv r] i(2)]
  show ?thesis using d assms(2) i(1) o
    by (simp add: weak_expired_def weak_lock_def incref_def decref_def delete_object_def Let_def)
qed

text \<open>A program that makes an object and a weak pointer to it.\<close>

lemma demo_program: "\<exists>s. program_reach s \<and> pr_refs s 0 = 1 \<and> pr_wrefs s 0 = 1"
proof -
  obtain h where h: "reserve_sp 4096 \<lparr>fp_func = [], fp_line = 24, fp_size = 40\<rparr> (pr_mem program_start) = Inr (0, h)"
    by (simp add: reserve_sp_result program_start_def)
  let ?s = "program_start\<lparr>pr_mem := h, pr_refs := (pr_refs program_start)(0 := 1), pr_wrefs := (pr_wrefs program_start)(0 := 0)\<rparr>"
  let ?t = "?s\<lparr>pr_mem := incwref 0 (pr_mem ?s), pr_wrefs := (pr_wrefs ?s)(0 := pr_wrefs ?s 0 + 1)\<rparr>"
  have "program_step program_start ?s" using h by (intro program_step.make) (simp_all add: program_start_def live_addrs_def)
  then have r: "program_reach ?s" by (rule reachable.more [OF reachable_self])
  have "program_step ?s ?t" by (intro program_step.weak_make) simp_all
  then have "program_reach ?t" by (rule reachable.more [OF r])
  moreover have "pr_refs ?t 0 = 1" "pr_wrefs ?t 0 = 1" by simp_all
  ultimately show ?thesis by blast
qed

theorem managed_lifetime_witness:
  "\<exists>s h. program_reach s \<and> pr_refs s 0 = 1 \<and> decref 0 (pr_mem s) = Inr h \<and> o_state (m_objects h ! 0) = Freed \<and>
     No_leaks \<notin> set (printUntracedMemory (pr_mem s))"
proof -
  obtain s where s: "program_reach s" "pr_refs s 0 = 1" using demo_program by blast
  note m = managed_lifetime [OF s(1)]
  obtain h where "decref 0 (pr_mem s) = Inr h" "o_state (m_objects h ! 0) = Freed" using m s(2) by (metis zero_less_one)
  moreover have "No_leaks \<notin> set (printUntracedMemory (pr_mem s))" using m s(2) by (metis zero_neq_one)
  ultimately show ?thesis using s by blast
qed

theorem weak_pointer_never_expires_witness:
  "\<exists>s h. program_reach s \<and> decref 0 (pr_mem s) = Inr h \<and> \<not> weak_expired 0 h \<and>
     decref 0 (incref 0 (snd (weak_lock 0 h))) = Inl DoubleDelete"
proof -
  obtain s where s: "program_reach s" "pr_refs s 0 = 1" "pr_wrefs s 0 = 1" using demo_program by blast
  then have "0 < pr_wrefs s 0" by simp
  from weak_pointer_never_expires [OF s(1,2) this] show ?thesis using s(1) by blast
qed

end
