(* ===== verification/Chat_Client.thy ===== *)
theory Chat_Client
  imports Link_Pair Network_Sending Listeners
begin

text \<open>
  The program \<open>Chat/Chat.cpp\<close>: its lines and its lobby, the windows that show them, the callbacks of the network,
  the window messages and the main loop. The windows are their texts; window calls without a text, the time
  and the random numbers are parameters or left out. A line of text is a C string. The lobby is a map whose
  keys are pointers to addresses, which are numbers here.
\<close>

section \<open>State\<close>

record chat =
  g_lines :: "cstring list"
  m_names :: "(nat, cstring) stdmap"
  g_Session :: "nat option"
  g_Done :: bool
  g_AutoChat :: bool
  TextField :: cstring
  Lobby :: cstring
  TextBox :: cstring

definition chat_start :: chat where
  "chat_start = \<lparr>g_lines = [], m_names = [], g_Session = None, g_Done = False, g_AutoChat = False,
     TextField = [], Lobby = [], TextBox = []\<rparr>"

definition g_MaxLines :: nat where "g_MaxLines = 20"

definition crlf :: cstring where "crlf = [13, 10]"

section \<open>The lobby\<close>

definition lobby_add :: "nat \<Rightarrow> cstring \<Rightarrow> chat \<Rightarrow> chat" where
  "lobby_add addr name c = c\<lparr>m_names := sm_set addr name (m_names c)\<rparr>"

definition lobby_remove :: "nat \<Rightarrow> chat \<Rightarrow> chat" where
  "lobby_remove addr c = c\<lparr>m_names := sm_erase addr (m_names c)\<rparr>"

text \<open>A window text is set from a C string: it ends at the first null.\<close>

definition c_str :: "cstring \<Rightarrow> cstring" where
  "c_str s = takeWhile (\<lambda>b. b \<noteq> 0) s"

definition RefreshLobby :: "chat \<Rightarrow> chat" where
  "RefreshLobby c = c\<lparr>Lobby := c_str (fold (\<lambda>(a, name) acc. acc @ name @ crlf) (m_names c) [])\<rparr>"

section \<open>The text field\<close>

fun trim_lines :: "cstring list \<Rightarrow> cstring list" where
  "trim_lines ls = (if length ls > g_MaxLines then trim_lines (tl ls) else ls)"

declare trim_lines.simps [simp del]

text \<open>The loop from the last line down to the first; the argument is one more than the index.\<close>

primrec lines_down :: "cstring list \<Rightarrow> nat \<Rightarrow> cstring \<Rightarrow> cstring" where
  "lines_down ls 0 acc = acc"
| "lines_down ls (Suc i) acc = lines_down ls i (acc @ ls ! i @ crlf)"

definition RefreshTextField :: "chat \<Rightarrow> chat" where
  "RefreshTextField c =
     (let ls = trim_lines (g_lines c) in c\<lparr>g_lines := ls, TextField := c_str (lines_down ls (length ls) [])\<rparr>)"

definition add_line :: "cstring \<Rightarrow> chat \<Rightarrow> chat" where
  "add_line s c = c\<lparr>g_lines := g_lines c @ [s]\<rparr>"

section \<open>Remote calls and callbacks\<close>

definition RpcChat :: "cstring \<Rightarrow> chat \<Rightarrow> chat" where
  "RpcChat msg c = RefreshTextField (add_line msg c)"

text \<open>The arguments of \<open>RpcChat\<close> are read into a tuple; a failed read leaves the empty string.\<close>

definition rpc_dsr_RpcChat :: "bin_serializer \<Rightarrow> chat \<Rightarrow> chat res" where
  "rpc_dsr_RpcChat bs c =
     rbind (read_string bs) (\<lambda>(msg, bs'). Inr (RpcChat (case msg of None \<Rightarrow> [] | Some m \<Rightarrow> m) c))"

text \<open>\<open>readOrWrite\<close> of a lobby does nothing, so an empty lobby arrives.\<close>

definition RpcChatLobby :: "(nat, cstring) stdmap \<Rightarrow> chat \<Rightarrow> chat" where
  "RpcChatLobby lobby c = RefreshLobby (c\<lparr>m_names := lobby\<rparr>)"

definition rpc_dsr_RpcChatLobby :: "bin_serializer \<Rightarrow> chat \<Rightarrow> chat" where
  "rpc_dsr_RpcChatLobby bs c = RpcChatLobby [] c"

definition onConnect :: "meta_data \<Rightarrow> cstring \<Rightarrow> nat \<Rightarrow> chat \<Rightarrow> chat" where
  "onConnect md ip etp c =
     (let c1 = add_line (cstr ''Link '' @ ip @ cstr '' connected.'') c;
          name = (case sm_find md (cstr ''name'') of Some n \<Rightarrow> n | None \<Rightarrow> cstr ''server'')
      in RefreshLobby (RefreshTextField (lobby_add etp name c1)))"

definition reasons :: "EDisconnectReason \<Rightarrow> cstring" where
  "reasons r = (case r of Closed \<Rightarrow> cstr ''closed'' | Kicked \<Rightarrow> cstr ''kicked'' | Lost \<Rightarrow> cstr ''lost'')"

definition onDisconnect :: "cstring \<Rightarrow> nat \<Rightarrow> EDisconnectReason \<Rightarrow> chat \<Rightarrow> chat" where
  "onDisconnect ip remote reason c =
     (let c1 = add_line (cstr ''Link '' @ ip @ cstr '' disconnected (reason: '' @ reasons reason @ cstr '')'') c
      in RefreshLobby (RefreshTextField (lobby_remove remote c1)))"

definition onNewHost :: "cstring option \<Rightarrow> chat \<Rightarrow> chat" where
  "onNewHost host c =
     RefreshTextField (add_line (case host of Some ip \<Rightarrow> cstr ''New host in session: '' @ ip | None \<Rightarrow> cstr ''New host in session is US!'') c)"

definition onRegistered :: "bool \<Rightarrow> chat \<Rightarrow> chat" where
  "onRegistered succes c = RefreshTextField (add_line (if succes then cstr ''started started!'' else cstr ''started failed to start.'') c)"

definition onJoined :: "bool \<Rightarrow> chat \<Rightarrow> chat" where
  "onJoined succes c = RefreshTextField (add_line (if succes then cstr ''join succesful!'' else cstr ''join failed.'') c)"

section \<open>Sending\<close>

text \<open>\<open>SendFinal\<close> calls \<open>RpcChat\<close> in the session on channel 1; the result is not used.\<close>

definition SendFinal :: "cstring \<Rightarrow> chat \<Rightarrow> world \<Rightarrow> (chat \<times> world) res" where
  "SendFinal text c w =
     (case g_Session c of
        None \<Rightarrow> Inl NullDeref
      | Some sid \<Rightarrow>
          rbind (ser_arg write_string (c_str text) bs_reset) (\<lambda>bs.
          rbind (priv_send_rpc (cstr ''RpcChat'') bs (Some sid) None False False False 1 w) (\<lambda>(r, w1).
            Inr (RefreshTextField (add_line (c_str text) c), w1))))"

definition Send :: "chat \<Rightarrow> world \<Rightarrow> (chat \<times> world) res" where
  "Send c w =
     (let text = take 2046 (TextBox c);
          c1 = c\<lparr>TextBox := []\<rparr>
      in if length (c_str text) = 0 then Inr (c1, w) else SendFinal text c1 w)"

text \<open>A line of random bytes: \<open>rs\<close> are the values of \<open>rand\<close>, the first for the length.\<close>

definition auto_text :: "nat \<Rightarrow> nat list \<Rightarrow> cstring" where
  "auto_text r rs = map (\<lambda>x. of_nat (x mod 255)) (take (r mod 10 + 10) rs) @ [0]"

section \<open>Windows\<close>

datatype window_message =
    WM_CREATE
  | WM_KEYDOWN u16
  | WM_COMMAND u16 u16
  | WM_PAINT
  | WM_DESTROY
  | WM_OTHER

definition VK_RETURN :: u16 where "VK_RETURN = 13"

definition IDM_EXIT :: u16 where "IDM_EXIT = 105"

text \<open>\<open>DestroyWindow\<close> sends \<open>WM_DESTROY\<close> before it returns.\<close>

definition WndProc :: "window_message \<Rightarrow> chat \<Rightarrow> world \<Rightarrow> (chat \<times> world) res" where
  "WndProc message c w =
     (case message of
        WM_CREATE \<Rightarrow> Inr (c\<lparr>TextBox := [], TextField := [], Lobby := []\<rparr>, w)
      | WM_KEYDOWN key \<Rightarrow> if key = VK_RETURN then Send c w else Inr (c, w)
      | WM_COMMAND wmId hid \<Rightarrow>
          rbind (if wmId = 2 \<or> hid = 1281 then Send c w else Inr (c, w)) (\<lambda>(c1, w1).
            Inr (if wmId = IDM_EXIT then c1\<lparr>g_Done := True\<rparr> else c1, w1))
      | WM_PAINT \<Rightarrow> Inr (c, w)
      | WM_DESTROY \<Rightarrow> Inr (c\<lparr>g_Done := True\<rparr>, w)
      | WM_OTHER \<Rightarrow> Inr (c, w))"

section \<open>The program\<close>

text \<open>What \<open>processEvents\<close> calls.\<close>

datatype chat_event =
    Connected meta_data cstring nat
  | Disconnected cstring nat EDisconnectReason
  | NewHost "cstring option"
  | Registered bool
  | Joined bool
  | ChatCall bin_serializer
  | LobbyCall bin_serializer

definition handle_event :: "chat_event \<Rightarrow> chat \<Rightarrow> chat res" where
  "handle_event e c =
     (case e of
        Connected md ip etp \<Rightarrow> Inr (onConnect md ip etp c)
      | Disconnected ip remote reason \<Rightarrow> Inr (onDisconnect ip remote reason c)
      | NewHost host \<Rightarrow> Inr (onNewHost host c)
      | Registered succes \<Rightarrow> Inr (onRegistered succes c)
      | Joined succes \<Rightarrow> Inr (onJoined succes c)
      | ChatCall bs \<Rightarrow> rpc_dsr_RpcChat bs c
      | LobbyCall bs \<Rightarrow> Inr (rpc_dsr_RpcChatLobby bs c))"

fun handle_events :: "chat_event list \<Rightarrow> chat \<Rightarrow> chat res" where
  "handle_events [] c = Inr c"
| "handle_events (e # es) c = rbind (handle_event e c) (handle_events es)"

fun dispatch_messages :: "window_message list \<Rightarrow> chat \<Rightarrow> world \<Rightarrow> (chat \<times> world) res" where
  "dispatch_messages [] c w = Inr (c, w)"
| "dispatch_messages (m # ms) c w = rbind (WndProc m c w) (\<lambda>(c1, w1). dispatch_messages ms c1 w1)"

text \<open>One round of the main loop: the waiting messages, the events, and a random line.\<close>

definition main_round :: "window_message list \<Rightarrow> chat_event list \<Rightarrow> nat \<Rightarrow> nat list \<Rightarrow> chat \<Rightarrow> world \<Rightarrow> (chat \<times> world) res" where
  "main_round ms es r rs c w =
     rbind (dispatch_messages ms c w) (\<lambda>(c1, w1).
     rbind (handle_events es c1) (\<lambda>c2.
       if g_AutoChat c2 then SendFinal (auto_text r rs) c2 w1 else Inr (c2, w1)))"

text \<open>The options on the command line.\<close>

fun strstr :: "cstring \<Rightarrow> cstring \<Rightarrow> bool" where
  "strstr [] pat \<longleftrightarrow> pat = []"
| "strstr (b # bs) pat \<longleftrightarrow> take (length pat) (b # bs) = pat \<or> strstr bs pat"

definition parse_options :: "cstring \<Rightarrow> chat \<Rightarrow> bool \<times> chat" where
  "parse_options buff c = (strstr (c_str buff) (cstr ''-serv''), c\<lparr>g_AutoChat := strstr (c_str buff) (cstr ''-auto'')\<rparr>)"

text \<open>\<open>InitNetwork\<close>. \<open>self\<close> is the pointer to the empty address, \<open>sock\<close> the socket for the session,
  \<open>gai\<close> the name service. The ratings are the numbers 10, 0 and 1000 in single precision.\<close>

definition InitNetwork ::
  "os_calls \<Rightarrow> (cstring \<Rightarrow> cstring \<Rightarrow> int + byte list list) \<Rightarrow> (u32 \<Rightarrow> int + byte list) \<Rightarrow> u32 option \<Rightarrow> master_session_data \<Rightarrow>
   bool \<Rightarrow> bool \<Rightarrow> int \<Rightarrow> nat \<Rightarrow> u32 \<Rightarrow> bool \<Rightarrow> chat \<Rightarrow> listeners \<Rightarrow> world \<Rightarrow> (chat \<times> listeners \<times> world) res" where
  "InitNetwork os gai sockname sock junk dirty closing junk2 self rnd isServ c ls w =
     (if isServ
      then rbind (startListen os dirty closing junk2 27100 ls) (\<lambda>(r, ls1).
           let c1 = lobby_add self (cstr ''server'') c
           in rbind (resolve gai (cstr ''localhost'') 27100) (\<lambda>(addr, err).
              case addr of
                None \<Rightarrow> Inl NullDeref
              | Some a \<Rightarrow>
                  rbind (registerServer sockname sock junk True a (cstr ''ChatGame'') (cstr ''Type'') False True
                           0x41200000 64 [] [] [] w) (\<lambda>(session, w1).
                    case session of
                      None \<Rightarrow> Inl NullDeref
                    | Some sid \<Rightarrow>
                        Inr (RefreshLobby (RefreshTextField (add_line (cstr ''started as server...'') (c1\<lparr>g_Session := Some sid\<rparr>))), ls1, w1))))
      else let name = cstr ''client:'' @ dec (unat rnd);
               c1 = lobby_add self name c
           in rbind (resolve gai (cstr ''localhost'') 27100) (\<lambda>(addr, err).
              case addr of
                None \<Rightarrow> Inl NullDeref
              | Some a \<Rightarrow>
                  rbind (joinServer sockname sock junk True a (cstr ''ChatGame'') (cstr ''Type'') 0 0x447A0000 0 74 True True
                           (sm_set (cstr ''name'') name []) [] w) (\<lambda>(session, w1).
                    case session of
                      None \<Rightarrow> Inl NullDeref
                    | Some sid \<Rightarrow>
                        Inr (RefreshTextField (add_line (cstr ''joining...'') (c1\<lparr>g_Session := Some sid\<rparr>)), ls, w1))))"

text \<open>What \<open>wWinMain\<close> does after the loop.\<close>

definition chat_end :: "chat \<Rightarrow> world \<Rightarrow> (chat \<times> world) res" where
  "chat_end c w = rbind (disconnectAll w) (\<lambda>(r, w1). Inr (c\<lparr>g_Session := None, m_names := []\<rparr>, w1))"

section \<open>What the windows show\<close>

definition last_lines :: "cstring list \<Rightarrow> cstring list" where
  "last_lines ls = drop (length ls - g_MaxLines) ls"

definition shown_text :: "cstring list \<Rightarrow> cstring" where
  "shown_text ls = c_str (concat (map (\<lambda>l. l @ crlf) (rev ls)))"

lemma trim_lines_eq: "trim_lines ls = last_lines ls"
proof (induction ls rule: trim_lines.induct)
  case (1 ls)
  show ?case
  proof (cases "length ls > g_MaxLines")
    case True
    then obtain a as where "ls = a # as" by (cases ls) auto
    then have "last_lines ls = last_lines (tl ls)" using True by (simp add: last_lines_def Suc_diff_le)
    then show ?thesis using 1 True by (subst trim_lines.simps) simp
  qed (subst trim_lines.simps, simp add: last_lines_def)
qed

lemma lines_down_eq: "n \<le> length ls \<Longrightarrow> lines_down ls n acc = acc @ concat (map (\<lambda>l. l @ crlf) (rev (take n ls)))"
  by (induction n arbitrary: acc) (simp_all add: take_Suc_conv_app_nth)

lemma length_last_lines: "length (last_lines ls) \<le> g_MaxLines"
  by (simp add: last_lines_def)

lemma last_lines_append [simp]: "last_lines (last_lines ls @ ms) = last_lines (ls @ ms)"
  by (cases "length ls \<le> g_MaxLines") (simp_all add: last_lines_def add.commute)

lemma last_lines_idem [simp]: "last_lines (last_lines ls) = last_lines ls"
  by (simp add: last_lines_def)

lemma RefreshTextField_eq: "RefreshTextField c = c\<lparr>g_lines := last_lines (g_lines c), TextField := shown_text (last_lines (g_lines c))\<rparr>"
  by (simp add: RefreshTextField_def trim_lines_eq lines_down_eq shown_text_def Let_def)

text \<open>The text field shows the lines, the newest first, and there are at most twenty of them.\<close>

definition chat_ok :: "chat \<Rightarrow> bool" where
  "chat_ok c \<longleftrightarrow> length (g_lines c) \<le> g_MaxLines \<and> TextField c = shown_text (g_lines c)"

text \<open>The line that an event adds, where it adds one.\<close>

definition event_line :: "chat_event \<Rightarrow> cstring list" where
  "event_line e =
     (case e of
        Connected md ip etp \<Rightarrow> [cstr ''Link '' @ ip @ cstr '' connected.'']
      | Disconnected ip remote reason \<Rightarrow> [cstr ''Link '' @ ip @ cstr '' disconnected (reason: '' @ reasons reason @ cstr '')'']
      | NewHost host \<Rightarrow> [case host of Some ip \<Rightarrow> cstr ''New host in session: '' @ ip | None \<Rightarrow> cstr ''New host in session is US!'']
      | Registered succes \<Rightarrow> [if succes then cstr ''started started!'' else cstr ''started failed to start.'']
      | Joined succes \<Rightarrow> [if succes then cstr ''join succesful!'' else cstr ''join failed.'']
      | ChatCall bs \<Rightarrow> [case read_string bs of Inr (Some m, bs') \<Rightarrow> m | _ \<Rightarrow> []]
      | LobbyCall bs \<Rightarrow> [])"

lemmas chat_simps = RefreshTextField_eq RefreshLobby_def add_line_def lobby_add_def lobby_remove_def

lemma last_lines_short: "length ls \<le> g_MaxLines \<Longrightarrow> last_lines ls = ls"
  by (simp add: last_lines_def)

lemma handle_event_lines:
  assumes "handle_event e c = Inr c'" and "chat_ok c"
  shows "chat_ok c' \<and> g_lines c' = last_lines (g_lines c @ event_line e) \<and> g_Session c' = g_Session c"
  using assms length_last_lines
  by (cases e) (auto simp: handle_event_def chat_ok_def event_line_def onConnect_def onDisconnect_def onNewHost_def onRegistered_def onJoined_def
      rpc_dsr_RpcChat_def RpcChat_def rpc_dsr_RpcChatLobby_def RpcChatLobby_def chat_simps Let_def last_lines_short elim!: resE split: option.splits)

lemma handle_events_lines:
  assumes "handle_events es c = Inr c'" and "chat_ok c"
  shows "chat_ok c' \<and> g_lines c' = last_lines (g_lines c @ concat (map event_line es)) \<and> g_Session c' = g_Session c"
  using assms
proof (induction es arbitrary: c)
  case Nil
  then show ?case by (auto simp: chat_ok_def last_lines_short)
next
  case (Cons e es)
  obtain c1 where c1: "handle_event e c = Inr c1" "handle_events es c1 = Inr c'" using Cons.prems(1) by (auto elim!: resE)
  from handle_event_lines [OF c1(1) Cons.prems(2)] Cons.IH [OF c1(2)] show ?case by simp
qed

lemma SendFinal_lines:
  assumes "SendFinal text c w = Inr (c', w')"
  shows "chat_ok c' \<and> g_lines c' = last_lines (g_lines c @ [c_str text]) \<and> g_Session c' = g_Session c \<and> TextBox c' = TextBox c"
  using assms length_last_lines by (auto simp: SendFinal_def chat_ok_def chat_simps elim!: resE split: option.splits)

text \<open>The line that a window message sends, where it sends one.\<close>

definition sends :: "window_message \<Rightarrow> bool" where
  "sends m \<longleftrightarrow> (case m of WM_KEYDOWN k \<Rightarrow> k = VK_RETURN | WM_COMMAND wmId hid \<Rightarrow> wmId = 2 \<or> hid = 1281 | _ \<Rightarrow> False)"

definition typed_line :: "chat \<Rightarrow> cstring" where
  "typed_line c = c_str (take 2046 (TextBox c))"

lemma Send_lines:
  assumes "Send c w = Inr (c', w')" and "chat_ok c"
  shows "chat_ok c' \<and> g_lines c' = last_lines (g_lines c @ (if typed_line c = [] then [] else [typed_line c])) \<and> TextBox c' = []"
  using assms SendFinal_lines [of "take 2046 (TextBox c)" "c\<lparr>TextBox := []\<rparr>" w c' w']
  by (auto simp: Send_def typed_line_def Let_def chat_ok_def last_lines_short split: if_splits)

lemma WndProc_lines:
  assumes "WndProc m c w = Inr (c', w')" and "chat_ok c" and "m \<noteq> WM_CREATE"
  shows "chat_ok c' \<and> g_lines c' = last_lines (g_lines c @ (if sends m \<and> typed_line c \<noteq> [] then [typed_line c] else []))"
  using assms Send_lines [of c w]
  by (cases m) (auto simp: WndProc_def sends_def chat_ok_def last_lines_short elim!: resE split: if_splits)

lemma dispatch_messages_ok:
  "dispatch_messages ms c w = Inr (c', w') \<Longrightarrow> chat_ok c \<Longrightarrow> WM_CREATE \<notin> set ms \<Longrightarrow> chat_ok c'"
proof (induction ms arbitrary: c w)
  case (Cons m ms)
  obtain c1 w1 where "WndProc m c w = Inr (c1, w1)" "dispatch_messages ms c1 w1 = Inr (c', w')"
    using Cons.prems(1) by (auto elim!: resE)
  then show ?case using WndProc_lines [of m c w c1 w1] Cons.IH [of c1 w1] Cons.prems(2,3) by auto
qed simp

lemma main_round_ok:
  assumes "main_round ms es r rs c w = Inr (c', w')" and "chat_ok c" and "WM_CREATE \<notin> set ms"
  shows "chat_ok c'"
  using assms dispatch_messages_ok handle_events_lines SendFinal_lines
  by (auto simp: main_round_def elim!: resE split: if_splits)

section \<open>The remote calls of the program\<close>

datatype chat_rpc = FChat | FLobby

definition chat_rpcs :: "cstring \<Rightarrow> chat_rpc option" where
  "chat_rpcs name = (if name = cstr ''RpcChat'' then Some FChat else if name = cstr ''RpcChatLobby'' then Some FLobby else None)"

text \<open>\<open>EventRpc::process\<close> calls the function that the event holds.\<close>

definition process_rpc :: "chat_rpc event_rpc \<Rightarrow> chat \<Rightarrow> chat res" where
  "process_rpc e c =
     rbind (EventRpc_process e) (\<lambda>(f, bs, ch). handle_event (case f of FChat \<Rightarrow> ChatCall bs | FLobby \<Rightarrow> LobbyCall bs) c)"

fun process_rpcs :: "chat_rpc event_rpc list \<Rightarrow> chat \<Rightarrow> chat res" where
  "process_rpcs [] c = Inr c"
| "process_rpcs (e # es) c = rbind (process_rpc e c) (process_rpcs es)"

text \<open>The call that \<open>SendFinal\<close> makes: the name of the function and the bytes of its argument.\<close>

definition chat_call :: "cstring \<Rightarrow> cstring \<times> byte list" where
  "chat_call line = (cstr ''RpcChat'', line @ [0])"

lemma performed_chat:
  assumes "performed e = Some (FChat, line @ [0], ch)" and "string_ok line"
  shows "process_rpc e c = Inr (RpcChat line c)"
proof -
  obtain bs k where "EventRpc_process e = Inr (FChat, bs, k)" "bs_inv bs" "unread bs = line @ [0]"
    using assms(1) by (auto simp: performed_def split: sum.splits if_splits)
  then show ?thesis using string_codec.get_ok [of bs line "[]"] assms(2)
    by (simp add: process_rpc_def handle_event_def rpc_dsr_RpcChat_def)
qed

lemma performed_chats:
  assumes "map performed es = concat (map (performed_call chat_rpcs 1) (map chat_call ts))" and "\<forall>t \<in> set ts. string_ok t" and "chat_ok c"
  shows "\<exists>c'. process_rpcs es c = Inr c' \<and> chat_ok c' \<and> g_lines c' = last_lines (g_lines c @ ts)"
  using assms
proof (induction ts arbitrary: es c)
  case Nil
  then show ?case by (auto simp: chat_ok_def last_lines_short)
next
  case (Cons t ts)
  have "performed_call chat_rpcs 1 (chat_call t) = [Some (FChat, t @ [0], 1)]"
    by (simp add: performed_call_def chat_rpcs_def chat_call_def)
  then obtain e es' where es: "es = e # es'" "performed e = Some (FChat, t @ [0], 1)"
    "map performed es' = concat (map (performed_call chat_rpcs 1) (map chat_call ts))"
    using Cons.prems(1) by (auto simp: Cons_eq_map_conv)
  have c1: "chat_ok (RpcChat t c)" "g_lines (RpcChat t c) = last_lines (g_lines c @ [t])"
    using length_last_lines by (auto simp: RpcChat_def chat_simps chat_ok_def)
  then show ?case using performed_chat [OF es(2), of c] Cons.prems(2) Cons.IH [OF es(3) _ c1(1)] es(1) by simp
qed

section \<open>Sending a line\<close>

lemma RpcChat_name: "string_ok (cstr ''RpcChat'')" "length (cstr ''RpcChat'') = 7"
  by (simp_all add: string_ok_def cstr_def TempBuffSize_def)

text \<open>\<open>SendFinal\<close> queues, on every live link of the session, the packets of one remote call.\<close>

lemma SendFinal_ok:
  assumes "g_Session c = Some sid" and "sm_find (w_sessions w) sid = Some s" and "distinct (s_Links s)"
    and "0 \<notin> set line" and "length line \<le> 1885"
  shows "\<exists>c' w' payload data. SendFinal line c w = Inr (c', w') \<and> bs_inv payload \<and> content payload = line @ [0] \<and>
    rpc_packets (cstr ''RpcChat'') payload False False (of_nat 1) = Inr data \<and>
    (\<forall>j. lock w' j = (if j \<in> set (s_Links s) then map_option (\<lambda>l. l\<lparr>l_comps := link_enqueue 1 data (l_comps l)\<rparr>) (lock w j) else lock w j))"
proof -
  have st: "c_str line = line" using assms(4) by (auto simp: c_str_def takeWhile_eq_all_conv)
  have ok: "string_ok line" using assms(4,5) by (simp add: string_ok_def TempBuffSize_def)
  obtain payload where p: "write_string line bs_reset = Inr (True, payload)" "bs_inv payload" "content payload = line @ [0]"
    using string_codec.put_ok [of bs_reset line] ok assms(5) by (auto simp: appended_def max_stream_def)
  have l: "length (cstr ''RpcChat'') + 1 + length (content payload) \<le> 1894" using RpcChat_name(2) p(3) assms(5) by simp
  obtain b where b: "rpc_packets (cstr ''RpcChat'') payload False False 1 = Inr [b]"
    using rpc_packets_ok [OF RpcChat_name(1) p(2) l refl refl] by blast
  then obtain bn where bn: "write_string (cstr ''RpcChat'') bs_reset = Inr (True, bn)"
    "createNormalPacket (comp_byte ReliableSend) packet_RPC [bn, payload] 2 1 False False MM_MAX_FRAGMENTSIZE = Inr [b]"
    by (auto simp: rpc_packets_def checked_def elim!: resE split: if_splits)
  obtain r w' where w': "sendReliable_packets [b] (Some sid) None False 1 w = Inr (r, w')"
    "\<And>j. lock w' j = (if j \<in> set (receivers None w (s_Links s))
       then map_option (\<lambda>l. l\<lparr>l_comps := link_enqueue 1 [b] (l_comps l)\<rparr>) (lock w j) else lock w j)"
    using send_session [OF assms(2), of "[b]" None 1] assms(3) by blast
  have "priv_send_rpc (cstr ''RpcChat'') payload (Some sid) None False False False 1 w = Inr (r, w')"
    using bn w'(1) by (simp add: priv_send_rpc_def sendReliable_serializers_def checked_def)
  then have "SendFinal line c w = Inr (RefreshTextField (add_line line c), w')"
    using assms(1) p(1) st by (simp add: SendFinal_def ser_arg_def)
  moreover have "lock w' j = (if j \<in> set (s_Links s) then map_option (\<lambda>l. l\<lparr>l_comps := link_enqueue 1 [b] (l_comps l)\<rparr>) (lock w j) else lock w j)" for j
    using w'(2) [of j] by (auto simp: receivers_def)
  ultimately show ?thesis using p(2,3) b
    by (intro exI [of _ "RefreshTextField (add_line line c)"] exI [of _ w'] exI [of _ payload] exI [of _ "[b]"]) simp
qed

text \<open>A name is removed only through the pointer it was added with: another object with the same address leaves it.\<close>

lemma lobby_keeps_other_pointer:
  assumes "a \<noteq> b" and "sm_ok (m_names c)"
  shows "sm_find (m_names (onDisconnect ip b reason (onConnect md ip a c))) a \<noteq> None"
  using assms by (simp add: onDisconnect_def onConnect_def chat_simps Let_def sm_laws split: option.split)

section \<open>Properties\<close>



end
