(* ===== verification/Reliable_Test.thy ===== *)
theory Reliable_Test
  imports Link_Pair
begin

text \<open>
  \<open>ReliableTest\<close> of \<open>UnitTest/StreamTests.h\<close>, the test that the test program runs: a host calls \<open>ReliableRpc\<close> with
  the numbers of one sequence for each client and channel, and the handler compares every number that
  arrives with the next one of its sequence. Each client has a pair of links (\<open>Link_Pair\<close>), of which the side
  \<open>True\<close> is the link of the host and the side \<open>False\<close> the link of the client. The counters of the sequences are
  numbers: they stay below the length of the sequences.
\<close>

section \<open>The handler\<close>

text \<open>\<open>vals ct ch\<close> is the sequence of client \<open>ct\<close> and channel \<open>ch\<close>; \<open>links\<close> are the receiving links of the clients.\<close>

fun find_client :: "nat list \<Rightarrow> nat \<Rightarrow> nat \<Rightarrow> nat option" where
  "find_client [] link i = None"
| "find_client (l # ls) link i = (if l = link then Some i else find_client ls link (Suc i))"

definition ReliableRpc ::
  "(nat \<Rightarrow> nat \<Rightarrow> u32 list) \<Rightarrow> nat list \<Rightarrow> nat \<Rightarrow> nat \<Rightarrow> u32 \<Rightarrow> (nat \<Rightarrow> nat \<Rightarrow> nat) \<Rightarrow> (bool \<times> (nat \<Rightarrow> nat \<Rightarrow> nat)) res" where
  "ReliableRpc vals links link channel val received =
     (case find_client links link 0 of
        None \<Rightarrow> Inr (True, received)
      | Some ct \<Rightarrow>
          if received ct channel < length (vals ct channel)
          then Inr (vals ct channel ! received ct channel = val,
                    received(ct := (received ct)(channel := received ct channel + 1)))
          else Inl OutOfBounds)"

definition rpc_dsr_ReliableRpc ::
  "(nat \<Rightarrow> nat \<Rightarrow> u32 list) \<Rightarrow> nat list \<Rightarrow> nat \<Rightarrow> nat \<Rightarrow> bin_serializer \<Rightarrow> (nat \<Rightarrow> nat \<Rightarrow> nat) \<Rightarrow> (bool \<times> (nat \<Rightarrow> nat \<Rightarrow> nat)) res" where
  "rpc_dsr_ReliableRpc vals links link channel bs received =
     rbind (read32 bs) (\<lambda>(v, bs'). ReliableRpc vals links link channel (case v of None \<Rightarrow> 0 | Some x \<Rightarrow> x) received)"

section \<open>The test\<close>

definition test_rpcs :: "cstring \<Rightarrow> unit option" where
  "test_rpcs name = (if name = cstr ''ReliableRpc'' then Some () else None)"

record test_state =
  ts_pair :: "nat \<Rightarrow> unit link_pair"
  ts_sent :: "nat \<Rightarrow> nat \<Rightarrow> nat"
  ts_received :: "nat \<Rightarrow> nat \<Rightarrow> nat"
  ts_taken :: "nat \<Rightarrow> nat \<Rightarrow> nat"

definition test_start :: test_state where
  "test_start = \<lparr>ts_pair = (\<lambda>ct. link_pair_init), ts_sent = (\<lambda>ct ch. 0), ts_received = (\<lambda>ct ch. 0), ts_taken = (\<lambda>ct ch. 0)\<rparr>"

text \<open>The call of the loop: the next number of the sequence.\<close>

definition test_call :: "u32 \<Rightarrow> nat \<Rightarrow> link_component components \<Rightarrow> link_component components res" where
  "test_call v ch m = rbind (ser_arg write32 v bs_reset) (\<lambda>bs. link_callRpc (cstr ''ReliableRpc'') bs False (of_nat ch) m)"

text \<open>The event of a remote call that the client \<open>ct\<close> received.\<close>

definition test_event ::
  "(nat \<Rightarrow> nat \<Rightarrow> u32 list) \<Rightarrow> nat list \<Rightarrow> nat \<Rightarrow> unit event_rpc \<Rightarrow> (nat \<Rightarrow> nat \<Rightarrow> nat) \<Rightarrow> (bool \<times> (nat \<Rightarrow> nat \<Rightarrow> nat)) res" where
  "test_event vals links ct e received =
     rbind (EventRpc_process e) (\<lambda>(f, bs, channel). rpc_dsr_ReliableRpc vals links (links ! ct) (unat channel) bs received)"

definition test_done :: "(nat \<Rightarrow> nat \<Rightarrow> u32 list) \<Rightarrow> nat \<Rightarrow> test_state \<Rightarrow> bool" where
  "test_done vals numClients s \<longleftrightarrow>
     (\<forall>ct < numClients. \<forall>ch < MM_NUM_CHANNELS. ts_received s ct ch = length (vals ct ch))"

inductive test_step :: "(nat \<Rightarrow> nat \<Rightarrow> u32 list) \<Rightarrow> nat list \<Rightarrow> test_state \<Rightarrow> test_state \<Rightarrow> bool" for vals links where
  send: "ct < length links \<Longrightarrow> ch < MM_NUM_CHANNELS \<Longrightarrow> ts_sent s ct ch < length (vals ct ch) \<Longrightarrow> v = vals ct ch ! ts_sent s ct ch \<Longrightarrow>
     p = ts_pair s ct \<Longrightarrow> test_call v ch (lp_comps p True) = Inr m \<Longrightarrow>
     test_step vals links s
       (s\<lparr>ts_pair := (ts_pair s)(ct := p\<lparr>lp_comps := (lp_comps p)(True := m),
            lp_calls := (lp_calls p)(True := (lp_calls p True)(ch := lp_calls p True ch @ [(cstr ''ReliableRpc'', rev (le32 v))]))\<rparr>),
          ts_sent := (ts_sent s)(ct := (ts_sent s ct)(ch := ts_sent s ct ch + 1))\<rparr>)"
| links: "ct < length links \<Longrightarrow> pair_step test_rpcs (ts_pair s ct) p \<Longrightarrow> lp_calls p = lp_calls (ts_pair s ct) \<Longrightarrow>
     test_step vals links s (s\<lparr>ts_pair := (ts_pair s)(ct := p)\<rparr>)"
| event: "ct < length links \<Longrightarrow> ch < MM_NUM_CHANNELS \<Longrightarrow> ts_taken s ct ch < length (lp_events (ts_pair s ct) False ch) \<Longrightarrow>
     test_event vals links ct (lp_events (ts_pair s ct) False ch ! ts_taken s ct ch) (ts_received s) = Inr (ok, received) \<Longrightarrow>
     test_step vals links s (s\<lparr>ts_received := received, ts_taken := (ts_taken s)(ct := (ts_taken s ct)(ch := ts_taken s ct ch + 1))\<rparr>)"

abbreviation test_reach :: "(nat \<Rightarrow> nat \<Rightarrow> u32 list) \<Rightarrow> nat list \<Rightarrow> test_state \<Rightarrow> bool" where
  "test_reach vals links \<equiv> reachable (\<lambda>s. s = test_start) (test_step vals links)"

section \<open>Invariant\<close>

definition reliable_call :: "u32 \<Rightarrow> cstring \<times> byte list" where
  "reliable_call v = (cstr ''ReliableRpc'', rev (le32 v))"

definition seq_ok :: "(nat \<Rightarrow> nat \<Rightarrow> u32 list) \<Rightarrow> test_state \<Rightarrow> nat \<Rightarrow> nat \<Rightarrow> bool" where
  "seq_ok vals s ct ch \<longleftrightarrow> ts_sent s ct ch \<le> length (vals ct ch) \<and>
     lp_calls (ts_pair s ct) True ch = map reliable_call (take (ts_sent s ct ch) (vals ct ch)) \<and>
     ts_received s ct ch = ts_taken s ct ch \<and> ts_taken s ct ch \<le> length (lp_events (ts_pair s ct) False ch)"

definition test_inv :: "(nat \<Rightarrow> nat \<Rightarrow> u32 list) \<Rightarrow> nat list \<Rightarrow> test_state \<Rightarrow> bool" where
  "test_inv vals links s \<longleftrightarrow>
     (\<forall>ct < length links. pair_reach test_rpcs (ts_pair s ct) \<and> (\<forall>ch < MM_NUM_CHANNELS. seq_ok vals s ct ch))"

lemma find_client_nth: "distinct ls \<Longrightarrow> j < length ls \<Longrightarrow> find_client ls (ls ! j) i = Some (i + j)"
  by (induction ls arbitrary: j i) (auto simp: nth_Cons split: nat.split)

lemma performed_reliable:
  "concat (map (performed_call test_rpcs ch) (map reliable_call vs)) = map (\<lambda>v. Some ((), rev (le32 v), ch)) vs"
  by (induction vs) (simp_all add: performed_call_def reliable_call_def test_rpcs_def)

text \<open>The events that arrived are the first numbers of the sequence.\<close>

lemma arrived_events:
  assumes "test_inv vals links s" and "ct < length links" and "ch < MM_NUM_CHANNELS" and "length (vals ct ch) \<le> 2 ^ 30"
  shows "\<exists>k \<le> ts_sent s ct ch. map performed (lp_events (ts_pair s ct) False ch) = map (\<lambda>v. Some ((), rev (le32 v), ch)) (take k (vals ct ch))"
proof -
  let ?p = "ts_pair s ct" and ?n = "ts_sent s ct ch"
  have p: "pair_reach test_rpcs ?p" "seq_ok vals s ct ch" using assms(1-3) by (auto simp: test_inv_def)
  then have c: "lp_calls ?p True ch = map reliable_call (take ?n (vals ct ch))" "?n \<le> length (vals ct ch)" by (simp_all add: seq_ok_def)
  have b: "length (lp_calls ?p True ch) \<le> seq_bound" using c assms(4) by (simp add: seq_bound_def)
  obtain k where k: "k \<le> ?n" "map performed (lp_events ?p False ch) = concat (map (performed_call test_rpcs ch) (take k (lp_calls ?p True ch)))"
    using pair_prefix [OF p(1) assms(3) b] c by auto
  have "map performed (lp_events ?p False ch) = map (\<lambda>v. Some ((), rev (le32 v), ch)) (take k (vals ct ch))"
    using k c by (simp add: take_map min_def performed_reliable del: map_map)
  with k(1) show ?thesis by blast
qed

lemma next_event:
  assumes "test_inv vals links s" and "ct < length links" and "ch < MM_NUM_CHANNELS" and "length (vals ct ch) \<le> 2 ^ 30" and "distinct links"
    and "ts_taken s ct ch < length (lp_events (ts_pair s ct) False ch)"
  shows "test_event vals links ct (lp_events (ts_pair s ct) False ch ! ts_taken s ct ch) (ts_received s) =
    Inr (True, (ts_received s)(ct := (ts_received s ct)(ch := ts_received s ct ch + 1)))"
proof -
  let ?j = "ts_taken s ct ch" and ?es = "lp_events (ts_pair s ct) False ch"
  obtain k where k: "map performed ?es = map (\<lambda>v. Some ((), rev (le32 v), ch)) (take k (vals ct ch))"
    using arrived_events [OF assms(1-4)] by blast
  have len: "length ?es = min (length (vals ct ch)) k" using arg_cong [OF k, of length] by simp
  then have j: "?j < length (vals ct ch)" "?j < k" using assms(6) by auto
  have "performed (?es ! ?j) = Some ((), rev (le32 (vals ct ch ! ?j)), ch)"
    using arg_cong [OF k, of "\<lambda>xs. xs ! ?j"] assms(6) j by simp
  then obtain bs c where e: "EventRpc_process (?es ! ?j) = Inr ((), bs, c)" "bs_inv bs" "unread bs = rev (le32 (vals ct ch ! ?j))" "unat c = ch"
    by (auto simp: performed_def split: sum.splits if_splits)
  have r: "read32 bs = Inr (Some (vals ct ch ! ?j), advance 4 bs)" using u32_codec.get_ok [of bs "vals ct ch ! ?j" "[]"] e(2,3) by simp
  have "ts_received s ct ch = ?j" using assms(1-3) by (simp add: test_inv_def seq_ok_def)
  then show ?thesis using e(1,4) r j(1) find_client_nth [OF assms(5,2), of 0]
    by (simp add: test_event_def rpc_dsr_ReliableRpc_def ReliableRpc_def)
qed

text \<open>A call of the loop always succeeds, and it is a call of the pair.\<close>

lemma ReliableRpc_name: "string_ok (cstr ''ReliableRpc'')" "length (cstr ''ReliableRpc'') = 11"
  by (simp_all add: string_ok_def cstr_def TempBuffSize_def)

lemma unat_channel: "ch < MM_NUM_CHANNELS \<Longrightarrow> unat (of_nat ch :: byte) = ch"
  by (simp add: MM_NUM_CHANNELS_def unat_of_nat take_bit_nat_eq_self)

lemma test_call_ok:
  assumes "ch < MM_NUM_CHANNELS"
  shows "\<exists>m. test_call v ch (lp_comps p True) = Inr m \<and>
    pair_step test_rpcs p (p\<lparr>lp_comps := (lp_comps p)(True := m),
      lp_calls := (lp_calls p)(True := (lp_calls p True)(ch := lp_calls p True ch @ [(cstr ''ReliableRpc'', rev (le32 v))]))\<rparr>)"
proof -
  obtain bs where bs: "write32 v bs_reset = Inr (True, bs)" "bs_inv bs" "content bs = rev (le32 v)"
    using u32_codec.put_ok [of bs_reset v] by (auto simp: appended_def max_stream_def)
  have l: "length (cstr ''ReliableRpc'') + 1 + length (content bs) \<le> 1894" using ReliableRpc_name(2) bs(3) by simp
  obtain b where b: "rpc_packets (cstr ''ReliableRpc'') bs False True (of_nat ch) = Inr [b]"
    using rpc_packets_ok [OF ReliableRpc_name(1) bs(2) l refl refl] by blast
  then have "test_call v ch (lp_comps p True) = Inr (link_enqueue ch [b] (lp_comps p True))"
    using bs(1) unat_channel [OF assms] by (simp add: test_call_def ser_arg_def link_callRpc_def)
  moreover note pair_step.call [where x = True and sys = True and s = p, OF ReliableRpc_name(1) bs(2) l assms b, of test_rpcs]
  ultimately show ?thesis using bs(3) by auto
qed

lemma pair_step_events: "pair_step rpcs s t \<Longrightarrow> \<exists>es. lp_events t x ch = lp_events s x ch @ es"
  by (cases rule: pair_step.cases) auto

locale reliable_sequences =
  fixes vals :: "nat \<Rightarrow> nat \<Rightarrow> u32 list" and links :: "nat list"
  assumes distinct_links: "distinct links"
    and short: "ct < length links \<Longrightarrow> ch < MM_NUM_CHANNELS \<Longrightarrow> length (vals ct ch) \<le> 2 ^ 30"
begin

lemma inv_send:
  assumes "test_inv vals links s" and "ct < length links" and "ch < MM_NUM_CHANNELS" and "ts_sent s ct ch < length (vals ct ch)"
    and "v = vals ct ch ! ts_sent s ct ch" and "p = ts_pair s ct" and "test_call v ch (lp_comps p True) = Inr m"
  shows "test_inv vals links
    (s\<lparr>ts_pair := (ts_pair s)(ct := p\<lparr>lp_comps := (lp_comps p)(True := m),
         lp_calls := (lp_calls p)(True := (lp_calls p True)(ch := lp_calls p True ch @ [(cstr ''ReliableRpc'', rev (le32 v))]))\<rparr>),
       ts_sent := (ts_sent s)(ct := (ts_sent s ct)(ch := ts_sent s ct ch + 1))\<rparr>)" (is "test_inv _ _ ?t")
proof -
  have r: "pair_reach test_rpcs (ts_pair ?t ct)"
    using reachable.more [of "\<lambda>s. s = link_pair_init" "pair_step test_rpcs" p] test_call_ok [OF assms(3), of v p] assms(1,2,6,7)
    by (auto simp: test_inv_def)
  have "seq_ok vals ?t ct' ch'" if "ct' < length links" "ch' < MM_NUM_CHANNELS" for ct' ch'
  proof -
    have "seq_ok vals s ct' ch'" using that assms(1) by (simp add: test_inv_def)
    then show ?thesis using assms(4-6)
      by (cases "ct' = ct \<and> ch' = ch") (auto simp: seq_ok_def take_Suc_conv_app_nth reliable_call_def)
  qed
  then show ?thesis using r assms(1) by (auto simp: test_inv_def)
qed

lemma inv_links:
  assumes "test_inv vals links s" and "ct < length links" and "pair_step test_rpcs (ts_pair s ct) p" and "lp_calls p = lp_calls (ts_pair s ct)"
  shows "test_inv vals links (s\<lparr>ts_pair := (ts_pair s)(ct := p)\<rparr>)"
proof -
  have "pair_reach test_rpcs p" using assms(1-3) reachable.more by (fastforce simp: test_inv_def)
  moreover have "length (lp_events (ts_pair s ct) False ch) \<le> length (lp_events p False ch)" for ch
    using pair_step_events [OF assms(3), of False ch] by auto
  then have "seq_ok vals (s\<lparr>ts_pair := (ts_pair s)(ct := p)\<rparr>) ct' ch" if "seq_ok vals s ct' ch" for ct' ch
    using that assms(4) by (auto simp: seq_ok_def intro: le_trans)
  ultimately show ?thesis using assms(1) by (auto simp: test_inv_def)
qed

lemma inv_event:
  assumes "test_inv vals links s" and "ct < length links" and "ch < MM_NUM_CHANNELS"
    and "ts_taken s ct ch < length (lp_events (ts_pair s ct) False ch)"
  shows "test_inv vals links
    (s\<lparr>ts_received := (ts_received s)(ct := (ts_received s ct)(ch := ts_received s ct ch + 1)),
       ts_taken := (ts_taken s)(ct := (ts_taken s ct)(ch := ts_taken s ct ch + 1))\<rparr>)"
  using assms by (auto simp: test_inv_def seq_ok_def)

lemma event_result:
  assumes "test_inv vals links s" and "ct < length links" and "ch < MM_NUM_CHANNELS"
    and "ts_taken s ct ch < length (lp_events (ts_pair s ct) False ch)"
  shows "test_event vals links ct (lp_events (ts_pair s ct) False ch ! ts_taken s ct ch) (ts_received s) =
    Inr (True, (ts_received s)(ct := (ts_received s ct)(ch := ts_received s ct ch + 1)))"
  using next_event [OF assms(1-3) short [OF assms(2,3)] distinct_links assms(4)] .

lemma inv_step:
  assumes "test_step vals links s t" and "test_inv vals links s"
  shows "test_inv vals links t"
  using assms
proof cases
  case (send ct ch v p m)
  then show ?thesis using inv_send [OF assms(2)] by blast
next
  case (links ct p)
  then show ?thesis using inv_links [OF assms(2)] by blast
next
  case (event ct ch ok received)
  then have "received = (ts_received s)(ct := (ts_received s ct)(ch := ts_received s ct ch + 1))"
    using event_result [OF assms(2) event(2-4)] by simp
  then show ?thesis using inv_event [OF assms(2) event(2-4)] event(1) by simp
qed

end

sublocale reliable_sequences \<subseteq> test: state_machine "\<lambda>s. s = test_start" "test_step vals links" "test_inv vals links"
proof
  show "test_inv vals links s" if "s = test_start" for s
    using that by (auto simp: test_inv_def seq_ok_def test_start_def link_pair_init_def intro: reachable_self)
qed (rule inv_step)

section \<open>The test can finish\<close>

lemma pair_step_calls:
  assumes "pair_step rpcs s t"
  shows "length (lp_calls s x ch) \<le> length (lp_calls t x ch)"
    and "(\<forall>x ch. length (lp_calls t x ch) = length (lp_calls s x ch)) \<Longrightarrow> lp_calls t = lp_calls s"
proof -
  show "length (lp_calls s x ch) \<le> length (lp_calls t x ch)" using assms by (cases rule: pair_step.cases) auto
  assume e: "\<forall>x ch. length (lp_calls t x ch) = length (lp_calls s x ch)"
  show "lp_calls t = lp_calls s" using assms
  proof (cases rule: pair_step.cases)
    case (call nm payload ch sys data x)
    then show ?thesis using e [rule_format, of x ch] by simp
  qed simp_all
qed

text \<open>Steps after which the calls are the same are steps without calls.\<close>

lemma quiet_steps:
  assumes "(pair_step rpcs)\<^sup>*\<^sup>* s t" and "lp_calls t = lp_calls s"
  shows "(\<lambda>a b. pair_step rpcs a b \<and> lp_calls b = lp_calls a)\<^sup>*\<^sup>* s t"
  using assms
proof (induction rule: converse_rtranclp_induct)
  case (step s u)
  have mono: "length (lp_calls u x ch) \<le> length (lp_calls t x ch)" for x ch
    using step.hyps(2) by (induction rule: rtranclp_induct) (auto intro: le_trans pair_step_calls(1))
  have "length (lp_calls u x ch) = length (lp_calls s x ch)" for x ch
    using mono [of x ch] pair_step_calls(1) [OF step.hyps(1), of x ch] step.prems by simp
  then have "lp_calls u = lp_calls s" using pair_step_calls(2) [OF step.hyps(1)] by simp
  then show ?case using step.hyps(1) step.IH step.prems by (simp add: converse_rtranclp_into_rtranclp)
qed simp

context reliable_sequences
begin

lemma links_steps:
  assumes "(\<lambda>a b. pair_step test_rpcs a b \<and> lp_calls b = lp_calls a)\<^sup>*\<^sup>* (ts_pair s ct) p" and "ct < length links"
  shows "(test_step vals links)\<^sup>*\<^sup>* s (s\<lparr>ts_pair := (ts_pair s)(ct := p)\<rparr>)"
  using assms
proof (induction rule: rtranclp_induct)
  case (step p q)
  let ?t = "s\<lparr>ts_pair := (ts_pair s)(ct := p)\<rparr>"
  have "test_step vals links ?t (?t\<lparr>ts_pair := (ts_pair ?t)(ct := q)\<rparr>)" by (rule test_step.links) (use step in simp_all)
  moreover have "?t\<lparr>ts_pair := (ts_pair ?t)(ct := q)\<rparr> = s\<lparr>ts_pair := (ts_pair s)(ct := q)\<rparr>" by simp
  ultimately have "test_step vals links ?t (s\<lparr>ts_pair := (ts_pair s)(ct := q)\<rparr>)" by (simp only:)
  with step.IH [OF step.prems] show ?case by (rule rtranclp.rtrancl_into_rtrancl)
qed simp

lemma send_one:
  assumes "ct < length links" and "ch < MM_NUM_CHANNELS" and "ts_sent s ct ch < length (vals ct ch)"
  shows "\<exists>u. test_step vals links s u \<and> ts_sent u ct ch = Suc (ts_sent s ct ch) \<and> ts_received u = ts_received s"
proof -
  let ?v = "vals ct ch ! ts_sent s ct ch" and ?p = "ts_pair s ct"
  obtain m where m: "test_call ?v ch (lp_comps ?p True) = Inr m" using test_call_ok [OF assms(2)] by blast
  from test_step.send [where vals = vals and s = s and v = ?v and p = ?p, OF assms refl refl m] show ?thesis by force
qed

lemma event_one:
  assumes "test_inv vals links s" and "ct < length links" and "ch < MM_NUM_CHANNELS"
    and "ts_taken s ct ch < length (lp_events (ts_pair s ct) False ch)"
  shows "\<exists>u. test_step vals links s u \<and> ts_taken u ct ch = Suc (ts_taken s ct ch) \<and> ts_pair u = ts_pair s"
  using test_step.event [where vals = vals and s = s, OF assms(2-4) event_result [OF assms]] by force

lemma send_all:
  assumes "test_inv vals links s" and "ct < length links" and "ch < MM_NUM_CHANNELS"
  shows "\<exists>t. (test_step vals links)\<^sup>*\<^sup>* s t \<and> ts_sent t ct ch = length (vals ct ch) \<and> ts_received t = ts_received s"
  using assms(1)
proof (induction "length (vals ct ch) - ts_sent s ct ch" arbitrary: s)
  case 0
  have "seq_ok vals s ct ch" using 0 assms(2,3) by (simp add: test_inv_def)
  then have "ts_sent s ct ch = length (vals ct ch)" using 0 by (simp add: seq_ok_def)
  then show ?case by blast
next
  case (Suc n)
  then have lt: "ts_sent s ct ch < length (vals ct ch)" by simp
  from send_one [where s = s, OF assms(2,3) lt] obtain u where
    u: "test_step vals links s u" "ts_sent u ct ch = Suc (ts_sent s ct ch)" "ts_received u = ts_received s" by blast
  have "n = length (vals ct ch) - ts_sent u ct ch" using Suc.hyps(2) u(2) by simp
  from Suc.hyps(1) [OF this inv_step [OF u(1) Suc.prems]] obtain t where
    "(test_step vals links)\<^sup>*\<^sup>* u t" "ts_sent t ct ch = length (vals ct ch)" "ts_received t = ts_received u" by blast
  then show ?case using converse_rtranclp_into_rtranclp [of "test_step vals links" s u t] u(1,3) by auto
qed

lemma take_all:
  assumes "test_inv vals links s" and "ct < length links" and "ch < MM_NUM_CHANNELS"
  shows "\<exists>t. (test_step vals links)\<^sup>*\<^sup>* s t \<and> ts_received t ct ch = length (lp_events (ts_pair s ct) False ch)"
  using assms(1)
proof (induction "length (lp_events (ts_pair s ct) False ch) - ts_taken s ct ch" arbitrary: s)
  case 0
  have "seq_ok vals s ct ch" using 0 assms(2,3) by (simp add: test_inv_def)
  then have "ts_received s ct ch = length (lp_events (ts_pair s ct) False ch)" using 0 by (simp add: seq_ok_def)
  then show ?case by blast
next
  case (Suc n)
  then have lt: "ts_taken s ct ch < length (lp_events (ts_pair s ct) False ch)" by simp
  from event_one [OF Suc.prems assms(2,3) lt] obtain u where
    u: "test_step vals links s u" "ts_taken u ct ch = Suc (ts_taken s ct ch)" "ts_pair u = ts_pair s" by blast
  have "n = length (lp_events (ts_pair u ct) False ch) - ts_taken u ct ch" using Suc.hyps(2) u(2,3) by simp
  from Suc.hyps(1) [OF this inv_step [OF u(1) Suc.prems]] obtain t where
    "(test_step vals links)\<^sup>*\<^sup>* u t" "ts_received t ct ch = length (lp_events (ts_pair u ct) False ch)" by blast
  then show ?case using converse_rtranclp_into_rtranclp [of "test_step vals links" s u t] u(1,3) by auto
qed

lemma deliver_all:
  assumes "test_inv vals links s" and "ct < length links" and "ch < MM_NUM_CHANNELS" and "ts_sent s ct ch = length (vals ct ch)"
  shows "\<exists>t. (test_step vals links)\<^sup>*\<^sup>* s t \<and> length (lp_events (ts_pair t ct) False ch) = length (vals ct ch)"
proof -
  let ?p = "ts_pair s ct"
  have p: "pair_reach test_rpcs ?p" "lp_calls ?p True ch = map reliable_call (vals ct ch)"
    using assms by (auto simp: test_inv_def seq_ok_def)
  then obtain q where q: "(pair_step test_rpcs)\<^sup>*\<^sup>* ?p q" "lp_calls q = lp_calls ?p"
    "map performed (lp_events q False ch) = concat (map (performed_call test_rpcs ch) (map reliable_call (vals ct ch)))"
    using pair_deliver [OF p(1) _ assms(3), of True] short [OF assms(2,3)] by auto
  have "length (lp_events q False ch) = length (vals ct ch)" using arg_cong [OF q(3), of length] by (simp add: performed_reliable del: map_map)
  then show ?thesis using links_steps [OF quiet_steps [OF q(1,2)] assms(2)] by auto
qed

lemma complete_one:
  assumes "test_inv vals links s" and "ct < length links" and "ch < MM_NUM_CHANNELS"
  shows "\<exists>t. (test_step vals links)\<^sup>*\<^sup>* s t \<and> ts_received t ct ch = length (vals ct ch)"
proof -
  obtain a where a: "(test_step vals links)\<^sup>*\<^sup>* s a" "ts_sent a ct ch = length (vals ct ch)" using send_all [OF assms] by blast
  note ia = test.inv_steps [OF a(1) assms(1)]
  obtain b where b: "(test_step vals links)\<^sup>*\<^sup>* a b" "length (lp_events (ts_pair b ct) False ch) = length (vals ct ch)"
    using deliver_all [OF ia assms(2,3) a(2)] by blast
  obtain c where c: "(test_step vals links)\<^sup>*\<^sup>* b c" "ts_received c ct ch = length (vals ct ch)"
    using take_all [OF test.inv_steps [OF b(1) ia] assms(2,3)] b(2) by auto
  show ?thesis using a(1) b(1) c by (meson rtranclp_trans)
qed

lemma received_mono:
  assumes "test_step vals links s t" and "test_inv vals links s"
  shows "ts_received s ct ch \<le> ts_received t ct ch"
  using assms
proof cases
  case (event c k ok received)
  then have "received = (ts_received s)(c := (ts_received s c)(k := ts_received s c k + 1))"
    using event_result [OF assms(2) event(2-4)] by simp
  then show ?thesis using event(1) by simp
qed simp_all

lemma received_steps:
  "(test_step vals links)\<^sup>*\<^sup>* s t \<Longrightarrow> test_inv vals links s \<Longrightarrow> ts_received s ct ch \<le> ts_received t ct ch"
proof (induction rule: rtranclp_induct)
  case (step t u)
  then show ?case using received_mono [OF step.hyps(2) test.inv_steps [OF step.hyps(1)], of ct ch] by simp
qed simp

lemma received_le:
  assumes "test_inv vals links s" and "ct < length links" and "ch < MM_NUM_CHANNELS"
  shows "ts_received s ct ch \<le> length (vals ct ch)"
proof -
  obtain k where "map performed (lp_events (ts_pair s ct) False ch) = map (\<lambda>v. Some ((), rev (le32 v), ch)) (take k (vals ct ch))"
    using arrived_events [OF assms short [OF assms(2,3)]] by blast
  from arg_cong [OF this, of length] have "length (lp_events (ts_pair s ct) False ch) \<le> length (vals ct ch)" by simp
  moreover have "seq_ok vals s ct ch" using assms by (simp add: test_inv_def)
  ultimately show ?thesis by (simp add: seq_ok_def)
qed

lemma complete_list:
  assumes "test_inv vals links s" and "\<forall>(ct, ch) \<in> set cs. ct < length links \<and> ch < MM_NUM_CHANNELS"
  shows "\<exists>t. (test_step vals links)\<^sup>*\<^sup>* s t \<and> (\<forall>(ct, ch) \<in> set cs. ts_received t ct ch = length (vals ct ch))"
  using assms
proof (induction cs arbitrary: s)
  case (Cons c cs)
  obtain ct ch where c: "c = (ct, ch)" "ct < length links" "ch < MM_NUM_CHANNELS" using Cons.prems(2) by auto
  obtain a where a: "(test_step vals links)\<^sup>*\<^sup>* s a" "ts_received a ct ch = length (vals ct ch)" using complete_one [OF Cons.prems(1) c(2,3)] by blast
  note ia = test.inv_steps [OF a(1) Cons.prems(1)]
  obtain t where t: "(test_step vals links)\<^sup>*\<^sup>* a t" "\<forall>(ct, ch) \<in> set cs. ts_received t ct ch = length (vals ct ch)"
    using Cons.IH [OF ia] Cons.prems(2) by auto
  have "ts_received t ct ch = length (vals ct ch)"
    using received_steps [OF t(1) ia, of ct ch] received_le [OF test.inv_steps [OF t(1) ia] c(2,3)] a(2) by simp
  with t(2) c(1) a(1) t(1) show ?case by (intro exI [of _ t]) (auto intro: rtranclp_trans)
qed auto

lemma finish:
  assumes "test_inv vals links s"
  shows "\<exists>t. (test_step vals links)\<^sup>*\<^sup>* s t \<and> test_done vals (length links) t"
proof -
  let ?cs = "List.product [0 ..< length links] [0 ..< MM_NUM_CHANNELS]"
  obtain t where "(test_step vals links)\<^sup>*\<^sup>* s t" "\<forall>(ct, ch) \<in> set ?cs. ts_received t ct ch = length (vals ct ch)"
    using complete_list [OF assms, of ?cs] by auto
  then show ?thesis by (intro exI [of _ t]) (auto simp: test_done_def)
qed

end

section \<open>The sizes of the test\<close>

definition numClients :: nat where "numClients = 10"

definition numPacks :: nat where "numPacks = 100000"

text \<open>\<open>rnd ct ch j\<close> is the value that \<open>Util::rand\<close> returned for number \<open>j\<close> of the sequence.\<close>

definition test_vals :: "(nat \<Rightarrow> nat \<Rightarrow> nat \<Rightarrow> u32) \<Rightarrow> nat \<Rightarrow> nat \<Rightarrow> u32 list" where
  "test_vals rnd ct ch = map (rnd ct ch) [0 ..< numPacks]"

interpretation rt: reliable_sequences "test_vals rnd" "[0 ..< numClients]" for rnd
  by unfold_locales (simp_all add: test_vals_def numPacks_def)

section \<open>Properties\<close>



end
