(* ===== verification/Packet_Memory.thy ===== *)
theory Packet_Memory
  imports Traced_Memory
begin

text \<open>
  The data of a received packet: \<open>RecvPacket\<close> of \<open>PacketHelper.cpp\<close> owns an array from \<open>reserveN\<close>. Its constructors,
  assignments and destructor are modelled on a memory of arrays with the record of allocations of
  \<open>Traced_Memory\<close>; a second deletion and an access to a deleted array are errors.
\<close>

section \<open>Arrays\<close>

record array_memory =
  am_record :: memory
  am_arrays :: "nat \<rightharpoonup> byte list"

text \<open>\<open>reserveN\<close> and \<open>releaseN\<close>; \<open>p\<close> is the address that \<open>calloc\<close> returned.\<close>

definition reserveN :: "nat \<Rightarrow> memory_footprint \<Rightarrow> nat \<Rightarrow> array_memory \<Rightarrow> array_memory" where
  "reserveN p fp len h = h\<lparr>am_record := doAllocN p fp (am_record h), am_arrays := (am_arrays h)(p \<mapsto> replicate len 0)\<rparr>"

definition releaseN :: "nat option \<Rightarrow> array_memory \<Rightarrow> memory_error + array_memory" where
  "releaseN p h =
     (case p of
        None \<Rightarrow> Inr h
      | Some a \<Rightarrow>
          if am_arrays h a = None then Inl DoubleDelete
          else Inr (h\<lparr>am_record := doDeleteN (Some a) (am_record h), am_arrays := (am_arrays h)(a := None)\<rparr>))"

text \<open>\<open>memCpy\<close> of the first \<open>len\<close> bytes from one array to another.\<close>

definition array_copy :: "nat option \<Rightarrow> nat option \<Rightarrow> nat \<Rightarrow> array_memory \<Rightarrow> memory_error + array_memory" where
  "array_copy dst src len h =
     (if len = 0 then Inr h
      else case (dst, src) of
             (Some d, Some s) \<Rightarrow>
               (case (am_arrays h d, am_arrays h s) of
                  (Some bd, Some bs) \<Rightarrow>
                    if len \<le> length bd \<and> len \<le> length bs
                    then Inr (h\<lparr>am_arrays := (am_arrays h)(d \<mapsto> take len bs @ drop len bd)\<rparr>)
                    else Inl UseAfterFree
                | _ \<Rightarrow> Inl UseAfterFree)
           | _ \<Rightarrow> Inl UseAfterFree)"

section \<open>Packets\<close>

record packet_object =
  pk_Id :: byte
  pk_Data :: "nat option"
  pk_Length :: u32
  pk_Flags :: byte

text \<open>The constructor from bytes with \<open>copy\<close> set; \<open>data\<close> are the first \<open>len\<close> bytes of the source.\<close>

definition pk_new :: "nat \<Rightarrow> memory_footprint \<Rightarrow> byte \<Rightarrow> byte list \<Rightarrow> byte \<Rightarrow> array_memory \<Rightarrow> packet_object \<times> array_memory" where
  "pk_new p fp i data fl h =
     (let h1 = reserveN p fp (length data) h
      in (\<lparr>pk_Id = i, pk_Data = Some p, pk_Length = of_nat (length data), pk_Flags = fl\<rparr>, h1\<lparr>am_arrays := (am_arrays h1)(p \<mapsto> data)\<rparr>))"

text \<open>The constructor for a length: the array is zero.\<close>

definition pk_zero :: "nat \<Rightarrow> memory_footprint \<Rightarrow> byte \<Rightarrow> u32 \<Rightarrow> byte \<Rightarrow> array_memory \<Rightarrow> packet_object \<times> array_memory" where
  "pk_zero p fp i len fl h = (\<lparr>pk_Id = i, pk_Data = Some p, pk_Length = len, pk_Flags = fl\<rparr>, reserveN p fp (unat len) h)"

definition pk_copy :: "nat \<Rightarrow> memory_footprint \<Rightarrow> packet_object \<Rightarrow> array_memory \<Rightarrow> memory_error + packet_object \<times> array_memory" where
  "pk_copy p fp k h =
     (case array_copy (Some p) (pk_Data k) (unat (pk_Length k)) (reserveN p fp (unat (pk_Length k)) h) of
        Inl e \<Rightarrow> Inl e
      | Inr h1 \<Rightarrow> Inr (k\<lparr>pk_Data := Some p\<rparr>, h1))"

text \<open>The new packet and what is left of the moved one.\<close>

definition pk_move :: "packet_object \<Rightarrow> packet_object \<times> packet_object" where
  "pk_move k = (k, k\<lparr>pk_Data := None\<rparr>)"

text \<open>The assignment of \<open>k\<close> to \<open>this\<close>. With \<open>self\<close> both are the same object, so the array is released and
  replaced before it is read.\<close>

definition pk_assign ::
  "bool \<Rightarrow> nat \<Rightarrow> memory_footprint \<Rightarrow> packet_object \<Rightarrow> packet_object \<Rightarrow> array_memory \<Rightarrow> memory_error + packet_object \<times> array_memory" where
  "pk_assign self p fp this k h =
     (case releaseN (pk_Data this) h of
        Inl e \<Rightarrow> Inl e
      | Inr h1 \<Rightarrow>
          (case array_copy (Some p) (if self then Some p else pk_Data k) (unat (pk_Length k)) (reserveN p fp (unat (pk_Length k)) h1) of
             Inl e \<Rightarrow> Inl e
           | Inr h2 \<Rightarrow> Inr (k\<lparr>pk_Data := Some p\<rparr>, h2)))"

text \<open>The move assignment copies the fields over \<open>this\<close>.\<close>

definition pk_move_assign :: "packet_object \<Rightarrow> packet_object \<Rightarrow> packet_object \<times> packet_object" where
  "pk_move_assign this k = (k, k\<lparr>pk_Data := None\<rparr>)"

definition pk_destroy :: "packet_object \<Rightarrow> array_memory \<Rightarrow> memory_error + array_memory" where
  "pk_destroy k h = releaseN (pk_Data k) h"

section \<open>Programs\<close>

text \<open>A program holds packets in variables. New arrays get addresses that are not in use.\<close>

record packets =
  ps_mem :: array_memory
  ps_vars :: "nat \<rightharpoonup> packet_object"

definition packets_start :: packets where
  "packets_start = \<lparr>ps_mem = \<lparr>am_record = \<lparr>m_Memory = [], m_objects = []\<rparr>, am_arrays = Map.empty\<rparr>, ps_vars = Map.empty\<rparr>"

inductive packets_step :: "packets \<Rightarrow> packets \<Rightarrow> bool" where
  make: "ps_vars s v = None \<Longrightarrow> am_arrays (ps_mem s) p = None \<Longrightarrow> length data < 2 ^ 32 \<Longrightarrow> pk_new p fp i data fl (ps_mem s) = (k, h) \<Longrightarrow>
     packets_step s (s\<lparr>ps_mem := h, ps_vars := (ps_vars s)(v \<mapsto> k)\<rparr>)"
| make_zero: "ps_vars s v = None \<Longrightarrow> am_arrays (ps_mem s) p = None \<Longrightarrow> pk_zero p fp i len fl (ps_mem s) = (k, h) \<Longrightarrow>
     packets_step s (s\<lparr>ps_mem := h, ps_vars := (ps_vars s)(v \<mapsto> k)\<rparr>)"
| copy: "ps_vars s v = None \<Longrightarrow> ps_vars s u = Some k \<Longrightarrow> pk_Data k \<noteq> None \<Longrightarrow> am_arrays (ps_mem s) p = None \<Longrightarrow>
     pk_copy p fp k (ps_mem s) = Inr (k', h) \<Longrightarrow>
     packets_step s (s\<lparr>ps_mem := h, ps_vars := (ps_vars s)(v \<mapsto> k')\<rparr>)"
| move: "ps_vars s v = None \<Longrightarrow> ps_vars s u = Some k \<Longrightarrow> pk_move k = (k1, k2) \<Longrightarrow>
     packets_step s (s\<lparr>ps_vars := (ps_vars s)(v \<mapsto> k1, u \<mapsto> k2)\<rparr>)"
| assign: "ps_vars s v = Some k0 \<Longrightarrow> ps_vars s u = Some k \<Longrightarrow> u \<noteq> v \<Longrightarrow> pk_Data k \<noteq> None \<Longrightarrow>
     am_arrays (ps_mem s) p = None \<Longrightarrow> pk_assign False p fp k0 k (ps_mem s) = Inr (k', h) \<Longrightarrow>
     packets_step s (s\<lparr>ps_mem := h, ps_vars := (ps_vars s)(v \<mapsto> k')\<rparr>)"
| destroy: "ps_vars s v = Some k \<Longrightarrow> pk_destroy k (ps_mem s) = Inr h \<Longrightarrow>
     packets_step s (s\<lparr>ps_mem := h, ps_vars := (ps_vars s)(v := None)\<rparr>)"

abbreviation packets_reach :: "packets \<Rightarrow> bool" where
  "packets_reach \<equiv> reachable (\<lambda>s. s = packets_start) packets_step"

section \<open>Invariant\<close>

text \<open>The arrays are exactly those of the packets, each has one owner and the length that its packet says, and they
  are the ones in the record.\<close>

definition owners :: "(nat \<rightharpoonup> packet_object) \<Rightarrow> nat set" where
  "owners vs = {p. \<exists>v k. vs v = Some k \<and> pk_Data k = Some p}"

definition owned :: "array_memory \<Rightarrow> (nat \<rightharpoonup> packet_object) \<Rightarrow> bool" where
  "owned h vs \<longleftrightarrow>
     (\<forall>v k p. vs v = Some k \<longrightarrow> pk_Data k = Some p \<longrightarrow> (\<exists>bs. am_arrays h p = Some bs \<and> length bs = unat (pk_Length k))) \<and>
     (\<forall>u v k l p. vs u = Some k \<longrightarrow> vs v = Some l \<longrightarrow> pk_Data k = Some p \<longrightarrow> pk_Data l = Some p \<longrightarrow> u = v) \<and>
     dom (am_arrays h) = owners vs \<and> sm_ok (m_Memory (am_record h)) \<and> traced (am_record h) = dom (am_arrays h)"

definition packets_inv :: "packets \<Rightarrow> bool" where
  "packets_inv s \<longleftrightarrow> owned (ps_mem s) (ps_vars s)"

lemma alloc_facts:
  assumes "sm_ok (m_Memory m)"
  shows "sm_ok (m_Memory (doAllocN p fp m))" "traced (doAllocN p fp m) = insert p (traced m)"
    "sm_ok (m_Memory (doDeleteN (Some p) m))" "traced (doDeleteN (Some p) m) = traced m - {p}"
  using trace_void_facts [OF assms, of p fp] untrace_facts [OF assms, of p] by (simp_all add: doAllocN_def doDeleteN_def untrace_def)

lemma owned_add:
  assumes "owned h0 vs" and "vs v = None" and "am_arrays h0 p = None" and "pk_Data k = Some p"
    and "am_arrays h = (am_arrays h0)(p \<mapsto> bs)" and "length bs = unat (pk_Length k)" and "am_record h = doAllocN p fp (am_record h0)"
  shows "owned h (vs(v \<mapsto> k))"
proof -
  have ok: "sm_ok (m_Memory (am_record h0))" "traced (am_record h0) = dom (am_arrays h0)" "dom (am_arrays h0) = owners vs"
    using assms(1) by (simp_all add: owned_def)
  have fresh: "pk_Data l \<noteq> Some p" if "vs u = Some l" for u l using that assms(3) ok(3) by (auto simp: owners_def)
  have "owners (vs(v \<mapsto> k)) = insert p (owners vs)"
    using assms(2,4) by (auto simp: owners_def split: if_splits) (metis option.distinct(1))+
  then show ?thesis using assms fresh alloc_facts(1,2) [OF ok(1), of p fp] ok
    unfolding owned_def by (auto split: if_splits)
qed

lemma owners_remove:
  assumes "\<And>u l. vs u = Some l \<Longrightarrow> pk_Data l = Some p \<Longrightarrow> u = v" and "vs v = Some k" and "pk_Data k = Some p"
  shows "owners (vs(v := None)) = owners vs - {p}"
proof (intro set_eqI iffI)
  fix x assume "x \<in> owners (vs(v := None))"
  then obtain u l where "u \<noteq> v" "vs u = Some l" "pk_Data l = Some x" by (auto simp: owners_def split: if_splits)
  then show "x \<in> owners vs - {p}" using assms(1) by (auto simp: owners_def)
next
  fix x assume x: "x \<in> owners vs - {p}"
  then obtain u l where u: "vs u = Some l" "pk_Data l = Some x" by (auto simp: owners_def)
  then have "u \<noteq> v" using x assms(2,3) by auto
  then show "x \<in> owners (vs(v := None))" using u unfolding owners_def by (intro CollectI exI [of _ u] exI [of _ l]) simp
qed

lemma owned_release:
  assumes "owned h0 vs" and "vs v = Some k" and "pk_Data k = Some p"
    and "am_arrays h = (am_arrays h0)(p := None)" and "am_record h = doDeleteN (Some p) (am_record h0)"
  shows "owned h (vs(v := None))"
proof -
  have ok: "sm_ok (m_Memory (am_record h0))" "traced (am_record h0) = dom (am_arrays h0)" "dom (am_arrays h0) = owners vs"
    using assms(1) by (simp_all add: owned_def)
  have lens: "\<exists>bs. am_arrays h0 q = Some bs \<and> length bs = unat (pk_Length l)" if "vs u = Some l" "pk_Data l = Some q" for u l q
    using that assms(1) unfolding owned_def by blast
  have one: "u = w" if "vs u = Some l" "vs w = Some l'" "pk_Data l = Some q" "pk_Data l' = Some q" for u w l l' q
    using that assms(1) unfolding owned_def by blast
  have sub: "u \<noteq> v \<and> vs u = Some l" if "(vs(v := None)) u = Some l" for u l using that by (auto split: if_splits)
  have "\<exists>bs. am_arrays h q = Some bs \<and> length bs = unat (pk_Length l)" if a: "(vs(v := None)) u = Some l" "pk_Data l = Some q" for u l q
    using lens [of u l q] one [of u l v k p] sub [OF a(1)] a(2) assms(2-4) by (cases "q = p") auto
  moreover have "u = w" if "(vs(v := None)) u = Some l" "(vs(v := None)) w = Some l'" "pk_Data l = Some q" "pk_Data l' = Some q" for u w l l' q
    using one sub that by blast
  moreover have "dom (am_arrays h) = owners (vs(v := None))"
    using owners_remove [of vs p v k] one assms(2-4) ok(3) by auto
  moreover have "sm_ok (m_Memory (am_record h))" "traced (am_record h) = dom (am_arrays h)"
    using alloc_facts(3,4) [OF ok(1), of p] ok(2) assms(4,5) by auto
  ultimately show ?thesis unfolding owned_def by blast
qed

lemma owned_forget:
  assumes "owned h vs" and "vs v = Some k" and "pk_Data k = None"
  shows "owned h (vs(v := None))"
proof -
  have sub: "u \<noteq> v \<and> vs u = Some l" if "(vs(v := None)) u = Some l" for u l using that by (auto split: if_splits)
  have "owners (vs(v := None)) = owners vs" using assms(2,3) by (auto simp: owners_def) (metis option.distinct(1) option.inject)
  then show ?thesis using assms(1) sub unfolding owned_def by metis
qed

text \<open>Destroying a packet never fails.\<close>

lemma destroy_ok:
  assumes "owned h0 vs" and "vs v = Some k"
  shows "\<exists>h. pk_destroy k h0 = Inr h \<and> owned h (vs(v := None)) \<and> (\<forall>p. pk_Data k \<noteq> Some p \<longrightarrow> am_arrays h p = am_arrays h0 p)"
proof (cases "pk_Data k")
  case None
  then show ?thesis using owned_forget [OF assms None] by (simp add: pk_destroy_def releaseN_def)
next
  case (Some p)
  let ?h = "h0\<lparr>am_record := doDeleteN (Some p) (am_record h0), am_arrays := (am_arrays h0)(p := None)\<rparr>"
  have "am_arrays h0 p \<noteq> None" using assms Some unfolding owned_def by fastforce
  then have "pk_destroy k h0 = Inr ?h" using Some by (simp add: pk_destroy_def releaseN_def)
  moreover have "owned ?h (vs(v := None))" by (rule owned_release [OF assms Some]) simp_all
  ultimately show ?thesis using Some by (intro exI [of _ ?h]) simp
qed

text \<open>Copying the data of a packet to a new array never fails.\<close>

lemma copy_ok:
  assumes "owned h vs" and "vs u = Some k" and "pk_Data k = Some q" and "am_arrays h p = None"
  shows "\<exists>h' bs. array_copy (Some p) (Some q) (unat (pk_Length k)) (reserveN p fp (unat (pk_Length k)) h) = Inr h' \<and>
    am_arrays h q = Some bs \<and> am_arrays h' = (am_arrays h)(p \<mapsto> bs) \<and> am_record h' = doAllocN p fp (am_record h) \<and> length bs = unat (pk_Length k)"
proof -
  obtain bs where bs: "am_arrays h q = Some bs" "length bs = unat (pk_Length k)" using assms(1-3) unfolding owned_def by blast
  moreover from bs(1) assms(4) have "q \<noteq> p" by auto
  ultimately show ?thesis by (auto simp: array_copy_def reserveN_def)
qed

lemma owned_move:
  assumes "owned h vs" and "vs v = None" and "vs u = Some k"
  shows "owned h (vs(v \<mapsto> k, u \<mapsto> k\<lparr>pk_Data := None\<rparr>))"
proof -
  let ?ws = "vs(v \<mapsto> k, u \<mapsto> k\<lparr>pk_Data := None\<rparr>)"
  have uv: "u \<noteq> v" using assms(2,3) by auto
  have from_old: "(w = v \<and> l = k) \<or> (w \<noteq> v \<and> w \<noteq> u \<and> vs w = Some l)" if "?ws w = Some l" "pk_Data l = Some p" for w l p
    using that by (auto split: if_splits)
  have one: "w = w'" if "vs w = Some l" "vs w' = Some l'" "pk_Data l = Some q" "pk_Data l' = Some q" for w w' l l' q
    using that assms(1) unfolding owned_def by blast
  have "owners ?ws = owners vs"
  proof (intro set_eqI iffI)
    fix x assume "x \<in> owners ?ws"
    then obtain w l where "?ws w = Some l" "pk_Data l = Some x" by (auto simp: owners_def)
    then show "x \<in> owners vs" using from_old assms(3) unfolding owners_def by blast
  next
    fix x assume "x \<in> owners vs"
    then obtain w l where w: "vs w = Some l" "pk_Data l = Some x" by (auto simp: owners_def)
    have "\<exists>w' l'. ?ws w' = Some l' \<and> pk_Data l' = Some x"
    proof (cases "w = u")
      case True
      then show ?thesis using w assms(3) uv by (intro exI [of _ v] exI [of _ k]) auto
    next
      case False
      then show ?thesis using w assms(2) by (intro exI [of _ w] exI [of _ l]) auto
    qed
    then show "x \<in> owners ?ws" by (simp add: owners_def)
  qed
  moreover have "\<exists>bs. am_arrays h p = Some bs \<and> length bs = unat (pk_Length l)" if "?ws w = Some l" "pk_Data l = Some p" for w l p
    using from_old [OF that] that(2) assms(1,3) unfolding owned_def by blast
  moreover have "w = w'" if "?ws w = Some l" "?ws w' = Some l'" "pk_Data l = Some p" "pk_Data l' = Some p" for w w' l l' p
    using from_old [OF that(1,3)] from_old [OF that(2,4)] one that(3,4) assms(3) by blast
  moreover have "dom (am_arrays h) = owners vs" "sm_ok (m_Memory (am_record h))" "traced (am_record h) = dom (am_arrays h)"
    using assms(1) by (simp_all add: owned_def)
  ultimately show ?thesis unfolding owned_def by (intro conjI allI impI) (blast | simp only:)+
qed

lemma copy_step:
  assumes "owned h vs" and "vs v = None" and "vs u = Some k" and "pk_Data k \<noteq> None" and "am_arrays h p = None"
  shows "\<exists>h'. pk_copy p fp k h = Inr (k\<lparr>pk_Data := Some p\<rparr>, h') \<and> owned h' (vs(v \<mapsto> k\<lparr>pk_Data := Some p\<rparr>))"
proof -
  obtain q where q: "pk_Data k = Some q" using assms(4) by blast
  obtain h' bs where h': "array_copy (Some p) (Some q) (unat (pk_Length k)) (reserveN p fp (unat (pk_Length k)) h) = Inr h'"
    "am_arrays h' = (am_arrays h)(p \<mapsto> bs)" "am_record h' = doAllocN p fp (am_record h)" "length bs = unat (pk_Length k)"
    using copy_ok [OF assms(1,3) q assms(5), of fp] by blast
  have "owned h' (vs(v \<mapsto> k\<lparr>pk_Data := Some p\<rparr>))" by (rule owned_add [OF assms(1,2,5) _ h'(2) _ h'(3)]) (simp_all add: h'(4))
  then show ?thesis using h'(1) q by (simp add: pk_copy_def)
qed

lemma assign_step:
  assumes "owned h vs" and "vs v = Some k0" and "vs u = Some k" and "u \<noteq> v" and "pk_Data k \<noteq> None" and "am_arrays h p = None"
  shows "\<exists>h'. pk_assign False p fp k0 k h = Inr (k\<lparr>pk_Data := Some p\<rparr>, h') \<and> owned h' (vs(v \<mapsto> k\<lparr>pk_Data := Some p\<rparr>))"
proof -
  obtain h1 where h1: "pk_destroy k0 h = Inr h1" "owned h1 (vs(v := None))" "\<forall>p. pk_Data k0 \<noteq> Some p \<longrightarrow> am_arrays h1 p = am_arrays h p"
    using destroy_ok [OF assms(1,2)] by blast
  have "pk_Data k0 \<noteq> Some p" using assms(1,2,6) unfolding owned_def by fastforce
  then have "am_arrays h1 p = None" using h1(3) assms(6) by simp
  from copy_step [OF h1(2) _ _ assms(5) this, of v u fp] assms(3,4) obtain h' where
    "pk_copy p fp k h1 = Inr (k\<lparr>pk_Data := Some p\<rparr>, h')" "owned h' (vs(v \<mapsto> k\<lparr>pk_Data := Some p\<rparr>))" by auto
  then show ?thesis using h1(1) by (auto simp: pk_assign_def pk_copy_def pk_destroy_def split: sum.splits)
qed

interpretation packets: state_machine "\<lambda>s. s = packets_start" packets_step packets_inv
proof
  show "packets_inv s" if "s = packets_start" for s
    using that by (simp add: packets_inv_def packets_start_def owned_def owners_def traced_def)
next
  show "packets_inv t" if "packets_step s t" "packets_inv s" for s t
    using that(1)
  proof cases
    case (make v p data fp i fl k h)
    then show ?thesis using that(2) unfolding packets_inv_def
      by (auto simp: pk_new_def reserveN_def Let_def unat_of_nat take_bit_nat_eq_self intro!: owned_add [where bs = data and fp = fp])
  next
    case (make_zero v p fp i len fl k h)
    then show ?thesis using that(2) unfolding packets_inv_def
      by (auto simp: pk_zero_def reserveN_def intro!: owned_add [where bs = "replicate (unat len) 0" and fp = fp])
  next
    case (copy v u k p fp k' h)
    then show ?thesis using that(2) copy_step [of "ps_mem s" "ps_vars s" v u k p fp] by (auto simp: packets_inv_def)
  next
    case (move v u k k1 k2)
    then show ?thesis using that(2) owned_move [of "ps_mem s" "ps_vars s" v u k] by (auto simp: packets_inv_def pk_move_def)
  next
    case (assign v k0 u k p fp k' h)
    then show ?thesis using that(2) assign_step [of "ps_mem s" "ps_vars s" v k0 u k p fp] by (auto simp: packets_inv_def)
  next
    case (destroy v k h)
    then show ?thesis using that(2) destroy_ok [of "ps_mem s" "ps_vars s" v k] by (auto simp: packets_inv_def)
  qed
qed

text \<open>The move assignment drops the array that the target had: nobody refers to it any more.\<close>

lemma move_assign_leaks:
  assumes "owned h vs" and "vs v = Some k0" and "pk_Data k0 = Some p" and "vs u = Some k" and "u \<noteq> v" and "pk_move_assign k0 k = (a, b)"
  shows "p \<in> dom (am_arrays h)" and "p \<notin> owners (vs(v \<mapsto> a, u \<mapsto> b))"
proof -
  show "p \<in> dom (am_arrays h)" using assms(1-3) unfolding owned_def owners_def by blast
  have one: "w = v" if "vs w = Some l" "pk_Data l = Some p" for w l using that assms(1-3) unfolding owned_def by blast
  have "pk_Data k \<noteq> Some p" using one [OF assms(4)] assms(5) by blast
  then show "p \<notin> owners (vs(v \<mapsto> a, u \<mapsto> b))" using one assms(6) by (auto simp: owners_def pk_move_assign_def split: if_splits)
qed

text \<open>Assigning a packet to itself loses its data.\<close>

lemma self_assign_zeroes:
  assumes "owned h vs" and "vs v = Some k" and "am_arrays h p = None"
  shows "\<exists>h'. pk_assign True p fp k k h = Inr (k\<lparr>pk_Data := Some p\<rparr>, h') \<and> am_arrays h' p = Some (replicate (unat (pk_Length k)) 0)"
  using destroy_ok [OF assms(1,2)] by (auto simp: pk_assign_def pk_destroy_def array_copy_def reserveN_def)

section \<open>Properties\<close>


lemma demo_packets: "\<exists>s k. packets_reach s \<and> ps_vars s 0 = Some k \<and> pk_Data k = Some 4096 \<and> am_arrays (ps_mem s) = [4096 \<mapsto> [104, 105, 0]]"
proof -
  let ?fp = "\<lparr>fp_func = [], fp_line = 38, fp_size = 3\<rparr>"
  obtain k h where h: "pk_new 4096 ?fp 7 [104, 105, 0] 0 (ps_mem packets_start) = (k, h)" by fastforce
  let ?s = "packets_start\<lparr>ps_mem := h, ps_vars := (ps_vars packets_start)(0 \<mapsto> k)\<rparr>"
  have "packets_step packets_start ?s" by (rule packets_step.make [OF _ _ _ h]) (simp_all add: packets_start_def)
  then have "packets_reach ?s" by (rule reachable.more [OF reachable_self])
  moreover have "pk_Data k = Some 4096" "am_arrays h = [4096 \<mapsto> [104, 105, 0]]"
    using h by (auto simp: pk_new_def reserveN_def packets_start_def Let_def)
  ultimately show ?thesis by (intro exI [of _ ?s] exI [of _ k]) simp
qed


end
