(* ===== verification/Unit_Tests.thy ===== *)
theory Unit_Tests
  imports Packet_Memory Network_Sending
begin

text \<open>
  Tests of \<open>UnitTest/MyTests.h\<close> as programs over the model: the round trips of meta data and strings through a
  serializer, the life of packets, and the map with pairs of socket and address as keys. The result of a test is
  the conjunction of its assertions.
\<close>

section \<open>BinMetaDataTest\<close>

definition test_value :: "nat \<Rightarrow> cstring" where
  "test_value i = cstr '' lalalal this is metadata johoeeeee with value: '' @ dec i"

definition test_meta :: "nat \<Rightarrow> meta_data" where
  "test_meta n = fold (\<lambda>i md. sm_set (dec i) (test_value i) md) [0 ..< n] []"

definition BinMetaDataTest :: "meta_data \<Rightarrow> bool res" where
  "BinMetaDataTest md =
     rbind (write_meta md bs_reset) (\<lambda>(ok, bs).
     rbind (bs_copy bs) (\<lambda>bs2.
     rbind (read_meta [] bs) (\<lambda>(mdRead, bs1). Inr (mdRead = Some md))))"

lemma dec_string: "n < 10 ^ 9 \<Longrightarrow> string_ok (dec n) \<and> string_ok (test_value n)"
proof -
  assume n: "n < 10 ^ 9"
  have z: "0 \<notin> set (dec n)" using dec_digits [of n] by (force simp: is_digit_def)
  have "length (dec n) \<le> Suc 8" by (rule length_dec) (use n in simp)
  then show ?thesis using z by (simp add: string_ok_def test_value_def cstr_def TempBuffSize_def)
qed

lemma test_meta_entries:
  "sm_ok (test_meta n) \<and> length (test_meta n) \<le> n \<and> set (test_meta n) \<subseteq> (\<lambda>i. (dec i, test_value i)) ` {..< n}"
proof (induction n)
  case 0
  then show ?case by (simp add: test_meta_def)
next
  case (Suc n)
  have "test_meta (Suc n) = sm_set (dec n) (test_value n) (test_meta n)" by (simp add: test_meta_def)
  moreover note Suc.IH sm_ok_set [of "test_meta n"] length_sm_set [of "dec n" "test_value n" "test_meta n"]
    set_sm_set [of "dec n" "test_value n" "test_meta n"]
  ultimately show ?case by (fastforce simp: lessThan_Suc)
qed

lemma length_pairs:
  assumes "\<forall>(k, v) \<in> set md. string_ok k \<and> string_ok v"
  shows "length (concat (map pair_bytes md)) \<le> length md * 8192"
  using assms by (induction md) (auto simp: pair_bytes_def string_ok_def TempBuffSize_def)

lemma BinMetaDataTest_passes:
  assumes "meta_ok md"
  shows "BinMetaDataTest md = Inr True"
proof -
  have "length (meta_bytes md) \<le> 4 + length md * 8192"
    using length_pairs [of md] assms by (auto simp: meta_bytes_def meta_ok_def)
  then have b: "length (meta_bytes md) \<le> max_stream" using assms by (simp add: meta_ok_def max_stream_def)
  obtain s1 where s: "write_meta md bs_reset = Inr (True, s1)" "appended bs_reset (meta_bytes md) s1"
    using meta_codec.put_ok [of bs_reset md] assms b by auto
  then have c: "bs_inv s1" "content s1 = meta_bytes md" "m_ReadPos s1 = 0" by (auto simp: appended_def bs_reset_def content_def)
  then have "unread s1 = meta_bytes md" by (simp add: unread_def)
  then have r: "read_meta [] s1 = Inr (Some md, advance (length (meta_bytes md)) s1)"
    using meta_codec.get_ok [of s1 md "[]"] c(1) assms by simp
  obtain d where "bs_copy s1 = Inr d"
    using write_raw_ok [of bs_reset "content s1"] load_all [OF c(1)] b c(2) by (auto simp: bs_copy_def bs_write_bs_def)
  then show ?thesis using s(1) r by (simp add: BinMetaDataTest_def)
qed

section \<open>StringSerializeTest\<close>

text \<open>\<open>val\<close> is \<open>~0ULL-1000\<close>.\<close>

definition StringSerializeTest :: "cstring \<Rightarrow> bool res" where
  "StringSerializeTest str =
     (let val = - 1 - 1000 :: u64
      in checked (write_string str bs_reset) (\<lambda>bs.
         rbind (bs_copy bs) (\<lambda>bs2.
         checkedR (read_string bs2) (\<lambda>strOut bs2a.
         rbind (write64 val bs) (\<lambda>(ok, bs1).
         rbind (read64 (snd (moveRead (bs_length bs2a) bs1))) (\<lambda>(val2, bs3). Inr (val2 = Some val \<and> strOut = str)))))))"

lemma StringSerializeTest_passes:
  assumes "string_ok str"
  shows "StringSerializeTest str = Inr True"
proof -
  let ?val = "- 1 - 1000 :: u64" and ?e = "str @ [0]"
  have l: "length ?e \<le> 4096" using assms by (simp add: string_ok_def TempBuffSize_def)
  obtain s where s: "write_string str bs_reset = Inr (True, s)" "appended bs_reset ?e s"
    using string_codec.put_ok [of bs_reset str] assms l by (auto simp: max_stream_def)
  then have c: "bs_inv s" "m_Owns s" "content s = ?e" "m_ReadPos s = 0" by (auto simp: appended_def bs_reset_def content_def)
  obtain d where d: "bs_copy s = Inr d" "appended bs_reset ?e d"
    using write_raw_ok [of bs_reset ?e] load_all [OF c(1)] c(3) l by (auto simp: bs_copy_def bs_write_bs_def max_stream_def)
  then have cd: "bs_inv d" "content d = ?e" "m_ReadPos d = 0" by (auto simp: appended_def bs_reset_def content_def)
  then have "unread d = ?e" by (simp add: unread_def)
  then have r: "read_string d = Inr (Some str, advance (length ?e) d)" using string_codec.get_ok [of d str "[]"] cd(1) assms by simp
  obtain s1 where s1: "write64 ?val s = Inr (True, s1)" "appended s (rev (le64 ?val)) s1"
    using u64_codec.put_ok [of s ?val] c l by (auto simp: max_stream_def)
  then have c1: "bs_inv s1" "content s1 = ?e @ rev (le64 ?val)" "m_ReadPos s1 = 0" using c by (auto simp: appended_def)
  have "unat (m_WritePos d) = length ?e" using length_content [OF cd(1)] cd(2) by simp
  then have "m_WritePos d = of_nat (length ?e)" by (simp only: flip: \<open>unat (m_WritePos d) = length ?e\<close>) simp
  then have len: "bs_length (advance (length ?e) d) = of_nat (length ?e)" by (simp add: advance_def bs_length_def)
  have "unread s1 = ?e @ rev (le64 ?val)" using c1 by (simp add: unread_def)
  note adv = advance_inv [OF c1(1) this]
  have "unat (of_nat (length ?e) :: u32) = length ?e" by (rule unat_of_nat32) (use l in simp)
  then have wp: "\<not> m_WritePos s1 < of_nat (length ?e)"
    using length_content [OF c1(1)] c1(2) unfolding word_less_nat_alt by simp
  have "snd (moveRead (of_nat (length ?e)) s1) = advance (length ?e) s1" using wp by (simp add: moveRead_def setRead_def advance_def c1(3))
  moreover have "read64 (advance (length ?e) s1) = Inr (Some ?val, advance 8 (advance (length ?e) s1))"
    using u64_codec.get_ok [of "advance (length ?e) s1" ?val "[]"] adv(1,2) by simp
  ultimately show ?thesis using s(1) d(1) r s1(1) len by (simp add: StringSerializeTest_def Let_def checked_def checkedR_def)
qed

section \<open>SapLookupInMap\<close>

text \<open>The sockets \<open>s1\<close> and \<open>s3\<close> are the same, and the addresses are equal; the keys are compared by value.\<close>

definition SapLookupInMap :: "u32 \<Rightarrow> u32 \<Rightarrow> endpoint \<Rightarrow> endpoint \<Rightarrow> endpoint \<Rightarrow> bool" where
  "SapLookupInMap s1 s2 a1 a2 a3 =
     (let s3 = s1;
          m1 = sm_set (a1, s1) 3 ([] :: (sock_addr, nat) stdmap);
          m2 = sm_set (a2, s2) 225 m1
      in sm_find m1 (a1, s1) = Some 3 \<and> sm_find m1 (a2, s2) = None \<and>
         sm_find m2 (a1, s1) = Some 3 \<and> sm_find m2 (a2, s2) = Some 225 \<and>
         sm_find m2 (a3, s3) = Some 3 \<and> sm_find m2 (a3, s1) = Some 3 \<and> sm_find m2 (a1, s3) = Some 3)"

lemma SapLookupInMap_passes: "s1 \<noteq> s2 \<Longrightarrow> a3 = a1 \<Longrightarrow> SapLookupInMap s1 s2 a1 a2 a3"
  by (simp add: SapLookupInMap_def Let_def)

section \<open>PacketTest\<close>

text \<open>The body of a thread. \<open>p1\<close> to \<open>p4\<close> are the addresses of the arrays; at the end the packets are destroyed in
  the reverse order, the one that was moved from before \<open>p4\<close>.\<close>

definition mbind :: "memory_error + 'a \<Rightarrow> ('a \<Rightarrow> memory_error + 'b) \<Rightarrow> memory_error + 'b" where
  "mbind m f = (case m of Inl e \<Rightarrow> Inl e | Inr x \<Rightarrow> f x)"

lemma mbind_Inr [simp]: "mbind (Inr x) f = f x"
  by (simp add: mbind_def)

fun destroy_all :: "packet_object list \<Rightarrow> array_memory \<Rightarrow> memory_error + array_memory" where
  "destroy_all [] h = Inr h"
| "destroy_all (k # ks) h = mbind (pk_destroy k h) (destroy_all ks)"

definition packet_string :: "packet_object \<Rightarrow> array_memory \<Rightarrow> cstring option" where
  "packet_string k h = (case pk_Data k of None \<Rightarrow> None | Some a \<Rightarrow> map_option (takeWhile (\<lambda>b. b \<noteq> 0)) (am_arrays h a))"

definition PacketTest :: "memory_footprint \<Rightarrow> nat \<Rightarrow> nat \<Rightarrow> nat \<Rightarrow> nat \<Rightarrow> cstring \<Rightarrow> cstring \<Rightarrow> array_memory \<Rightarrow> memory_error + bool \<times> array_memory" where
  "PacketTest fp a1 a2 a3 a4 hello provided h =
     (let (p1, h1) = pk_new a1 fp 7 (hello @ [0]) 0 h
      in mbind (pk_copy a2 fp p1 h1) (\<lambda>(p2, h2).
         let (tmp, h3) = pk_new a3 fp 6 (provided @ [0]) 0 h2;
             (p3, old3) = pk_move tmp;
             (tmp4, h4) = pk_new a4 fp 7 (provided @ [0]) 0 h3;
             (p4, old4) = pk_move tmp4
         in mbind (destroy_all [old3, old4, p4, p3, p2, p1] h4) (\<lambda>h5. Inr (packet_string p3 h3 = Some provided, h5))))"

lemma PacketTest_passes:
  assumes "distinct [a1, a2, a3, a4]" and "am_arrays h a1 = None" and "am_arrays h a2 = None" and "am_arrays h a3 = None" and "am_arrays h a4 = None"
    and "0 \<notin> set provided" and "length hello < 4095"
  shows "\<exists>h'. PacketTest fp a1 a2 a3 a4 hello provided h = Inr (True, h') \<and> am_arrays h' = am_arrays h"
proof -
  have u: "unat (of_nat (Suc (length hello)) :: u32) = Suc (length hello)" by (rule unat_of_nat32) (use assms(7) in simp)
  have c: "takeWhile (\<lambda>b. b \<noteq> 0) (provided @ [0]) = provided" using assms(6) by (auto simp: takeWhile_append)
  have d: "a1 \<noteq> a2" "a1 \<noteq> a3" "a1 \<noteq> a4" "a2 \<noteq> a3" "a2 \<noteq> a4" "a3 \<noteq> a4" using assms(1) by auto
  show ?thesis using u c d assms(2-5)
    by (simp add: PacketTest_def pk_new_def pk_copy_def pk_move_def pk_destroy_def releaseN_def reserveN_def array_copy_def packet_string_def
        Let_def fun_eq_iff del: of_nat_Suc)
qed

section \<open>Properties\<close>

lemma test_meta_ok: "n < 2 ^ 16 \<Longrightarrow> meta_ok (test_meta n)"
proof -
  assume n: "n < 2 ^ 16"
  have e: "sm_ok (test_meta n)" "length (test_meta n) \<le> n" "set (test_meta n) \<subseteq> (\<lambda>i. (dec i, test_value i)) ` {..< n}"
    using test_meta_entries [of n] by simp_all
  have "string_ok k \<and> string_ok v" if kv: "(k, v) \<in> set (test_meta n)" for k v
  proof -
    obtain i where "k = dec i" "v = test_value i" "i < n" using kv e(3) by auto
    then show ?thesis using n dec_string [of i] by simp
  qed
  then show ?thesis using e(1,2) n by (auto simp: meta_ok_def)
qed

text \<open>The serializer tests pass. The meta data of \<open>BinMetaDataTest\<close> is read back as it was written, with
  the ten thousand entries of the test and with any number that the count of \<open>u16\<close> holds; \<open>StringSerializeTest\<close> reads every string
  without a zero byte that fits the buffer of \<open>write\<close> from a copy of the serializer, and the number behind it
  from the original.\<close>

theorem serializer_tests_pass:
  assumes "n < 2 ^ 16" and "string_ok str"
  shows "BinMetaDataTest (test_meta n) = Inr True \<and> StringSerializeTest str = Inr True"
  using BinMetaDataTest_passes [OF test_meta_ok [OF assms(1)]] StringSerializeTest_passes [OF assms(2)] by simp

theorem serializer_tests_pass_witness:
  "BinMetaDataTest (test_meta 10000) = Inr True \<and> StringSerializeTest (replicate (TempBuffSize - 1) 57) = Inr True"
  by (rule serializer_tests_pass) (simp_all add: string_ok_def TempBuffSize_def)

end
