(* ===== verification/Typed_Variables.thy ===== *)
theory Typed_Variables
  imports Variable_Groups
begin

text \<open>
  \<open>GenericNetVar\<close> of \<open>Variables.h\<close>: variables with a value of an integer type as their memory. The type is given by
  its representation in memory (\<open>mem\<close> and \<open>unmem\<close>), and by the \<open>write\<close> and \<open>read\<close> of \<open>BinSerializer\<close> for it; the locale
  \<open>net_type\<close> has what is needed of them. \<open>NetVar\<close> forwards to \<open>NetVariable\<close>, so a variable is its number in the
  store. \<open>VariablesTest\<close> of \<open>UnitTest/VariableTests.h\<close> is a program over this.
\<close>

section \<open>GenericNetVar\<close>

text \<open>The constructor without a value; \<open>raw\<close> are the bytes that the member has before.\<close>

definition generic_default :: "byte list \<Rightarrow> var_store \<Rightarrow> nat \<times> var_store" where
  "generic_default raw vs = NetVariable_new raw (of_nat (length raw)) vs"

definition set_data :: "byte list \<Rightarrow> nat \<Rightarrow> var_store \<Rightarrow> var_store res" where
  "set_data d j vs = rbind (get_var j vs) (\<lambda>v. Inr (put_var j (v\<lparr>nv_Data := d\<rparr>) vs))"

definition generic_new :: "('a \<Rightarrow> byte list) \<Rightarrow> byte list \<Rightarrow> 'a \<Rightarrow> var_store \<Rightarrow> (nat \<times> var_store) res" where
  "generic_new mem raw x vs = (case generic_default raw vs of (j, vs1) \<Rightarrow> rbind (set_data (mem x) j vs1) (\<lambda>vs2. Inr (j, vs2)))"

definition generic_assign :: "('a \<Rightarrow> byte list) \<Rightarrow> 'a \<Rightarrow> nat \<Rightarrow> var_store \<Rightarrow> var_store res" where
  "generic_assign mem x j vs = rbind (set_data (mem x) j vs) (nv_markChanged j)"

definition generic_value :: "(byte list \<Rightarrow> 'a) \<Rightarrow> nat \<Rightarrow> var_store \<Rightarrow> 'a res" where
  "generic_value unmem j vs = rbind (get_var j vs) (\<lambda>v. Inr (unmem (nv_Data v)))"

definition generic_readOrWrite ::
  "('a \<Rightarrow> bin_serializer \<Rightarrow> (bool \<times> bin_serializer) res) \<Rightarrow> (bin_serializer \<Rightarrow> ('a option \<times> bin_serializer) res) \<Rightarrow>
   ('a \<Rightarrow> byte list) \<Rightarrow> (byte list \<Rightarrow> 'a) \<Rightarrow> bool \<Rightarrow> byte list \<Rightarrow> bin_serializer \<Rightarrow> (bool \<times> byte list \<times> bin_serializer) res" where
  "generic_readOrWrite put get mem unmem write data bs =
     (if write then rbind (put (unmem data) bs) (\<lambda>(ok, bs1). Inr (ok, data, bs1))
      else rbind (get bs) (\<lambda>(r, bs1). case r of None \<Rightarrow> Inr (False, data, bs1) | Some x \<Rightarrow> Inr (True, mem x, bs1)))"

definition nv_isChanged :: "nat \<Rightarrow> var_store \<Rightarrow> bool res" where
  "nv_isChanged j vs = rbind (get_var j vs) (\<lambda>v. Inr (nv_Changed v))"

definition nv_getOwner :: "nat \<Rightarrow> var_store \<Rightarrow> endpoint option res" where
  "nv_getOwner j vs = rbind (get_var j vs) (\<lambda>v. Inr (nv_Owner v))"

definition nv_getVarControl :: "nat \<Rightarrow> var_store \<Rightarrow> EVarControl res" where
  "nv_getVarControl j vs = rbind (get_var j vs) (\<lambda>v. Inr (nv_VarControl v))"

section \<open>Types\<close>

locale net_type = codec put get wire valid
  for put :: "'a \<Rightarrow> bin_serializer \<Rightarrow> (bool \<times> bin_serializer) res" and get wire valid +
  fixes mem :: "'a \<Rightarrow> byte list" and unmem :: "byte list \<Rightarrow> 'a" and sz :: nat
  assumes unmem_mem: "unmem (mem x) = x" and length_mem: "length (mem x) = sz" and all_valid: "valid x"
    and small: "sz \<le> 8" and wire_small: "length (wire x) \<le> 8"
begin

abbreviation rw :: "bool \<Rightarrow> byte list \<Rightarrow> bin_serializer \<Rightarrow> (bool \<times> byte list \<times> bin_serializer) res" where
  "rw \<equiv> generic_readOrWrite put get mem unmem"

lemma mem_inj: "mem x = mem y \<longleftrightarrow> x = y"
  using unmem_mem by metis

lemma rw_writes: "\<exists>bs. rw True (mem x) bs_reset = Inr (True, mem x, bs) \<and> bs_inv bs \<and> unread bs = wire x"
proof -
  obtain bs where "put x bs_reset = Inr (True, bs)" "appended bs_reset (wire x) bs"
    using put_ok [of bs_reset x] all_valid wire_small [of x] by (auto simp: max_stream_def)
  then show ?thesis by (intro exI [of _ bs]) (auto simp: generic_readOrWrite_def unmem_mem appended_def unread_def bs_reset_def content_def)
qed

lemma rw_reads: "bs_inv bs \<Longrightarrow> unread bs = wire x \<Longrightarrow> rw False d bs = Inr (True, mem x, advance (length (wire x)) bs)"
  using get_ok [of bs x "[]"] all_valid by (simp add: generic_readOrWrite_def)

lemma assign_ok:
  assumes "sm_find (vs_vars vs) j = Some v" and "\<forall>g. nv_Group v = Some g \<longrightarrow> sm_find (vs_groups vs) g \<noteq> None"
  shows "\<exists>vs'. generic_assign mem x j vs = Inr vs' \<and> sm_find (vs_vars vs') j = Some (v\<lparr>nv_Data := mem x, nv_Changed := True\<rparr>) \<and>
    (\<forall>g. nv_Group v = Some g \<longrightarrow> (\<exists>gr. sm_find (vs_groups vs') g = Some gr \<and> g_Changed gr))"
proof (cases "nv_Group v")
  case None
  then show ?thesis using assms(1) by (simp add: generic_assign_def set_data_def nv_markChanged_def get_var_def put_var_def)
next
  case (Some g)
  then obtain gr where "sm_find (vs_groups vs) g = Some gr" using assms(2) by blast
  then show ?thesis using Some assms(1)
    by (simp add: generic_assign_def set_data_def nv_markChanged_def get_var_def put_var_def group_markChanged_def get_group_def put_group_def)
qed

text \<open>The path of a value: it is assigned at one side, written, and read into the variable of another side.\<close>

lemma replicates:
  assumes "sm_find (vs_vars vs) j = Some v" and "\<forall>g. nv_Group v = Some g \<longrightarrow> sm_find (vs_groups vs) g \<noteq> None"
    and "sm_find (vs_vars us) k = Some u" and "nv_Data u = mem y" and "unat (nv_Size u) = sz"
  shows "\<exists>vs1 bs vs2 bs1 us1. generic_assign mem x j vs = Inr vs1 \<and> nv_isChanged j vs1 = Inr True \<and>
    nv_readOrWrite rw True j bs_reset vs1 = Inr ([], bs, vs2) \<and> generic_value unmem j vs2 = Inr x \<and>
    nv_readOrWrite rw False k bs us =
      Inr (if x = y then [] else map (\<lambda>cb. (cb, mem x, mem y)) (nv_UpdateCallbacks u), bs1, us1) \<and>
    generic_value unmem k us1 = Inr x"
proof -
  obtain vs1 where vs1: "generic_assign mem x j vs = Inr vs1" "sm_find (vs_vars vs1) j = Some (v\<lparr>nv_Data := mem x, nv_Changed := True\<rparr>)"
    using assign_ok [OF assms(1,2)] by blast
  obtain bs where bs: "rw True (mem x) bs_reset = Inr (True, mem x, bs)" "bs_inv bs" "unread bs = wire x" using rw_writes by blast
  have w: "nv_readOrWrite rw True j bs_reset vs1 = Inr ([], bs, put_var j (v\<lparr>nv_Changed := True, nv_Data := mem x\<rparr>) vs1)"
    using vs1(2) bs(1) by (simp add: nv_readOrWrite_def get_var_def)
  have r: "nv_readOrWrite rw False k bs us =
      Inr (if mem x = nv_Data u then [] else map (\<lambda>cb. (cb, mem x, nv_Data u)) (nv_UpdateCallbacks u), advance (length (wire x)) bs,
        put_var k (u\<lparr>nv_Data := mem x\<rparr>) us)"
    by (rule nv_read_notifies [where user = rw, OF assms(3) rw_reads [OF bs(2,3)]]) (use assms(4,5) length_mem small in \<open>simp_all add: MM_MAX_FRAGMENTSIZE_def\<close>)
  show ?thesis using vs1 w r assms(4)
    by (intro exI [of _ vs1] exI [of _ bs] exI [of _ "put_var j (v\<lparr>nv_Changed := True, nv_Data := mem x\<rparr>) vs1"]
        exI [of _ "advance (length (wire x)) bs"] exI [of _ "put_var k (u\<lparr>nv_Data := mem x\<rparr>) us"]) (auto simp: nv_isChanged_def generic_value_def get_var_def put_var_def unmem_mem mem_inj)
qed

end

interpretation net8: net_type write8 read8 "\<lambda>b. [b]" "\<lambda>_. True" "\<lambda>b. [b]" "of_le :: byte list \<Rightarrow> byte" 1
  by unfold_locales simp_all

interpretation net16: net_type write16 read16 "\<lambda>w. rev (le16 w)" "\<lambda>_. True" le16 of_le 2
  by unfold_locales (simp_all add: of_le16)

interpretation net32: net_type write32 read32 "\<lambda>w. rev (le32 w)" "\<lambda>_. True" le32 of_le 4
  by unfold_locales (simp_all add: of_le32)

section \<open>VariablesTest\<close>

datatype ECreateGroupCallResult = Group_Fine | Group_NoLinksInNetwork

definition priv_create_group ::
  "nat \<Rightarrow> cstring \<Rightarrow> bin_serializer \<Rightarrow> group_collection \<Rightarrow> var_store \<Rightarrow> (ECreateGroupCallResult \<times> group_collection \<times> var_store) res" where
  "priv_create_group session groupType bs gc vs =
     rbind (createGroupInternal session groupType bs gc vs) (\<lambda>(job, gc1, vs1). Inr (Group_Fine, gc1, vs1))"

text \<open>\<open>INetwork::createGroup<personVarGroup, i32, i32, i32>\<close>.\<close>

definition personVarGroup_args :: "u32 \<Rightarrow> u32 \<Rightarrow> u32 \<Rightarrow> bin_serializer \<Rightarrow> bin_serializer res" where
  "personVarGroup_args a b c bs = rbind (ser_arg write32 a bs) (\<lambda>bs1. rbind (ser_arg write32 b bs1) (ser_arg write32 c))"

definition create_person_group ::
  "u32 \<Rightarrow> u32 \<Rightarrow> u32 \<Rightarrow> nat \<Rightarrow> group_collection \<Rightarrow> var_store \<Rightarrow> (ECreateGroupCallResult \<times> group_collection \<times> var_store) res" where
  "create_person_group a b c session gc vs =
     rbind (personVarGroup_args a b c bs_reset) (\<lambda>bs. priv_create_group session (cstr ''personVarGroup'') bs gc vs)"

text \<open>\<open>Person\<close>: the numbers of its three variables.\<close>

definition Person_new :: "byte list \<Rightarrow> u32 \<Rightarrow> u32 \<Rightarrow> u32 \<Rightarrow> var_store \<Rightarrow> ((nat \<times> nat \<times> nat) \<times> var_store) res" where
  "Person_new raw race age weight vs =
     rbind (generic_new le32 raw race vs) (\<lambda>(r, vs1).
     rbind (generic_new le32 raw age vs1) (\<lambda>(a, vs2).
     rbind (generic_new le32 raw weight vs2) (\<lambda>(w, vs3). Inr ((r, a, w), vs3))))"

text \<open>The body of the callback in \<open>VariablesTest\<close>: the two results of \<open>createGroup\<close>, and the assertions on the
  variables \<open>m_Age\<close> and \<open>m_Weight\<close>.\<close>

definition VariablesTest :: "byte list \<Rightarrow> nat \<Rightarrow> group_collection \<Rightarrow> var_store \<Rightarrow> (ECreateGroupCallResult \<times> ECreateGroupCallResult \<times> bool) res" where
  "VariablesTest raw session gc vs =
     rbind (Person_new raw 22 33 44 vs) (\<lambda>((race, age, weight), vs1).
     rbind (create_person_group 10 20 33 session gc vs1) (\<lambda>(res1, gc1, vs2).
     rbind (create_person_group 10 20 33 session gc1 vs2) (\<lambda>(res2, gc2, vs3).
     rbind (nv_groupId age vs3) (\<lambda>idA. rbind (nv_getOwner age vs3) (\<lambda>ownA. rbind (nv_getVarControl age vs3) (\<lambda>ctlA.
     rbind (nv_groupId weight vs3) (\<lambda>idW. rbind (nv_getOwner weight vs3) (\<lambda>ownW. rbind (nv_getVarControl weight vs3) (\<lambda>ctlW.
       Inr (res1, res2, idA = - 1 \<and> ownA = None \<and> ctlA = Full \<and> idW = - 1 \<and> ownW = None \<and> ctlW = Full))))))))))"

lemma person_args_ok: "\<exists>bs. personVarGroup_args a b c bs_reset = Inr bs \<and> bs_inv bs \<and> length (content bs) \<le> max_stream"
proof -
  obtain s1 where s1: "write32 a bs_reset = Inr (True, s1)" "appended bs_reset (rev (le32 a)) s1"
    using u32_codec.put_ok [of bs_reset a] by (auto simp: max_stream_def)
  obtain s2 where s2: "write32 b s1 = Inr (True, s2)" "appended s1 (rev (le32 b)) s2"
    using u32_codec.put_ok [of s1 b] s1(2) by (auto simp: appended_def max_stream_def)
  obtain s3 where s3: "write32 c s2 = Inr (True, s3)" "appended s2 (rev (le32 c)) s3"
    using u32_codec.put_ok [of s2 c] s1(2) s2(2) by (auto simp: appended_def max_stream_def)
  have "bs_inv s3" "length (content s3) \<le> max_stream" using s1(2) s2(2) s3(2) by (auto simp: appended_def max_stream_def)
  then show ?thesis using s1(1) s2(1) s3(1) by (auto simp: personVarGroup_args_def ser_arg_def)
qed

lemmas fresh_vars = generic_new_def generic_default_def NetVariable_new_def set_data_def get_var_def put_var_def

text \<open>The assertions on the variables hold, but \<open>createGroup\<close> answers \<open>Fine\<close> both times where the test expects
  \<open>NoLinksInNetwork\<close> for the first.\<close>

lemma VariablesTest_results: "VariablesTest raw session GroupCollection_init var_store_init = Inr (Group_Fine, Group_Fine, True)"
proof -
  obtain bs where bs: "personVarGroup_args 10 20 33 bs_reset = Inr bs" "bs_inv bs" "length (content bs) \<le> max_stream"
    using person_args_ok by blast
  obtain d where d: "bs_copy bs = Inr d" using bs_copy_ok [OF bs(2,3)] by blast
  show ?thesis using bs(1) d
    by (simp add: VariablesTest_def Person_new_def fresh_vars var_store_init_def GroupCollection_init_def Let_def create_person_group_def
        priv_create_group_def createGroupInternal_def addNewPendingGroup_def Group_new_def nv_initialize_def put_group_def
        nv_groupId_def get_group_def nv_getOwner_def nv_getVarControl_def)
qed

section \<open>Properties\<close>



end
