(* ===== verification/Library_Life.thy ===== *)
theory Library_Life
  imports Win_Socket Component Transition
begin

text \<open>
  The life of the library: \<open>INetwork::create\<close>, the constructor and destructor of \<open>Network\<close>, the creation and
  destruction of sockets, and the count of \<open>Platform.cpp\<close> that keeps the socket library of the system started
  while one of these objects exists. The thread of \<open>SendThread.cpp\<close> is a small state machine of its own.
\<close>

section \<open>The thread that sends\<close>

datatype send_phase = Sleeping | Testing | Sending | Ended

record send_thread =
  st_Closing :: bool
  st_Phase :: send_phase
  st_Rounds :: nat

definition SendThread_new :: send_thread where
  "SendThread_new = \<lparr>st_Closing = False, st_Phase = Sleeping, st_Rounds = 0\<rparr>"

text \<open>One turn of the thread: it wakes, tests the flag, makes a round over the links, and sleeps again.\<close>

definition send_turn :: "send_thread \<Rightarrow> send_thread" where
  "send_turn s =
     (case st_Phase s of
        Sleeping \<Rightarrow> s\<lparr>st_Phase := Testing\<rparr>
      | Testing \<Rightarrow> s\<lparr>st_Phase := if st_Closing s then Ended else Sending\<rparr>
      | Sending \<Rightarrow> s\<lparr>st_Phase := Sleeping, st_Rounds := Suc (st_Rounds s)\<rparr>
      | Ended \<Rightarrow> s)"

text \<open>\<open>stop\<close> sets the flag and joins: the caller continues when the thread has ended.\<close>

definition send_stop :: "send_thread \<Rightarrow> send_thread" where
  "send_stop s = (send_turn ^^ 3) (s\<lparr>st_Closing := True\<rparr>)"

text \<open>Three turns are enough for \<open>stop\<close> to return, with at most one more round over the links; without it the thread
  does not end.\<close>

lemma send_stop_ends: "st_Phase (send_stop s) = Ended \<and> st_Rounds (send_stop s) \<le> Suc (st_Rounds s)"
  by (cases "st_Phase s") (simp_all add: send_stop_def send_turn_def numeral_3_eq_3)

lemma send_turn_runs: "st_Phase s \<noteq> Ended \<Longrightarrow> \<not> st_Closing s \<Longrightarrow> st_Phase (send_turn s) \<noteq> Ended \<and> \<not> st_Closing (send_turn s)"
  by (cases "st_Phase s") (simp_all add: send_turn_def)

lemma send_turns_run: "st_Phase s \<noteq> Ended \<Longrightarrow> \<not> st_Closing s \<Longrightarrow> st_Phase ((send_turn ^^ n) s) \<noteq> Ended \<and> \<not> st_Closing ((send_turn ^^ n) s)"
  by (induction n) (simp_all add: send_turn_runs)

section \<open>Networks\<close>

datatype net_component = NJobSystem u32 | NSendThread send_thread | NSocketSetManager | NNetworkEvents bool

definition Network_new :: "bool \<Rightarrow> u32 \<Rightarrow> net_component components res" where
  "Network_new allowAsyncCallbacks numWorkerThreads =
     (if numWorkerThreads = 0 then Inl Terminate
      else let m1 = snd (cc_getOrAdd JobSystem 0 (NJobSystem numWorkerThreads) []);
               m2 = snd (cc_getOrAdd SendThreadManager 0 (NSendThread SendThread_new) m1);
               m3 = snd (cc_getOrAdd SocketSetManager 0 NSocketSetManager m2)
           in Inr (snd (cc_getOrAdd NetworkEvents 0 (NNetworkEvents allowAsyncCallbacks) m3)))"

definition clear_components :: "'c components \<Rightarrow> 'c components" where
  "clear_components m = map (\<lambda>(t, v). (t, [])) m"

record library =
  lib_Num :: u32
  lib_Running :: bool
  lib_Networks :: "nat \<rightharpoonup> net_component components"
  lib_Sockets :: "nat set"
  lib_Fails :: nat

text \<open>\<open>initialize\<close> and \<open>shutdown\<close> with the state of the system's socket library, which is running between a
  successful \<open>WSAStartup\<close> and \<open>WSACleanup\<close>. \<open>lib_Fails\<close> counts the failed calls.\<close>

definition lib_initialize :: "u32 + u16 \<Rightarrow> library \<Rightarrow> u32 \<times> library" where
  "lib_initialize startup lb =
     (case initialize startup (lib_Num lb) of (r, n) \<Rightarrow>
        (r, lb\<lparr>lib_Num := n, lib_Running := if lib_Num lb = 0 then r = 0 else lib_Running lb,
               lib_Fails := if r = 0 then lib_Fails lb else Suc (lib_Fails lb)\<rparr>))"

definition lib_shutdown :: "library \<Rightarrow> library" where
  "lib_shutdown lb = (case shutdown (lib_Num lb) of (cleanup, n) \<Rightarrow> lb\<lparr>lib_Num := n, lib_Running := lib_Running lb \<and> \<not> cleanup\<rparr>)"

text \<open>The network gets the number \<open>i\<close>; the answer says whether a network was returned.\<close>

definition INetwork_create :: "u32 + u16 \<Rightarrow> bool \<Rightarrow> u32 \<Rightarrow> nat \<Rightarrow> library \<Rightarrow> (bool \<times> library) res" where
  "INetwork_create startup allowAsyncCallbacks numWorkerThreads i lb =
     (case lib_initialize startup lb of (r, lb1) \<Rightarrow>
        if r = 0
        then rbind (Network_new allowAsyncCallbacks numWorkerThreads) (\<lambda>m. Inr (True, lb1\<lparr>lib_Networks := (lib_Networks lb1)(i \<mapsto> m)\<rparr>))
        else Inr (False, lb1))"

text \<open>The destructor: the components that are stopped are dereferenced; the answer has the components as they are left
  after the vectors were cleared.\<close>

definition Network_delete :: "nat \<Rightarrow> library \<Rightarrow> (net_component components \<times> library) res" where
  "Network_delete i lb =
     (case lib_Networks lb i of
        None \<Rightarrow> Inl NullDeref
      | Some m \<Rightarrow>
          (case (cc_get SendThreadManager 0 m, cc_get SocketSetManager 0 m, cc_get JobSystem 0 m) of
             (Some (NSendThread t), Some sm, Some js) \<Rightarrow>
               let m1 = cc_put SendThreadManager 0 (NSendThread (send_stop t)) m
               in Inr (clear_components m1, (lib_shutdown lb)\<lparr>lib_Networks := (lib_Networks lb)(i := None)\<rparr>)
           | _ \<Rightarrow> Inl NullDeref))"

definition Socket_create :: "u32 + u16 \<Rightarrow> nat \<Rightarrow> library \<Rightarrow> bool \<times> library" where
  "Socket_create startup k lb =
     (case lib_initialize startup lb of (r, lb1) \<Rightarrow>
        if r = 0 then (True, lb1\<lparr>lib_Sockets := insert k (lib_Sockets lb1)\<rparr>) else (False, lb1))"

definition Socket_delete :: "nat \<Rightarrow> library \<Rightarrow> library" where
  "Socket_delete k lb = (lib_shutdown lb)\<lparr>lib_Sockets := lib_Sockets lb - {k}\<rparr>"

section \<open>Programs\<close>

definition library_start :: library where
  "library_start = \<lparr>lib_Num = 0, lib_Running = False, lib_Networks = Map.empty, lib_Sockets = {}, lib_Fails = 0\<rparr>"

definition lib_objects :: "library \<Rightarrow> nat" where
  "lib_objects lb = card (dom (lib_Networks lb)) + card (lib_Sockets lb)"

text \<open>The objects are fewer than the counter can count.\<close>

inductive lib_step :: "library \<Rightarrow> library \<Rightarrow> bool" where
  network: "lib_Networks lb i = None \<Longrightarrow> lib_objects lb + 2 < 2 ^ 32 \<Longrightarrow> INetwork_create startup async workers i lb = Inr (ok, lb') \<Longrightarrow>
    lib_step lb lb'"
| network_end: "Network_delete i lb = Inr (m, lb') \<Longrightarrow> lib_step lb lb'"
| sock: "k \<notin> lib_Sockets lb \<Longrightarrow> lib_objects lb + 2 < 2 ^ 32 \<Longrightarrow> Socket_create startup k lb = (ok, lb') \<Longrightarrow> lib_step lb lb'"
| sock_end: "k \<in> lib_Sockets lb \<Longrightarrow> Socket_delete k lb = lb' \<Longrightarrow> lib_step lb lb'"

abbreviation lib_reach :: "library \<Rightarrow> bool" where
  "lib_reach \<equiv> reachable (\<lambda>lb. lb = library_start) lib_step"

section \<open>Invariant\<close>

definition counted :: "nat \<Rightarrow> library \<Rightarrow> bool" where
  "counted n lb \<longleftrightarrow> unat (lib_Num lb) = n + lib_Fails lb \<and> lib_Fails lb \<le> 1 \<and> (lib_Running lb \<longleftrightarrow> lib_Fails lb = 0 \<and> n > 0)"

definition net_ok :: "net_component components \<Rightarrow> bool" where
  "net_ok m \<longleftrightarrow> (\<exists>t. cc_get SendThreadManager 0 m = Some (NSendThread t)) \<and> cc_get SocketSetManager 0 m \<noteq> None \<and> cc_get JobSystem 0 m \<noteq> None"

definition lib_inv :: "library \<Rightarrow> bool" where
  "lib_inv lb \<longleftrightarrow> finite (dom (lib_Networks lb)) \<and> finite (lib_Sockets lb) \<and> counted (lib_objects lb) lb \<and>
     (\<forall>i m. lib_Networks lb i = Some m \<longrightarrow> net_ok m)"

lemma initialize_counts:
  assumes "counted n lb" and "n + 2 < 2 ^ 32" and "lib_initialize startup lb = (r, lb1)"
  shows "counted (if r = 0 then Suc n else n) lb1" "lib_Networks lb1 = lib_Networks lb" "lib_Sockets lb1 = lib_Sockets lb"
proof -
  have "unat (lib_Num lb + 1) = Suc (unat (lib_Num lb))"
    using assms(1,2) by (simp add: counted_def unat_word_ariths(1))
  then show "counted (if r = 0 then Suc n else n) lb1" "lib_Networks lb1 = lib_Networks lb" "lib_Sockets lb1 = lib_Sockets lb"
    using assms by (auto simp: lib_initialize_def initialize_def counted_def unat_eq_zero split: if_splits sum.splits)
qed

lemma shutdown_last: "n \<noteq> 0 \<Longrightarrow> shutdown n = (unat n = 1, n - 1)"
proof -
  have "n = 1 \<longleftrightarrow> unat n = 1" by (metis unat_1 word_unat_eq_iff)
  then show "n \<noteq> 0 \<Longrightarrow> shutdown n = (unat n = 1, n - 1)" by (auto simp: shutdown_def word_gt_0)
qed

lemma shutdown_counts: "counted (Suc n) lb \<Longrightarrow> counted n (lib_shutdown lb)"
proof -
  assume c: "counted (Suc n) lb"
  then have "lib_Num lb \<noteq> 0" by (auto simp: counted_def)
  then show ?thesis using c by (auto simp: lib_shutdown_def shutdown_last counted_def unat_minus_one)
qed

lemma Network_new_ok: "Network_new async workers = Inr m \<Longrightarrow> net_ok m"
proof -
  have "cc_get t i ([] :: net_component components) = None" for t i by (simp add: cc_get_def)
  then show "Network_new async workers = Inr m \<Longrightarrow> net_ok m"
    by (auto simp: Network_new_def net_ok_def cc_getOrAdd_def cc_get_put Let_def split: if_splits)
qed

lemma cc_get_clear: "cc_get t i (clear_components m) = None"
  by (induction m) (auto simp: clear_components_def cc_get_def split: option.splits if_splits)

lemma lib_inv_step: "lib_step lb lb' \<Longrightarrow> lib_inv lb \<Longrightarrow> lib_inv lb'"
proof (induction rule: lib_step.induct)
  case (network lb i startup async workers ok lb')
  obtain r lb1 where i: "lib_initialize startup lb = (r, lb1)" by fastforce
  have c: "counted (lib_objects lb) lb" using network.prems by (simp add: lib_inv_def)
  note k = initialize_counts [OF c network.hyps(2) i]
  show ?case
  proof (cases "r = 0")
    case True
    then obtain m where m: "Network_new async workers = Inr m" "lb' = lb1\<lparr>lib_Networks := (lib_Networks lb1)(i \<mapsto> m)\<rparr>"
      using network.hyps(3) i by (auto simp: INetwork_create_def rbind_eq_Inr)
    have "lib_objects lb' = Suc (lib_objects lb)" using m(2) k(2,3) network.hyps(1) network.prems
      by (simp add: lib_objects_def lib_inv_def domIff)
    then show ?thesis using network.prems k True m Network_new_ok [OF m(1)] by (auto simp: lib_inv_def counted_def)
  next
    case False
    then have "lb' = lb1" using network.hyps(3) i by (simp add: INetwork_create_def)
    then show ?thesis using network.prems k False by (simp add: lib_inv_def lib_objects_def)
  qed
next
  case (network_end i lb m lb')
  then obtain m0 where m0: "lib_Networks lb i = Some m0" "lb' = (lib_shutdown lb)\<lparr>lib_Networks := (lib_Networks lb)(i := None)\<rparr>"
    by (auto simp: Network_delete_def Let_def split: option.splits net_component.splits)
  then have "card (dom (lib_Networks lb)) = Suc (card (dom (lib_Networks lb) - {i}))"
    using network_end.prems by (metis card.remove domI lib_inv_def)
  then have "lib_objects lb = Suc (lib_objects lb')" using m0(2) by (simp add: lib_objects_def lib_shutdown_def split: prod.split)
  then have "counted (lib_objects lb') (lib_shutdown lb)" using network_end.prems by (auto simp: lib_inv_def intro: shutdown_counts)
  then show ?case using m0 network_end.prems by (auto simp: lib_inv_def counted_def lib_shutdown_def split: prod.splits if_splits)
next
  case (sock k lb startup ok lb')
  obtain r lb1 where i: "lib_initialize startup lb = (r, lb1)" by fastforce
  have c: "counted (lib_objects lb) lb" using sock.prems by (simp add: lib_inv_def)
  note k = initialize_counts [OF c sock.hyps(2) i]
  show ?case
  proof (cases "r = 0")
    case True
    then have l: "lb' = lb1\<lparr>lib_Sockets := insert k (lib_Sockets lb1)\<rparr>" using sock.hyps(3) i by (simp add: Socket_create_def)
    then have "lib_objects lb' = Suc (lib_objects lb)" using k(2,3) sock.hyps(1) sock.prems by (simp add: lib_objects_def lib_inv_def)
    then show ?thesis using sock.prems k True l by (auto simp: lib_inv_def counted_def)
  next
    case False
    then have "lb' = lb1" using sock.hyps(3) i by (simp add: Socket_create_def)
    then show ?thesis using sock.prems k False by (simp add: lib_inv_def lib_objects_def)
  qed
next
  case (sock_end k lb lb')
  have "lib_objects lb = Suc (lib_objects lb')" using sock_end card_Suc_Diff1 [of "lib_Sockets lb" k]
    by (auto simp: lib_objects_def lib_inv_def lib_shutdown_def Socket_delete_def split: prod.split)
  then have "counted (lib_objects lb') (lib_shutdown lb)" using sock_end.prems by (auto simp: lib_inv_def intro: shutdown_counts)
  then show ?case using sock_end by (auto simp: lib_inv_def counted_def lib_shutdown_def Socket_delete_def split: prod.splits)
qed

interpretation lib: state_machine "\<lambda>lb. lb = library_start" lib_step lib_inv
  by unfold_locales (simp add: lib_inv_def library_start_def counted_def lib_objects_def, rule lib_inv_step)

section \<open>Properties\<close>

lemma delete_ok:
  assumes "lib_inv lb" and "lib_Networks lb i = Some m"
  shows "\<exists>m' lb'. Network_delete i lb = Inr (m', lb') \<and> (\<forall>t k. cc_get t k m' = None)"
proof -
  obtain t sm js where "cc_get SendThreadManager 0 m = Some (NSendThread t)" "cc_get SocketSetManager 0 m = Some sm"
    "cc_get JobSystem 0 m = Some js" using assms unfolding lib_inv_def net_ok_def by fastforce
  then show ?thesis using assms(2) by (simp add: Network_delete_def Let_def cc_get_clear)
qed

text \<open>C32: The socket library of the system runs exactly while it is needed. Whatever networks and sockets are created
  and destroyed, in whatever order, the counter is the number of networks and sockets plus the failed starts,
  of which there is at most one, and if none failed the library is started exactly if there is an object.
  Destroying a network always succeeds: the components that the destructor stops are there, and afterwards none
  is found any more.\<close>

theorem library_lifecycle:
  assumes "lib_reach lb"
  shows "unat (lib_Num lb) = lib_objects lb + lib_Fails lb \<and> lib_Fails lb \<le> 1 \<and>
    (lib_Running lb \<longleftrightarrow> lib_Fails lb = 0 \<and> lib_objects lb > 0) \<and>
    (\<forall>i m. lib_Networks lb i = Some m \<longrightarrow> (\<exists>m' lb'. Network_delete i lb = Inr (m', lb') \<and> (\<forall>t k. cc_get t k m' = None)))"
  using lib.invariant [OF assms] delete_ok [OF lib.invariant [OF assms]] by (simp add: lib_inv_def counted_def)

theorem library_lifecycle_witness:
  "\<exists>lb lb1. INetwork_create (Inr 0x202) True 4 0 library_start = Inr (True, lb) \<and> Socket_create (Inr 0x202) 0 lb = (True, lb1) \<and>
     lib_Num lb1 = 2 \<and> lib_Running lb1 \<and> (\<exists>m' lb'. Network_delete 0 lb1 = Inr (m', lb'))"
proof -
  obtain m where m: "Network_new True 4 = Inr m" by (simp add: Network_new_def Let_def)
  define lb where "lb = \<lparr>lib_Num = 1, lib_Running = True, lib_Networks = [0 \<mapsto> m], lib_Sockets = {}, lib_Fails = 0\<rparr>"
  define lb1 where "lb1 = lb\<lparr>lib_Num := 2, lib_Sockets := {0}\<rparr>"
  have lb: "INetwork_create (Inr 0x202) True 4 0 library_start = Inr (True, lb)"
    by (simp add: INetwork_create_def m library_start_def lib_initialize_def initialize_def lb_def)
  have r: "lib_reach lb"
    by (rule reachable.more [where step = lib_step, OF reachable_self lib_step.network [OF _ _ lb]]) (simp_all add: library_start_def lib_objects_def)
  have l1: "Socket_create (Inr 0x202) 0 lb = (True, lb1)"
    by (simp add: Socket_create_def lib_initialize_def initialize_def lb_def lb1_def)
  have "lib_reach lb1" by (rule reachable.more [where step = lib_step, OF r lib_step.sock [OF _ _ l1(1)]]) (simp_all add: lb_def lib_objects_def)
  moreover have "lib_Networks lb1 0 = Some m" by (simp add: lb1_def lb_def)
  ultimately have "\<exists>m' lb'. Network_delete 0 lb1 = Inr (m', lb')" using library_lifecycle by blast
  moreover have "lib_Num lb1 = 2" "lib_Running lb1" by (simp_all add: lb1_def lb_def)
  ultimately show ?thesis using lb l1 by blast
qed

end
