(* ===== verification/Platform_Log.thy ===== *)
theory Platform_Log
  imports Network_World
begin

text \<open>
  The log of \<open>Platform.cpp\<close>: the line for a message, the two lines in front of the first one, the file
  \<open>MiepMiep.txt\<close> and the output of the debugger. Of the system, an entry of the log gets the text of \<open>asctime_s\<close>, and
  whether the old file can be removed and the file can be opened. The message is the text after formatting.
\<close>

datatype ELogType = Message | Warning | Critical

record log_env =
  le_asctime :: cstring
  le_removes :: bool
  le_opens :: bool

text \<open>The two variables named \<open>isFirstOpen\<close> are those of \<open>log\<close> and of \<open>logToFile\<close>.\<close>

record log_state =
  m_LogToFile :: bool
  m_LogToIde :: bool
  lg_FirstLog :: bool
  lg_FirstFile :: bool
  lg_File :: "cstring option"
  lg_Ide :: "cstring list"

definition log_init :: "cstring option \<Rightarrow> log_state" where
  "log_init old = \<lparr>m_LogToFile = True, m_LogToIde = True, lg_FirstLog = True, lg_FirstFile = True, lg_File = old, lg_Ide = []\<rparr>"

definition setLogSettings :: "bool \<Rightarrow> bool \<Rightarrow> log_state \<Rightarrow> log_state" where
  "setLogSettings toFile toIde st = st\<lparr>m_LogToFile := toFile, m_LogToIde := toIde\<rparr>"

text \<open>The time up to the line feed that \<open>asctime_s\<close> appends.\<close>

definition localTime :: "cstring \<Rightarrow> cstring" where
  "localTime asc = (if 10 \<in> set asc then takeWhile (\<lambda>c. c \<noteq> 10) asc else [])"

text \<open>\<open>fprintf\<close> with the message as its format and no arguments: a conversion reads an argument that does not
  exist.\<close>

fun print_format :: "cstring \<Rightarrow> cstring res" where
  "print_format [] = Inr []"
| "print_format (c # cs) =
     (if c \<noteq> 37 then rbind (print_format cs) (\<lambda>r. Inr (c # r))
      else case cs of
             [] \<Rightarrow> Inl OutOfBounds
           | d # ds \<Rightarrow> if d = 37 then rbind (print_format ds) (\<lambda>r. Inr (37 # r)) else Inl OutOfBounds)"

definition logToFile :: "log_env \<Rightarrow> cstring \<Rightarrow> log_state \<Rightarrow> log_state res" where
  "logToFile e msg st =
     (if \<not> m_LogToFile st then Inr st
      else let st1 = st\<lparr>lg_File := if lg_FirstFile st \<and> le_removes e then None else lg_File st, lg_FirstFile := False\<rparr>
           in if \<not> le_opens e then Inr st1
              else rbind (print_format msg) (\<lambda>t. Inr (st1\<lparr>lg_File := Some ((case lg_File st1 of None \<Rightarrow> [] | Some f \<Rightarrow> f) @ t)\<rparr>)))"

definition logToIde :: "cstring \<Rightarrow> log_state \<Rightarrow> log_state" where
  "logToIde msg st = st\<lparr>lg_Ide := lg_Ide st @ [msg]\<rparr>"

definition final_str :: "ELogType \<Rightarrow> cstring \<Rightarrow> cstring \<Rightarrow> nat \<Rightarrow> cstring \<Rightarrow> cstring" where
  "final_str ltype timeStr fname line body =
     (case ltype of
        Message \<Rightarrow> timeStr @ cstr '' '' @ body @ [10]
      | Warning \<Rightarrow> timeStr @ cstr '' WARNING: '' @ fname @ cstr '' line: '' @ dec line @ cstr '' '' @ body @ [10]
      | Critical \<Rightarrow> timeStr @ cstr '' CRITICAL '' @ fname @ cstr '' line: '' @ dec line @ cstr '' '' @ body @ [10])"

definition new_session :: cstring where "new_session = cstr ''------- New Session --------''"

definition session_line :: cstring where "session_line = cstr ''----------------------------''"

text \<open>\<open>log\<close>. The arguments of the entry: what the system answers, the type, the function and its line, and the message.
  \<open>vsprintf_s\<close> ends the program if the message does not fit in 8190 bytes. The line is built before the first two
  lines are logged by the calls of \<open>log\<close> from itself, with answers \<open>e1\<close> and \<open>e2\<close>.\<close>

definition log_rest :: "log_env \<Rightarrow> cstring \<Rightarrow> log_state \<Rightarrow> log_state res" where
  "log_rest e finalStr st = rbind (logToFile e finalStr st) (\<lambda>st1. Inr (logToIde finalStr st1))"

type_synonym log_call = "log_env \<times> ELogType \<times> cstring \<times> nat \<times> cstring"

fun platform_log :: "log_env \<Rightarrow> log_env \<Rightarrow> log_call \<Rightarrow> log_state \<Rightarrow> log_state res" where
  "platform_log e1 e2 (e, ltype, fname, line, body) st =
     (if length body + 1 > 8190 then Inl Terminate
      else let finalStr = final_str ltype (localTime (le_asctime e)) fname line body
           in rbind (if lg_FirstLog st
                     then rbind (log_rest e1 (final_str Message (localTime (le_asctime e1)) [] 0 new_session) (st\<lparr>lg_FirstLog := False\<rparr>)) (\<lambda>st1.
                          log_rest e2 (final_str Message (localTime (le_asctime e2)) [] 0 session_line) st1)
                     else Inr st) (log_rest e finalStr))"

fun log_all :: "log_env \<Rightarrow> log_env \<Rightarrow> log_call list \<Rightarrow> log_state \<Rightarrow> log_state res" where
  "log_all e1 e2 [] st = Inr st"
| "log_all e1 e2 (c # cs) st = rbind (platform_log e1 e2 c st) (log_all e1 e2 cs)"

section \<open>Lemmas\<close>

fun call_line :: "log_call \<Rightarrow> cstring" where
  "call_line (e, ltype, fname, line, body) = final_str ltype (localTime (le_asctime e)) fname line body"

text \<open>A call that the log takes: the message fits, the line has no percent sign, and the file opens.\<close>

fun call_ok :: "log_call \<Rightarrow> bool" where
  "call_ok (e, ltype, fname, line, body) \<longleftrightarrow> le_opens e \<and> length body < 8190 \<and> 37 \<notin> set (final_str ltype (localTime (le_asctime e)) fname line body)"

lemma print_format_plain: "37 \<notin> set msg \<Longrightarrow> print_format msg = Inr msg"
  by (induction msg rule: print_format.induct) auto

lemma log_rest_appends:
  assumes "37 \<notin> set msg" and "le_opens e" and "m_LogToFile st" and "\<not> lg_FirstFile st" and "lg_File st = Some f"
  shows "log_rest e msg st = Inr (st\<lparr>lg_File := Some (f @ msg), lg_Ide := lg_Ide st @ [msg]\<rparr>)"
  using assms by (simp add: log_rest_def logToFile_def logToIde_def print_format_plain Let_def)

lemma log_all_appends:
  assumes "\<forall>c \<in> set cs. call_ok c" and "m_LogToFile st" and "\<not> lg_FirstFile st" and "lg_File st = Some f" and "\<not> lg_FirstLog st"
  shows "log_all e1 e2 cs st = Inr (st\<lparr>lg_File := Some (f @ concat (map call_line cs)), lg_Ide := lg_Ide st @ map call_line cs\<rparr>)"
  using assms
proof (induction cs arbitrary: st f)
  case (Cons c cs)
  let ?st = "st\<lparr>lg_File := Some (f @ call_line c), lg_Ide := lg_Ide st @ [call_line c]\<rparr>"
  have c: "call_ok c" using Cons.prems(1) by simp
  have "platform_log e1 e2 c st = Inr ?st"
    using c Cons.prems(2-5) log_rest_appends [of "call_line c" "fst c" st f] by (cases c) (auto simp: Let_def)
  then show ?case using Cons.IH [of ?st "f @ call_line c"] Cons.prems by simp
qed simp

section \<open>Properties\<close>

text \<open>The log file of a run. Whatever an older run left, after any calls of \<open>log\<close> the file has the two lines of
  the new session and then one line for each call in order, and the debugger gets the same lines.\<close>

theorem log_file_lines:
  assumes "\<forall>c \<in> set (c0 # cs). call_ok c" and "le_removes e1" and "call_ok (e1, Message, [], 0, new_session)"
    and "call_ok (e2, Message, [], 0, session_line)"
  shows "\<exists>st. log_all e1 e2 (c0 # cs) (log_init old) = Inr st \<and>
    lg_File st = Some (concat (lg_Ide st)) \<and>
    lg_Ide st = call_line (e1, Message, [], 0, new_session) # call_line (e2, Message, [], 0, session_line) # map call_line (c0 # cs)"
proof -
  let ?l1 = "call_line (e1, Message, [], 0, new_session)" and ?l2 = "call_line (e2, Message, [], 0, session_line)"
  let ?s1 = "(log_init old)\<lparr>lg_FirstLog := False, lg_FirstFile := False, lg_File := Some ?l1, lg_Ide := [?l1]\<rparr>"
  let ?s2 = "?s1\<lparr>lg_File := Some (?l1 @ ?l2), lg_Ide := [?l1, ?l2]\<rparr>"
  let ?s3 = "?s2\<lparr>lg_File := Some ((?l1 @ ?l2) @ call_line c0), lg_Ide := [?l1, ?l2] @ [call_line c0]\<rparr>"
  have a: "log_rest e1 ?l1 ((log_init old)\<lparr>lg_FirstLog := False\<rparr>) = Inr ?s1"
    using assms(2,3) by (simp add: log_rest_def logToFile_def logToIde_def print_format_plain Let_def log_init_def)
  have b: "log_rest e2 ?l2 ?s1 = Inr ?s2"
    using log_rest_appends [of ?l2 e2 ?s1 ?l1] assms(4) by (simp add: log_init_def)
  have c: "log_rest (fst c0) (call_line c0) ?s2 = Inr ?s3"
    using log_rest_appends [of "call_line c0" "fst c0" ?s2 "?l1 @ ?l2"] assms(1) by (cases c0) (simp add: log_init_def)
  have "platform_log e1 e2 c0 (log_init old) = Inr ?s3"
    using a b c assms(1) by (cases c0) (auto simp: Let_def log_init_def)
  then show ?thesis using log_all_appends [of cs ?s3 "(?l1 @ ?l2) @ call_line c0" e1 e2] assms(1) by (simp add: log_init_def)
qed

text \<open>The setting for the debugger has no effect, and a percent sign in a message makes \<open>fprintf\<close> read arguments that
  do not exist.\<close>

lemma ide_setting_ignored: "lg_Ide (logToIde msg (setLogSettings f i st)) = lg_Ide st @ [msg]"
  by (simp add: logToIde_def setLogSettings_def)

lemma percent_breaks_log:
  assumes "37 \<notin> set xs" and "c \<noteq> 37"
  shows "print_format (xs @ [37, c]) = Inl OutOfBounds"
  using assms by (induction xs) auto

end
