(* ===== verification/Event_Delivery.thy ===== *)
theory Event_Delivery
  imports Network_Sending Network_Events
begin

text \<open>
  What the events of the library do: \<open>process\<close> of the classes in \<open>LinkState.cpp\<close>, \<open>MasterSession.cpp\<close> and
  \<open>MatchMakerData.cpp\<close>, and \<open>Network::processEvents\<close>, which processes the queue of \<open>NetworkEvents\<close> in the thread of
  the application. The result is the list of the calls of the application's listeners and callbacks. An event
  holds its link by a shared pointer, so the link is alive.
\<close>

datatype app_call =
    OnConnect nat nat meta_data endpoint
  | OnDisconnect nat nat endpoint EDisconnectReason
  | OnNewHost nat nat "endpoint option"
  | RegisterCb nat bool
  | JoinCb nat bool

text \<open>\<open>m_Link->getSession()->forListeners\<close>, where each call may dereference the address of the event.\<close>

definition for_session :: "nat \<Rightarrow> (nat \<Rightarrow> nat \<Rightarrow> app_call res) \<Rightarrow> world \<Rightarrow> app_call list res" where
  "for_session i call w =
     rbind (link_session i w) (\<lambda>sid.
     rbind (get_session sid w) (\<lambda>s.
       forListeners (\<lambda>l acc. rbind acc (\<lambda>cs. rbind (call l sid) (\<lambda>c. Inr (cs @ [c])))) (s_Listeners s) (Inr [])))"

text \<open>An empty \<open>std::function\<close> throws when it is called.\<close>

definition result_cb :: "nat \<Rightarrow> (bool \<times> bool \<Rightarrow> bool) \<Rightarrow> (nat \<Rightarrow> app_call) \<Rightarrow> world \<Rightarrow> app_call list res" where
  "result_cb i has call w =
     rbind (deref i w) (\<lambda>l.
     rbind (link_session i w) (\<lambda>sid.
       case cc_get MatchMakerData 0 (l_comps l) of
         None \<Rightarrow> Inl NullDeref
       | Some c \<Rightarrow> if has (as_matchmaker c) then Inr [call sid] else Inl Terminate))"

fun event_process :: "net_event \<Rightarrow> world \<Rightarrow> app_call list res" where
  "event_process (EventNewConnection i md a) w =
     for_session i (\<lambda>l sid. case a of None \<Rightarrow> Inl NullDeref | Some addr \<Rightarrow> Inr (OnConnect l sid md addr)) w"
| "event_process (EventDisconnect i reason a) w = for_session i (\<lambda>l sid. Inr (OnDisconnect l sid a reason)) w"
| "event_process (EventNewHost i host) w = for_session i (\<lambda>l sid. Inr (OnNewHost l sid host)) w"
| "event_process (EventRegisterResult i ok) w = result_cb i fst (\<lambda>sid. RegisterCb sid ok) w"
| "event_process (EventJoinResult i ok) w = result_cb i snd (\<lambda>sid. JoinCb sid ok) w"

text \<open>The events of a world as the queue of \<open>NetworkEvents\<close>, and the processing of one: the calls that it makes are
  appended to those made before. After an error nothing is called any more.\<close>

definition event_queue :: "world \<Rightarrow> net_event network_events" where
  "event_queue w = \<lparr>m_Events = map (\<lambda>e. IEvent e False) (w_events w), m_AllowAsyncCallbacks = False\<rparr>"

definition deliver :: "world \<Rightarrow> net_event \<Rightarrow> app_call list res \<Rightarrow> net_event ievent list \<times> app_call list res" where
  "deliver w e acc = ([], rbind acc (\<lambda>cs. rbind (event_process e w) (\<lambda>ds. Inr (cs @ ds))))"

text \<open>\<open>Network::processEvents\<close>: the calls of the application and the world without its events.\<close>

definition processEvents :: "world \<Rightarrow> (app_call list res \<times> world) option" where
  "processEvents w =
     map_option (\<lambda>(q, calls). (calls, w\<lparr>w_events := map m_Data (m_Events q)\<rparr>)) (processQueuedEvents (deliver w) (event_queue w) (Inr []))"

text \<open>\<open>Network::addSessionListener\<close> and \<open>removeSessionListener\<close>.\<close>

definition addSessionListener :: "nat \<Rightarrow> nat \<Rightarrow> world \<Rightarrow> world res" where
  "addSessionListener sid l w = rbind (get_session sid w) (\<lambda>s. Inr (put_session sid (s\<lparr>s_Listeners := addListener l (s_Listeners s)\<rparr>) w))"

definition removeSessionListener :: "nat \<Rightarrow> nat \<Rightarrow> world \<Rightarrow> world res" where
  "removeSessionListener sid l w = rbind (get_session sid w) (\<lambda>s. Inr (put_session sid (s\<lparr>s_Listeners := removeListener l (s_Listeners s)\<rparr>) w))"

section \<open>Lemmas\<close>

lemma for_listeners:
  assumes "\<And>l. call l = Inr (f l)"
  shows "forListeners (\<lambda>l acc. rbind acc (\<lambda>cs. rbind (call l) (\<lambda>c. Inr (cs @ [c])))) ls (Inr cs) = Inr (cs @ map f ls)"
  unfolding forListeners_def by (induction ls arbitrary: cs) (simp_all add: assms)

lemma for_listeners_Inl: "forListeners (\<lambda>l acc. rbind acc (g l)) ls (Inl e) = Inl e"
  unfolding forListeners_def by (induction ls) simp_all

lemma for_session_calls:
  assumes "link_session i w = Inr sid" and "get_session sid w = Inr s" and "\<And>l. call l sid = Inr (f l)"
  shows "for_session i call w = Inr (map f (s_Listeners s))"
  using for_listeners [of "\<lambda>l. call l sid" f "s_Listeners s" "[]"] assms by (simp add: for_session_def)

text \<open>The loop returns, and the calls are those of the events in order.\<close>

fun process_all :: "net_event list \<Rightarrow> world \<Rightarrow> app_call list res" where
  "process_all [] w = Inr []"
| "process_all (e # es) w = rbind (event_process e w) (\<lambda>cs. rbind (process_all es w) (\<lambda>ds. Inr (cs @ ds)))"

lemma rbind_Inr_right: "rbind m (\<lambda>cs. Inr cs) = m"
  by (cases m) simp_all

lemma deliver_failed: "process_loop (deliver w) (map (\<lambda>e. IEvent e False) es) (Inl x) = Some (Inl x)"
  by (induction es) (simp_all add: process_loop_Cons IEvent_def deliver_def)

lemma process_loop_deliver:
  "process_loop (deliver w) (map (\<lambda>e. IEvent e False) es) (Inr acc) = Some (rbind (process_all es w) (\<lambda>ds. Inr (acc @ ds)))"
proof (induction es arbitrary: acc)
  case (Cons e es)
  have s: "process_loop (deliver w) (map (\<lambda>e. IEvent e False) (e # es)) (Inr acc) =
      process_loop (deliver w) (map (\<lambda>e. IEvent e False) es) (rbind (event_process e w) (\<lambda>ds. Inr (acc @ ds)))"
    by (simp add: process_loop_Cons IEvent_def) (simp add: deliver_def)
  show ?case
  proof (cases "event_process e w")
    case (Inl x)
    then show ?thesis using s deliver_failed [of w es x] by simp
  next
    case (Inr cs)
    then show ?thesis using s Cons.IH [of "acc @ cs"] by (cases "process_all es w") simp_all
  qed
qed simp

lemma processEvents_eq: "processEvents w = Some (process_all (w_events w) w, w\<lparr>w_events := []\<rparr>)"
  using process_loop_deliver [of w "w_events w" "[]"]
  by (simp add: processEvents_def processQueuedEvents_def event_queue_def rbind_Inr_right)

lemma process_all_append: "process_all (es @ fs) w = rbind (process_all es w) (\<lambda>cs. rbind (process_all fs w) (\<lambda>ds. Inr (cs @ ds)))"
proof (induction es)
  case Nil
  then show ?case by (simp add: rbind_Inr_right)
next
  case (Cons e es)
  then show ?case by (cases "event_process e w"; cases "process_all es w"; cases "process_all fs w") simp_all
qed

text \<open>Processing an event does not depend on the queue.\<close>

lemma event_process_push: "event_process e (push_event f w) = event_process e w"
proof -
  have "link_session i (push_event f w) = link_session i w" "get_session k (push_event f w) = get_session k w" "deref i (push_event f w) = deref i w" for i k
    by (simp_all add: link_session_def deref_def lock_def get_session_def push_event_def)
  then show ?thesis by (cases e) (simp_all add: for_session_def result_cb_def)
qed

lemma process_all_push: "process_all es (push_event f w) = process_all es w"
  by (induction es) (simp_all add: event_process_push)

text \<open>A connection that a peer announces with a null address ends in a null reference as soon as the session has a
  listener.\<close>

lemma null_address_crashes:
  assumes "link_session i w = Inr sid" and "get_session sid w = Inr s" and "s_Listeners s \<noteq> []"
  shows "\<exists>w'. linkStateNewConnection md None i w = Inr w' \<and> (\<exists>x calls. processEvents w' = Some (calls, x) \<and> (\<forall>cs. calls \<noteq> Inr cs))"
proof -
  obtain l ls where l: "s_Listeners s = l # ls" using assms(3) by (cases "s_Listeners s") auto
  have "event_process (EventNewConnection i md None) w = Inl NullDeref"
    using assms(1,2) l for_listeners_Inl [of "\<lambda>l cs. Inl NullDeref" ls NullDeref] by (simp add: for_session_def forListeners_def)
  moreover have "w_events (push_event (EventNewConnection i md None) w) = w_events w @ [EventNewConnection i md None]" by (simp add: push_event_def)
  ultimately show ?thesis using assms(1)
    by (cases "process_all (w_events w) w")
       (simp_all add: linkStateNewConnection_def processEvents_eq process_all_append process_all_push event_process_push del: event_process.simps)
qed

section \<open>Properties\<close>



end
