(* ===== verification/Network_Reception.thy ===== *)
theory Network_Reception
  imports Listeners Link_Registry
begin

text \<open>
  A \<open>Network\<close> with its listeners, its reception threads and its links: \<open>startListen\<close>, \<open>stopListen\<close> and
  \<open>simulatePacketLoss\<close> of \<open>Network.cpp\<close>, and a round of a reception thread from \<open>select\<close> to \<open>Link::receive\<close>. The
  theories \<open>Listeners\<close>, \<open>Socket_Sets\<close> and \<open>Network_Rpc\<close> have the parts; here they act on one state, in which the
  listeners and the links share the reception threads.

  What the system has received is the environment of a round: for every handle the answers that \<open>recvfrom\<close> will give,
  an error code or a datagram with the address of its sender. \<open>rnd\<close> is the sequence of the results of \<open>Util::rand\<close>.
\<close>

section \<open>State\<close>

record network =
  n_World :: world
  n_Listeners :: "(u16, listener) stdmap"
  n_NumInitialized :: u32
  n_PacketLossPercentage :: u32

text \<open>The constructor initialises neither the percentage nor the counter of sessions.\<close>

definition Network_ctor :: "u32 \<Rightarrow> u32 \<Rightarrow> u32 \<Rightarrow> network" where
  "Network_ctor pct sid num =
     \<lparr>n_World = Network_init sid, n_Listeners = [], n_NumInitialized = num, n_PacketLossPercentage = pct\<rparr>"

text \<open>The view of the listener manager: its listeners and the reception threads of the network.\<close>

definition listeners_of :: "network \<Rightarrow> listeners" where
  "listeners_of n = \<lparr>lm_Listeners = n_Listeners n, lm_recv = w_recv (n_World n), lm_NumInitialized = n_NumInitialized n\<rparr>"

definition with_listeners :: "listeners \<Rightarrow> network \<Rightarrow> network" where
  "with_listeners m n =
     n\<lparr>n_World := (n_World n)\<lparr>w_recv := lm_recv m\<rparr>, n_Listeners := lm_Listeners m, n_NumInitialized := lm_NumInitialized m\<rparr>"

section \<open>Calls\<close>

definition network_startListen ::
  "os_calls \<Rightarrow> bool \<Rightarrow> bool \<Rightarrow> int \<Rightarrow> u16 \<Rightarrow> network \<Rightarrow> (EListenCallResult \<times> network) res" where
  "network_startListen os dirty closing junk port n =
     rbind (startListen os dirty closing junk port (listeners_of n)) (\<lambda>(r, m). Inr (r, with_listeners m n))"

definition network_stopListen :: "u16 \<Rightarrow> network \<Rightarrow> network res" where
  "network_stopListen port n = rbind (stopListen port (listeners_of n)) (\<lambda>m. Inr (with_listeners m n))"

definition simulatePacketLoss :: "u32 \<Rightarrow> network \<Rightarrow> network" where
  "simulatePacketLoss percentage n = n\<lparr>n_PacketLossPercentage := percentage\<rparr>"

definition packetLossPercentage :: "network \<Rightarrow> u32" where
  "packetLossPercentage n = n_PacketLossPercentage n"

definition nextSessionId :: "network \<Rightarrow> u32 \<times> network" where
  "nextSessionId n =
     (w_NextSessionId (n_World n), n\<lparr>n_World := (n_World n)\<lparr>w_NextSessionId := w_NextSessionId (n_World n) + 1\<rparr>\<rparr>)"

definition getLink :: "sock_addr \<Rightarrow> network \<Rightarrow> nat option" where
  "getLink sap n = lm_get sap (n_World n)"

section \<open>Reception\<close>

text \<open>The test that drops a datagram deliberately.\<close>

definition packet_lost :: "u32 \<Rightarrow> u32 \<Rightarrow> bool" where
  "packet_lost pct r \<longleftrightarrow> pct \<noteq> 0 \<and> r mod 100 + 1 \<le> pct"

type_synonym recv_answer = "int + byte list \<times> endpoint"

record rx =
  rx_net :: network
  rx_in :: "u32 \<Rightarrow> recv_answer list"
  rx_rands :: nat
  rx_jobs :: "(nat \<times> nat) list"

text \<open>\<open>sock.recv\<close>: the next answer of the system for the handle. With nothing to read the call waits; a closed
  socket is not asked.\<close>

definition rx_recv :: "bsd_socket \<Rightarrow> rx \<Rightarrow> ((ERecvResult \<times> byte list \<times> endpoint \<times> int) \<times> rx) option" where
  "rx_recv sock x =
     (let h = m_Socket sock;
          told = (\<lambda>answer. case bsd_recv (\<lambda>s size. answer) MM_MAX_RECVSIZE (Some 0) sock of (r, d, etp, err) \<Rightarrow> (r, d, etp, the err))
      in if h = INVALID_SOCKET then Some (told (Inl 0), x)
         else case rx_in x h of
                [] \<Rightarrow> None
              | a # as \<Rightarrow> Some (told a, x\<lparr>rx_in := (rx_in x)(h := as)\<rparr>))"

text \<open>\<open>ReceptionThread::handleReceivedPacket\<close>. \<open>Util::rand\<close> is called only if the percentage is not zero.\<close>

definition rt_handleReceivedPacket :: "(u32 \<Rightarrow> int + byte list) \<Rightarrow> (nat \<Rightarrow> u32) \<Rightarrow> bsd_socket \<Rightarrow> rx \<Rightarrow> rx res option" where
  "rt_handleReceivedPacket sockname rnd sock x =
     (case rx_recv sock x of
        None \<Rightarrow> None
      | Some (received, x1) \<Rightarrow>
          let pct = packetLossPercentage (rx_net x1);
              lost = packet_lost pct (rnd (rx_rands x1));
              x2 = x1\<lparr>rx_rands := if pct = 0 then rx_rands x1 else Suc (rx_rands x1)\<rparr>
          in case handleReceivedPacket sockname lost (m_Socket sock) received (n_World (rx_net x2)) of
               None \<Rightarrow> None
             | Some (Inl e) \<Rightarrow> Some (Inl e)
             | Some (Inr (job, w)) \<Rightarrow>
                 Some (Inr (x2\<lparr>rx_net := (rx_net x2)\<lparr>n_World := w\<rparr>,
                               rx_jobs := rx_jobs x2 @ (case job of None \<Rightarrow> [] | Some j \<Rightarrow> [j])\<rparr>)))"

text \<open>One round of the \<open>k\<close>-th reception thread. The array of handles and the flag are the thread's own; the map of
  sockets is only changed by the manager. A thread that does not exist does nothing.\<close>

definition network_round ::
  "(u32 \<Rightarrow> int + byte list) \<Rightarrow> (nat \<Rightarrow> u32) \<Rightarrow> (u32 list \<Rightarrow> nat \<Rightarrow> int + u32 list) \<Rightarrow> nat \<Rightarrow> rx \<Rightarrow> (bool \<times> rx) res option" where
  "network_round sockname rnd select k x =
     (let ts = w_recv (n_World (rx_net x))
      in if k \<ge> length ts then Some (Inr (False, x))
         else case reception_round select (rt_handleReceivedPacket sockname rnd) (ts ! k) x of
                None \<Rightarrow> None
              | Some (Inl e) \<Rightarrow> Some (Inl e)
              | Some (Inr (go, t, x1)) \<Rightarrow>
                  let w = n_World (rx_net x1);
                      t' = (w_recv w ! k)\<lparr>m_LowLevelSocketArray := m_LowLevelSocketArray t, m_IsDirty := m_IsDirty t\<rparr>
                  in Some (Inr (go, x1\<lparr>rx_net := (rx_net x1)\<lparr>n_World := w\<lparr>w_recv := (w_recv w)[k := t']\<rparr>\<rparr>\<rparr>)))"

section \<open>Simulated packet loss\<close>

text \<open>The simulation drops what its percentage says: of one hundred consecutive remainders exactly as many, none for
  zero and all from one hundred on.\<close>

lemma packet_lost_iff: "packet_lost pct r \<longleftrightarrow> unat r mod 100 < unat pct"
proof -
  have m: "unat (r mod 100) = unat r mod 100" by (simp add: unat_mod)
  then have "unat (r mod 100 + 1) = unat r mod 100 + 1" by (subst unat_add_small) (simp_all add: m less_trans [OF mod_less_divisor])
  then show ?thesis by (auto simp: packet_lost_def word_le_nat_alt m unat_eq_zero [symmetric] simp del: unat_eq_zero)
qed

lemma packet_lost_zero [simp]: "\<not> packet_lost 0 r"
  by (simp add: packet_lost_def)

lemma packet_loss_rate:
  assumes "unat pct \<le> 100"
  shows "card {r. r < 100 \<and> packet_lost pct (of_nat r)} = unat pct"
proof -
  have "{r. r < 100 \<and> packet_lost pct (of_nat r)} = {r. r < unat pct}"
    using assms by (auto simp: packet_lost_iff unat_of_nat32)
  then show ?thesis by simp
qed

section \<open>A datagram and its link\<close>

declare split_paired_All [simp del] split_paired_Ex [simp del]

text \<open>The components of the link of a pair of address and socket; a link that does not exist yet has none.\<close>

definition comps_at :: "sock_addr \<Rightarrow> world \<Rightarrow> link_component components" where
  "comps_at sap w = (case lm_get sap w of None \<Rightarrow> [] | Some i \<Rightarrow> (case lock w i of None \<Rightarrow> [] | Some l \<Rightarrow> l_comps l))"

lemma ssm_remove_null: "ssm_removeSocket None ts = Inr ts' \<Longrightarrow> ts' = ts"
  by (cases ts) (simp_all add: rt_removeSocket_def)

text \<open>What the link manager does for a pair of socket and address, when the link has no session yet.\<close>

lemma getOrAdd_frame:
  assumes inv: "lm_inv w" and g: "lm_getOrAdd sockname None sap w = Inr (b, r, w1)"
  shows "w_recv w1 = w_recv w" and "s \<noteq> sap \<Longrightarrow> lm_get s w1 = lm_get s w" and "sap_of w j \<noteq> None \<Longrightarrow> lock w1 j = lock w j"
    and "r = None \<Longrightarrow> \<exists>e. sockname (snd sap) = Inl e"
    and "r = Some i \<Longrightarrow> lm_get sap w1 = Some i \<and>
      (\<exists>l. lock w1 i = Some l \<and> l_comps l = comps_at sap w)"
proof -
  let ?P = "w_recv w1 = w_recv w \<and> (s \<noteq> sap \<longrightarrow> lm_get s w1 = lm_get s w) \<and> (sap_of w j \<noteq> None \<longrightarrow> lock w1 j = lock w j) \<and>
    (r = None \<longrightarrow> (\<exists>e. sockname (snd sap) = Inl e)) \<and>
    (r = Some i \<longrightarrow> lm_get sap w1 = Some i \<and> (\<exists>l. lock w1 i = Some l \<and> l_comps l = comps_at sap w))"
  have ?P
  proof (cases "lm_get sap w")
    case (Some k)
    then have "sap_of w k = Some sap" using inv by (simp add: lm_inv_def lm_get_def)
    then obtain l where "lock w k = Some l" by (auto simp: sap_of_def split: option.splits)
    with Some g show ?thesis by (auto simp: lm_getOrAdd_def lm_get_def comps_at_def)
  next
    case None
    then obtain r1 w2 where c: "link_create sockname None sap w = Inr (r1, w2)"
        and e: "(case r1 of None \<Rightarrow> Inr (True, None, w2) | Some i \<Rightarrow> Inr (True, Some i, lm_insert sap i w2)) = (Inr (b, r, w1) :: (bool \<times> nat option \<times> world) res)"
      using g by (auto simp: lm_getOrAdd_def lm_get_def elim!: resE)
    show ?thesis
    proof (cases "sockname (snd sap)")
      case (Inl err)
      then have "r1 = None" "w2 = w" using c by (auto simp: link_create_def createSource_def elim!: resE dest!: ssm_remove_null)
      with e Inl show ?thesis by auto
    next
      case (Inr a)
      then obtain src where src: "mem_store (Some createEmpty) 0 a = Inr src" using c by (auto simp: link_create_def createSource_def elim!: resE)
      show ?thesis
      proof (cases src)
        case s: None
        then show ?thesis using src by (auto simp: mem_store_def split: if_splits)
      next
        case (Some so)
        then have r1: "r1 = Some (w_nextLink w)" and
            w2: "w2 = (put_link (w_nextLink w) (new_link (snd sap) (fst sap) so) w)\<lparr>w_nextLink := Suc (w_nextLink w)\<rparr>"
          using c Inr src by (auto simp: link_create_def createSource_def Let_def)
        have w1: "r = Some (w_nextLink w)" "w1 = lm_insert sap (w_nextLink w) w2" using e r1 by auto
        have "sap_of w (w_nextLink w) = None" using inv by (auto simp: lm_inv_def)
        then have "sap_of w j \<noteq> None \<Longrightarrow> j \<noteq> w_nextLink w" by metis
        then show ?thesis using w1 w2 None Inr
          by (auto simp: lm_insert_def put_link_def lm_get_def lock_def sm_find_set new_link_def comps_at_def)
      qed
    qed
  qed
  then show "w_recv w1 = w_recv w" and "s \<noteq> sap \<Longrightarrow> lm_get s w1 = lm_get s w" and "sap_of w j \<noteq> None \<Longrightarrow> lock w1 j = lock w j"
    and "r = None \<Longrightarrow> \<exists>e. sockname (snd sap) = Inl e"
    and "r = Some i \<Longrightarrow> lm_get sap w1 = Some i \<and> (\<exists>l. lock w1 i = Some l \<and> l_comps l = comps_at sap w)" by simp_all
qed

lemma lm_get_alive: "lm_inv w \<Longrightarrow> lm_get s w = Some i \<Longrightarrow> sap_of w i = Some s"
  by (simp add: lm_inv_def lm_get_def)

text \<open>A datagram changes only the links of the socket it came in on.\<close>

lemma packet_frame:
  assumes inv: "lm_inv w" and p: "handleReceivedPacket sockname lost h rcv w = Some (Inr (job, w'))"
  shows "w_recv w' = w_recv w" and "snd s \<noteq> h \<Longrightarrow> lm_get s w' = lm_get s w"
    and "snd s \<noteq> h \<Longrightarrow> lm_get s w = Some i \<Longrightarrow> lock w' i = lock w i"
proof -
  obtain r data etp err where rcv: "rcv = (r, data, etp, err)" by (cases rcv)
  consider "w' = w" | b w1 a where "lm_getOrAdd sockname None (a, h) w = Inr (b, None, w1)" "w' = w1"
    | b w1 a k l m where "lm_getOrAdd sockname None (a, h) w = Inr (b, Some k, w1)" "w' = put_link k (l\<lparr>l_comps := m\<rparr>) w1"
    using p unfolding handleReceivedPacket_def rcv
    by (auto simp: deref_Inr elim!: resE split: if_splits sum.splits prod.splits option.splits)
  then have "w_recv w' = w_recv w \<and> (snd s \<noteq> h \<longrightarrow> lm_get s w' = lm_get s w) \<and>
    (snd s \<noteq> h \<longrightarrow> lm_get s w = Some i \<longrightarrow> lock w' i = lock w i)"
  proof cases
    case 2
    then show ?thesis using getOrAdd_frame(1-3) [OF inv 2(1)] lm_get_alive [OF inv] by (cases s) auto
  next
    case 3
    have "sap_of w1 k = Some (a, h)" using lm_inv_getOrAdd [OF inv 3(1)] by simp
    moreover have "sap_of w1 i = Some s" if "lm_get s w = Some i" "snd s \<noteq> h"
      using that getOrAdd_frame(3) [OF inv 3(1), of i] lm_get_alive [OF inv that(1)] by (auto simp: sap_of_def)
    ultimately have "i \<noteq> k" if "lm_get s w = Some i" "snd s \<noteq> h" using that by auto
    then show ?thesis using getOrAdd_frame(1-3) [OF inv 3(1)] lm_get_alive [OF inv] 3(2)
      by (cases s) (auto simp: put_link_def lm_get_def lock_def)
  qed simp
  then show "w_recv w' = w_recv w" and "snd s \<noteq> h \<Longrightarrow> lm_get s w' = lm_get s w"
    and "snd s \<noteq> h \<Longrightarrow> lm_get s w = Some i \<Longrightarrow> lock w' i = lock w i" by simp_all
qed

text \<open>A good datagram is handed to the link of its sender.\<close>

lemma packet_reaches:
  assumes inv: "lm_inv w" and p: "handleReceivedPacket sockname False h (Recv_Succes, data, etp, 0) w = Some (Inr (job, w'))"
    and len: "MM_MIN_HDR_SIZE \<le> int (length data)" and etp: "endpoint_ok etp" and src: "sockname h = Inr a"
  shows "\<exists>i l j. lm_get (etp, h) w' = Some i \<and> lock w' i = Some l \<and>
    link_receive (recv_view data) (comps_at (etp, h) w) = Some (Inr (j, l_comps l)) \<and> job = map_option (Pair i) j"
proof -
  obtain b r w1 where g: "lm_getOrAdd sockname None (etp, h) w = Inr (b, r, w1)"
    using p len by (auto simp: handleReceivedPacket_def getCopyDerived_ok [OF etp] split: sum.splits prod.splits)
  then obtain i where i: "r = Some i" using getOrAdd_frame(4) [OF inv g] src by (cases r) auto
  obtain l where l: "lm_get (etp, h) w1 = Some i" "lock w1 i = Some l" "l_comps l = comps_at (etp, h) w"
    using getOrAdd_frame(5) [OF inv g i] by blast
  obtain j m where "link_receive (recv_view data) (l_comps l) = Some (Inr (j, m))" "job = map_option (Pair i) j"
      "w' = put_link i (l\<lparr>l_comps := m\<rparr>) w1"
    using p len g i l(2) by (auto simp: handleReceivedPacket_def getCopyDerived_ok [OF etp] deref_def split: option.splits sum.splits prod.splits)
  with l show ?thesis by (auto simp: put_link_def lm_get_def lock_def)
qed

section \<open>A round of a reception thread\<close>

abbreviation rx_world :: "rx \<Rightarrow> world" where "rx_world x \<equiv> n_World (rx_net x)"

text \<open>What the handling of datagrams on the handles \<open>H\<close> leaves alone.\<close>

definition rx_keeps :: "u32 set \<Rightarrow> rx \<Rightarrow> rx \<Rightarrow> bool" where
  "rx_keeps H x x' \<longleftrightarrow> (lm_inv (rx_world x) \<longrightarrow> lm_inv (rx_world x')) \<and> w_recv (rx_world x') = w_recv (rx_world x) \<and>
     (\<exists>w. rx_net x' = (rx_net x)\<lparr>n_World := w\<rparr>) \<and> set (rx_jobs x) \<subseteq> set (rx_jobs x') \<and>
     (\<forall>h. h \<notin> H \<longrightarrow> rx_in x' h = rx_in x h) \<and>
     (\<forall>s. snd s \<notin> H \<longrightarrow> lm_get s (rx_world x') = lm_get s (rx_world x) \<and>
        (\<forall>i. lm_get s (rx_world x) = Some i \<longrightarrow> lock (rx_world x') i = lock (rx_world x) i))"

lemma rx_keeps_refl: "rx_keeps H x x"
  by (auto simp: rx_keeps_def intro: exI [of _ "rx_world x"])

lemma rx_keeps_trans:
  assumes "rx_keeps H x y" and "rx_keeps K y z"
  shows "rx_keeps (H \<union> K) x z"
proof -
  obtain w w' where "rx_net y = (rx_net x)\<lparr>n_World := w\<rparr>" "rx_net z = (rx_net y)\<lparr>n_World := w'\<rparr>"
    using assms by (auto simp: rx_keeps_def)
  then have "\<exists>w. rx_net z = (rx_net x)\<lparr>n_World := w\<rparr>" by (intro exI [of _ w']) simp
  moreover have "lock (rx_world z) i = lock (rx_world x) i" if "snd s \<notin> H \<union> K" "lm_get s (rx_world x) = Some i" for s i
  proof -
    have "lm_get s (rx_world y) = Some i" "lock (rx_world y) i = lock (rx_world x) i" using assms(1) that by (auto simp: rx_keeps_def)
    with assms(2) that(1) show ?thesis by (auto simp: rx_keeps_def)
  qed
  ultimately show ?thesis using assms by (simp add: rx_keeps_def subset_iff)
qed

lemma rx_keeps_mono: "rx_keeps H x y \<Longrightarrow> H \<subseteq> K \<Longrightarrow> rx_keeps K x y"
  by (auto simp: rx_keeps_def subset_iff)

lemma rx_keeps_comps:
  "rx_keeps H x y \<Longrightarrow> snd s \<notin> H \<Longrightarrow> comps_at s (rx_world y) = comps_at s (rx_world x)"
  by (auto simp: rx_keeps_def comps_at_def split: option.split)

lemma rx_recv_keeps:
  assumes "rx_recv sock x = Some (rcv, x1)"
  shows "rx_net x1 = rx_net x \<and> rx_jobs x1 = rx_jobs x \<and> (\<forall>h. h \<noteq> m_Socket sock \<longrightarrow> rx_in x1 h = rx_in x h)"
  using assms by (auto simp: rx_recv_def Let_def split: if_splits list.splits)

lemma rt_handle_keeps:
  assumes inv: "lm_inv (rx_world x)" and r: "rt_handleReceivedPacket sockname rnd sock x = Some (Inr x')"
  shows "rx_keeps {m_Socket sock} x x'"
proof -
  obtain rcv x1 where x1: "rx_recv sock x = Some (rcv, x1)" using r by (auto simp: rt_handleReceivedPacket_def split: option.splits)
  note k = rx_recv_keeps [OF x1]
  define lost where "lost = packet_lost (packetLossPercentage (rx_net x)) (rnd (rx_rands x1))"
  obtain res where res: "handleReceivedPacket sockname lost (m_Socket sock) rcv (rx_world x) = Some (Inr res)"
    using r x1 k by (auto simp: rt_handleReceivedPacket_def Let_def lost_def split: option.splits sum.splits)
  obtain job w where p: "handleReceivedPacket sockname lost (m_Socket sock) rcv (rx_world x) = Some (Inr (job, w))"
    using res by (cases res) simp
  have x': "rx_net x' = (rx_net x)\<lparr>n_World := w\<rparr>" "rx_jobs x' = rx_jobs x @ (case job of None \<Rightarrow> [] | Some j \<Rightarrow> [j])" "rx_in x' = rx_in x1"
    using r x1 k p by (auto simp: rt_handleReceivedPacket_def Let_def lost_def)
  from packet_frame [OF inv p] lm_inv_packet [OF inv p] k x' show ?thesis by (auto simp: rx_keeps_def)
qed

lemma ready_loop_append:
  "ready_loop f m (as @ bs) n =
     (case ready_loop f m as n of None \<Rightarrow> None | Some (Inl e) \<Rightarrow> Some (Inl e) | Some (Inr n') \<Rightarrow> ready_loop f m bs n')"
  by (induction as arbitrary: n) (auto split: option.split sum.split)

lemma ready_loop_keeps:
  assumes "\<forall>kv \<in> set m. fst kv = m_Socket (snd kv)" and "lm_inv (rx_world x)"
    and "ready_loop (rt_handleReceivedPacket sockname rnd) m ss x = Some (Inr x')"
  shows "rx_keeps (set ss \<inter> fst ` set m) x x'"
  using assms(2,3)
proof (induction ss arbitrary: x)
  case (Cons s ss)
  show ?case
  proof (cases "sm_find m s")
    case None
    then have "rx_keeps (set ss \<inter> fst ` set m) x x'" using Cons by simp
    then show ?thesis by (rule rx_keeps_mono) auto
  next
    case (Some sock)
    then have s: "m_Socket sock = s" using assms(1) sm_find_Some_mem [OF Some] by fastforce
    obtain y where y: "rt_handleReceivedPacket sockname rnd sock x = Some (Inr y)"
        "ready_loop (rt_handleReceivedPacket sockname rnd) m ss y = Some (Inr x')"
      using Cons.prems(2) Some by (auto split: option.splits sum.splits)
    note k = rt_handle_keeps [OF Cons.prems(1) y(1), unfolded s]
    then have "lm_inv (rx_world y)" using Cons.prems(1) by (simp add: rx_keeps_def)
    moreover have "s \<in> fst ` set m" using sm_find_Some_mem [OF Some] by force
    ultimately show ?thesis using rx_keeps_trans [OF k Cons.IH [OF _ y(2)]] by (simp add: Int_insert_left)
  qed
qed (simp add: rx_keeps_refl)

text \<open>The answer of \<open>recv\<close> for an open socket is the next one of the system.\<close>

lemma rx_recv_datagram:
  assumes "m_Socket sock \<noteq> INVALID_SOCKET" and "rx_in x (m_Socket sock) = Inr (data, etp) # rest"
  shows "rx_recv sock x = Some ((Recv_Succes, data, etp, 0), x\<lparr>rx_in := (rx_in x)(m_Socket sock := rest)\<rparr>)"
  using assms by (simp add: rx_recv_def bsd_recv_def Let_def set_err_def)

text \<open>What the delivery of a datagram means: it is read, the link of its sender exists and has received it, and the
  job that the link added is there.\<close>

definition delivered :: "byte list \<Rightarrow> sock_addr \<Rightarrow> link_component components \<Rightarrow> rx \<Rightarrow> bool" where
  "delivered data sap m x \<longleftrightarrow>
     (\<exists>i l j. lm_get sap (rx_world x) = Some i \<and> lock (rx_world x) i = Some l \<and>
        link_receive (recv_view data) m = Some (Inr (j, l_comps l)) \<and> set_option (map_option (Pair i) j) \<subseteq> set (rx_jobs x))"

lemma delivered_keeps: "delivered data sap m x \<Longrightarrow> rx_keeps H x y \<Longrightarrow> snd sap \<notin> H \<Longrightarrow> delivered data sap m y"
proof -
  assume d: "delivered data sap m x" and k: "rx_keeps H x y" "snd sap \<notin> H"
  then obtain i l j where i: "lm_get sap (rx_world x) = Some i" "lock (rx_world x) i = Some l"
      "link_receive (recv_view data) m = Some (Inr (j, l_comps l))" "set_option (map_option (Pair i) j) \<subseteq> set (rx_jobs x)"
    unfolding delivered_def by blast
  have "lm_get sap (rx_world y) = Some i" "lock (rx_world y) i = Some l" "set (rx_jobs x) \<subseteq> set (rx_jobs y)"
    using i(1,2) k by (simp_all add: rx_keeps_def)
  with i(3,4) show ?thesis unfolding delivered_def by blast
qed

lemma rt_handle_delivers:
  assumes inv: "lm_inv (rx_world x)" and r: "rt_handleReceivedPacket sockname rnd sock x = Some (Inr x')"
    and valid: "m_Socket sock \<noteq> INVALID_SOCKET" and q: "rx_in x (m_Socket sock) = Inr (data, etp) # rest"
    and len: "MM_MIN_HDR_SIZE \<le> int (length data)" and etp: "endpoint_ok etp" and src: "sockname (m_Socket sock) = Inr a"
    and lossless: "packetLossPercentage (rx_net x) = 0"
  shows "delivered data (etp, m_Socket sock) (comps_at (etp, m_Socket sock) (rx_world x)) x' \<and> rx_in x' (m_Socket sock) = rest"
proof -
  let ?h = "m_Socket sock"
  obtain job w where p: "handleReceivedPacket sockname False ?h (Recv_Succes, data, etp, 0) (rx_world x) = Some (Inr (job, w))"
      and x': "x' = x\<lparr>rx_in := (rx_in x)(?h := rest), rx_net := (rx_net x)\<lparr>n_World := w\<rparr>,
        rx_jobs := rx_jobs x @ (case job of None \<Rightarrow> [] | Some j \<Rightarrow> [j])\<rparr>"
    using r lossless
    by (auto simp: rt_handleReceivedPacket_def rx_recv_datagram [OF valid q] Let_def split: option.splits sum.splits prod.splits)
  obtain i l j where "lm_get (etp, ?h) w = Some i" "lock w i = Some l" "job = map_option (Pair i) j"
      "link_receive (recv_view data) (comps_at (etp, ?h) (rx_world x)) = Some (Inr (j, l_comps l))"
    using packet_reaches [OF inv p len etp src] by blast
  then show ?thesis by (auto simp: delivered_def x' split: option.split)
qed

lemma ready_loop_delivers:
  assumes m: "sm_ok m" "\<forall>kv \<in> set m. fst kv = m_Socket (snd kv)" and inv: "lm_inv (rx_world x)"
    and r: "ready_loop (rt_handleReceivedPacket sockname rnd) m ss x = Some (Inr x')"
    and h: "h \<in> set ss" "distinct ss" "h \<in> fst ` set m" "h \<noteq> INVALID_SOCKET" and q: "rx_in x h = Inr (data, etp) # rest"
    and len: "MM_MIN_HDR_SIZE \<le> int (length data)" and etp: "endpoint_ok etp" and src: "sockname h = Inr a"
    and lossless: "packetLossPercentage (rx_net x) = 0"
  shows "delivered data (etp, h) (comps_at (etp, h) (rx_world x)) x' \<and> rx_in x' h = rest"
proof -
  obtain as bs where ss: "ss = as @ h # bs" "h \<notin> set as" "h \<notin> set bs" using h(1,2) by (auto dest: split_list)
  obtain sock where sock: "sm_find m h = Some sock" using h(3) sm_find_None_iff [of m h] by (cases "sm_find m h") auto
  then have s: "m_Socket sock = h" using m(2) sm_find_Some_mem [OF sock] by fastforce
  obtain y z where y: "ready_loop (rt_handleReceivedPacket sockname rnd) m as x = Some (Inr y)"
      and z: "rt_handleReceivedPacket sockname rnd sock y = Some (Inr z)"
      and x': "ready_loop (rt_handleReceivedPacket sockname rnd) m bs z = Some (Inr x')"
    using r sock by (auto simp: ss(1) ready_loop_append split: option.splits sum.splits)
  note ky = ready_loop_keeps [OF m(2) inv y]
  have ivy: "lm_inv (rx_world y)" and qy: "rx_in y (m_Socket sock) = Inr (data, etp) # rest"
      and ly: "packetLossPercentage (rx_net y) = 0"
    using ky inv q ss(2) s lossless by (auto simp: rx_keeps_def packetLossPercentage_def)
  have cy: "comps_at (etp, h) (rx_world y) = comps_at (etp, h) (rx_world x)" using rx_keeps_comps [OF ky] ss(2) by simp
  have src': "sockname (m_Socket sock) = Inr a" and v: "m_Socket sock \<noteq> INVALID_SOCKET" using src h(4) s by simp_all
  have ivz: "lm_inv (rx_world z)" using rt_handle_keeps [OF ivy z] ivy by (simp add: rx_keeps_def)
  have d: "delivered data (etp, h) (comps_at (etp, h) (rx_world x)) z \<and> rx_in z h = rest"
    using rt_handle_delivers [OF ivy z v qy len etp src' ly] s cy by simp
  note kx = ready_loop_keeps [OF m(2) ivz x']
  then show ?thesis using d delivered_keeps [OF _ kx] ss(3) by (simp add: rx_keeps_def)
qed

section \<open>Steps of a network\<close>

text \<open>The operations of a network as long as no link is destroyed: the calls that concern the reception, a round of a
  reception thread with whatever the system received, and any other operation that leaves the reception threads alone.\<close>

inductive network_step :: "(u32 \<Rightarrow> int + byte list) \<Rightarrow> network \<Rightarrow> network \<Rightarrow> bool" for sockname where
  listen: "fresh_handle os (listeners_of n) \<Longrightarrow> network_startListen os d c junk port n = Inr (r, n') \<Longrightarrow> network_step sockname n n'"
| stop: "network_stopListen port n = Inr n' \<Longrightarrow> network_step sockname n n'"
| loss: "network_step sockname n (simulatePacketLoss pct n)"
| round: "network_round sockname rnd select k x = Some (Inr (go, x')) \<Longrightarrow> rx_net x = n \<Longrightarrow> rx_net x' = n' \<Longrightarrow> network_step sockname n n'"
| call: "net_step sockname (n_World n) w \<Longrightarrow> w_recv w = w_recv (n_World n) \<Longrightarrow> network_step sockname n (n\<lparr>n_World := w\<rparr>)"

abbreviation network_reach :: "(u32 \<Rightarrow> int + byte list) \<Rightarrow> network \<Rightarrow> bool" where
  "network_reach sockname \<equiv> reachable (\<lambda>n. \<exists>pct sid num. n = Network_ctor pct sid num) (network_step sockname)"

definition network_inv :: "network \<Rightarrow> bool" where
  "network_inv n \<longleftrightarrow> lm_inv (n_World n) \<and> listeners_inv (listeners_of n)"

lemma lm_inv_recv [simp]: "lm_inv (w\<lparr>w_recv := ts\<rparr>) = lm_inv w"
  by (simp add: lm_inv_def)

lemma listeners_of_with [simp]: "listeners_of (with_listeners m n) = m"
  by (simp add: listeners_of_def with_listeners_def)

lemma world_with [simp]: "n_World (with_listeners m n) = (n_World n)\<lparr>w_recv := lm_recv m\<rparr>"
  by (simp add: with_listeners_def)

text \<open>A thread that only rebuilt its array watches what it watched.\<close>

lemma rt_same_map:
  assumes "m_HighLevelSockets t = m_HighLevelSockets (ts ! k)" and "k < length ts"
  shows "(\<forall>t' \<in> set (ts[k := t]). rt_ok t') = (\<forall>t' \<in> set ts. rt_ok t')" and "watched (ts[k := t]) = watched ts"
proof -
  have "map m_HighLevelSockets (ts[k := t]) = map m_HighLevelSockets ts"
    using assms by (simp add: map_update) (metis length_map list_update_id nth_map)
  then have s: "m_HighLevelSockets ` set (ts[k := t]) = m_HighLevelSockets ` set ts" by (metis set_map)
  have ok: "rt_ok t' = (case m_HighLevelSockets t' of m \<Rightarrow> sm_ok m \<and> length m \<le> FD_SETSIZE \<and> (\<forall>kv \<in> set m. fst kv = m_Socket (snd kv)))" for t'
    by (simp add: rt_ok_def)
  show "(\<forall>t' \<in> set (ts[k := t]). rt_ok t') = (\<forall>t' \<in> set ts. rt_ok t')"
    unfolding ok using s by (metis (no_types, lifting) image_iff)
  have "watched us = \<Union> ((\<lambda>m. fst ` set m) ` m_HighLevelSockets ` set us)" for us by (auto simp: watched_def handles_def)
  then show "watched (ts[k := t]) = watched ts" using s by metis
qed

text \<open>What a round does: nothing, or the loop over the ready handles; then the array of the thread is replaced.\<close>

definition select_time :: nat where "select_time = MM_SOCK_SELECT_TIMEOUT * 1000 * MM_SOCK_SELECT_TIMEOUT"

lemma reception_round_cases:
  assumes r: "reception_round select f t n = Some (Inr (go, t1, n1))" and ok: "rt_ok t"
  shows "m_HighLevelSockets t1 = m_HighLevelSockets t"
    and "n1 = n \<and> (\<forall>ready. select (map fst (m_HighLevelSockets t)) select_time = Inr ready \<longrightarrow> ready = [] \<or> m_HighLevelSockets t = []) \<or>
      (\<exists>ready. select (map fst (m_HighLevelSockets t)) select_time = Inr ready \<and> ready_loop f (m_HighLevelSockets t) ready n = Some (Inr n1))"
proof -
  have arr: "m_LowLevelSocketArray (rebuildSocketArrayIfNecessary t) = map fst (m_HighLevelSockets t)"
    using ok fd_fold [of "[]" "m_HighLevelSockets t"] by (auto simp: rebuildSocketArrayIfNecessary_def rt_ok_def sm_ok_def strict_sorted_iff)
  have m: "m_HighLevelSockets (rebuildSocketArrayIfNecessary t) = m_HighLevelSockets t" by (simp add: rebuildSocketArrayIfNecessary_def)
  obtain lr err where l: "listenOnSockets select f MM_SOCK_SELECT_TIMEOUT t n = Some (Inr (lr, err, t1, n1))"
    using r by (auto simp: reception_round_def split: option.splits sum.splits prod.splits)
  then show "m_HighLevelSockets t1 = m_HighLevelSockets t"
    by (auto simp: listenOnSockets_def Let_def m split: if_splits sum.splits option.splits)
  show "n1 = n \<and> (\<forall>ready. select (map fst (m_HighLevelSockets t)) select_time = Inr ready \<longrightarrow> ready = [] \<or> m_HighLevelSockets t = []) \<or>
      (\<exists>ready. select (map fst (m_HighLevelSockets t)) select_time = Inr ready \<and> ready_loop f (m_HighLevelSockets t) ready n = Some (Inr n1))"
    using l by (auto simp: listenOnSockets_def Let_def m arr select_time_def split: if_splits sum.splits option.splits)
qed

lemma network_round_cases:
  assumes inv: "lm_inv (rx_world x)" and ok: "\<forall>t \<in> set (w_recv (rx_world x)). rt_ok t"
    and r: "network_round sockname rnd select k x = Some (Inr (go, x'))" and k: "k < length (w_recv (rx_world x))"
  obtains x1 t where "rx_keeps (handles (w_recv (rx_world x) ! k)) x x1"
    and "m_HighLevelSockets t = m_HighLevelSockets (w_recv (rx_world x) ! k)"
    and "x' = x1\<lparr>rx_net := (rx_net x1)\<lparr>n_World := (rx_world x1)\<lparr>w_recv := (w_recv (rx_world x))[k := t]\<rparr>\<rparr>\<rparr>"
    and "x1 = x \<and> (\<forall>ready. select (map fst (m_HighLevelSockets (w_recv (rx_world x) ! k))) select_time = Inr ready \<longrightarrow>
            ready = [] \<or> m_HighLevelSockets (w_recv (rx_world x) ! k) = []) \<or>
      (\<exists>ready. select (map fst (m_HighLevelSockets (w_recv (rx_world x) ! k))) select_time = Inr ready \<and>
        ready_loop (rt_handleReceivedPacket sockname rnd) (m_HighLevelSockets (w_recv (rx_world x) ! k)) ready x = Some (Inr x1))"
proof -
  let ?t = "w_recv (rx_world x) ! k"
  have tok: "rt_ok ?t" using ok k by simp
  obtain t1 x1 where rr: "reception_round select (rt_handleReceivedPacket sockname rnd) ?t x = Some (Inr (go, t1, x1))"
      and x': "x' = x1\<lparr>rx_net := (rx_net x1)\<lparr>n_World := (rx_world x1)\<lparr>w_recv := (w_recv (rx_world x1))[k :=
        (w_recv (rx_world x1) ! k)\<lparr>m_LowLevelSocketArray := m_LowLevelSocketArray t1, m_IsDirty := m_IsDirty t1\<rparr>]\<rparr>\<rparr>\<rparr>"
    using r k by (auto simp: network_round_def Let_def split: option.splits sum.splits)
  note c = reception_round_cases [OF rr tok]
  have keeps: "rx_keeps (handles ?t) x x1"
  proof (cases "x1 = x")
    case False
    then obtain ready where "ready_loop (rt_handleReceivedPacket sockname rnd) (m_HighLevelSockets ?t) ready x = Some (Inr x1)"
      using c(2) by blast
    from ready_loop_keeps [OF _ inv this] tok show ?thesis by (auto simp: rt_ok_def handles_def intro: rx_keeps_mono)
  qed (simp add: rx_keeps_refl)
  then have w: "w_recv (rx_world x1) = w_recv (rx_world x)" by (simp add: rx_keeps_def)
  show ?thesis by (rule that [OF keeps _ x' [unfolded w] c(2)]) simp
qed

lemma network_inv_round:
  assumes "network_inv (rx_net x)" and "network_round sockname rnd select k x = Some (Inr (go, x'))"
  shows "network_inv (rx_net x')"
proof (cases "k < length (w_recv (rx_world x))")
  case True
  let ?ts = "w_recv (rx_world x)"
  have inv: "lm_inv (rx_world x)" and ok: "\<forall>t \<in> set ?ts. rt_ok t" and li: "listeners_inv (listeners_of (rx_net x))"
    using assms(1) by (simp_all add: network_inv_def listeners_inv_def listeners_of_def)
  obtain x1 t where k: "rx_keeps (handles (?ts ! k)) x x1" "m_HighLevelSockets t = m_HighLevelSockets (?ts ! k)"
      "x' = x1\<lparr>rx_net := (rx_net x1)\<lparr>n_World := (rx_world x1)\<lparr>w_recv := ?ts[k := t]\<rparr>\<rparr>\<rparr>"
    by (rule network_round_cases [OF inv ok assms(2) True])
  note same = rt_same_map [OF k(2) True]
  have "lm_inv (rx_world x')" using k(1,3) inv by (simp add: rx_keeps_def)
  moreover have "listeners_of (rx_net x') = (listeners_of (rx_net x))\<lparr>lm_recv := ?ts[k := t]\<rparr>"
    using k(1,3) by (auto simp: rx_keeps_def listeners_of_def)
  then have "listeners_inv (listeners_of (rx_net x'))"
    using li same by (simp add: listeners_inv_def listeners_of_def)
  ultimately show ?thesis by (simp add: network_inv_def)
qed (use assms in \<open>simp add: network_round_def\<close>)

lemma network_inv_init: "network_inv (Network_ctor pct sid num)"
proof -
  have "listeners_inv (listeners_of (Network_ctor pct sid num))"
    using listeners_inv_init by (simp add: Network_ctor_def listeners_of_def listeners_inv_def ListenerManager_init_def Network_init_def)
  then show ?thesis by (simp add: network_inv_def Network_ctor_def lm_inv_init)
qed

lemma network_inv_step: "network_step sockname n n' \<Longrightarrow> network_inv n \<Longrightarrow> network_inv n'"
proof (induction rule: network_step.induct)
  case (listen os n d c junk port r n')
  then obtain m where m: "startListen os d c junk port (listeners_of n) = Inr (r, m)" "n' = with_listeners m n"
    by (auto simp: network_startListen_def rbind_eq_Inr)
  from listeners_inv_start [OF _ listen(1) m(1)] listen(3) m(2) show ?case by (simp add: network_inv_def)
next
  case (stop port n n')
  then obtain m where m: "stopListen port (listeners_of n) = Inr m" "n' = with_listeners m n"
    by (auto simp: network_stopListen_def rbind_eq_Inr)
  from listeners_inv_stop [OF _ m(1)] stop(2) m(2) show ?case by (simp add: network_inv_def)
next
  case (round rnd select k x go x' n n')
  then show ?case using network_inv_round by blast
next
  case (call n w)
  then show ?case using lm_inv_step [OF call(1)] by (simp add: network_inv_def listeners_of_def)
qed (simp add: network_inv_def simulatePacketLoss_def listeners_of_def)

interpretation network: state_machine "\<lambda>n. \<exists>pct sid num. n = Network_ctor pct sid num" "network_step sockname" network_inv
  by unfold_locales (auto intro: network_inv_init network_inv_step)

text \<open>The handling of a good datagram returns if the link does.\<close>

lemma getOrAdd_returns:
  assumes "sockname (snd sap) = Inr a" and "length a \<le> length createEmpty"
  shows "\<exists>b i w1. lm_getOrAdd sockname None sap w = Inr (b, Some i, w1)"
proof (cases "sm_find (w_linkMap w) sap")
  case None
  have "\<exists>src. mem_store (Some createEmpty) 0 a = Inr (Some src)" using assms(2) by (simp add: mem_store_in)
  then show ?thesis using None assms(1) by (auto simp: lm_getOrAdd_def link_create_def createSource_def Let_def)
qed (auto simp: lm_getOrAdd_def)

lemma rt_handle_returns:
  assumes inv: "lm_inv (rx_world x)"
    and valid: "m_Socket sock \<noteq> INVALID_SOCKET" and q: "rx_in x (m_Socket sock) = Inr (data, etp) # rest"
    and len: "MM_MIN_HDR_SIZE \<le> int (length data)" and etp: "endpoint_ok etp"
    and src: "sockname (m_Socket sock) = Inr a" "length a \<le> length createEmpty"
    and lr: "link_receive (recv_view data) (comps_at (etp, m_Socket sock) (rx_world x)) = Some (Inr res)"
    and lossless: "packetLossPercentage (rx_net x) = 0"
  shows "\<exists>x'. rt_handleReceivedPacket sockname rnd sock x = Some (Inr x')"
proof -
  let ?h = "m_Socket sock"
  obtain b i w1 where g: "lm_getOrAdd sockname None (etp, ?h) (rx_world x) = Inr (b, Some i, w1)"
    using getOrAdd_returns [of sockname "(etp, ?h)" a "rx_world x"] src by auto
  obtain l where l: "lock w1 i = Some l" "l_comps l = comps_at (etp, ?h) (rx_world x)"
    using getOrAdd_frame(5) [OF inv g, of i] by auto
  have "\<exists>job w. handleReceivedPacket sockname False ?h (Recv_Succes, data, etp, 0) (rx_world x) = Some (Inr (job, w))"
    using g l lr len by (cases res) (simp add: handleReceivedPacket_def getCopyDerived_ok [OF etp] deref_def)
  then show ?thesis using lossless by (auto simp: rt_handleReceivedPacket_def rx_recv_datagram [OF valid q] Let_def)
qed

lemma network_round_returns:
  assumes k: "k < length (w_recv (rx_world x))" and ok: "rt_ok (w_recv (rx_world x) ! k)"
    and sock: "sm_find (m_HighLevelSockets (w_recv (rx_world x) ! k)) h = Some sock"
    and sel: "select (map fst (m_HighLevelSockets (w_recv (rx_world x) ! k))) select_time = Inr [h]"
    and r: "rt_handleReceivedPacket sockname rnd sock x = Some (Inr x1)"
  shows "\<exists>go x'. network_round sockname rnd select k x = Some (Inr (go, x'))"
proof -
  let ?t = "w_recv (rx_world x) ! k"
  have ne: "m_HighLevelSockets ?t \<noteq> []" using sock by auto
  have arr: "m_LowLevelSocketArray (rebuildSocketArrayIfNecessary ?t) = map fst (m_HighLevelSockets ?t)"
    using ok fd_fold [of "[]" "m_HighLevelSockets ?t"] by (auto simp: rebuildSocketArrayIfNecessary_def rt_ok_def sm_ok_def strict_sorted_iff)
  have m: "m_HighLevelSockets (rebuildSocketArrayIfNecessary ?t) = m_HighLevelSockets ?t" by (simp add: rebuildSocketArrayIfNecessary_def)
  show ?thesis using k sock sel r ne
    by (simp add: network_round_def reception_round_def listenOnSockets_def Let_def arr m select_time_def)
qed

section \<open>Properties\<close>

text \<open>No operation removes a link from the link manager: the link of a peer that disconnected stays in the map and in the
  array that the send thread walks.\<close>

lemma linkMap_frame: "frame w w' \<Longrightarrow> lm_get s w' = lm_get s w"
  by (simp add: frame_def lm_get_def)

lemma lm_get_frame: "lm_get s w = Some i \<Longrightarrow> frame w w' \<Longrightarrow> lm_get s w' = Some i"
  by (simp add: linkMap_frame)

lemma lm_get_create:
  assumes "lm_inv w" and "link_create sockname session sap w = Inr (r, w')"
  shows "lm_get s w' = lm_get s w"
  using link_create_inv(2) [OF assms] by (simp add: lm_get_def)

lemma lm_get_getOrAdd:
  assumes "lm_inv w" and "lm_getOrAdd sockname session sap w = Inr (b, r, w')" and "lm_get s w = Some i"
  shows "lm_get s w' = Some i"
proof (cases "sm_find (w_linkMap w) sap")
  case None
  then have "s \<noteq> sap" using assms(3) by (auto simp: lm_get_def)
  obtain r1 w1 where c: "link_create sockname session sap w = Inr (r1, w1)"
    using assms(2) None by (auto simp: lm_getOrAdd_def elim!: resE)
  note l = lm_get_create [OF assms(1) c, of s]
  show ?thesis
  proof (cases r1)
    case N: None
    with assms(2) None c have "w' = w1" by (auto simp: lm_getOrAdd_def)
    with l assms(3) show ?thesis by simp
  next
    case (Some k)
    with assms(2) None c have "w' = lm_insert sap k w1" by (auto simp: lm_getOrAdd_def)
    with l assms(3) \<open>s \<noteq> sap\<close> show ?thesis by (simp add: lm_insert_def lm_get_def sm_find_set)
  qed
qed (use assms in \<open>simp add: lm_getOrAdd_def\<close>)

lemma lm_get_packet:
  assumes "lm_inv w" and "handleReceivedPacket sockname lost sock rcv w = Some (Inr (job, w'))" and "lm_get s w = Some i"
  shows "lm_get s w' = Some i"
proof -
  obtain r data etp err where rcv: "rcv = (r, data, etp, err)" by (cases rcv)
  consider "w' = w" | b w1 a where "lm_getOrAdd sockname None (a, sock) w = Inr (b, None, w1)" "w' = w1"
    | b w1 a k l m where "lm_getOrAdd sockname None (a, sock) w = Inr (b, Some k, w1)" "w' = put_link k (l\<lparr>l_comps := m\<rparr>) w1"
    using assms(2) unfolding handleReceivedPacket_def rcv
    by (auto simp: deref_Inr elim!: resE split: if_splits sum.splits prod.splits option.splits)
  then show ?thesis
  proof cases
    case 3
    then show ?thesis using lm_get_getOrAdd [OF assms(1) 3(1) assms(3)] by (simp add: put_link_def lm_get_def)
  qed (use assms lm_get_getOrAdd in blast)+
qed

lemma lm_get_add:
  assumes inv: "lm_inv w" and a: "lm_add sockname sid sap w = Inr (r, w')" and s: "lm_get s w = Some i"
  shows "lm_get s w' = Some i"
proof -
  obtain r1 w1 where c: "link_create sockname (Some sid) sap w = Inr (r1, w1)" using a by (auto simp: lm_add_def elim!: resE)
  note l = lm_get_create [OF inv c, of s]
  show ?thesis
  proof (cases r1)
    case None
    with a c have "w' = w1" by (simp add: lm_add_def)
    with l s show ?thesis by simp
  next
    case (Some k)
    show ?thesis
    proof (cases "sm_find (w_linkMap w1) sap")
      case None
      with a c Some have w': "w' = lm_insert sap k w1" by (simp add: lm_add_def)
      have "s \<noteq> sap" using None l s by (auto simp: lm_get_def)
      with w' l s show ?thesis by (simp add: lm_insert_def lm_get_def sm_find_set)
    next
      case (Some j)
      then have "destroy_link k w1 = Inr w'" using a c \<open>r1 = Some k\<close> by (auto simp: lm_add_def elim!: resE)
      then have "w_linkMap w' = w_linkMap w1" by (auto simp: destroy_link_def elim!: resE)
      with l s show ?thesis by (simp add: lm_get_def)
    qed
  qed
qed

lemma lm_get_register:
  assumes "lm_inv w" and "lm_get s w = Some i"
  shows "registerServer sockname sock junk cb ma nm ty p2p cj ra mc pw hmd cmd w = Inr (r, w') \<Longrightarrow> lm_get s w' = Some i"
    and "joinServer sockname sock junk cb ma nm ty r1 r2 p1 p2 fp fc jmd cmd w = Inr (r, w') \<Longrightarrow> lm_get s w' = Some i"
proof -
  have new: "lm_get s w2 = Some i" if "SessionBase data kind w = (sid, w1)" "lm_add sockname sid sap w1 = Inr (r, w2)" for data kind sid w1 sap r w2
    using lm_get_add [OF lm_inv_session [OF assms(1) that(1)] that(2)] linkMap_frame [OF frame_SessionBase [OF that(1)]] assms(2) by simp
  show "registerServer sockname sock junk cb ma nm ty p2p cj ra mc pw hmd cmd w = Inr (r, w') \<Longrightarrow> lm_get s w' = Some i"
    using assms(2)
    by (auto simp: registerServer_def elim!: resE split: option.splits prod.splits dest!: frames) (blast intro: lm_get_frame dest: new)+
  show "joinServer sockname sock junk cb ma nm ty r1 r2 p1 p2 fp fc jmd cmd w = Inr (r, w') \<Longrightarrow> lm_get s w' = Some i"
    using assms(2)
    by (auto simp: joinServer_def elim!: resE split: option.splits prod.splits dest!: frames) (blast intro: lm_get_frame dest: new)+
qed

lemma lm_get_connect_to:
  assumes "lm_inv w" and "masterSessionConnectTo sockname a k w = Inr w'" and "lm_get s w = Some i"
  shows "lm_get s w' = Some i"
  using assms
  by (auto simp: masterSessionConnectTo_def elim!: resE split: option.splits prod.splits dest!: frames)
    (blast intro: lm_get_frame dest: lm_get_getOrAdd)+

lemma links_stay: "net_step sockname w w' \<Longrightarrow> lm_inv w \<Longrightarrow> lm_get s w = Some i \<Longrightarrow> lm_get s w' = Some i"
proof (induction rule: net_step.induct)
  case (kick k w b w')
  then show ?case by (auto simp: network_kick_def dest: frames intro: lm_get_frame)
next
  case (disconnect k w b w')
  then show ?case by (auto simp: network_disconnect_def dest: frames intro: lm_get_frame)
qed (auto dest: frames lm_get_register lm_get_packet lm_get_connect_to intro: lm_get_frame)



text \<open>A link is never removed: whatever a network does, the pair of address and socket of a link still leads to the same link,
  also long after its peer disconnected.\<close>

theorem links_never_removed:
  assumes "net_reach sockname w" and "(net_step sockname)\<^sup>*\<^sup>* w w'" and "lm_get s w = Some i"
  shows "lm_get s w' = Some i"
  using assms(2)
proof (induction rule: rtranclp_induct)
  case (step y z)
  have "lm_inv y" using net.invariant [OF reachable_steps [OF step.hyps(1) assms(1)]] .
  from links_stay [OF step.hyps(2) this step.IH] show ?case .
qed (rule assms(3))

text \<open>The destructor of a link removes the link's socket from the reception threads, also when it is the socket of
  a listener, which all links of the listener share; \<open>LinkManager::add\<close> destroys the link it has made for a pair that
  exists already. After one of them is destroyed the listener still says that it
  listens, with an open and bound socket, but no thread watches the socket, and no round of any thread reads what
  arrives there.\<close>

theorem link_death_deafens_listener:
  assumes "network_reach sockname n" and "findListener port (listeners_of n) = Some l"
    and "lock (n_World n) i = Some lk" and "l_socket lk = handle l" and "i \<notin> snd ` set (w_linkMap (n_World n))"
  shows "\<exists>w. destroy_link i (n_World n) = Inr w \<and> findListener port (listeners_of (n\<lparr>n_World := w\<rparr>)) = Some l \<and> listening l \<and>
    handle l \<notin> watched (w_recv w) \<and>
    (\<forall>rnd select k x go x'. rx_net x = n\<lparr>n_World := w\<rparr> \<and> network_round sockname rnd select k x = Some (Inr (go, x')) \<longrightarrow>
       rx_in x' (handle l) = rx_in x (handle l))"
proof -
  have ni: "network_inv n" by (rule network.invariant [OF assms(1)])
  then have inv: "lm_inv (n_World n)" and ok: "\<forall>t \<in> set (w_recv (n_World n)). rt_ok t" and li: "listeners_inv (listeners_of n)"
    by (simp_all add: network_inv_def listeners_inv_def listeners_of_def)
  have l: "listening l" using listeners_invD(3) [OF li] assms(2) by (simp add: findListener_def)
  let ?s = "BSDSocket_init\<lparr>m_Socket := l_socket lk\<rparr>"
  obtain ts where ts: "ssm_removeSocket (Some ?s) (w_recv (n_World n)) = Inr ts" using ssm_remove_returns by blast
  define w where "w = (n_World n)\<lparr>w_recv := ts, w_links := sm_erase i (w_links (n_World n))\<rparr>"
  have w: "destroy_link i (n_World n) = Inr w" using ts assms(3) by (simp add: destroy_link_def deref_def w_def)
  have recv: "w_recv w = ts" by (simp add: w_def)
  have ok': "\<forall>t \<in> set (w_recv w). rt_ok t" and un: "handle l \<notin> watched (w_recv w)"
    using ssm_remove_ok [OF ok ts] assms(4) recv by simp_all
  have inv': "lm_inv w" using lm_inv_destroy [OF inv w assms(5)] by simp
  have "rx_in x' (handle l) = rx_in x (handle l)"
    if x: "rx_net x = n\<lparr>n_World := w\<rparr>" and r: "network_round sockname rnd select k x = Some (Inr (go, x'))" for rnd select k x go x'
  proof (cases "k < length (w_recv (rx_world x))")
    case True
    have iv: "lm_inv (rx_world x)" and o: "\<forall>t \<in> set (w_recv (rx_world x)). rt_ok t" using inv' ok' x by simp_all
    obtain x1 t where x1: "rx_keeps (handles (w_recv (rx_world x) ! k)) x x1"
        "x' = x1\<lparr>rx_net := (rx_net x1)\<lparr>n_World := (rx_world x1)\<lparr>w_recv := (w_recv (rx_world x))[k := t]\<rparr>\<rparr>\<rparr>"
      by (rule network_round_cases [OF iv o r True])
    have "handle l \<notin> handles (w_recv (rx_world x) ! k)" using un True x by (auto simp: watched_def)
    with x1 show ?thesis by (simp add: rx_keeps_def)
  qed (use r in \<open>simp add: network_round_def\<close>)
  moreover have "findListener port (listeners_of (n\<lparr>n_World := w\<rparr>)) = Some l" using assms(2) by (simp add: findListener_def listeners_of_def)
  ultimately show ?thesis using w l un by blast
qed

end
