(* ===== verification/Socket_Set_Old.thy ===== *)
theory Socket_Set_Old
  imports Network_Reception
begin

text \<open>
  \<open>deprecated/SocketSet.cpp\<close>, the set of sockets before \<open>SocketSetManager.cpp\<close>, and what both promise: a set of
  at most \<open>FD_SETSIZE\<close> handles (contract \<open>bounded_set\<close>). The old class and \<open>ReceptionThread\<close> implement it, and they
  cannot be told apart by any sequence of calls.
\<close>

section \<open>SocketSet\<close>

record socket_set =
  ss_IsDirty :: bool
  ss_HighLevelSockets :: "(u32, bsd_socket) stdmap"
  ss_LowLevelSocketArray :: "u32 list"

definition SocketSet_init :: socket_set where
  "SocketSet_init = \<lparr>ss_IsDirty = False, ss_HighLevelSockets = [], ss_LowLevelSocketArray = []\<rparr>"

definition ss_addSocket :: "bsd_socket \<Rightarrow> socket_set \<Rightarrow> bool \<times> socket_set" where
  "ss_addSocket sock s =
     (if length (ss_HighLevelSockets s) \<ge> FD_SETSIZE then (False, s)
      else (True, s\<lparr>ss_HighLevelSockets := sm_set (m_Socket sock) sock (ss_HighLevelSockets s), ss_IsDirty := True\<rparr>))"

text \<open>The argument is a shared pointer, which may be null.\<close>

definition ss_removeSocket :: "bsd_socket option \<Rightarrow> socket_set \<Rightarrow> socket_set res" where
  "ss_removeSocket sock s =
     (case sock of
        None \<Rightarrow> Inl NullDeref
      | Some k \<Rightarrow> Inr (s\<lparr>ss_IsDirty := True, ss_HighLevelSockets := sm_erase (m_Socket k) (ss_HighLevelSockets s)\<rparr>))"

definition ss_hasSocket :: "bsd_socket option \<Rightarrow> socket_set \<Rightarrow> bool res" where
  "ss_hasSocket sock s =
     (case sock of None \<Rightarrow> Inl NullDeref | Some k \<Rightarrow> Inr (sm_find (ss_HighLevelSockets s) (m_Socket k) \<noteq> None))"

text \<open>The flag is set before it is tested, so the array is always rebuilt.\<close>

definition ss_rebuildSocketArrayIfNecessary :: "socket_set \<Rightarrow> socket_set" where
  "ss_rebuildSocketArrayIfNecessary s0 =
     (let s = s0\<lparr>ss_IsDirty := True\<rparr>
      in if ss_IsDirty s
         then s\<lparr>ss_LowLevelSocketArray := foldl (\<lambda>arr kvp. FD_SET (m_Socket (snd kvp)) arr) [] (ss_HighLevelSockets s), ss_IsDirty := False\<rparr>
         else s)"

text \<open>\<open>listenOnSockets\<close>. \<open>fd_count\<close> is the number of the sockets in the map.\<close>

definition ss_listenOnSockets ::
  "(u32 list \<Rightarrow> nat \<Rightarrow> int + u32 list) \<Rightarrow> (bsd_socket \<Rightarrow> 'n \<Rightarrow> 'n res option) \<Rightarrow> nat \<Rightarrow> int option \<Rightarrow> socket_set \<Rightarrow> 'n \<Rightarrow>
   (EListenOnSocketsResult \<times> int option \<times> socket_set \<times> 'n) res option" where
  "ss_listenOnSockets select handler timeoutMs err0 s0 n =
     (let err = set_err err0 0; s = ss_rebuildSocketArrayIfNecessary s0
      in if length (ss_HighLevelSockets s) = 0 then Some (Inr (Listen_NoSocketsInSet, err, s, n))
         else case select (ss_LowLevelSocketArray s) (timeoutMs * 1000 * MM_SOCK_SELECT_TIMEOUT) of
                Inl e \<Rightarrow> Some (Inr (Listen_Error, set_err err e, s, n))
              | Inr ready \<Rightarrow>
                  let s1 = s\<lparr>ss_LowLevelSocketArray := ready\<rparr>
                  in if ready = [] then Some (Inr (Listen_TimeoutNoData, err, s1, n))
                     else case ready_loop handler (ss_HighLevelSockets s1) ready n of
                            None \<Rightarrow> None
                          | Some (Inl e) \<Rightarrow> Some (Inl e)
                          | Some (Inr n') \<Rightarrow> Some (Inr (Listen_Fine, err, s1, n')))"

text \<open>\<open>SocketSet::handleReceivedPacket\<close>. Unlike the new version it looks \<open>NetworkActions\<close> up, which creates the component and
  starts its thread; the first component of the state says whether it exists.\<close>

definition ss_handleReceivedPacket :: "(u32 \<Rightarrow> int + byte list) \<Rightarrow> (nat \<Rightarrow> u32) \<Rightarrow> bsd_socket \<Rightarrow> bool \<times> rx \<Rightarrow> (bool \<times> rx) res option" where
  "ss_handleReceivedPacket sockname rnd sock st =
     (case rx_recv sock (snd st) of
        None \<Rightarrow> None
      | Some ((r, data, etp, err), x1) \<Rightarrow>
          let pct = packetLossPercentage (rx_net x1);
              lost = pct \<noteq> 0 \<and> rnd (rx_rands x1) mod 100 + 1 \<le> pct;
              x2 = x1\<lparr>rx_rands := if pct = 0 then rx_rands x1 else Suc (rx_rands x1)\<rparr>;
              w = rx_world x2
          in if lost then Some (Inr (fst st, x2))
             else if err \<noteq> 0 then Some (Inr (fst st, x2))
             else if r = Recv_Succes \<and> int (length data) \<ge> MM_MIN_HDR_SIZE
             then (case rbind (getCopyDerived etp) (\<lambda>a. lm_getOrAdd sockname None (a, m_Socket sock) w) of
                     Inl e \<Rightarrow> Some (Inl e)
                   | Inr (wasNew, None, w1) \<Rightarrow> Some (Inr (True, x2\<lparr>rx_net := (rx_net x2)\<lparr>n_World := w1\<rparr>\<rparr>))
                   | Inr (wasNew, Some i, w1) \<Rightarrow>
                       (case deref i w1 of
                          Inl e \<Rightarrow> Some (Inl e)
                        | Inr l \<Rightarrow>
                            (case link_receive (recv_view data) (l_comps l) of
                               None \<Rightarrow> None
                             | Some (Inl e) \<Rightarrow> Some (Inl e)
                             | Some (Inr (job, m)) \<Rightarrow>
                                 Some (Inr (True, x2\<lparr>rx_net := (rx_net x2)\<lparr>n_World := put_link i (l\<lparr>l_comps := m\<rparr>) w1\<rparr>,
                                                     rx_jobs := rx_jobs x2 @ (case job of None \<Rightarrow> [] | Some ch \<Rightarrow> [(i, ch)])\<rparr>)))))
             else Some (Inr (fst st, x2)))"

section \<open>The contract of a set of sockets\<close>

text \<open>The abstract set: keys that are added while there is room, and removed.\<close>

datatype 'x set_call = Add 'x | Remove 'x

fun abstract_calls :: "nat \<Rightarrow> ('x \<Rightarrow> 'k) \<Rightarrow> 'x set_call list \<Rightarrow> 'k set \<Rightarrow> bool list \<times> 'k set" where
  "abstract_calls cap key [] K = ([], K)"
| "abstract_calls cap key (Add x # cs) K =
     (let room = card K < cap; (answers, K') = abstract_calls cap key cs (if room then insert (key x) K else K)
      in (room # answers, K'))"
| "abstract_calls cap key (Remove x # cs) K = abstract_calls cap key cs (K - {key x})"

fun set_calls :: "('x \<Rightarrow> 's \<Rightarrow> bool \<times> 's) \<Rightarrow> ('x \<Rightarrow> 's \<Rightarrow> 's res) \<Rightarrow> 'x set_call list \<Rightarrow> 's \<Rightarrow> (bool list \<times> 's) res" where
  "set_calls add remove [] s = Inr ([], s)"
| "set_calls add remove (Add x # cs) s =
     (case add x s of (b, s1) \<Rightarrow> rbind (set_calls add remove cs s1) (\<lambda>(answers, s2). Inr (b # answers, s2)))"
| "set_calls add remove (Remove x # cs) s = rbind (remove x s) (\<lambda>s1. set_calls add remove cs s1)"

locale bounded_set =
  fixes add :: "'x \<Rightarrow> 's \<Rightarrow> bool \<times> 's" and remove :: "'x \<Rightarrow> 's \<Rightarrow> 's res" and key :: "'x \<Rightarrow> 'k"
    and members :: "'s \<Rightarrow> 'k set" and inv :: "'s \<Rightarrow> bool" and cap :: nat
  assumes finite_members: "inv s \<Longrightarrow> finite (members s)"
    and add_room: "inv s \<Longrightarrow> fst (add x s) = (card (members s) < cap)"
    and add_inv: "inv s \<Longrightarrow> inv (snd (add x s))"
    and add_members: "inv s \<Longrightarrow> members (snd (add x s)) = (if card (members s) < cap then insert (key x) (members s) else members s)"
    and remove_returns: "inv s \<Longrightarrow> \<exists>s'. remove x s = Inr s' \<and> inv s' \<and> members s' = members s - {key x}"
begin

lemma refines_set:
  "inv s \<Longrightarrow> \<exists>answers s'. set_calls add remove cs s = Inr (answers, s') \<and> inv s' \<and>
     (answers, members s') = abstract_calls cap key cs (members s)"
proof (induction cs arbitrary: s)
  case (Cons c cs)
  show ?case
  proof (cases c)
    case (Add x)
    obtain b s1 where a: "add x s = (b, s1)" by fastforce
    have s1: "inv s1" "b = (card (members s) < cap)" "members s1 = (if card (members s) < cap then insert (key x) (members s) else members s)"
      using add_inv [OF Cons.prems, of x] add_room [OF Cons.prems, of x] add_members [OF Cons.prems, of x] a by simp_all
    from Cons.IH [OF s1(1)] obtain answers s' where "set_calls add remove cs s1 = Inr (answers, s')" "inv s'"
        "(answers, members s') = abstract_calls cap key cs (members s1)" by blast
    then show ?thesis using Add a s1 by (auto simp: Let_def split: prod.splits)
  next
    case (Remove x)
    obtain s1 where "remove x s = Inr s1" "inv s1" "members s1 = members s - {key x}" using remove_returns [OF Cons.prems] by blast
    with Cons.IH [OF this(2)] Remove show ?thesis by auto
  qed
qed simp

lemma bounded: "inv s \<Longrightarrow> card (members s) \<le> cap \<Longrightarrow> card (members (snd (add x s))) \<le> cap"
  using add_members [of s x] finite_members [of s] by (simp add: card_insert_if)

end

text \<open>Both classes implement the contract.\<close>

definition ss_ok :: "socket_set \<Rightarrow> bool" where
  "ss_ok s \<longleftrightarrow> sm_ok (ss_HighLevelSockets s) \<and> length (ss_HighLevelSockets s) \<le> FD_SETSIZE \<and>
     (\<forall>kv \<in> set (ss_HighLevelSockets s). fst kv = m_Socket (snd kv))"

definition ss_handles :: "socket_set \<Rightarrow> u32 set" where
  "ss_handles s = fst ` set (ss_HighLevelSockets s)"

text \<open>The old class is the new one without the flag for closing, so the lemmas on a reception thread apply.\<close>

definition as_thread :: "socket_set \<Rightarrow> reception_thread" where
  "as_thread s = \<lparr>m_HighLevelSockets = ss_HighLevelSockets s, m_LowLevelSocketArray = ss_LowLevelSocketArray s,
     m_IsDirty = ss_IsDirty s, m_Closing = False\<rparr>"

lemma as_thread_ok: "rt_ok (as_thread s) = ss_ok s" "handles (as_thread s) = ss_handles s"
  by (simp_all add: as_thread_def rt_ok_def ss_ok_def handles_def ss_handles_def)

lemma as_thread_add: "rt_addSocket sock (as_thread s) = (case ss_addSocket sock s of (b, s') \<Rightarrow> (b, as_thread s'))"
  by (simp add: rt_addSocket_def ss_addSocket_def as_thread_def)

lemma as_thread_remove: "rt_removeSocket k (as_thread s) = map_sum id as_thread (ss_removeSocket k s)"
  by (simp add: rt_removeSocket_def ss_removeSocket_def as_thread_def split: option.split)

lemma card_handles: "rt_ok t \<Longrightarrow> card (handles t) = length (m_HighLevelSockets t)"
proof -
  assume "rt_ok t"
  then have "distinct (map fst (m_HighLevelSockets t))" by (simp add: rt_ok_def sm_ok_def strict_sorted_iff)
  from distinct_card [OF this] show ?thesis by (simp add: handles_def)
qed

interpretation rt_set: bounded_set rt_addSocket "\<lambda>sock. rt_removeSocket (Some sock)" m_Socket handles rt_ok FD_SETSIZE
proof (unfold_locales, goal_cases)
  case (1 s)
  then show ?case by (simp add: handles_def)
next
  case (2 s x)
  then show ?case by (simp add: card_handles rt_addSocket_def)
next
  case (3 s x)
  then show ?case using rt_add_ok(1) [OF 3] by (cases "rt_addSocket x s") auto
next
  case (4 s x)
  then show ?case using rt_add_ok(2) [OF 4, of x] by (auto simp: card_handles rt_addSocket_def split: if_splits)
next
  case (5 s x)
  obtain t' where t': "rt_removeSocket (Some x) s = Inr t'" by (simp add: rt_removeSocket_def)
  then show ?case using rt_remove_ok [OF 5 t'] by blast
qed

interpretation ss_set: bounded_set ss_addSocket "\<lambda>sock. ss_removeSocket (Some sock)" m_Socket ss_handles ss_ok FD_SETSIZE
proof (unfold_locales, goal_cases)
  case (1 s)
  then show ?case by (simp add: ss_handles_def)
next
  case (2 s x)
  then show ?case using rt_set.add_room [of "as_thread s" x] by (auto simp: as_thread_ok as_thread_add split: prod.splits)
next
  case (3 s x)
  then show ?case using rt_set.add_inv [of "as_thread s" x] by (auto simp: as_thread_ok as_thread_add split: prod.splits)
next
  case (4 s x)
  then show ?case using rt_set.add_members [of "as_thread s" x] by (auto simp: as_thread_ok as_thread_add split: prod.splits)
next
  case (5 s x)
  obtain s' where s': "ss_removeSocket (Some x) s = Inr s'" by (simp add: ss_removeSocket_def)
  then show ?case using rt_set.remove_returns [of "as_thread s" x] 5 by (auto simp: as_thread_ok as_thread_remove)
qed

section \<open>Calls of either class\<close>

text \<open>A call with its arguments, for a listening call with the answers of \<open>select\<close>, and the answer that the caller sees.\<close>

datatype reception_call = CAdd bsd_socket | CRemove "bsd_socket option" | CListen "u32 list \<Rightarrow> nat \<Rightarrow> int + u32 list" nat

datatype reception_answer = AAdded bool | ARemoved | AListened EListenOnSocketsResult int

definition ss_call ::
  "(u32 \<Rightarrow> int + byte list) \<Rightarrow> (nat \<Rightarrow> u32) \<Rightarrow> reception_call \<Rightarrow> socket_set \<times> bool \<times> rx \<Rightarrow> (reception_answer \<times> socket_set \<times> bool \<times> rx) res option" where
  "ss_call sockname rnd c st =
     (case st of (s, a, x) \<Rightarrow>
       (case c of
          CAdd sock \<Rightarrow> (case ss_addSocket sock s of (b, s') \<Rightarrow> Some (Inr (AAdded b, s', a, x)))
        | CRemove sock \<Rightarrow> Some (rbind (ss_removeSocket sock s) (\<lambda>s'. Inr (ARemoved, s', a, x)))
        | CListen select timeoutMs \<Rightarrow>
            map_option (map_sum id (\<lambda>(r, err, s', st'). (AListened r (the err), s', st')))
              (ss_listenOnSockets select (ss_handleReceivedPacket sockname rnd) timeoutMs (Some 0) s (a, x))))"

definition rt_call ::
  "(u32 \<Rightarrow> int + byte list) \<Rightarrow> (nat \<Rightarrow> u32) \<Rightarrow> reception_call \<Rightarrow> reception_thread \<times> rx \<Rightarrow> (reception_answer \<times> reception_thread \<times> rx) res option" where
  "rt_call sockname rnd c st =
     (case st of (t, x) \<Rightarrow>
       (case c of
          CAdd sock \<Rightarrow> (case rt_addSocket sock t of (b, t') \<Rightarrow> Some (Inr (AAdded b, t', x)))
        | CRemove sock \<Rightarrow> Some (rbind (rt_removeSocket sock t) (\<lambda>t'. Inr (ARemoved, t', x)))
        | CListen select timeoutMs \<Rightarrow>
            map_option (map_sum id (\<lambda>(r, err, t', x'). (AListened r err, t', x')))
              (listenOnSockets select (rt_handleReceivedPacket sockname rnd) timeoutMs t x)))"

fun run_calls :: "('c \<Rightarrow> 's \<Rightarrow> ('a \<times> 's) res option) \<Rightarrow> 'c list \<Rightarrow> 's \<Rightarrow> ('a list \<times> 's) res option" where
  "run_calls step [] s = Some (Inr ([], s))"
| "run_calls step (c # cs) s =
     (case step c s of
        None \<Rightarrow> None
      | Some (Inl e) \<Rightarrow> Some (Inl e)
      | Some (Inr (a, s1)) \<Rightarrow>
          (case run_calls step cs s1 of
             None \<Rightarrow> None
           | Some (Inl e) \<Rightarrow> Some (Inl e)
           | Some (Inr (as, s2)) \<Rightarrow> Some (Inr (a # as, s2))))"

text \<open>What a caller can tell: the answers, the sockets, the array and the network.\<close>

abbreviation ss_view :: "socket_set \<times> bool \<times> rx \<Rightarrow> (u32, bsd_socket) stdmap \<times> u32 list \<times> rx" where
  "ss_view st \<equiv> (case st of (s, a, x) \<Rightarrow> (ss_HighLevelSockets s, ss_LowLevelSocketArray s, x))"

abbreviation rt_view :: "reception_thread \<times> rx \<Rightarrow> (u32, bsd_socket) stdmap \<times> u32 list \<times> rx" where
  "rt_view st \<equiv> (case st of (t, x) \<Rightarrow> (m_HighLevelSockets t, m_LowLevelSocketArray t, x))"

abbreviation seen :: "('s \<Rightarrow> 'v) \<Rightarrow> ('a \<times> 's) res option \<Rightarrow> ('a \<times> 'v) res option" where
  "seen v \<equiv> map_option (map_sum id (map_prod id v))"

lemma ss_handle_eq:
  "map_option (map_sum id snd) (ss_handleReceivedPacket sockname rnd sock st) = rt_handleReceivedPacket sockname rnd sock (snd st)"
  by (auto simp: ss_handleReceivedPacket_def rt_handleReceivedPacket_def handleReceivedPacket_def packet_lost_def Let_def
      split: prod.split sum.split option.split)

lemma ready_loop_map:
  assumes "\<And>sock st. map_option (map_sum id f) (g sock st) = h sock (f st)"
  shows "map_option (map_sum id f) (ready_loop g m ss st) = ready_loop h m ss (f st)"
proof (induction ss arbitrary: st)
  case (Cons s ss)
  show ?case
  proof (cases "sm_find m s")
    case (Some sock)
    then show ?thesis using Cons.IH by (simp add: assms [symmetric] split: option.split sum.split)
  qed (use Cons.IH in simp)
qed simp

text \<open>A simulation of single calls is one of sequences of calls.\<close>

lemma run_calls_seen:
  assumes step: "\<And>c s t. f s = g t \<Longrightarrow> seen f (step1 c s) = seen g (step2 c t)" and start: "f s = g t"
  shows "seen f (run_calls step1 cs s) = seen g (run_calls step2 cs t)"
  using start
proof (induction cs arbitrary: s t)
  case (Cons c cs)
  note e = step [OF Cons.prems, of c]
  consider "step1 c s = None" "step2 c t = None" | e where "step1 c s = Some (Inl e)" "step2 c t = Some (Inl e)"
    | a s1 t1 where "step1 c s = Some (Inr (a, s1))" "step2 c t = Some (Inr (a, t1))" "f s1 = g t1"
    using e by (cases "step1 c s"; cases "step2 c t") (auto simp: map_sum_def split: sum.splits)
  then show ?case
  proof cases
    case 3
    from Cons.IH [OF 3(3)] show ?thesis using 3
      by (cases "run_calls step1 cs s1"; cases "run_calls step2 cs t1") (auto simp: map_sum_def split: sum.splits)
  qed simp_all
qed simp

lemma listen_seen:
  assumes "ss_view (s, st) = rt_view (t, x)"
  shows "map_option (map_sum id (\<lambda>(r, err, s', st'). (r, the err, ss_view (s', st'))))
      (ss_listenOnSockets select (ss_handleReceivedPacket sockname rnd) timeoutMs (Some 0) s st) =
    map_option (map_sum id (\<lambda>(r, err, t', x'). (r, err, rt_view (t', x'))))
      (listenOnSockets select (rt_handleReceivedPacket sockname rnd) timeoutMs t x)"
proof -
  have m: "ss_HighLevelSockets s = m_HighLevelSockets t" and x: "x = snd st" using assms by (auto split: prod.splits)
  have l: "ready_loop (rt_handleReceivedPacket sockname rnd) (m_HighLevelSockets t) ready (snd st) =
      map_option (map_sum id snd) (ready_loop (ss_handleReceivedPacket sockname rnd) (m_HighLevelSockets t) ready st)" for ready
    by (rule ready_loop_map [where f = snd, symmetric]) (rule ss_handle_eq)
  show ?thesis unfolding x
    by (simp add: ss_listenOnSockets_def listenOnSockets_def ss_rebuildSocketArrayIfNecessary_def rebuildSocketArrayIfNecessary_def
        Let_def m l set_err_def split: sum.split option.split prod.split)
qed

lemma call_seen:
  assumes v: "ss_view s = rt_view t"
  shows "seen ss_view (ss_call sockname rnd c s) = seen rt_view (rt_call sockname rnd c t)"
proof -
  obtain s' a x u y where st: "s = (s', a, x)" "t = (u, y)" by (cases s, cases t)
  have m: "ss_HighLevelSockets s' = m_HighLevelSockets u" "ss_LowLevelSocketArray s' = m_LowLevelSocketArray u" "x = y"
    using v by (simp_all add: st)
  show ?thesis
  proof (cases c)
    case (CListen select timeoutMs)
    have "seen ss_view (ss_call sockname rnd c s) = map_option (map_sum id (\<lambda>(r, e, v). (AListened r e, v)))
        (map_option (map_sum id (\<lambda>(r, err, s', st'). (r, the err, ss_view (s', st'))))
          (ss_listenOnSockets select (ss_handleReceivedPacket sockname rnd) timeoutMs (Some 0) s' (a, x)))"
      by (simp add: ss_call_def CListen st option.map_comp sum.map_comp comp_def case_prod_beta' map_prod_def)
    also have "\<dots> = map_option (map_sum id (\<lambda>(r, e, v). (AListened r e, v)))
        (map_option (map_sum id (\<lambda>(r, err, t', x'). (r, err, rt_view (t', x'))))
          (listenOnSockets select (rt_handleReceivedPacket sockname rnd) timeoutMs u y))"
      by (subst listen_seen) (use v st in simp_all)
    also have "\<dots> = seen rt_view (rt_call sockname rnd c t)"
      by (simp add: rt_call_def CListen st option.map_comp sum.map_comp comp_def case_prod_beta' map_prod_def)
    finally show ?thesis .
  qed (use m in \<open>simp_all add: st ss_call_def rt_call_def ss_addSocket_def rt_addSocket_def ss_removeSocket_def rt_removeSocket_def split: option.split\<close>)
qed

section \<open>Properties\<close>

text \<open>C31: The class \<open>SocketSet\<close> that was replaced and \<open>ReceptionThread\<close> cannot be told apart: whatever sockets are added and
  removed and however often the set listens, whatever \<open>select\<close> answers, whatever datagrams the system has and whichever of
  them the simulation drops, the answers are the same, the sockets and the array of handles are the same, and the links
  and jobs of the network are the same; a run that ends in an error or does not return does so in both.\<close>

theorem socket_set_replaced:
  "seen ss_view (run_calls (ss_call sockname rnd) cs (SocketSet_init, actions, x)) =
   seen rt_view (run_calls (rt_call sockname rnd) cs (ReceptionThread_init dirty closing, x))"
  by (rule run_calls_seen [OF call_seen]) (simp_all add: SocketSet_init_def ReceptionThread_init_def)

text \<open>C30: A reception thread is a set of at most \<open>FD_SETSIZE\<close> handles: for any sequence of calls the answers of
  \<open>addSocket\<close> and the watched handles are those of the abstract set, in which a handle is added exactly if there is room,
  and removing always succeeds. The old class implements the same set.\<close>

theorem reception_thread_is_bounded_set:
  "\<exists>answers t s. set_calls rt_addSocket (\<lambda>sock. rt_removeSocket (Some sock)) cs (ReceptionThread_init dirty closing) = Inr (answers, t) \<and>
     (answers, handles t) = abstract_calls FD_SETSIZE m_Socket cs {} \<and> card (handles t) \<le> FD_SETSIZE \<and>
     set_calls ss_addSocket (\<lambda>sock. ss_removeSocket (Some sock)) cs SocketSet_init = Inr (answers, s) \<and> ss_handles s = handles t"
proof -
  have ok: "ss_ok SocketSet_init" "ss_handles SocketSet_init = {}" by (simp_all add: ss_ok_def ss_handles_def SocketSet_init_def)
  obtain answers t where t: "set_calls rt_addSocket (\<lambda>sock. rt_removeSocket (Some sock)) cs (ReceptionThread_init dirty closing) = Inr (answers, t)"
      "rt_ok t" "(answers, handles t) = abstract_calls FD_SETSIZE m_Socket cs {}"
    using rt_set.refines_set [OF rt_init_ok(1)] rt_init_ok(2) by metis
  obtain answers' s where s: "set_calls ss_addSocket (\<lambda>sock. ss_removeSocket (Some sock)) cs SocketSet_init = Inr (answers', s)"
      "(answers', ss_handles s) = abstract_calls FD_SETSIZE m_Socket cs {}"
    using ss_set.refines_set [OF ok(1)] ok(2) by metis
  have "card (handles t) \<le> FD_SETSIZE" using card_handles [OF t(2)] t(2) by (simp add: rt_ok_def)
  moreover have "answers' = answers" "ss_handles s = handles t" using t(3) s(2) by (metis Pair_inject)+
  ultimately show ?thesis using t(1,3) s(1) by blast
qed

end
