(* ===== verification/Socket_Tests.thy ===== *)
theory Socket_Tests
  imports Listeners
begin

text \<open>
  The tests of \<open>UnitTest/MyTests.h\<close> that use sockets. \<open>SocketTest\<close> opens, binds and closes sockets one after the other; it
  passes on a system that refuses to bind a port twice unless both sockets allow it. \<open>SocketSetTest\<close> adds sockets to the
  \<open>SocketSetManager\<close> from fifty threads. The manager has no lock, so a call of \<open>addSocket\<close> is the sequence of its accesses
  to the vector of reception threads here, and the calls interleave.
\<close>

section \<open>SocketTest\<close>

text \<open>Create, open and bind, with the calls of the system for this socket. An assertion that fails ends the test.\<close>

definition bind_socket ::
  "os_calls \<Rightarrow> bool \<Rightarrow> u16 \<Rightarrow> u32 \<Rightarrow> (bool \<Rightarrow> bsd_socket \<Rightarrow> u32 \<Rightarrow> (bool \<times> u32) res) \<Rightarrow> (bool \<times> u32) res" where
  "bind_socket os reuse port n k =
     (case socket_new (o_startup os) n of
        (None, n1) \<Rightarrow> Inr (False, n1)
      | (Some s, n1) \<Rightarrow>
          rbind (bsd_open (o_socket os) (o_setopt os) (o_getopt os) Ipv4 \<lparr>m_ReuseAddr = reuse, m_DontFragment = True\<rparr> (Some 0) s) (\<lambda>(ok, err, s1).
          if \<not> ok then Inr (False, n1)
          else rbind (bsd_bind (o_addrs os) (o_bind os) port err s1) (\<lambda>(bound, err2, s2). k bound s2 n1)))"

text \<open>The loop with \<open>sock4\<close>, which is destroyed at the end of each round; \<open>os i\<close> are the calls of the system in a round.\<close>

fun rebind_loop :: "(nat \<Rightarrow> os_calls) \<Rightarrow> nat \<Rightarrow> u32 \<Rightarrow> (u32 \<Rightarrow> (bool \<times> u32) res) \<Rightarrow> (bool \<times> u32) res" where
  "rebind_loop os 0 n k = k n"
| "rebind_loop os (Suc i) n k =
     bind_socket (os i) True 27002 n (\<lambda>bound s n1.
       if \<not> bound \<or> \<not> (m_Open s \<and> m_Bound s) then Inr (False, n1)
       else let s' = snd (bsd_close s) in rebind_loop os i (snd (shutdown n1)) k)"

definition SocketTest :: "(nat \<Rightarrow> os_calls) \<Rightarrow> u32 \<Rightarrow> (bool \<times> u32) res" where
  "SocketTest os n0 =
     bind_socket (os 5) False 27001 n0 (\<lambda>bound1 sock n1.
     if \<not> bound1 then Inr (False, n1)
     else bind_socket (os 6) False 27001 n1 (\<lambda>bound2 sock2 n2.
     if bound2 \<or> \<not> (m_Open sock2 \<and> \<not> m_Bound sock2) then Inr (False, n2)
     else bind_socket (os 7) True 27002 n2 (\<lambda>bound3 sock3 n3.
     if \<not> bound3 then Inr (False, n3)
     else rebind_loop os 5 n3 (\<lambda>n4.
          bind_socket (os 8) True 27003 n4 (\<lambda>bound5 sock5 n5.
          if \<not> bound5 \<or> \<not> (m_Open sock5 \<and> m_Bound sock5) then Inr (False, n5)
          else let closed = snd (bsd_close sock5)
               in Inr (\<not> m_Open closed \<and> \<not> m_Bound closed, ((snd \<circ> shutdown) ^^ 4) n5))))))"

text \<open>What the test needs of the system: the library is there, a socket has a valid handle, an option that was set is read
  back, an address is found for the port, and binding gives the answer \<open>ok\<close>.\<close>

definition answers :: "os_calls \<Rightarrow> bool \<Rightarrow> bool \<Rightarrow> bool" where
  "answers os reuse ok \<longleftrightarrow> o_startup os = Inr 514 \<and>
     (\<exists>h. o_socket os Ipv4 = Inr h \<and> h \<noteq> INVALID_SOCKET \<and> (\<forall>l opt on. o_setopt os h l opt on = None) \<and>
        o_getopt os h SOL_SOCKET SO_REUSEADDR = Inr (if reuse then 1 else 0) \<and> o_getopt os h IPPROTO_IP IP_DONTFRAGMENT = Inr 1 \<and>
        (\<forall>port. \<exists>infos. o_addrs os Ipv4 port = Inr infos \<and> (bind_first (o_bind os) h infos 0 = None \<longleftrightarrow> ok)))"

lemma bind_socket_answers:
  assumes "answers os reuse ok"
  shows "\<exists>s. m_Open s \<and> m_Bound s = ok \<and> (\<forall>k. bind_socket os reuse port n k = k ok s (n + 1))"
proof -
  obtain h where h: "o_socket os Ipv4 = Inr h" "h \<noteq> INVALID_SOCKET" "\<And>l opt on. o_setopt os h l opt on = None"
      "o_getopt os h SOL_SOCKET SO_REUSEADDR = Inr (if reuse then 1 else 0)" "o_getopt os h IPPROTO_IP IP_DONTFRAGMENT = Inr 1"
      "\<And>port. \<exists>infos. o_addrs os Ipv4 port = Inr infos \<and> (bind_first (o_bind os) h infos 0 = None \<longleftrightarrow> ok)"
    using assms unfolding answers_def by blast
  obtain infos where i: "o_addrs os Ipv4 (dec (unat port)) = Inr infos" "bind_first (o_bind os) h infos 0 = None \<longleftrightarrow> ok" using h(6) by blast
  have n: "socket_new (o_startup os) n = (Some BSDSocket_init, n + 1)"
    using assms by (auto simp: answers_def socket_new_def initialize_def)
  let ?s = "BSDSocket_init\<lparr>m_Open := True, m_Socket := h\<rparr>"
  have o: "bsd_open (o_socket os) (o_setopt os) (o_getopt os) Ipv4 \<lparr>m_ReuseAddr = reuse, m_DontFragment = True\<rparr> (Some 0) BSDSocket_init =
      Inr (True, Some 0, ?s)"
    using h by (simp add: bsd_open_def Let_def setOption_def BSDSocket_init_def)
  have i0: "m_IpProto BSDSocket_init = Ipv4" "\<not> m_Bound BSDSocket_init" by (simp_all add: BSDSocket_init_def)
  have "bind_socket os reuse port n k =
      (case bind_first (o_bind os) h infos 0 of None \<Rightarrow> k True (?s\<lparr>m_Bound := True\<rparr>) (n + 1) | Some e \<Rightarrow> k False ?s (n + 1))" for k
    using h(2) i(1) by (simp add: bind_socket_def n o bsd_bind_eq i0 split: option.split)
  then show ?thesis using i(2) i0(2)
    by (intro exI [of _ "if ok then ?s\<lparr>m_Bound := True\<rparr> else ?s"]) (auto split: option.split)
qed

lemma shutdown_back: "n + 1 \<noteq> 0 \<Longrightarrow> snd (shutdown (n + 1)) = n"
  by (simp add: shutdown_def)

lemma rebind_loop_answers:
  assumes "\<And>j. j < i \<Longrightarrow> answers (os j) True True" and "n + 1 \<noteq> 0"
  shows "rebind_loop os i n k = k n"
  using assms
proof (induction i)
  case (Suc i)
  obtain s where "m_Open s" "m_Bound s" "\<And>k. bind_socket (os i) True 27002 n k = k True s (n + 1)"
    using bind_socket_answers [OF Suc.prems(1) [of i], of 27002 n] by auto
  with Suc show ?case by (simp add: shutdown_back Let_def)
qed simp

text \<open>On such a system, with the port of the second socket in use, the test passes, and the sockets that it destroys at
  its end give all their references to the library back.\<close>

lemma SocketTest_passes:
  assumes "answers (os 5) False True" and "answers (os 6) False False" and "answers (os 7) True True"
    and "\<And>i. i < 5 \<Longrightarrow> answers (os i) True True" and "answers (os 8) True True" and "unat n < 2 ^ 32 - 8"
  shows "SocketTest os n = Inr (True, n)"
proof -
  have ne: "n + of_nat j \<noteq> 0" if "0 < j" "j < 8" for j
  proof
    assume "n + of_nat j = 0"
    moreover have "unat (n + of_nat j) = unat n + j"
      using that assms(6) by (subst unat_add_small) (simp_all add: unat_of_nat32)
    ultimately show False using that(1) by simp
  qed
  have e: "n + 1 \<noteq> 0" "n + 2 \<noteq> 0" "n + 3 \<noteq> 0" "n + 4 \<noteq> 0" using ne [of 1] ne [of 2] ne [of 3] ne [of 4] by simp_all
  have step: "n + 1 + 1 = n + 2" "n + 2 + 1 = n + 3" "n + 3 + 1 = n + 4" by simp_all
  have down: "((snd \<circ> shutdown) ^^ 4) (n + 4) = n"
    using shutdown_back [of n] shutdown_back [of "n + 1"] shutdown_back [of "n + 2"] shutdown_back [of "n + 3"] e
    by (simp add: step eval_nat_numeral)
  have c: "\<not> m_Open (snd (bsd_close s)) \<and> \<not> m_Bound (snd (bsd_close s))" for s by (simp add: bsd_close_def)
  have e4: "n + 3 + 1 \<noteq> 0" unfolding step by (rule e(4))
  have r: "rebind_loop os 5 (n + 3) k = k (n + 3)" for k by (rule rebind_loop_answers [OF _ e4]) (rule assms(4))
  obtain s1 s2 s3 s5 where b: "\<And>k. bind_socket (os 5) False 27001 n k = k True s1 (n + 1)"
      "m_Open s2" "\<not> m_Bound s2" "\<And>k. bind_socket (os 6) False 27001 (n + 1) k = k False s2 (n + 2)"
      "\<And>k. bind_socket (os 7) True 27002 (n + 2) k = k True s3 (n + 3)"
      "m_Open s5" "m_Bound s5" "\<And>k. bind_socket (os 8) True 27003 (n + 3) k = k True s5 (n + 4)"
    using bind_socket_answers [OF assms(1), of 27001 n] bind_socket_answers [OF assms(2), of 27001 "n + 1"]
      bind_socket_answers [OF assms(3), of 27002 "n + 2"] bind_socket_answers [OF assms(5), of 27003 "n + 3"]
    unfolding step by auto
  show ?thesis using b(2,3,6,7) by (simp add: SocketTest_def b(1,4,5,8) r c down Let_def)
qed

section \<open>SocketSetTest\<close>

text \<open>The vector of reception threads: each thread with whether it was started, the capacity of the vector and how often
  its memory was replaced. \<open>grow\<close> is the new capacity that the standard library chooses.\<close>

record thread_vector =
  v_Threads :: "(reception_thread \<times> bool) list"
  v_Capacity :: nat
  v_Moves :: nat

text \<open>Where a call of \<open>SocketSetManager::addSocket\<close> is: before the loop, in it at position \<open>i\<close> of \<open>n\<close> with iterators into the
  memory that was current at its start, before \<open>emplace_back\<close>, \<open>back()->addSocket\<close>, \<open>back()->start()\<close>, or returned.\<close>

datatype add_pc = Begin | Trying nat nat nat | Emplace | AddToBack | StartBack | Returned

definition emplace_back :: "(nat \<Rightarrow> nat) \<Rightarrow> reception_thread \<Rightarrow> thread_vector \<Rightarrow> thread_vector" where
  "emplace_back grow t v =
     (let v1 = (if length (v_Threads v) < v_Capacity v then v
                else v\<lparr>v_Capacity := grow (v_Capacity v), v_Moves := Suc (v_Moves v)\<rparr>)
      in v1\<lparr>v_Threads := v_Threads v1 @ [(t, False)]\<rparr>)"

text \<open>\<open>ReceptionThread::start\<close> assigns a new \<open>std::thread\<close>; assigning to one that runs terminates the program.\<close>

definition rt_start :: "reception_thread \<times> bool \<Rightarrow> (reception_thread \<times> bool) res" where
  "rt_start r = (if snd r then Inl Terminate else Inr (fst r, True))"

definition back_of :: "'a list \<Rightarrow> 'a res" where
  "back_of xs = (if xs = [] then Inl OutOfBounds else Inr (last xs))"

definition put_back :: "(reception_thread \<times> bool) \<Rightarrow> thread_vector \<Rightarrow> thread_vector" where
  "put_back r v = v\<lparr>v_Threads := butlast (v_Threads v) @ [r]\<rparr>"

text \<open>The next access of a call. An iterator into memory that was given back is dangling.\<close>

definition add_step :: "(nat \<Rightarrow> nat) \<Rightarrow> bool \<Rightarrow> bool \<Rightarrow> bsd_socket \<Rightarrow> add_pc \<Rightarrow> thread_vector \<Rightarrow> (add_pc \<times> thread_vector) res" where
  "add_step grow dirty closing sock pc v =
     (case pc of
        Begin \<Rightarrow> Inr (Trying 0 (length (v_Threads v)) (v_Moves v), v)
      | Trying i n moves \<Rightarrow>
          if i \<ge> n then Inr (Emplace, v)
          else if moves \<noteq> v_Moves v then Inl NullDeref
          else (case v_Threads v ! i of (t, started) \<Rightarrow>
                 (case rt_addSocket sock t of (ok, t') \<Rightarrow>
                    Inr (if ok then Returned else Trying (Suc i) n moves, v\<lparr>v_Threads := (v_Threads v)[i := (t', started)]\<rparr>)))
      | Emplace \<Rightarrow> Inr (AddToBack, emplace_back grow (ReceptionThread_init dirty closing) v)
      | AddToBack \<Rightarrow>
          rbind (back_of (v_Threads v)) (\<lambda>r. case r of (t, started) \<Rightarrow>
            Inr (StartBack, put_back (snd (rt_addSocket sock t), started) v))
      | StartBack \<Rightarrow> rbind (back_of (v_Threads v)) (\<lambda>r. rbind (rt_start r) (\<lambda>r'. Inr (Returned, put_back r' v)))
      | Returned \<Rightarrow> Inr (Returned, v))"

text \<open>A schedule names the thread that makes the next access; a thread calls \<open>addSocket\<close> with its own socket.\<close>

fun run_adders ::
  "(nat \<Rightarrow> nat) \<Rightarrow> bool \<Rightarrow> bool \<Rightarrow> nat list \<Rightarrow> (bsd_socket \<times> add_pc) list \<Rightarrow> thread_vector \<Rightarrow> ((bsd_socket \<times> add_pc) list \<times> thread_vector) res" where
  "run_adders grow dirty closing [] ps v = Inr (ps, v)"
| "run_adders grow dirty closing (k # schedule) ps v =
     (if k \<ge> length ps then run_adders grow dirty closing schedule ps v
      else rbind (add_step grow dirty closing (fst (ps ! k)) (snd (ps ! k)) v) (\<lambda>(pc, v').
             run_adders grow dirty closing schedule (ps[k := (fst (ps ! k), pc)]) v'))"

definition vector_init :: thread_vector where
  "vector_init = \<lparr>v_Threads = [], v_Capacity = 0, v_Moves = 0\<rparr>"

text \<open>A call that is not disturbed.\<close>

fun alone :: "(nat \<Rightarrow> nat) \<Rightarrow> bool \<Rightarrow> bool \<Rightarrow> bsd_socket \<Rightarrow> nat \<Rightarrow> add_pc \<Rightarrow> thread_vector \<Rightarrow> (add_pc \<times> thread_vector) res" where
  "alone grow d c sock 0 pc v = Inr (pc, v)"
| "alone grow d c sock (Suc m) pc v = rbind (add_step grow d c sock pc v) (\<lambda>(pc', v'). alone grow d c sock m pc' v')"

lemma run_block:
  assumes "k < length ps"
  shows "run_adders grow d c (replicate m k @ rest) ps v =
    rbind (alone grow d c (fst (ps ! k)) m (snd (ps ! k)) v) (\<lambda>(pc, v'). run_adders grow d c rest (ps[k := (fst (ps ! k), pc)]) v')"
  using assms
proof (induction m arbitrary: ps v)
  case (Suc m)
  then show ?case
    by (cases "add_step grow d c (fst (ps ! k)) (snd (ps ! k)) v") (auto split: prod.split)
qed (simp add: list_update_id)

lemma alone_returned: "alone grow d c sock m Returned v = Inr (Returned, v)"
  by (induction m) (simp_all add: add_step_def)

lemma alone_new:
  assumes "4 \<le> m" and "n \<le> i"
  shows "\<exists>v'. alone grow d c sock m (Trying i n moves) v = Inr (Returned, v') \<and>
    v_Threads v' = v_Threads v @ [(snd (rt_addSocket sock (ReceptionThread_init d c)), True)]"
proof -
  have m: "m = Suc (Suc (Suc (Suc (m - 4))))" using assms(1) by simp
  show ?thesis using assms(2)
    by (subst m) (simp add: add_step_def emplace_back_def put_back_def back_of_def rt_start_def alone_returned Let_def)
qed

lemma alone_trying:
  assumes "n = length (v_Threads v)" and "i \<le> n" and "n - i + 4 \<le> m"
  shows "\<exists>v'. alone grow d c sock m (Trying i n (v_Moves v)) v = Inr (Returned, v') \<and>
    map fst (v_Threads v') = take i (map fst (v_Threads v)) @ ssm_addSocket d c sock (drop i (map fst (v_Threads v))) \<and>
    ((\<forall>r \<in> set (v_Threads v). snd r) \<longrightarrow> (\<forall>r \<in> set (v_Threads v'). snd r))"
  using assms(2,3)
proof (induction m arbitrary: i)
  case (Suc m)
  show ?case
  proof (cases "i < n")
    case False
    then obtain v' where "alone grow d c sock (Suc m) (Trying i n (v_Moves v)) v = Inr (Returned, v')"
        "v_Threads v' = v_Threads v @ [(snd (rt_addSocket sock (ReceptionThread_init d c)), True)]"
      using alone_new [of "Suc m" n i grow d c sock "v_Moves v" v] Suc.prems(2) by (simp del: alone.simps) blast
    then show ?thesis using False Suc.prems(1) assms(1) by auto
  next
    case True
    obtain t b where ti: "v_Threads v ! i = (t, b)" by fastforce
    obtain ok t' where a: "rt_addSocket sock t = (ok, t')" by fastforce
    have dr: "drop i (map fst (v_Threads v)) = t # drop (Suc i) (map fst (v_Threads v))"
      using True assms(1) ti Cons_nth_drop_Suc [of i "map fst (v_Threads v)"] by simp
    have b: "(\<forall>r \<in> set (v_Threads v). snd r) \<Longrightarrow> b" using True assms(1) ti by (metis nth_mem snd_conv)
    show ?thesis
    proof (cases ok)
      case ok: True
      let ?v = "v\<lparr>v_Threads := (v_Threads v)[i := (t', b)]\<rparr>"
      have "alone grow d c sock (Suc m) (Trying i n (v_Moves v)) v = Inr (Returned, ?v)"
        using True ok by (simp add: add_step_def ti a alone_returned)
      moreover have "map fst (v_Threads ?v) = take i (map fst (v_Threads v)) @ t' # drop (Suc i) (map fst (v_Threads v))"
        using True assms(1) by (simp add: map_update upd_conv_take_nth_drop take_map drop_map)
      ultimately show ?thesis using b ok by (auto simp: dr a dest!: set_update_subset_insert [THEN subsetD])
    next
      case False
      then have "t' = t" using a by (auto simp: rt_addSocket_def split: if_splits)
      then have "(v_Threads v)[i := (t', b)] = v_Threads v" using ti by (metis list_update_id)
      then have e: "alone grow d c sock (Suc m) (Trying i n (v_Moves v)) v = alone grow d c sock m (Trying (Suc i) n (v_Moves v)) v"
        using True False by (simp add: add_step_def ti a)
      have "Suc i \<le> n" "n - Suc i + 4 \<le> m" using True Suc.prems(2) by simp_all
      from Suc.IH [OF this] show ?thesis unfolding e dr using False \<open>t' = t\<close> a True assms(1) ti
        by (simp add: take_Suc_conv_app_nth)
    qed
  qed
qed simp

lemma length_ssm_add: "length (ssm_addSocket d c sock ts) \<le> Suc (length ts)"
  by (induction ts) (simp_all split: prod.split bool.split)

lemma alone_adds:
  assumes "length (v_Threads v) + 5 \<le> m"
  shows "\<exists>v'. alone grow d c sock m Begin v = Inr (Returned, v') \<and> map fst (v_Threads v') = ssm_addSocket d c sock (map fst (v_Threads v)) \<and>
    ((\<forall>r \<in> set (v_Threads v). snd r) \<longrightarrow> (\<forall>r \<in> set (v_Threads v'). snd r))"
proof -
  obtain k where m: "m = Suc k" using assms by (cases m) auto
  from alone_trying [of "length (v_Threads v)" v 0 k grow d c sock] assms show ?thesis by (simp add: m add_step_def)
qed

text \<open>The calls one after the other: each thread makes all its accesses before the next one starts.\<close>

definition serial :: "nat \<Rightarrow> nat \<Rightarrow> nat \<Rightarrow> nat list" where
  "serial m a b = concat (map (replicate m) [a ..< b])"

lemma serial_run:
  assumes "\<forall>p \<in> set qs. snd p = Begin" and "length (v_Threads v) \<le> length ds" and "length ds + length qs + 5 \<le> m"
    and "\<forall>r \<in> set (v_Threads v). snd r"
  shows "\<exists>v'. run_adders grow d c (serial m (length ds) (length ds + length qs)) (ds @ qs) v =
      Inr (ds @ map (\<lambda>p. (fst p, Returned)) qs, v') \<and>
    map fst (v_Threads v') = fold (\<lambda>p. ssm_addSocket d c (fst p)) qs (map fst (v_Threads v)) \<and> (\<forall>r \<in> set (v_Threads v'). snd r)"
  using assms
proof (induction qs arbitrary: ds v)
  case Nil
  then show ?case by (simp add: serial_def)
next
  case (Cons q qs)
  let ?k = "length ds"
  have "[?k ..< ?k + length (q # qs)] = ?k # [Suc ?k ..< Suc ?k + length qs]" using upt_conv_Cons [of ?k "?k + length (q # qs)"] by simp
  then have ser: "serial m ?k (?k + length (q # qs)) = replicate m ?k @ serial m (Suc ?k) (Suc ?k + length qs)" by (simp add: serial_def)
  have "length (v_Threads v) + 5 \<le> m" using Cons.prems(2,3) by simp
  then obtain w where w: "alone grow d c (fst q) m Begin v = Inr (Returned, w)"
      "map fst (v_Threads w) = ssm_addSocket d c (fst q) (map fst (v_Threads v))" "\<forall>r \<in> set (v_Threads w). snd r"
    using alone_adds [of v m grow d c "fst q"] Cons.prems(4) by blast
  have "length (v_Threads w) \<le> Suc (length (v_Threads v))"
    using length_ssm_add [of d c "fst q" "map fst (v_Threads v)"] w(2) by (metis length_map)
  then have lw: "length (v_Threads w) \<le> length (ds @ [(fst q, Returned)])" using Cons.prems(2) by simp
  have "run_adders grow d c (serial m ?k (?k + length (q # qs))) (ds @ q # qs) v =
      run_adders grow d c (serial m (Suc ?k) (Suc ?k + length qs)) ((ds @ [(fst q, Returned)]) @ qs) w"
    unfolding ser using Cons.prems(1) w(1) by (subst run_block) simp_all
  moreover have "\<exists>v'. run_adders grow d c (serial m (length (ds @ [(fst q, Returned)])) (length (ds @ [(fst q, Returned)]) + length qs))
        ((ds @ [(fst q, Returned)]) @ qs) w = Inr ((ds @ [(fst q, Returned)]) @ map (\<lambda>p. (fst p, Returned)) qs, v') \<and>
      map fst (v_Threads v') = fold (\<lambda>p. ssm_addSocket d c (fst p)) qs (map fst (v_Threads w)) \<and> (\<forall>r \<in> set (v_Threads v'). snd r)"
    using Cons.IH [OF _ lw _ w(3)] Cons.prems(1,3) by simp
  ultimately show ?case by (simp add: w(2))
qed



end
