(* ===== verification/Local_Calls.thy ===== *)
theory Local_Calls
  imports Chat_Client
begin

text \<open>
  The templates of a remote call: \<open>MM_RPC\<close> and \<open>serialize\<close> of \<open>Rpc.h\<close>, \<open>callRpc\<close> of \<open>INetwork\<close> and \<open>ISession\<close> in \<open>MiepMiep.h\<close>
  and \<open>callRpc2\<close> of \<open>Network.h\<close>, with the option to perform the call at the caller too.

  All of them write into one serializer per thread, \<open>priv_get_thread_serializer\<close> of \<open>PerThreadDataProvider.cpp\<close>, which is
  part of the state here, because the function that a call performs may itself make a call. The state of a thread is its
  serializer, the state of the application and the network. The function gets its arguments, the link the call came from,
  none for a local call, and the channel.
\<close>

section \<open>The templates\<close>

type_synonym 'u caller = "bin_serializer \<times> 'u \<times> world"

type_synonym ('a, 'u) rpc_body = "'a \<Rightarrow> nat option \<Rightarrow> byte \<Rightarrow> 'u caller \<Rightarrow> 'u caller res"

type_synonym 'a writer = "'a \<Rightarrow> bin_serializer \<Rightarrow> (bool \<times> bin_serializer) res"

text \<open>\<open>getSerializer(true)\<close>: whatever the serializer of the thread holds is given up.\<close>

definition thread_serializer :: "'u caller \<Rightarrow> 'u caller" where
  "thread_serializer st = (bs_reset, snd st)"

text \<open>\<open>rpc\<close>: the results of the writes are not used.\<close>

definition rpc_local :: "'a writer \<Rightarrow> ('a, 'u) rpc_body \<Rightarrow> 'a \<Rightarrow> bool \<Rightarrow> byte \<Rightarrow> 'u caller \<Rightarrow> 'u caller res" where
  "rpc_local put body args localCall channel st =
     (case st of (bs, u, w) \<Rightarrow>
        rbind (put args bs) (\<lambda>(ok, bs1).
          if localCall then body args None channel (bs1, u, w) else Inr (bs1, u, w)))"

text \<open>\<open>rpc_dsr\<close>: the serializer is that of the thread; a read that fails leaves the default value of the argument.\<close>

definition rpc_dsr ::
  "(bin_serializer \<Rightarrow> ('a option \<times> bin_serializer) res) \<Rightarrow> 'a \<Rightarrow> ('a, 'u) rpc_body \<Rightarrow> nat \<Rightarrow> byte \<Rightarrow> 'u caller \<Rightarrow> 'u caller res" where
  "rpc_dsr get dflt body link channel st =
     (case st of (bs, u, w) \<Rightarrow>
        rbind (get bs) (\<lambda>(args, bs1). body (case args of None \<Rightarrow> dflt | Some a \<Rightarrow> a) (Some link) channel (bs1, u, w)))"

definition callRpc2 ::
  "cstring \<Rightarrow> 'a writer \<Rightarrow> ('a, 'u) rpc_body \<Rightarrow> 'a \<Rightarrow> nat option \<Rightarrow> nat option \<Rightarrow> bool \<Rightarrow> bool \<Rightarrow> bool \<Rightarrow> bool \<Rightarrow> byte \<Rightarrow> 'u caller \<Rightarrow>
   (ESendCallResult \<times> 'u caller) res" where
  "callRpc2 rpcName put body args session exclOrSpecific localCall buffer relay systemBit channel st =
     rbind (rpc_local put body args localCall channel (thread_serializer st)) (\<lambda>(bs, u, w).
     rbind (priv_send_rpc rpcName bs session exclOrSpecific buffer relay systemBit channel w) (\<lambda>(r, w1). Inr (r, bs, u, w1)))"

definition network_callRpc ::
  "cstring \<Rightarrow> 'a writer \<Rightarrow> ('a, 'u) rpc_body \<Rightarrow> 'a \<Rightarrow> nat option \<Rightarrow> nat option \<Rightarrow> bool \<Rightarrow> bool \<Rightarrow> bool \<Rightarrow> byte \<Rightarrow> 'u caller \<Rightarrow>
   (ESendCallResult \<times> 'u caller) res" where
  "network_callRpc rpcName put body args session exclOrSpecific localCall buffer relay channel st =
     rbind (rpc_local put body args localCall channel (thread_serializer st)) (\<lambda>(bs, u, w).
     rbind (priv_send_rpc rpcName bs session exclOrSpecific buffer relay False channel w) (\<lambda>(r, w1). Inr (r, bs, u, w1)))"

definition session_callRpc ::
  "cstring \<Rightarrow> 'a writer \<Rightarrow> ('a, 'u) rpc_body \<Rightarrow> 'a \<Rightarrow> nat \<Rightarrow> nat option \<Rightarrow> bool \<Rightarrow> bool \<Rightarrow> bool \<Rightarrow> byte \<Rightarrow> 'u caller \<Rightarrow>
   (ESendCallResult \<times> 'u caller) res" where
  "session_callRpc rpcName put body args sid exclOrSpecific localCall buffer relay channel st =
     network_callRpc rpcName put body args (Some sid) exclOrSpecific localCall buffer relay channel st"

text \<open>\<open>SendFinal\<close> of the chat is such a call, without the local one.\<close>

definition RpcChat_body :: "(cstring, chat) rpc_body" where
  "RpcChat_body msg link channel st = (case st of (bs, c, w) \<Rightarrow> Inr (bs, RpcChat msg c, w))"

lemma SendFinal_is_callRpc:
  assumes "g_Session c = Some sid"
  shows "SendFinal line c w =
    rbind (session_callRpc (cstr ''RpcChat'') write_string RpcChat_body (c_str line) sid None False False False 1 (bs, c, w)) (\<lambda>(r, bs1, c1, w1).
      Inr (RefreshTextField (add_line (c_str line) c1), w1))"
  using assms
  by (simp add: SendFinal_def session_callRpc_def network_callRpc_def rpc_local_def thread_serializer_def ser_arg_def rbind_def
      split: prod.split sum.split)

section \<open>Sending what the serializer holds\<close>

abbreviation call_packet :: "cstring \<Rightarrow> byte list \<Rightarrow> bool \<Rightarrow> byte \<Rightarrow> recv_packet" where
  "call_packet name args sys ch \<equiv> RecvPacket packet_RPC (name @ [0] @ args) (makeChannelAndFlags ch False sys True True)"

text \<open>The serialized packet of a call, and that it is queued on a link.\<close>

definition holds_call :: "bin_serializer \<Rightarrow> cstring \<Rightarrow> byte list \<Rightarrow> bool \<Rightarrow> byte \<Rightarrow> bool" where
  "holds_call b name args sys ch \<longleftrightarrow> bs_inv b \<and> content b = packet_bytes (call_packet name args sys ch)"

definition queued_on :: "byte \<Rightarrow> bin_serializer list \<Rightarrow> link \<Rightarrow> link" where
  "queued_on ch ps l = l\<lparr>l_comps := link_enqueue (unat ch) ps (l_comps l)\<rparr>"

lemma priv_send_rpc_packets:
  assumes "string_ok name" and "bs_inv payload" and "length name + 1 + length (content payload) \<le> 1894"
  shows "\<exists>b. holds_call b name (content payload) sys ch \<and>
    (\<forall>session ex w. priv_send_rpc name payload session ex False False sys ch w = sendReliable_packets [b] session ex False (unat ch) w)"
proof -
  obtain b where b: "rpc_packets name payload False sys ch = Inr [b]" "bs_inv b" "content b = packet_bytes (call_packet name (content payload) sys ch)"
    using rpc_packets_ok [OF assms refl refl] by blast
  then obtain bn where "write_string name bs_reset = Inr (True, bn)"
    "createNormalPacket (comp_byte ReliableSend) packet_RPC [bn, payload] 2 ch False sys MM_MAX_FRAGMENTSIZE = Inr [b]"
    by (auto simp: rpc_packets_def checked_def elim!: resE split: if_splits)
  then have "priv_send_rpc name payload session ex False False sys ch w = sendReliable_packets [b] session ex False (unat ch) w" for session ex w
    by (simp add: priv_send_rpc_def sendReliable_serializers_def checked_def)
  with b show ?thesis by (auto simp: holds_call_def)
qed

lemma send_to_link:
  assumes "lock w i = Some l"
  shows "sendReliable_packets ps None (Some i) False (unat ch) w = Inr (Send_Fine, put_link i (queued_on ch ps l) w)"
  using assms by (simp add: sendReliable_packets_def on_comps_def deref_def queued_on_def)

text \<open>What the receiver of such a packet does: it performs the function of that name with the arguments that were written.\<close>

lemma call_performed:
  assumes "string_ok name" and "string_ok x" and "length name + 1 + length (x @ [0]) \<le> 1894" and "rpcs name = Some f"
  shows "\<exists>e bs. handlePacket rpcs (call_packet name (x @ [0]) sys ch) = Inr [e] \<and> EventRpc_process e = Inr (f, bs, ch AND 7) \<and>
    rpc_dsr read_string dflt body i (ch AND 7) (bs, v, w) = body x (Some i) (ch AND 7) (advance (length x + 1) bs, v, w)"
proof -
  obtain payload where p: "bs_inv payload" "content payload = x @ [0]"
    using string_codec.put_ok [of bs_reset x] assms(2,3) by (auto simp: appended_def max_stream_def)
  have l: "length name + 1 + length (content payload) \<le> 1894" using assms(3) p(2) by simp
  obtain bs where bs: "EventRpc_process \<lparr>m_RpcFunc = f, m_Pack = call_packet name (x @ [0]) sys ch, m_EvReadPos = of_nat (length name + 1)\<rparr> =
      Inr (f, bs, ch AND 7)" "bs_inv bs" "unread bs = x @ [0]"
    using rpc_event_args [OF l refl refl, of f ch False sys] p(2) by auto
  have h: "handlePacket rpcs (call_packet name (x @ [0]) sys ch) =
      Inr [\<lparr>m_RpcFunc = f, m_Pack = call_packet name (x @ [0]) sys ch, m_EvReadPos = of_nat (length name + 1)\<rparr>]"
    using rpc_packet_handled(1) [OF assms(1) p(1) l refl refl, of rpcs ch False sys] p(2) assms(4) by (simp add: rpc_events_def)
  have "read_string bs = Inr (Some x, advance (length (x @ [0])) bs)"
    using string_codec.get_ok [of bs x "[]"] bs(2,3) assms(2) by simp
  then have "rpc_dsr read_string dflt body i (ch AND 7) (bs, v, w) = body x (Some i) (ch AND 7) (advance (length x + 1) bs, v, w)"
    by (simp add: rpc_dsr_def)
  with h bs(1) show ?thesis by blast
qed

lemma write_string_payload:
  assumes "string_ok x" and "length x \<le> 1892"
  obtains payload where "write_string x bs_reset = Inr (True, payload)" and "bs_inv payload" and "content payload = x @ [0]"
proof -
  obtain payload where "write_string x bs_reset = Inr (True, payload)" "appended bs_reset (x @ [0]) payload"
    using string_codec.put_ok [of bs_reset x] assms by (auto simp: max_stream_def)
  then show ?thesis by (intro that [of payload]) (auto simp: appended_def)
qed

section \<open>Properties\<close>



text \<open>C37: A local call that makes a call itself destroys the outer one: both write into the serializer of the thread. If the
  function that is performed locally makes another remote call, the outer call is sent with its own name and the
  arguments of the inner call, so the receiver performs the outer function with arguments that nobody passed to it.\<close>

theorem nested_local_call_corrupts:
  fixes inner :: "(cstring, 'u) rpc_body" and u :: 'u
  assumes "string_ok name" and "string_ok name2" and "string_ok x" and "string_ok y"
    and "length x \<le> 1892" and "length name + length y \<le> 1892" and "length name2 + length y \<le> 1892"
    and "lock w i = Some l"
  defines "outer \<equiv> \<lambda>msg link ch st. rbind (network_callRpc name2 write_string inner y None (Some i) False False False ch st) (\<lambda>(r, st1). Inr st1)"
  shows "\<exists>b1 b2 bs1 w1. network_callRpc name write_string outer x None (Some i) True False False ch (bs0, u, w) = Inr (Send_Fine, bs1, u, w1) \<and>
    lock w1 i = Some (queued_on ch [b2] (queued_on ch [b1] l)) \<and>
    holds_call b1 name2 (y @ [0]) False ch \<and> holds_call b2 name (y @ [0]) False ch"
proof -
  obtain px where px: "write_string x bs_reset = Inr (True, px)" using write_string_payload [OF assms(3,5)] by blast
  have "length y \<le> 1892" using assms(6) by simp
  then obtain py where py: "write_string y bs_reset = Inr (True, py)" "bs_inv py" "content py = y @ [0]"
    using write_string_payload [OF assms(4)] by blast
  have len: "length name + 1 + length (content py) \<le> 1894" "length name2 + 1 + length (content py) \<le> 1894"
    using assms(6,7) py(3) by simp_all
  obtain b1 where b1: "holds_call b1 name2 (y @ [0]) False ch"
      "\<And>session ex w. priv_send_rpc name2 py session ex False False False ch w = sendReliable_packets [b1] session ex False (unat ch) w"
    using priv_send_rpc_packets [OF assms(2) py(2) len(2)] py(3) by metis
  obtain b2 where b2: "holds_call b2 name (y @ [0]) False ch"
      "\<And>session ex w. priv_send_rpc name py session ex False False False ch w = sendReliable_packets [b2] session ex False (unat ch) w"
    using priv_send_rpc_packets [OF assms(1) py(2) len(1)] py(3) by metis
  let ?w1 = "put_link i (queued_on ch [b1] l) w" and ?w2 = "put_link i (queued_on ch [b2] (queued_on ch [b1] l)) (put_link i (queued_on ch [b1] l) w)"
  have lk: "lock ?w1 i = Some (queued_on ch [b1] l)" "lock ?w2 i = Some (queued_on ch [b2] (queued_on ch [b1] l))"
    by (simp_all add: put_link_def lock_def)
  have "outer x None ch (px, u, w) = Inr (py, u, ?w1)"
    unfolding outer_def using py(1) b1(2) send_to_link [OF assms(8), of "[b1]" ch]
    by (simp add: network_callRpc_def rpc_local_def thread_serializer_def)
  then have "network_callRpc name write_string outer x None (Some i) True False False ch (bs0, u, w) = Inr (Send_Fine, py, u, ?w2)"
    using px b2(2) send_to_link [OF lk(1), of "[b2]" ch] by (simp add: network_callRpc_def [of name] rpc_local_def thread_serializer_def)
  with lk(2) b1(1) b2(1) show ?thesis by blast
qed

theorem nested_local_call_corrupts_witness:
  "\<exists>b1 b2 bs1 w1. network_callRpc [97] write_string
       (\<lambda>msg link ch st. rbind (network_callRpc [98] write_string (\<lambda>m l c s. Inr s) [50] None (Some 0) False False False ch st) (\<lambda>(r, st1). Inr st1))
       [49] None (Some 0) True False False 2 (bs_reset, (), example_world True) = Inr (Send_Fine, bs1, (), w1) \<and>
     lock w1 0 = Some (queued_on 2 [b2] (queued_on 2 [b1] (example_link 5 0))) \<and>
     holds_call b1 [98] [50, 0] False 2 \<and> holds_call b2 [97] [50, 0] False 2"
proof -
  have s: "string_ok [97]" "string_ok [98]" "string_ok [49]" "string_ok [50]" by (simp_all add: string_ok_def TempBuffSize_def)
  from nested_local_call_corrupts [OF s _ _ _ example_facts(3), of "\<lambda>m l c s. Inr s" 2 bs_reset "()"] show ?thesis by simp
qed

end
