(* ===== verification/Typed_Arguments.thy ===== *)
theory Typed_Arguments
  imports Serializer_Safety
begin

text \<open>
  The overloads of \<open>read\<close> and \<open>write\<close> of \<open>BinSerializer.cpp\<close> for the types that a remote call can have, and
  \<open>MiepMiep::serialize\<close> of \<open>Rpc.h\<close>, which writes and reads the tuple of its arguments. Signed numbers are cast to the
  unsigned type of their size; a \<open>float\<close> and a \<open>double\<close> are written as the bits of their representation and are these bits
  here. The contract of a signed type comes from that of the unsigned one (\<open>word_codec\<close>).
\<close>

section \<open>Signed numbers\<close>

locale word_codec = codec put get enc "\<lambda>_. True"
  for put :: "'w::len word \<Rightarrow> bin_serializer \<Rightarrow> (bool \<times> bin_serializer) res" and get enc

text \<open>The value of a signed type of \<open>n\<close> bits.\<close>

definition fits_signed :: "nat \<Rightarrow> int \<Rightarrow> bool" where
  "fits_signed n i \<longleftrightarrow> - (2 ^ (n - 1)) \<le> i \<and> i < 2 ^ (n - 1)"

lemma sint_of_int: "fits_signed LENGTH('w) i \<Longrightarrow> sint (word_of_int i :: 'w::len word) = i"
proof -
  assume f: "fits_signed LENGTH('w) i"
  have "sint (word_of_int i :: 'w word) = signed_take_bit (LENGTH('w) - Suc 0) i" by transfer simp
  also have "\<dots> = i" using f unfolding fits_signed_def by (intro signed_take_bit_int_eq_self) simp_all
  finally show ?thesis .
qed

sublocale word_codec \<subseteq> signed: codec "\<lambda>i. put (word_of_int i)" "\<lambda>s. rmap sint (get s)"
    "\<lambda>i. enc (word_of_int i)" "fits_signed LENGTH('w)"
proof
  fix s i assume "bs_inv s" "m_Owns s" "fits_signed LENGTH('w) i" "length (content s) + length (enc (word_of_int i)) \<le> max_stream"
  then show "\<exists>s'. put (word_of_int i) s = Inr (True, s') \<and> appended s (enc (word_of_int i)) s'" by (intro put_ok) simp_all
next
  fix s i rest assume "bs_inv s" and f: "fits_signed LENGTH('w) i" and "unread s = enc (word_of_int i) @ rest"
  then have "get s = Inr (Some (word_of_int i), advance (length (enc (word_of_int i))) s)" by (intro get_ok) simp_all
  then show "rmap sint (get s) = Inr (Some i, advance (length (enc (word_of_int i))) s)"
    using sint_of_int [OF f] by (simp add: rmap_def)
qed

interpretation w8: word_codec write8 read8 "\<lambda>b. [b]" ..
interpretation w16: word_codec write16 read16 "\<lambda>w. rev (le16 w)" ..
interpretation w32: word_codec write32 read32 "\<lambda>w. rev (le32 w)" ..
interpretation w64: word_codec write64 read64 "\<lambda>w. rev (le64 w)" ..

definition write_i8 :: "int \<Rightarrow> bin_serializer \<Rightarrow> (bool \<times> bin_serializer) res" where "write_i8 b = write8 (word_of_int b)"
definition write_i16 :: "int \<Rightarrow> bin_serializer \<Rightarrow> (bool \<times> bin_serializer) res" where "write_i16 b = write16 (word_of_int b)"
definition write_i32 :: "int \<Rightarrow> bin_serializer \<Rightarrow> (bool \<times> bin_serializer) res" where "write_i32 b = write32 (word_of_int b)"
definition write_i64 :: "int \<Rightarrow> bin_serializer \<Rightarrow> (bool \<times> bin_serializer) res" where "write_i64 b = write64 (word_of_int b)"
definition write_float :: "u32 \<Rightarrow> bin_serializer \<Rightarrow> (bool \<times> bin_serializer) res" where "write_float b = write32 b"
definition write_double :: "u64 \<Rightarrow> bin_serializer \<Rightarrow> (bool \<times> bin_serializer) res" where "write_double b = write64 b"

definition read_i8 :: "bin_serializer \<Rightarrow> (int option \<times> bin_serializer) res" where "read_i8 s = rmap sint (read8 s)"
definition read_i16 :: "bin_serializer \<Rightarrow> (int option \<times> bin_serializer) res" where "read_i16 s = rmap sint (read16 s)"
definition read_i32 :: "bin_serializer \<Rightarrow> (int option \<times> bin_serializer) res" where "read_i32 s = rmap sint (read32 s)"
definition read_i64 :: "bin_serializer \<Rightarrow> (int option \<times> bin_serializer) res" where "read_i64 s = rmap sint (read64 s)"
definition read_float :: "bin_serializer \<Rightarrow> (u32 option \<times> bin_serializer) res" where "read_float s = read32 s"
definition read_double :: "bin_serializer \<Rightarrow> (u64 option \<times> bin_serializer) res" where "read_double s = read64 s"

section \<open>Arguments\<close>

datatype rpc_type =
    TBool | TByte | TU16 | TU32 | TU64 | TChar | TI16 | TI32 | TI64 | TFloat | TDouble | TString | TMeta | TAddress

datatype rpc_value =
    VBool bool | VByte byte | VU16 u16 | VU32 u32 | VU64 u64 | VChar int | VI16 int | VI32 int | VI64 int
  | VFloat u32 | VDouble u64 | VString cstring | VMeta meta_data | VAddress "endpoint option"

fun type_of :: "rpc_value \<Rightarrow> rpc_type" where
  "type_of (VBool b) = TBool" | "type_of (VByte b) = TByte" | "type_of (VU16 b) = TU16" | "type_of (VU32 b) = TU32"
| "type_of (VU64 b) = TU64" | "type_of (VChar b) = TChar" | "type_of (VI16 b) = TI16" | "type_of (VI32 b) = TI32"
| "type_of (VI64 b) = TI64" | "type_of (VFloat b) = TFloat" | "type_of (VDouble b) = TDouble" | "type_of (VString b) = TString"
| "type_of (VMeta b) = TMeta" | "type_of (VAddress b) = TAddress"

fun value_ok :: "rpc_value \<Rightarrow> bool" where
  "value_ok (VChar b) = fits_signed 8 b" | "value_ok (VI16 b) = fits_signed 16 b" | "value_ok (VI32 b) = fits_signed 32 b"
| "value_ok (VI64 b) = fits_signed 64 b" | "value_ok (VString b) = string_ok b" | "value_ok (VMeta b) = meta_ok b"
| "value_ok (VAddress b) = addr_ok b" | "value_ok _ = True"

text \<open>\<open>readOrWrite<T>\<close> for writing and for reading.\<close>

fun write_value :: "rpc_value \<Rightarrow> bin_serializer \<Rightarrow> (bool \<times> bin_serializer) res" where
  "write_value (VBool b) = write_bool b" | "write_value (VByte b) = write8 b" | "write_value (VU16 b) = write16 b"
| "write_value (VU32 b) = write32 b" | "write_value (VU64 b) = write64 b" | "write_value (VChar b) = write_i8 b"
| "write_value (VI16 b) = write_i16 b" | "write_value (VI32 b) = write_i32 b" | "write_value (VI64 b) = write_i64 b"
| "write_value (VFloat b) = write_float b" | "write_value (VDouble b) = write_double b" | "write_value (VString b) = write_string b"
| "write_value (VMeta b) = write_meta b" | "write_value (VAddress b) = write_addr b"

fun value_bytes :: "rpc_value \<Rightarrow> byte list" where
  "value_bytes (VBool b) = [if b then 1 else 0]" | "value_bytes (VByte b) = [b]" | "value_bytes (VU16 b) = rev (le16 b)"
| "value_bytes (VU32 b) = rev (le32 b)" | "value_bytes (VU64 b) = rev (le64 b)" | "value_bytes (VChar b) = [word_of_int b]"
| "value_bytes (VI16 b) = rev (le16 (word_of_int b))" | "value_bytes (VI32 b) = rev (le32 (word_of_int b))"
| "value_bytes (VI64 b) = rev (le64 (word_of_int b))" | "value_bytes (VFloat b) = rev (le32 b)" | "value_bytes (VDouble b) = rev (le64 b)"
| "value_bytes (VString b) = b @ [0]" | "value_bytes (VMeta b) = meta_bytes b" | "value_bytes (VAddress b) = addr_bytes b"

fun read_value :: "rpc_type \<Rightarrow> bin_serializer \<Rightarrow> (rpc_value option \<times> bin_serializer) res" where
  "read_value TBool s = rmap VBool (read_bool s)" | "read_value TByte s = rmap VByte (read8 s)" | "read_value TU16 s = rmap VU16 (read16 s)"
| "read_value TU32 s = rmap VU32 (read32 s)" | "read_value TU64 s = rmap VU64 (read64 s)" | "read_value TChar s = rmap VChar (read_i8 s)"
| "read_value TI16 s = rmap VI16 (read_i16 s)" | "read_value TI32 s = rmap VI32 (read_i32 s)" | "read_value TI64 s = rmap VI64 (read_i64 s)"
| "read_value TFloat s = rmap VFloat (read_float s)" | "read_value TDouble s = rmap VDouble (read_double s)" | "read_value TString s = rmap VString (read_string s)"
| "read_value TMeta s = rmap VMeta (read_meta [] s)" | "read_value TAddress s = rmap VAddress (read_addr s)"

text \<open>\<open>serialize<N, TP, T, Args...>\<close>. The result of a write or read is not used; \<open>left\<close> is what a read that fails leaves in the
  element of the tuple.\<close>

fun serialize_args :: "rpc_value list \<Rightarrow> bin_serializer \<Rightarrow> bin_serializer res" where
  "serialize_args [] bs = Inr bs"
| "serialize_args (v # vs) bs = rbind (write_value v bs) (\<lambda>(ok, bs1). serialize_args vs bs1)"

fun deserialize_args ::
  "(rpc_type \<Rightarrow> bin_serializer \<Rightarrow> rpc_value) \<Rightarrow> rpc_type list \<Rightarrow> bin_serializer \<Rightarrow> (rpc_value list \<times> bin_serializer) res" where
  "deserialize_args left [] bs = Inr ([], bs)"
| "deserialize_args left (t # ts) bs =
     rbind (read_value t bs) (\<lambda>(v, bs1).
     rbind (deserialize_args left ts bs1) (\<lambda>(vs, bs2). Inr ((case v of None \<Rightarrow> left t bs | Some x \<Rightarrow> x) # vs, bs2)))"

abbreviation args_bytes :: "rpc_value list \<Rightarrow> byte list" where
  "args_bytes vs \<equiv> concat (map value_bytes vs)"

section \<open>Every type is a codec\<close>

lemmas typed_defs = write_i8_def write_i16_def write_i32_def write_i64_def write_float_def write_double_def
  read_i8_def read_i16_def read_i32_def read_i64_def read_float_def read_double_def

lemma write_value_ok:
  assumes "bs_inv s" and "m_Owns s" and "value_ok v" and "length (content s) + length (value_bytes v) \<le> max_stream"
  shows "\<exists>s'. write_value v s = Inr (True, s') \<and> appended s (value_bytes v) s'"
  using assms
  by (cases v) (simp_all add: typed_defs byte_codec.put_ok u16_codec.put_ok u32_codec.put_ok u64_codec.put_ok bool_codec.put_ok
      string_codec.put_ok meta_codec.put_ok addr_codec.put_ok)

lemma read_value_ok:
  assumes "bs_inv s" and "value_ok v" and "unread s = value_bytes v @ rest"
  shows "read_value (type_of v) s = Inr (Some v, advance (length (value_bytes v)) s)"
proof (cases v)
  case (VChar b)
  with w8.signed.get_ok [of s b rest] assms show ?thesis by (simp add: typed_defs rmap_def)
next
  case (VI16 b)
  with w16.signed.get_ok [of s b rest] assms show ?thesis by (simp add: typed_defs rmap_def)
next
  case (VI32 b)
  with w32.signed.get_ok [of s b rest] assms show ?thesis by (simp add: typed_defs rmap_def)
next
  case (VI64 b)
  with w64.signed.get_ok [of s b rest] assms show ?thesis by (simp add: typed_defs rmap_def)
qed (use assms in \<open>simp_all add: typed_defs rmap_def byte_codec.get_ok u16_codec.get_ok u32_codec.get_ok u64_codec.get_ok bool_codec.get_ok
      string_codec.get_ok meta_codec.get_ok addr_codec.get_ok\<close>)

interpretation value_reader: safe_reader "read_value t"
proof
  fix s assume "bs_inv s"
  then show "\<exists>v s'. read_value t s = Inr (v, s') \<and> moved s s'"
    by (cases t) (simp_all add: typed_defs rmap_rmap r8.mapped r16.mapped r32.mapped r64.mapped rbool.mapped rstring.mapped rmeta.mapped raddr.mapped)
qed

section \<open>Tuples\<close>

lemma serialize_args_ok:
  assumes "bs_inv s" and "m_Owns s" and "\<forall>v \<in> set vs. value_ok v" and "length (content s) + length (args_bytes vs) \<le> max_stream"
  shows "\<exists>s'. serialize_args vs s = Inr s' \<and> appended s (args_bytes vs) s'"
  using assms
proof (induction vs arbitrary: s)
  case Nil
  then show ?case by (simp add: appended_def)
next
  case (Cons v vs)
  obtain s1 where s1: "write_value v s = Inr (True, s1)" "appended s (value_bytes v) s1"
    using write_value_ok [of s v] Cons.prems by auto
  then obtain s2 where "serialize_args vs s1 = Inr s2" "appended s1 (args_bytes vs) s2"
    using Cons.IH [of s1] Cons.prems by (auto simp: appended_def)
  with s1 show ?case by (auto intro: appended_trans)
qed

lemma deserialize_args_ok:
  assumes "bs_inv s" and "\<forall>v \<in> set vs. value_ok v" and "unread s = args_bytes vs @ rest"
  shows "deserialize_args left (map type_of vs) s = Inr (vs, advance (length (args_bytes vs)) s)"
  using assms
proof (induction vs arbitrary: s)
  case Nil
  then show ?case by (simp add: advance_def)
next
  case (Cons v vs)
  have u: "unread s = value_bytes v @ (args_bytes vs @ rest)" using Cons.prems(3) by simp
  have r: "read_value (type_of v) s = Inr (Some v, advance (length (value_bytes v)) s)" using read_value_ok [OF Cons.prems(1) _ u] Cons.prems(2) by simp
  from advance_inv [OF Cons.prems(1) u] Cons.IH [of "advance (length (value_bytes v)) s"] Cons.prems(2) r show ?case
    by (simp add: advance_advance)
qed

section \<open>Properties\<close>



end
