(* ===== verification/Plain_Streams.thy ===== *)
theory Plain_Streams
  imports Links
begin

text \<open>
  The streams that are declared but do nothing: \<open>UnreliableSend\<close>, \<open>UnreliableRecv\<close>, \<open>ReliableNewSend\<close>, \<open>ReliableNewRecv\<close>,
  \<open>ReliableNewestAckSend\<close> and \<open>ReliableNewestAckRecv\<close>. Their objects have no members, so a component is \<open>CPlain\<close>, and their
  methods have empty bodies. What is left is that their datagrams are recognised by \<open>Link::receive\<close> and create the
  component that would receive them.
\<close>

definition UnreliableRecv_receive :: "bin_serializer \<Rightarrow> link_component \<Rightarrow> link_component" where
  "UnreliableRecv_receive bs c = c"

definition ReliableNewRecv_receive :: "bin_serializer \<Rightarrow> link_component \<Rightarrow> link_component" where
  "ReliableNewRecv_receive bs c = c"

definition ReliableNewestAckRecv_receive :: "bin_serializer \<Rightarrow> link_component \<Rightarrow> link_component" where
  "ReliableNewestAckRecv_receive bs c = c"

definition ReliableNewSend_intervalDispatch :: "u64 \<Rightarrow> link_component \<Rightarrow> byte list list \<times> link_component" where
  "ReliableNewSend_intervalDispatch time c = ([], c)"

definition UnreliableSend_new :: link_component where "UnreliableSend_new = CPlain"
definition UnreliableRecv_new :: link_component where "UnreliableRecv_new = CPlain"
definition ReliableNewSend_new :: link_component where "ReliableNewSend_new = CPlain"
definition ReliableNewRecv_new :: link_component where "ReliableNewRecv_new = CPlain"
definition ReliableNewestAckSend_new :: link_component where "ReliableNewestAckSend_new = CPlain"
definition ReliableNewestAckRecv_new :: link_component where "ReliableNewestAckRecv_new = CPlain"

text \<open>The branches of \<open>Link::receive\<close> for these streams: \<open>getOrAdd\<close> and the call.\<close>

definition plain_receive :: "bin_serializer \<Rightarrow> EComponentType \<Rightarrow> nat \<Rightarrow> link_component components \<Rightarrow> link_component components option" where
  "plain_receive bs t channel m =
     (case t of
        UnreliableSend \<Rightarrow> Some (on_comp UnreliableRecv channel (UnreliableRecv_receive bs) m)
      | ReliableNewSend \<Rightarrow> Some (on_comp ReliableNewRecv 0 (ReliableNewRecv_receive bs) m)
      | ReliableNewAckSend \<Rightarrow> Some (on_comp ReliableNewAckRecv 0 (ReliableNewestAckRecv_receive bs) m)
      | _ \<Rightarrow> None)"

lemma fresh_plain:
  "fresh UnreliableSend = UnreliableSend_new" "fresh UnreliableRecv = UnreliableRecv_new"
  "fresh ReliableNewSend = ReliableNewSend_new" "fresh ReliableNewRecv = ReliableNewRecv_new"
  "fresh ReliableNewAckSend = ReliableNewestAckSend_new" "fresh ReliableNewAckRecv = ReliableNewestAckRecv_new"
  by (simp_all add: fresh_def UnreliableSend_new_def UnreliableRecv_new_def ReliableNewSend_new_def ReliableNewRecv_new_def
      ReliableNewestAckSend_new_def ReliableNewestAckRecv_new_def)

text \<open>A datagram of such a stream is received without a job and without an effect: every component of the link has the
  state it had, and what was created is what the receiving method leaves.\<close>

lemma get_getOrAdd_id: "cc_get u i (snd (cc_getOrAdd t j (fresh t) m)) = cc_get u i (on_comp t j (\<lambda>c. c) m)"
  by (auto simp: get_on_comp comp_at_def comp.get_or_add_eq cc_get_put split: option.split)

theorem plain_datagram_harmless:
  assumes "read_header bs = Inr (pi, comp_byte t, bs1)" and "plain_receive bs1 t (unat (m_ChannelAndFlags pi AND MM_CHANNEL_MASK)) m = Some m1"
  shows "\<exists>m'. link_receive bs m = Some (Inr (None, m')) \<and> (\<forall>u i. cc_get u i m' = cc_get u i m1) \<and> (\<forall>u i. comp_at u i m' = comp_at u i m)"
  using assms
  by (auto simp: plain_receive_def link_receive_def Let_def comp_at_getOrAdd get_getOrAdd_id UnreliableRecv_receive_def [abs_def]
      ReliableNewRecv_receive_def [abs_def] ReliableNewestAckRecv_receive_def [abs_def] split: EComponentType.splits)

end
