(* ===== verification/Client_Reception.thy ===== *)
theory Client_Reception
  imports Network_Reception Network_Sending
begin

text \<open>
  Who hears what: every operation of a network only removes sockets from the reception threads, except \<open>startListen\<close>. So
  the socket that \<open>registerServer\<close> or \<open>joinServer\<close> makes for the link to the matchmaking server is never read.
\<close>

section \<open>What operations do to the reception threads\<close>

abbreviation rts_ok :: "world \<Rightarrow> bool" where
  "rts_ok w \<equiv> \<forall>t \<in> set (w_recv w). rt_ok t"

definition shrinks :: "world \<Rightarrow> world \<Rightarrow> bool" where
  "shrinks w w' \<longleftrightarrow> (rts_ok w \<longrightarrow> rts_ok w' \<and> watched (w_recv w') \<subseteq> watched (w_recv w))"

lemma shrinks_same: "w_recv w' = w_recv w \<Longrightarrow> shrinks w w'"
  by (simp add: shrinks_def)

lemma shrinks_frame: "frame w w' \<Longrightarrow> shrinks w w'"
  by (simp add: frame_def shrinks_same)

lemma shrinks_simps [simp]: "shrinks w w" "shrinks w (lm_insert sap i w1) = shrinks w w1" "shrinks w (put_link i l w1) = shrinks w w1"
  by (simp_all add: shrinks_def lm_insert_def put_link_def)

lemma shrinks_trans: "shrinks w w1 \<Longrightarrow> shrinks w1 w2 \<Longrightarrow> shrinks w w2"
  by (auto simp: shrinks_def)

lemma shrinks_destroy: "destroy_link i w = Inr w' \<Longrightarrow> shrinks w w'"
  by (auto simp: destroy_link_def shrinks_def elim!: resE dest: ssm_remove_ok)

lemma shrinks_create:
  assumes "link_create sockname session sap w = Inr (r, w')"
  shows "shrinks w w'"
proof -
  obtain source err where src: "createSource sockname (snd sap) = Inr (source, err)"
    using assms by (auto simp: link_create_def elim!: resE)
  show ?thesis
  proof (cases source)
    case None
    then obtain ts where "ssm_removeSocket None (w_recv w) = Inr ts" "w' = w\<lparr>w_recv := ts\<rparr>"
      using assms src by (auto simp: link_create_def elim!: resE)
    then show ?thesis using ssm_remove_null by (intro shrinks_same) auto
  next
    case (Some so)
    define w1 where "w1 = (put_link (w_nextLink w) (new_link (snd sap) (fst sap) so) w)\<lparr>w_nextLink := Suc (w_nextLink w)\<rparr>"
    have s1: "shrinks w w1" by (rule shrinks_same) (simp add: w1_def put_link_def)
    show ?thesis
    proof (cases session)
      case None
      then have "w' = w1" using assms src Some by (simp add: link_create_def w1_def Let_def)
      with s1 show ?thesis by simp
    next
      case s: (Some sid)
      obtain ok w2 where a: "session_addLink (w_nextLink w) sid w1 = Inr (ok, w2)"
          and e: "(if \<not> ok then rbind (destroy_link (w_nextLink w) w2) (\<lambda>w3. Inr (None, w3)) else Inr (Some (w_nextLink w), w2)) = Inr (r, w')"
        using assms src Some s by (auto simp: link_create_def w1_def [symmetric] Let_def elim!: resE)
      have f: "shrinks w1 w2" using a by (intro shrinks_frame) (rule frames)
      have "shrinks w2 w'" using e by (auto elim!: resE split: if_splits intro: shrinks_destroy)
      then show ?thesis using s1 f by (blast intro: shrinks_trans)
    qed
  qed
qed

lemma shrinks_getOrAdd: "lm_getOrAdd sockname session sap w = Inr (b, r, w') \<Longrightarrow> shrinks w w'"
  by (auto simp: lm_getOrAdd_def elim!: resE split: option.splits) (erule shrinks_create)+

lemma shrinks_add:
  assumes "lm_add sockname sid sap w = Inr (r, w')"
  shows "shrinks w w'"
proof -
  obtain r1 w1 where c: "link_create sockname (Some sid) sap w = Inr (r1, w1)" using assms by (auto simp: lm_add_def elim!: resE)
  have "shrinks w1 w'"
    using assms c by (cases r1; cases "sm_find (w_linkMap w1) sap") (auto simp: lm_add_def elim!: resE intro: shrinks_destroy)
  with shrinks_create [OF c] show ?thesis by (rule shrinks_trans)
qed

lemma shrinks_new_session:
  assumes "SessionBase data kind w = (sid, w1)" and "lm_add sockname sid sap w1 = Inr (r, w2)"
  shows "shrinks w w2"
  using shrinks_frame [OF frame_SessionBase [OF assms(1)]] shrinks_add [OF assms(2)] by (rule shrinks_trans)

lemma shrinks_register:
  shows "registerServer sockname sock junk cb ma nm ty p2p cj ra mc pw hmd cmd w = Inr (r, w') \<Longrightarrow> shrinks w w'"
    and "joinServer sockname sock junk cb ma nm ty r1 r2 p1 p2 fp fc jmd cmd w = Inr (r, w') \<Longrightarrow> shrinks w w'"
  by (auto simp: registerServer_def joinServer_def elim!: resE split: option.splits prod.splits dest!: frames dest: shrinks_new_session)
    (blast intro: shrinks_trans shrinks_frame dest: shrinks_new_session)+

lemma shrinks_packet:
  assumes "handleReceivedPacket sockname lost sock rcv w = Some (Inr (job, w'))"
  shows "shrinks w w'"
proof -
  obtain r data etp err where rcv: "rcv = (r, data, etp, err)" by (cases rcv)
  consider "w' = w" | b w1 a where "lm_getOrAdd sockname None (a, sock) w = Inr (b, None, w1)" "w' = w1"
    | b w1 a k l m where "lm_getOrAdd sockname None (a, sock) w = Inr (b, Some k, w1)" "w' = put_link k (l\<lparr>l_comps := m\<rparr>) w1"
    using assms unfolding handleReceivedPacket_def rcv
    by (auto simp: deref_Inr elim!: resE split: if_splits sum.splits prod.splits option.splits)
  then show ?thesis
    by cases (auto dest: shrinks_getOrAdd)
qed

lemma shrinks_connect_to: "masterSessionConnectTo sockname a k w = Inr w' \<Longrightarrow> shrinks w w'"
  by (auto simp: masterSessionConnectTo_def elim!: resE split: option.splits prod.splits dest!: frames shrinks_getOrAdd)
    (blast intro: shrinks_trans shrinks_frame)+

lemma shrinks_step: "net_step sockname w w' \<Longrightarrow> shrinks w w'"
proof (induction rule: net_step.induct)
  case (kick i w b w')
  then show ?case by (auto simp: network_kick_def dest: frames intro: shrinks_frame)
next
  case (disconnect i w b w')
  then show ?case by (auto simp: network_disconnect_def dest: frames intro: shrinks_frame)
qed (auto dest: frames shrinks_register shrinks_packet shrinks_connect_to intro: shrinks_frame)

section \<open>A socket that nobody listens on\<close>

text \<open>All operations of a network. What is assumed of the system is that \<open>startListen\<close> does not get the handle \<open>h\<close>, which
  is in use.\<close>

inductive any_step :: "(u32 \<Rightarrow> int + byte list) \<Rightarrow> u32 \<Rightarrow> network \<Rightarrow> network \<Rightarrow> bool" for sockname h where
  listen: "(\<And>p k. o_socket os p = Inr k \<Longrightarrow> k \<noteq> h \<and> k \<noteq> INVALID_SOCKET) \<Longrightarrow> network_startListen os d c junk port n = Inr (r, n') \<Longrightarrow> any_step sockname h n n'"
| stop: "network_stopListen port n = Inr n' \<Longrightarrow> any_step sockname h n n'"
| loss: "any_step sockname h n (simulatePacketLoss pct n)"
| round: "network_round sockname rnd select k x = Some (Inr (go, x')) \<Longrightarrow> rx_net x = n \<Longrightarrow> rx_net x' = n' \<Longrightarrow> any_step sockname h n n'"
| call: "net_step sockname (n_World n) w \<Longrightarrow> any_step sockname h n (n\<lparr>n_World := w\<rparr>)"

definition unheard :: "u32 \<Rightarrow> network \<Rightarrow> bool" where
  "unheard h n \<longleftrightarrow> lm_inv (n_World n) \<and> rts_ok (n_World n) \<and> h \<notin> watched (w_recv (n_World n))"

lemma listener_stop_shrinks:
  "listener_stopListen l ts = Inr (l', ts') \<Longrightarrow> \<forall>t \<in> set ts. rt_ok t \<Longrightarrow> (\<forall>t \<in> set ts'. rt_ok t) \<and> watched ts' \<subseteq> watched ts"
  using listener_stop_ok [of ts l l' ts'] by auto

lemma startListen_watched:
  assumes st: "startListen os d c junk port m = Inr (r, m')" and ok: "\<forall>t \<in> set (lm_recv m). rt_ok t"
    and h: "\<And>p k. o_socket os p = Inr k \<Longrightarrow> k \<noteq> h \<and> k \<noteq> INVALID_SOCKET" and un: "h \<notin> watched (lm_recv m)"
  shows "(\<forall>t \<in> set (lm_recv m'). rt_ok t) \<and> h \<notin> watched (lm_recv m')"
proof (cases "sm_find (lm_Listeners m) port")
  case (Some l)
  with st ok un show ?thesis by (auto simp: startListen_def)
next
  case None
  obtain okk l ts1 n1 where si: "startListenIntern os d c junk port Listener_init (lm_recv m) (lm_NumInitialized m) = Inr (okk, l, ts1, n1)"
    using st None by (auto simp: startListen_def listener_startListen_def rbind_eq_Inr)
  have f: "\<And>p. o_socket os p \<noteq> Inr INVALID_SOCKET" using h by blast
  note cs = startListenIntern_cases [OF si f]
  show ?thesis
  proof (cases okk)
    case True
    then obtain s where s: "ts1 = ssm_addSocket d c s (lm_recv m)" "o_socket os Ipv4 = Inr (m_Socket s)" using cs by auto
    have "lm_recv m' = ts1" using st None si True by (auto simp: startListen_def listener_startListen_def)
    moreover have "m_Socket s \<noteq> h" using h [OF s(2)] by simp
    ultimately show ?thesis using ssm_add_ok [OF ok, of d c s] s(1) un by auto
  next
    case False
    then obtain l2 ts2 where l2: "listener_stopListen l ts1 = Inr (l2, ts2)" "lm_recv m' = ts2"
      using st None si by (auto simp: startListen_def listener_startListen_def rbind_eq_Inr)
    have "ts1 = lm_recv m" using cs False by simp
    with listener_stop_shrinks [OF l2(1)] l2(2) ok un show ?thesis by auto
  qed
qed

lemma unheard_round:
  assumes "unheard h (rx_net x)" and "network_round sockname rnd select k x = Some (Inr (go, x'))"
  shows "unheard h (rx_net x') \<and> rx_in x' h = rx_in x h"
proof (cases "k < length (w_recv (rx_world x))")
  case True
  have inv: "lm_inv (rx_world x)" and ok: "rts_ok (rx_world x)" and un: "h \<notin> watched (w_recv (rx_world x))"
    using assms(1) by (simp_all add: unheard_def)
  obtain x1 t where k: "rx_keeps (handles (w_recv (rx_world x) ! k)) x x1" "m_HighLevelSockets t = m_HighLevelSockets (w_recv (rx_world x) ! k)"
      "x' = x1\<lparr>rx_net := (rx_net x1)\<lparr>n_World := (rx_world x1)\<lparr>w_recv := (w_recv (rx_world x))[k := t]\<rparr>\<rparr>\<rparr>"
    by (rule network_round_cases [OF inv ok assms(2) True])
  have "h \<notin> handles (w_recv (rx_world x) ! k)" using un True by (auto simp: watched_def)
  then have "rx_in x' h = rx_in x h" using k(1,3) by (simp add: rx_keeps_def)
  moreover have "lm_inv (rx_world x')" using k(1,3) inv by (simp add: rx_keeps_def)
  ultimately show ?thesis using rt_same_map [OF k(2) True] ok un k(3) by (simp add: unheard_def)
qed (use assms in \<open>simp add: network_round_def\<close>)

lemma unheard_step: "any_step sockname h n n' \<Longrightarrow> unheard h n \<Longrightarrow> unheard h n'"
proof (induction rule: any_step.induct)
  case (listen os d c junk port n r n')
  then obtain m where m: "startListen os d c junk port (listeners_of n) = Inr (r, m)" "n' = with_listeners m n"
    by (auto simp: network_startListen_def rbind_eq_Inr)
  have o: "\<And>p k. o_socket os p = Inr k \<Longrightarrow> k \<noteq> h \<and> k \<noteq> INVALID_SOCKET" by (rule listen(1))
  have "\<forall>t \<in> set (lm_recv (listeners_of n)). rt_ok t" "h \<notin> watched (lm_recv (listeners_of n))"
    using listen.prems by (simp_all add: unheard_def listeners_of_def)
  with startListen_watched [OF m(1) _ o] listen.prems m(2) show ?case by (simp add: unheard_def)
next
  case (stop port n n')
  then obtain m where m: "stopListen port (listeners_of n) = Inr m" "n' = with_listeners m n"
    by (auto simp: network_stopListen_def rbind_eq_Inr)
  have "(\<forall>t \<in> set (lm_recv m). rt_ok t) \<and> watched (lm_recv m) \<subseteq> watched (w_recv (n_World n))"
  proof (cases "sm_find (lm_Listeners (listeners_of n)) port")
    case None
    with m(1) stop.prems show ?thesis by (auto simp: stopListen_def unheard_def listeners_of_def)
  next
    case (Some l)
    then obtain l' ts where "listener_stopListen l (w_recv (n_World n)) = Inr (l', ts)" "lm_recv m = ts"
      using m(1) by (auto simp: stopListen_def rbind_eq_Inr listeners_of_def)
    with listener_stop_shrinks stop.prems show ?thesis by (auto simp: unheard_def)
  qed
  with stop.prems m(2) show ?case by (auto simp: unheard_def)
next
  case (round rnd select k x go x' n n')
  then show ?case using unheard_round by blast
next
  case (call n w)
  then show ?case using shrinks_step [OF call(1)] lm_inv_step [OF call(1)] by (auto simp: unheard_def shrinks_def)
qed (simp add: unheard_def simulatePacketLoss_def)

interpretation deaf: state_machine "unheard h" "any_step sockname h" "unheard h"
  by unfold_locales (auto intro: unheard_step)

section \<open>Properties\<close>

lemma add_link:
  assumes inv: "lm_inv w" and a: "lm_add sockname sid sap w = Inr (Some i, w')"
  shows "lm_get sap w' = Some i"
proof -
  obtain r1 w1 where c: "link_create sockname (Some sid) sap w = Inr (r1, w1)" using a by (auto simp: lm_add_def elim!: resE)
  show ?thesis
  proof (cases r1)
    case None
    with a c show ?thesis by (simp add: lm_add_def)
  next
    case (Some k)
    show ?thesis
    proof (cases "sm_find (w_linkMap w1) sap")
      case None
      with a c Some have "w' = lm_insert sap i w1" by (auto simp: lm_add_def)
      then show ?thesis by (simp add: lm_insert_def lm_get_def)
    next
      case (Some j)
      with a c \<open>r1 = Some k\<close> show ?thesis by (auto simp: lm_add_def elim!: resE)
    qed
  qed
qed

lemma registered_link:
  assumes "lm_inv w"
    and "registerServer sockname (Some h) junk cb ma nm ty p2p cj ra mc pw hmd cmd w = Inr (Some sid, w') \<or>
      joinServer sockname (Some h) junk cb ma nm ty r1 r2 p1 p2 fp fc jmd cmd w = Inr (Some sid, w')"
  shows "\<exists>i. lm_get (ma, h) w' = Some i"
proof -
  obtain kind data sid1 w1 i w2 where s: "SessionBase data kind w = (sid1, w1)" "lm_add sockname sid1 (ma, h) w1 = Inr (Some i, w2)"
      and f: "frame w2 w'"
    using assms(2)
  proof
    assume "registerServer sockname (Some h) junk cb ma nm ty p2p cj ra mc pw hmd cmd w = Inr (Some sid, w')"
    then show thesis using that
      by (auto simp: registerServer_def elim!: resE split: option.splits prod.splits dest!: frames) (blast intro: frame_trans)
  next
    assume "joinServer sockname (Some h) junk cb ma nm ty r1 r2 p1 p2 fp fc jmd cmd w = Inr (Some sid, w')"
    then show thesis using that
      by (auto simp: joinServer_def elim!: resE split: option.splits prod.splits dest!: frames) (blast intro: frame_trans)
  qed
  from add_link [OF lm_inv_session [OF assms(1) s(1)] s(2)] linkMap_frame [OF f] show ?thesis by simp
qed

section \<open>A first registration returns\<close>

lemma register_args:
  assumes "msd_ok data" and "meta_ok md" and "length (msd_bytes data) + length (meta_bytes md) \<le> 1800"
  shows "args_write (\<lambda>bs. rbind (ser_arg write_msd data bs) (ser_arg write_meta md)) (msd_bytes data @ meta_bytes md)"
proof -
  obtain b1 where b1: "ser_arg write_msd data bs_reset = Inr b1" "appended bs_reset (msd_bytes data) b1"
    using msd_codec.ser_arg_ok [of bs_reset data] assms by (auto simp: max_stream_def)
  moreover obtain b2 where "ser_arg write_meta md b1 = Inr b2" "appended b1 (meta_bytes md) b2"
    using meta_codec.ser_arg_ok [of b1 md] assms b1(2) by (auto simp: max_stream_def appended_def)
  ultimately show ?thesis by (auto simp: args_write_def appended_def)
qed

lemma mm_registerServer_returns:
  assumes "msd_ok data" and "meta_ok md" and "length (msd_bytes data) + length (meta_bytes md) \<le> 1800" and "lock w i \<noteq> None"
  shows "\<exists>b w'. mm_registerServer cb data md i w = Inr (b, w')"
proof -
  have s: "string_ok (cstr ''masterLinkRpcRegisterServer'')" by (simp add: string_ok_def cstr_def TempBuffSize_def)
  have "\<exists>r w'. callRpc ''masterLinkRpcRegisterServer'' (\<lambda>bs. rbind (ser_arg write_msd data bs) (ser_arg write_meta md)) i w1 = Inr (r, w')"
    if "lock w1 i \<noteq> None" for w1
    using callRpc_ok [OF s register_args [OF assms(1-3)] _ that] assms(3) by auto
  moreover have "lock (put_link i l w) i \<noteq> None" for l by (simp add: put_link_def lock_def)
  ultimately have "\<exists>r w'. rbind (callRpc ''masterLinkRpcRegisterServer'' (\<lambda>bs. rbind (ser_arg write_msd data bs) (ser_arg write_meta md)) i
      (put_link i l w)) (\<lambda>(res, w1). Inr (True, w1)) = Inr (r, w')" for l
    by (metis (no_types, lifting) rbind_Inr old.prod.case)
  moreover obtain l where "deref i w = Inr l" using assms(4) by (auto simp: deref_def)
  ultimately show ?thesis
    by (cases "cc_getOrAdd MatchMakerData 0 (fresh MatchMakerData) (l_comps l)") (simp add: mm_registerServer_def split: prod.split, blast)
qed

definition no_data :: master_session_data where
  "no_data = \<lparr>m_IsP2p = False, m_UsedMatchmaker = False, m_IsPrivate = False, m_Rating = 0, m_MaxClients = 0,
     m_CanJoinAfterStart = False, m_Name = [], m_Type = [], m_Password = [], m_MetaData = []\<rparr>"

lemma first_register_returns:
  "\<exists>sid w. registerServer (\<lambda>s. Inr []) (Some 7) no_data True createEmpty [103] [116] True False 0 32 [] [] [] (n_World (Network_ctor 0 0 0)) =
     Inr (Some sid, w)"
proof -
  let ?w = "n_World (Network_ctor 0 0 0)"
  obtain sid w1 where s1: "SessionBase no_data (KSession None None []) ?w = (sid, w1)" by (cases "SessionBase no_data (KSession None None []) ?w")
  have "(\<lambda>(sid, w1). case lm_add (\<lambda>s. Inr []) sid (createEmpty, 7) w1 of
         Inr (Some i, w2) \<Rightarrow> (case setMasterLink i sid w2 of Inr w3 \<Rightarrow> lock w3 i \<noteq> None | _ \<Rightarrow> False) | _ \<Rightarrow> False)
       (SessionBase no_data (KSession None None []) ?w)"
    by code_simp
  then obtain i w2 w3 where s2: "lm_add (\<lambda>s. Inr []) sid (createEmpty, 7) w1 = Inr (Some i, w2)"
      "setMasterLink i sid w2 = Inr w3" "lock w3 i \<noteq> None"
    unfolding s1 prod.case
    by (cases "lm_add (\<lambda>s. Inr []) sid (createEmpty, 7) w1" rule: sum.exhaust; simp)
      (auto split: prod.splits option.splits sum.splits)
  let ?d = "\<lparr>m_IsP2p = True, m_UsedMatchmaker = True, m_IsPrivate = False, m_Rating = 0, m_MaxClients = 32,
     m_CanJoinAfterStart = False, m_Name = [103], m_Type = [116], m_Password = [], m_MetaData = []\<rparr>"
  have "\<exists>b w'. mm_registerServer True ?d [] i w3 = Inr (b, w')"
    by (rule mm_registerServer_returns [OF _ _ _ s2(3)])
       (simp_all add: msd_ok_def meta_ok_def string_ok_def TempBuffSize_def msd_bytes_def meta_bytes_def le32_def)
  with s1 s2 show ?thesis by (auto simp: registerServer_def)
qed

text \<open>C35: A client never hears the matchmaking server. \<open>registerServer\<close> and \<open>joinServer\<close> make a socket and a link to the server on
  it, and send their request, but the socket is not given to the reception threads. Whatever the network does
  afterwards, whatever the system reports and receives, no round of a reception thread reads from this socket: the
  answers stay in the system.\<close>

theorem client_never_hears:
  assumes "network_reach sockname n" and "h \<notin> watched (w_recv (n_World n))"
    and "registerServer sockname (Some h) junk cb ma nm ty p2p cj ra mc pw hmd cmd (n_World n) = Inr (Some sid, w) \<or>
      joinServer sockname (Some h) junk cb ma nm ty r1 r2 p1 p2 fp fc jmd cmd (n_World n) = Inr (Some sid, w)"
  shows "(\<exists>i l. lm_get (ma, h) w = Some i \<and> lock w i = Some l \<and> l_socket l = h) \<and>
    (\<forall>rnd select k x go x'. (any_step sockname h)\<^sup>*\<^sup>* (n\<lparr>n_World := w\<rparr>) (rx_net x) \<and>
       network_round sockname rnd select k x = Some (Inr (go, x')) \<longrightarrow> rx_in x' h = rx_in x h)"
proof -
  have ni: "network_inv n" by (rule network.invariant [OF assms(1)])
  then have inv: "lm_inv (n_World n)" and ok: "rts_ok (n_World n)"
    by (simp_all add: network_inv_def listeners_inv_def listeners_of_def)
  have st: "net_step sockname (n_World n) w" using assms(3) by (auto intro: net_step.intros)
  have inv': "lm_inv w" using lm_inv_step [OF st inv] .
  obtain i where i: "lm_get (ma, h) w = Some i" using registered_link [OF inv assms(3)] by blast
  then have "sap_of w i = Some (ma, h)" using lm_get_alive [OF inv'] by simp
  then have "\<exists>l. lock w i = Some l \<and> l_socket l = h" by (auto simp: sap_of_def)
  moreover have "unheard h (n\<lparr>n_World := w\<rparr>)"
    using shrinks_step [OF st] ok assms(2) inv' by (auto simp: unheard_def shrinks_def)
  then have "unheard h n'" if "(any_step sockname h)\<^sup>*\<^sup>* (n\<lparr>n_World := w\<rparr>) n'" for n' using deaf.inv_steps [OF that] by simp
  ultimately show ?thesis using i unheard_round by blast
qed

theorem client_never_hears_witness:
  "\<exists>w i l. lm_get (createEmpty, 7) w = Some i \<and> lock w i = Some l \<and> l_socket l = 7 \<and>
     (\<forall>rnd select k x go x'. (any_step (\<lambda>s. Inr []) 7)\<^sup>*\<^sup>* ((Network_ctor 0 0 0)\<lparr>n_World := w\<rparr>) (rx_net x) \<and>
       network_round (\<lambda>s. Inr []) rnd select k x = Some (Inr (go, x')) \<longrightarrow> rx_in x' 7 = rx_in x 7)"
proof -
  let ?n = "Network_ctor 0 0 0"
  obtain sid w where w: "registerServer (\<lambda>s. Inr []) (Some 7) no_data True createEmpty [103] [116] True False 0 32 [] [] [] (n_World ?n) =
      Inr (Some sid, w)" using first_register_returns by blast
  have r: "network_reach (\<lambda>s. Inr []) ?n" by (blast intro: reachable.start)
  have "7 \<notin> watched (w_recv (n_World ?n))" by (simp add: Network_ctor_def Network_init_def watched_def)
  from client_never_hears [OF r this disjI1 [OF w]] show ?thesis by blast
qed

end
