(* ===== verification/Game_Program.thy ===== *)
theory Game_Program
  imports Client_Reception Event_Delivery Typed_Arguments
begin

text \<open>
  The program \<open>Game/Game.cpp\<close>: the two halves of \<open>Game::init\<close>, before and after it sleeps, and the callbacks, which print
  a line. The console is the list of the lines. \<open>INetwork::create\<close> is in \<open>Library_Life\<close>; here its result is given.
  \<open>onJoinResult\<close> is not modelled: it switches over a \<open>bool\<close> with labels of a scoped enumeration, which is not C++.
\<close>

section \<open>State\<close>

record game =
  gm_Network :: "network option"
  gm_console :: "cstring list"

definition game_print :: "cstring \<Rightarrow> game \<Rightarrow> game" where
  "game_print s g = g\<lparr>gm_console := gm_console g @ [s]\<rparr>"

text \<open>The tables that \<open>init\<close> passes, by the prefixes of their keys and values.\<close>

definition game_md :: "string \<Rightarrow> meta_data" where
  "game_md p = fold (\<lambda>d. sm_set (cstr (p @ ''Key'' @ d)) (cstr (p @ ''Value'' @ d))) [''1'', ''2'', ''3''] []"

section \<open>Game::init\<close>

text \<open>\<open>if ( ses ) m_Network->addSessionListener( *ses, this )\<close>.\<close>

definition listen_to :: "nat option \<Rightarrow> nat \<Rightarrow> world \<Rightarrow> world res" where
  "listen_to ses self w = (case ses of None \<Rightarrow> Inr w | Some sid \<Rightarrow> addSessionListener sid self w)"

text \<open>Up to the first sleep. \<open>created\<close> is the new network, \<open>sock\<close> the socket that \<open>registerServer\<close> makes. The rating is
  10 in single precision. The result has the address of the matchmaking server.\<close>

definition game_register ::
  "os_calls \<Rightarrow> (cstring \<Rightarrow> cstring \<Rightarrow> int + byte list list) \<Rightarrow> (u16 \<Rightarrow> byte list \<Rightarrow> cstring) \<Rightarrow> (u32 \<Rightarrow> int + byte list) \<Rightarrow>
   bool \<Rightarrow> bool \<Rightarrow> int \<Rightarrow> u32 option \<Rightarrow> master_session_data \<Rightarrow> nat \<Rightarrow> network option \<Rightarrow> game \<Rightarrow> (endpoint \<times> game) res" where
  "game_register os gai ntop sockname dirty closing junk2 sock junk self created g =
     (case created of
        None \<Rightarrow> Inl NullDeref
      | Some n \<Rightarrow>
          rbind (network_startListen os dirty closing junk2 27002 n) (\<lambda>(r, n1).
          rbind (resolve gai (cstr ''localhost'') 27002) (\<lambda>(masterEtp, err).
            case masterEtp of
              None \<Rightarrow> Inl NullDeref
            | Some a \<Rightarrow>
                rbind (toIpAndPort ntop a) (\<lambda>ip.
                rbind (registerServer sockname sock junk True a (cstr ''first game'') (cstr ''type'') True False
                         0x41200000 32 [] (game_md ''host'') (game_md ''serv'') (n_World n1)) (\<lambda>(regSes, w1).
                rbind (listen_to regSes self w1) (\<lambda>w2.
                  Inr (a, (game_print ip g)\<lparr>gm_Network := Some (n1\<lparr>n_World := w2\<rparr>)\<rparr>)))))))"

text \<open>After the sleep of 20 milliseconds. The ratings are 5 and 15 in single precision.\<close>

definition game_join ::
  "(u32 \<Rightarrow> int + byte list) \<Rightarrow> u32 option \<Rightarrow> master_session_data \<Rightarrow> nat \<Rightarrow> endpoint \<Rightarrow> game \<Rightarrow> game res" where
  "game_join sockname sock junk self masterEtp g =
     (case gm_Network g of
        None \<Rightarrow> Inl NullDeref
      | Some n \<Rightarrow>
          rbind (joinServer sockname sock junk True masterEtp (cstr ''first game'') (cstr ''type'') 0x40A00000 0x41700000 0 128 True True
                   (game_md ''join'') (game_md ''joinMatch'') (n_World n)) (\<lambda>(joinSes, w1).
          rbind (listen_to joinSes self w1) (\<lambda>w2. Inr (g\<lparr>gm_Network := Some (n\<lparr>n_World := w2\<rparr>)\<rparr>))))"

section \<open>Remote calls and callbacks\<close>

text \<open>A number as the console prints it.\<close>

definition show_int :: "int \<Rightarrow> cstring" where
  "show_int i = (if i < 0 then cstr ''-'' @ dec (nat (- i)) else dec (nat i))"

definition myFirstRpc :: "int \<Rightarrow> int \<Rightarrow> game \<Rightarrow> game" where
  "myFirstRpc var1 var2 = game_print (show_int var1 @ cstr '' '' @ show_int var2)"

definition rpc_dsr_myFirstRpc :: "(rpc_type \<Rightarrow> bin_serializer \<Rightarrow> rpc_value) \<Rightarrow> bin_serializer \<Rightarrow> game \<Rightarrow> game res" where
  "rpc_dsr_myFirstRpc left bs g =
     rbind (deserialize_args left [TI32, TI32] bs) (\<lambda>(tp, bs').
       Inr (case tp of [VI32 a, VI32 b] \<Rightarrow> myFirstRpc a b g | _ \<Rightarrow> g))"

definition myFirstVarGroup :: "cstring \<Rightarrow> bool \<Rightarrow> game \<Rightarrow> game" where
  "myFirstVarGroup var1 var2 = game_print (var1 @ cstr '' '' @ cstr (if var2 then ''1'' else ''0''))"

text \<open>\<open>session.name()\<close>, a C string, and \<open>session.matchMaker()->destination()\<close>.\<close>

definition session_name :: "nat \<Rightarrow> world \<Rightarrow> cstring res" where
  "session_name sid w = rbind (get_session sid w) (\<lambda>s. Inr (takeWhile (\<lambda>b. b \<noteq> 0) (m_Name (s_MasterData s))))"

definition game_onRegisterResult :: "(u16 \<Rightarrow> byte list \<Rightarrow> cstring) \<Rightarrow> nat \<Rightarrow> bool \<Rightarrow> world \<Rightarrow> game \<Rightarrow> game res" where
  "game_onRegisterResult ntop sid succes w g =
     rbind (matchMaker sid w) (\<lambda>ml. case ml of
        None \<Rightarrow> Inl NullDeref
      | Some i \<Rightarrow>
          rbind (deref i w) (\<lambda>l.
          rbind (toIpAndPort ntop (l_address l)) (\<lambda>ip.
            Inr (game_print (cstr (if succes then ''Succesfully registered server at '' else ''Failed to registered server at '') @ ip) g))))"

definition game_onConnect :: "(u16 \<Rightarrow> byte list \<Rightarrow> cstring) \<Rightarrow> nat \<Rightarrow> endpoint \<Rightarrow> world \<Rightarrow> game \<Rightarrow> game res" where
  "game_onConnect ntop sid remote w g =
     rbind (toIpAndPort ntop remote) (\<lambda>ip.
     rbind (session_name sid w) (\<lambda>name. Inr (game_print (cstr ''New connection '' @ ip @ cstr '' in '' @ name) g)))"

definition game_onDisconnect :: "(u16 \<Rightarrow> byte list \<Rightarrow> cstring) \<Rightarrow> nat \<Rightarrow> endpoint \<Rightarrow> EDisconnectReason \<Rightarrow> world \<Rightarrow> game \<Rightarrow> game res" where
  "game_onDisconnect ntop sid remote reason w g =
     (let discReason = (case reason of Kicked \<Rightarrow> cstr ''kicked.'' | Lost \<Rightarrow> cstr ''lost.'' | Closed \<Rightarrow> cstr ''disconnected.'')
      in rbind (toIpAndPort ntop remote) (\<lambda>ip.
         rbind (session_name sid w) (\<lambda>name. Inr (game_print (ip @ cstr '' in session '' @ name @ cstr '' '' @ discReason) g))))"

definition game_onNewHost :: "(u16 \<Rightarrow> byte list \<Rightarrow> cstring) \<Rightarrow> nat \<Rightarrow> endpoint option \<Rightarrow> world \<Rightarrow> game \<Rightarrow> game res" where
  "game_onNewHost ntop sid host w g =
     rbind (case host of None \<Rightarrow> Inr (cstr ''us'') | Some a \<Rightarrow> toIpAndPort ntop a) (\<lambda>who.
     rbind (session_name sid w) (\<lambda>name. Inr (game_print (cstr ''New host: '' @ who @ cstr '' in session '' @ name) g)))"

definition game_onOwnerChanged :: "u32 \<Rightarrow> game \<Rightarrow> game" where
  "game_onOwnerChanged groupId = game_print (cstr ''Variable from group with id '' @ dec (unat groupId) @ cstr '' has new owner '')"

definition game_onLostHost :: "nat \<Rightarrow> world \<Rightarrow> game \<Rightarrow> game res" where
  "game_onLostHost sid w g = rbind (session_name sid w) (\<lambda>name. Inr (game_print (cstr ''Lost host in session '' @ name) g))"

definition game_onLostMasterLink :: "nat \<Rightarrow> world \<Rightarrow> game \<Rightarrow> game res" where
  "game_onLostMasterLink sid w g =
     rbind (session_name sid w) (\<lambda>name. Inr (game_print (cstr ''Lost link to matchmaker server in session '' @ name) g))"

section \<open>Lemmas\<close>

lemma unheard_listen_to:
  assumes "listen_to ses self w = Inr w'" and "unheard h (n\<lparr>n_World := w\<rparr>)"
  shows "unheard h (n\<lparr>n_World := w'\<rparr>)"
proof -
  have "frame w w'" using assms(1)
    by (auto simp: listen_to_def addSessionListener_def frame_def put_session_def sap_of_def lock_def elim!: resE split: option.splits)
  then have "shrinks w w'" "lm_inv w \<Longrightarrow> lm_inv w'" using shrinks_frame lm_inv_frame by blast+
  then show ?thesis using assms(2) by (auto simp: unheard_def shrinks_def)
qed

lemma unheard_call: "unheard h n \<Longrightarrow> net_step sockname (n_World n) w \<Longrightarrow> unheard h (n\<lparr>n_World := w\<rparr>)"
  using unheard_step [OF any_step.call] by blast

lemma unheard_register:
  assumes "game_register os gai ntop sockname d c junk2 sock junk self (Some n) g = Inr (a, g')" and "unheard h n"
    and "\<And>p k. o_socket os p = Inr k \<Longrightarrow> k \<noteq> h \<and> k \<noteq> INVALID_SOCKET"
  shows "\<exists>n'. gm_Network g' = Some n' \<and> unheard h n'"
proof -
  obtain r n1 ip ses w1 w2 where s: "network_startListen os d c junk2 27002 n = Inr (r, n1)"
      "registerServer sockname sock junk True a (cstr ''first game'') (cstr ''type'') True False
         0x41200000 32 [] (game_md ''host'') (game_md ''serv'') (n_World n1) = Inr (ses, w1)"
      "listen_to ses self w1 = Inr w2" "gm_Network g' = Some (n1\<lparr>n_World := w2\<rparr>)"
    using assms(1) by (auto simp: game_register_def elim!: resE split: option.splits)
  have "unheard h n1" by (rule unheard_step [OF any_step.listen [OF assms(3) s(1)] assms(2)])
  then have "unheard h (n1\<lparr>n_World := w1\<rparr>)" by (rule unheard_call) (rule net_step.register [OF s(2)])
  with unheard_listen_to [OF s(3)] s(4) show ?thesis by blast
qed

lemma unheard_join:
  assumes "game_join sockname sock junk self a g = Inr g'" and "gm_Network g = Some n" and "unheard h n"
  shows "\<exists>n'. gm_Network g' = Some n' \<and> unheard h n'"
proof -
  obtain ses w1 w2 where s: "joinServer sockname sock junk True a (cstr ''first game'') (cstr ''type'') 0x40A00000 0x41700000 0 128 True True
                   (game_md ''join'') (game_md ''joinMatch'') (n_World n) = Inr (ses, w1)"
      "listen_to ses self w1 = Inr w2" "gm_Network g' = Some (n\<lparr>n_World := w2\<rparr>)"
    using assms(1,2) by (auto simp: game_join_def elim!: resE)
  have "unheard h (n\<lparr>n_World := w1\<rparr>)" by (rule unheard_call [OF assms(3)]) (rule net_step.join [OF s(1)])
  with unheard_listen_to [OF s(2)] s(3) show ?thesis by blast
qed

section \<open>Properties\<close>

text \<open>The game waits in vain. It registers a server at its own port, and joins it over a second socket. Whatever the
  threads of the network do meanwhile and afterwards, nothing is read from either socket, so neither
  \<open>onRegisterResult\<close> nor \<open>onJoinResult\<close> is called for what the matchmaking server answers.\<close>

theorem game_never_answered:
  assumes "game_register os gai ntop sockname d c junk2 (Some h1) junk self (Some (Network_ctor pct sid num)) g = Inr (a, g1)"
    and "gm_Network g1 = Some n1" and "(any_step sockname h)\<^sup>*\<^sup>* n1 n2"
    and "game_join sockname (Some h2) junk' self a (g1\<lparr>gm_Network := Some n2\<rparr>) = Inr g3" and "gm_Network g3 = Some n3"
    and "(any_step sockname h)\<^sup>*\<^sup>* n3 (rx_net x)" and "h \<in> {h1, h2}"
    and "\<And>p k. o_socket os p = Inr k \<Longrightarrow> k \<noteq> h \<and> k \<noteq> INVALID_SOCKET"
    and "network_round sockname rnd select k x = Some (Inr (go, x'))"
  shows "rx_in x' h = rx_in x h"
proof -
  have "unheard h (Network_ctor pct sid num)"
    by (simp add: unheard_def Network_ctor_def lm_inv_init) (simp add: Network_init_def watched_def)
  then have "unheard h n1" using unheard_register [OF assms(1) _ assms(8)] assms(2) by auto
  then have "unheard h n2" using deaf.inv_steps [OF assms(3)] by simp
  then have "unheard h n3" using unheard_join [OF assms(4)] assms(5) by auto
  then have "unheard h (rx_net x)" using deaf.inv_steps [OF assms(6)] by simp
  with unheard_round assms(9) show ?thesis by blast
qed

text \<open>The request to join would find the registered session: the filter of \<open>joinServer\<close> accepts what \<open>registerServer\<close>
  announces, as long as the session has not started.\<close>

theorem game_would_match:
  "matches \<lparr>sf_Name = cstr ''first game'', sf_Type = cstr ''type'', sf_MinRating = 0x40A00000, sf_MaxRating = 0x41700000,
     sf_MinPlayers = 0, sf_MaxPlayers = 128, sf_FindPrivate = False, sf_FindP2p = True, sf_FindClientServer = True,
     sf_CustomMatchmakingMd = []\<rparr>
   \<lparr>s_Id = k, s_Started = False,
     s_MasterData = \<lparr>m_IsP2p = True, m_UsedMatchmaker = True, m_IsPrivate = False, m_Rating = 0x41200000, m_MaxClients = 32,
       m_CanJoinAfterStart = False, m_Name = cstr ''first game'', m_Type = cstr ''type'', m_Password = [], m_MetaData = []\<rparr>,
     s_Links = [i], s_BufferedPackets = bp, s_Listeners = ls, s_kind = KMaster (Some i) False None\<rparr>"
  by code_simp

end
