(* ===== verification/Spec2Isabelle.thy ===== *)
theory Spec2Isabelle
  imports Links Job_System Session_Data Socket_Sets Network_Events Serializer_Safety Matchmaking Listeners Variable_Groups Network_Actions Link_Pair Spin_Lock Traced_Memory Chat_Client Reliable_Test Packet_Memory Unit_Tests Typed_Variables Library_Life Platform_Log Event_Delivery
    Network_Reception Socket_Set_Old Socket_Tests Local_Calls Typed_Arguments Plain_Streams Client_Reception Game_Program
begin

text \<open>
  A model of MiepMiep, a C++ library for peer to peer games over UDP, with the theorems that say what its
  parts guarantee. The sources are under \<open>src/MiepMiep\<close>; of the programs that use it, the chat under \<open>src/Chat\<close>,
  the game under \<open>src/Game\<close> and tests under \<open>src/UnitTest\<close> are modelled on top of the library.

  \<^bold>\<open>The program and its parts.\<close> A \<open>Network\<close> owns a set of components. Reception threads wait on the
  sockets of the listeners (\<open>SocketSetManager\<close>, \<open>ListenerManager\<close>, \<open>Socket\<close>); a datagram goes to the
  \<open>Link\<close> of its address and socket in the \<open>LinkManager\<close>, which is created at first contact. A link
  dispatches it by the type and channel in its header to a stream (\<open>ReliableRecv\<close>, \<open>ReliableAckRecv\<close>)
  and adds a job to the \<open>JobSystem\<close>, which delivers the packets of the channel in order as events or remote
  calls. Messages are serialized (\<open>BinSerializer\<close>), cut into fragments (\<open>PacketHelper\<close>) and queued
  (\<open>ReliableSend\<close>); the \<open>SendThread\<close> sends all queues again and again until they are acknowledged. On
  remote calls rest the connection state of a link (\<open>LinkState\<close>), sessions (\<open>SessionBase\<close>, \<open>Session\<close>), the
  matchmaking server (\<open>MasterSession\<close>, \<open>MasterSessionManager\<close>, \<open>MatchMakerData\<close>) and replicated
  variables (\<open>NetVariable\<close>, \<open>Group\<close>, \<open>GroupCollection\<close>). Events reach the application through
  \<open>NetworkEvents\<close>.

  \<^bold>\<open>How the code is read.\<close> The build is the release build for Windows with the socket library chosen in
  \<open>Config.h\<close>: conditions of \<open>assert\<close> are not evaluated, and calls of the log are not part of the other components. Only the record of
  allocations in \<open>Traced_Memory\<close> is that of a debug build, and in a test the assertions are the result. Integers have the width they
  have in the code and wrap around; a \<open>float\<close> is computed with its rounding (\<open>Float32\<close>). A call that may
  leave the defined behaviour of C++ has a result of type \<open>res\<close>, \<open>mm_error + 'a\<close>: a null or dangling
  pointer, an access outside of a buffer, \<open>throw\<close> without an exception. Where a loop may run forever the result
  is an \<open>option\<close> with \<open>None\<close> for not returning. Objects with identity (links, sessions, variables, groups)
  are numbers in a store, so aliasing and expired weak pointers are visible. A region under a mutex is one
  step; threads are interleavings of such steps. Calls of the operating system, the loader's table of
  functions and the user's callbacks are parameters.

  \<^bold>\<open>Theories.\<close>

  \<^item> \<open>Mm_Prelude\<close>: integer types, results, raw memory, shared lemmas. \<open>Std_Map\<close>: \<open>std::map\<close> with the
    contract \<open>ordered_map\<close>. \<open>Float32\<close>: the single precision operations that are used.
  \<^item> \<open>Transition\<close>: reachable states, the contract \<open>state_machine\<close> of an invariant and the contract \<open>simulation\<close> between
    a detailed and an abstract system; the step relations of the other theories interpret them.
  \<^item> \<open>Util_Bytes\<close> (\<open>Util.h\<close>), \<open>Bin_Serializer\<close> (\<open>BinSerializer.cpp\<close>), \<open>Serializer_Safety\<close>: writing and
    reading of every type is a round trip (contract \<open>codec\<close>, \<open>codec_pair\<close>), and reading untrusted bytes
    stays in the buffer (contract \<open>safe_reader\<close>).
  \<^item> \<open>Packet_Helper\<close> (\<open>PacketHelper.cpp\<close>, constants of \<open>Common.h\<close>): headers, fragments, reassembly, order of
    sequence numbers. \<open>Component\<close> (\<open>Component.h\<close>): the collection of components with the contract \<open>slots\<close>.
  \<^item> \<open>Reliable_Streams\<close> (\<open>ReliableSend.cpp\<close>, \<open>ReliableRecv.cpp\<close>, \<open>ReliableAckSend.cpp\<close>,
    \<open>ReliableAckRecv.cpp\<close>, \<open>LinkStats.cpp\<close>) and \<open>Stream_Protocol\<close>: two ends of a channel over a network that
    loses, repeats and reorders implement a queue; no packet is lost, and everything can be delivered.
    Messages of more than one fragment arrive damaged, which is stated too.
  \<^item> \<open>Endpoint\<close> (\<open>Endpoint.cpp\<close>), \<open>Win_Socket\<close> (\<open>Socket.cpp\<close>, \<open>Platform.cpp\<close>), \<open>Socket_Sets\<close>
    (\<open>SocketSetManager.cpp\<close>), \<open>Listeners\<close> (\<open>Listener.cpp\<close>, \<open>ListenerManager.cpp\<close>): addresses, the life of a
    socket, and that the threads watch exactly the sockets of the listeners.
  \<^item> \<open>Link_State\<close> (\<open>LinkState.cpp\<close>), \<open>Links\<close> (\<open>Link.cpp\<close>, \<open>Rpc.h\<close>), \<open>Job_System\<close> (\<open>JobSystem.cpp\<close>),
    \<open>Network_Events\<close> (\<open>NetworkEvents.cpp\<close>), \<open>Network_Actions\<close> (\<open>NetworkActions.cpp\<close>): the connection state
    machine, independence of channels, remote calls, no lost wake-up of a worker, processing of events and
    actions in order.
  \<^item> \<open>Link_Pair\<close>: two links with all their channels over a bad network; the remote calls performed at one side
    are a prefix of those made at the other, and all can be performed.
  \<^item> \<open>Event_Delivery\<close> (\<open>process\<close> of the events, \<open>Network::processEvents\<close>): which calls of the application an event makes.
  \<^item> \<open>Session_Data\<close>, \<open>Network_World\<close>, \<open>Master_Sessions\<close>, \<open>Network_Rpc\<close>, \<open>Send_Thread\<close> (\<open>SessionBase.cpp\<close>,
    \<open>Session.cpp\<close>, \<open>MasterSession.cpp\<close>, \<open>MasterSessionManager.cpp\<close>, \<open>LinkManager.cpp\<close>,
    \<open>MatchMakerData.cpp\<close>, \<open>Network.cpp\<close>, \<open>SendThread.cpp\<close>): the operations on the store of a network.
  \<^item> \<open>Link_Registry\<close>: every operation keeps the map and the array of links consistent (\<open>net_step\<close> is the
    relation of all operations, \<open>frame\<close> what an operation leaves alone). \<open>Send_Rounds\<close>: a round of the send
    thread serves all links. \<open>Network_Sending\<close>: who gets a message. \<open>Matchmaking\<close>: search, registration,
    election of a host.
  \<^item> \<open>Network_Reception\<close> (\<open>Network.cpp\<close>, \<open>SocketSetManager.cpp\<close>): listeners, reception threads and links as one state;
    a datagram that the system has received reaches the link of its sender. \<open>Client_Reception\<close>: the sockets of
    \<open>registerServer\<close> and \<open>joinServer\<close> are never read. \<open>Socket_Set_Old\<close> (\<open>deprecated/SocketSet.cpp\<close>): the class that
    \<open>ReceptionThread\<close> replaced; both implement a bounded set (contract \<open>bounded_set\<close>) and cannot be told apart.
  \<^item> \<open>Typed_Arguments\<close> (\<open>Rpc.h\<close>, \<open>BinSerializer.cpp\<close>): the arguments of remote calls of all types (contract \<open>word_codec\<close>).
    \<open>Local_Calls\<close> (\<open>callRpc\<close> of \<open>MiepMiep.h\<close> and \<open>Network.h\<close>): calls that the caller performs too.
    \<open>Plain_Streams\<close> (\<open>UnreliableRecv.cpp\<close> and others): the streams with empty bodies.
  \<^item> \<open>Net_Variables\<close>, \<open>Variable_Groups\<close> (\<open>NetVariable.cpp\<close>, \<open>Group.cpp\<close>, \<open>GroupCollection.cpp\<close>,
    \<open>Variables.h\<close>, \<open>PerThreadDataProvider.cpp\<close>): binding of variables to groups, update callbacks, ownership.
    \<open>Typed_Variables\<close> (\<open>GenericNetVar\<close>, \<open>VariableTests.h\<close>): the integer types (contract \<open>net_type\<close>).
  \<^item> \<open>Spin_Lock\<close> (\<open>Threading.h\<close>), \<open>Traced_Memory\<close> (\<open>Memory.h\<close>, \<open>Memory.cpp\<close>), \<open>Packet_Memory\<close> (\<open>RecvPacket\<close>),
    \<open>Library_Life\<close> (creation and destruction of networks and sockets, the count of \<open>Platform.cpp\<close>, the thread of
    \<open>SendThread.cpp\<close>), \<open>Platform_Log\<close> (the log of \<open>Platform.cpp\<close>): exclusion, lifetimes and ownership.
  \<^item> \<open>Chat_Client\<close> (\<open>Chat.cpp\<close>): a line that is sent is shown at the other side. \<open>Reliable_Test\<close> (\<open>StreamTests.h\<close>,
    contract \<open>reliable_sequences\<close>) and \<open>Unit_Tests\<close> (\<open>MyTests.h\<close>): tests as programs over the model, which pass.
    \<open>Socket_Tests\<close> (\<open>MyTests.h\<close>): \<open>SocketTest\<close> passes if the system answers as it assumes; the overlapping calls of
    \<open>SocketSetTest\<close> can terminate the program. \<open>Game_Program\<close> (\<open>Game.cpp\<close>): the game gets no answer to its requests.
  \<^item> This theory: properties of several components.

  \<^bold>\<open>Bounds.\<close> There is no fuel except in \<open>cluster\<close>, whose loop provably ends in one round or never; all other
  loops are total with a termination proof, or partial functions into \<open>option\<close> with theorems that they
  return. The theorems on channels hold for up to \<open>3 * 2 ^ 30\<close> packets per channel: \<open>isSeqNewer\<close> takes a number
  as newer if it is less than \<open>2 ^ 30\<close> ahead, so an old datagram is taken for a new one once the numbers have
  come round to less than that distance. Serializers hold at most \<open>3 * 10 ^ 9\<close> bytes where a
  theorem writes into them, since the growth of the buffer is computed in 32 bits; an adjusted packet size is
  at most \<open>10 ^ 9\<close> for the same reason.

  \<^bold>\<open>Pointers.\<close> In the store of a network a weak pointer to a destroyed link is expired, as the C++ standard says.
  \<open>Traced_Memory\<close> shows that with the manual change of the count in \<open>reserve_sp\<close> the weak pointers of managed objects
  do not expire; where the store finds nothing, the program then has a pointer to freed memory.

  \<^bold>\<open>Not modelled.\<close> \<open>SDLSocket\<close> is not compiled in the configuration and does not fit its interface any more. Sleeping
  and the clock, naming of threads, and the texts of log messages do not change what is modelled. The round of the send
  thread is one step, so no operation of another thread happens in the middle of it; in \<open>Network_Reception\<close> a round of a
  reception thread is one step too. The templates \<open>hasOnLink\<close>, \<open>getOnLink\<close> and \<open>getOrAddOnLink\<close> of \<open>Network.h\<close> cannot be
  instantiated, \<open>System.cpp\<close> includes a header that does not exist, and \<open>onJoinResult\<close> of \<open>Game.cpp\<close> does not compile. Of
  the tests, \<open>TimeTest\<close> measures the clock, \<open>RPCBigTest\<close> returns at once and \<open>AutoChatServerAndClient\<close> tests nothing. The
  window classes of the chat are left out.
\<close>

section \<open>Properties across components\<close>

text \<open>C23: What leaves a channel has a bounded size. A queued packet is sent exactly if it fits into the send
  buffer together with its sequence number, otherwise the copy runs out of the buffer; the pending
  acknowledgements are sent in datagrams that exceed the adjusted MTU by less than one acknowledgement,
  and these hold every pending one exactly once and in order.\<close>

theorem sent_datagrams_bounded:
  assumes "bs_inv p" and "mtuAdjusted ls = Inr mtu" and "unat mtu \<le> 1000000000"
  shows "final_data seq p = (if 4 + length (content p) \<le> MM_MAX_SENDSIZE then Inr (data_image seq p) else Inl OutOfBounds) \<and>
    (\<exists>groups. ack_resend ls idx s = Inr (map (\<lambda>g. ack_header idx @ acks_bytes g) groups, s\<lparr>m_ReceivedPackets := []\<rparr>) \<and>
      concat groups = m_ReceivedPackets s \<and> (\<forall>g \<in> set groups. length (ack_header idx @ acks_bytes g) < max 7 (unat mtu) + 4))"
  using final_data_ok [OF assms(1), of seq] final_data_overflow [OF assms(1), of seq] ack_resend_ok [OF assms(2,3)]
  by (auto simp: MM_MAX_SENDSIZE_def MM_MAX_RECVSIZE_def)

theorem sent_datagrams_bounded_witness:
  "final_data 7 bs_reset = Inr (data_image 7 bs_reset) \<and>
   (\<exists>groups. concat groups = [1, 2] \<and>
      ack_resend LinkStats_init 0 (ReliableAckSend_init\<lparr>m_ReceivedPackets := [1, 2]\<rparr>) =
        Inr (map (\<lambda>g. ack_header 0 @ acks_bytes g) groups, ReliableAckSend_init\<lparr>m_ReceivedPackets := []\<rparr>))"
proof -
  have m: "unat (1520 :: u32) \<le> 1000000000" by simp
  from sent_datagrams_bounded [OF bs_reset_inv(1) LinkStats_values(2) m, of 7 0 "ReliableAckSend_init\<lparr>m_ReceivedPackets := [1, 2]\<rparr>"]
  show ?thesis by (auto simp: MM_MAX_SENDSIZE_def MM_MAX_RECVSIZE_def)
qed

end
